(* ===== verification/Idle_Prelude.thy ===== *)
theory Idle_Prelude
  imports Main "HOL-Library.Word" "HOL-Library.Sublist"
begin

text \<open>
  Shared vocabulary of the development: the error values that stand for the ways a
  C++ operation of the engine aborts, the result type and its bind, folds over lists
  that stop at the first error, and the generic facts on lists and words that the
  component theories use.

  The engine is compiled in two configurations. In a debug build a violated
  \<open>IDLE_ASSERT\<close> (src/include/idle/core/util/assert.hpp) aborts the process; in a
  release build it is skipped. The models below follow the debug build: a violated
  assertion is the error \<open>AssertFailed\<close>, \<open>IDLE_PANIC\<close> is \<open>Panic\<close>,
  \<open>IDLE_DETAIL_UNREACHABLE\<close> and \<open>IDLE_DETAIL_TRAP\<close> are \<open>Unreachable\<close>, and a loop that
  does not end is \<open>Diverged\<close> where it is part of a larger operation; an exception that leaves a function
  declared noexcept ends the process and is \<open>Terminated\<close>. Where no error
  is returned the release build computes the same state.
\<close>

unbundle bit_operations_syntax

section \<open>Errors and results\<close>

datatype error = AssertFailed | Panic | Unreachable | Diverged | Terminated

type_synonym 'a res = "error + 'a"

definition bind :: "'a res \<Rightarrow> ('a \<Rightarrow> 'b res) \<Rightarrow> 'b res" where
  "bind r f = (case r of Inl e \<Rightarrow> Inl e | Inr x \<Rightarrow> f x)"

definition check :: "bool \<Rightarrow> 'a \<Rightarrow> 'a res" where
  "check b x = (if b then Inr x else Inl AssertFailed)"

text \<open>A loop over a range that threads the state and leaves at the first error.\<close>

fun fold_res :: "('a \<Rightarrow> 's \<Rightarrow> 's res) \<Rightarrow> 'a list \<Rightarrow> 's \<Rightarrow> 's res" where
  "fold_res f [] s = Inr s"
| "fold_res f (x # xs) s = bind (f x s) (fold_res f xs)"

text \<open>
  Collections: \<open>res_simps\<close> evaluates the result monad, \<open>frame\<close> holds the facts that say
  which parts of a state an operation leaves alone, \<open>pres\<close> the invariant
  preservation lemmas.
\<close>

named_theorems res_simps
named_theorems frame
named_theorems pres

lemma bind_Inl [simp, res_simps]: "bind (Inl e) f = Inl e"
  by (simp add: bind_def)

lemma bind_Inr [simp, res_simps]: "bind (Inr x) f = f x"
  by (simp add: bind_def)

lemma bind_eq_Inr [simp]: "bind r f = Inr y \<longleftrightarrow> (\<exists>x. r = Inr x \<and> f x = Inr y)"
  by (cases r) auto

lemma bind_assoc: "bind (bind r f) g = bind r (\<lambda>x. bind (f x) g)"
  by (cases r) auto

lemma check_True [simp, res_simps]: "check True x = Inr x"
  by (simp add: check_def)

lemma check_False [simp, res_simps]: "check False x = Inl AssertFailed"
  by (simp add: check_def)

lemma check_eq_Inr [simp]: "check b x = Inr y \<longleftrightarrow> b \<and> y = x"
  by (auto simp: check_def)

lemma fold_res_append:
  "fold_res f (xs @ ys) s = bind (fold_res f xs s) (fold_res f ys)"
proof (induction xs arbitrary: s)
  case (Cons x xs)
  then have "fold_res f (xs @ ys) = (\<lambda>u. bind (fold_res f xs u) (fold_res f ys))" by blast
  then show ?case by (simp add: bind_assoc)
qed simp

text \<open>An invariant of the loop body is an invariant of the loop.\<close>

lemma fold_res_inv:
  assumes "fold_res f xs s = Inr t" and "I s"
    and "\<And>x u v. x \<in> set xs \<Longrightarrow> I u \<Longrightarrow> f x u = Inr v \<Longrightarrow> I v"
  shows "I t"
  using assms
proof (induction xs arbitrary: s)
  case Nil
  then show ?case by simp
next
  case (Cons x xs)
  from Cons.prems(1) obtain u where u: "f x s = Inr u" "fold_res f xs u = Inr t" by auto
  have "I u" using Cons.prems(2) u(1) by (rule Cons.prems(3) [rotated]) simp
  with u(2) show ?case
    by (rule Cons.IH) (use Cons.prems(3) in auto)
qed

text \<open>A loop whose body never fails under an invariant never fails.\<close>

lemma fold_res_total:
  assumes "I s"
    and "\<And>x u. x \<in> set xs \<Longrightarrow> I u \<Longrightarrow> \<exists>v. f x u = Inr v \<and> I v"
  shows "\<exists>t. fold_res f xs s = Inr t \<and> I t"
  using assms
proof (induction xs arbitrary: s)
  case Nil
  then show ?case by simp
next
  case (Cons x xs)
  from Cons.prems obtain u where u: "f x s = Inr u" "I u" by fastforce
  then obtain t where "fold_res f xs u = Inr t" "I t"
    using Cons.IH [of u] Cons.prems(2) by auto
  with u show ?case by simp
qed

lemma fold_res_pure: "fold_res (\<lambda>x s. Inr (g x s)) xs s = Inr (fold g xs s)"
  by (induction xs arbitrary: s) auto

section \<open>Operations\<close>

text \<open>An operation maps a state to a state or an error; \<open>run\<close> executes a list of them.\<close>

primrec run :: "('s \<Rightarrow> 's res) list \<Rightarrow> 's \<Rightarrow> 's res" where
  "run [] s = Inr s"
| "run (f # fs) s = bind (f s) (run fs)"

definition require :: "('s \<Rightarrow> bool) \<Rightarrow> 's \<Rightarrow> 's res" where
  "require P s = check (P s) s"

definition only_if :: "('s \<Rightarrow> bool) \<Rightarrow> ('s \<Rightarrow> 's res) \<Rightarrow> 's \<Rightarrow> 's res" where
  "only_if P f s = (if P s then f s else Inr s)"

definition each :: "('s \<Rightarrow> 'b list) \<Rightarrow> ('b \<Rightarrow> 's \<Rightarrow> 's res) \<Rightarrow> 's \<Rightarrow> 's res" where
  "each xs f s = fold_res f (xs s) s"

lemma bind_run_Nil [simp]: "bind r (run []) = r"
  by (cases r) simp_all

lemma require_Inr [simp]: "require P s = Inr t \<longleftrightarrow> P s \<and> t = s"
  by (auto simp: require_def)

text \<open>A loop that may run forever has no value; such a run is the error \<open>Diverged\<close>.\<close>

definition lift_opt :: "'b res option \<Rightarrow> 'b res" where
  "lift_opt r = (case r of None \<Rightarrow> Inl Diverged | Some q \<Rightarrow> q)"

lemma lift_opt_Some [simp]: "lift_opt (Some r) = r"
  by (simp add: lift_opt_def)

section \<open>Lists as ranges\<close>

text \<open>
  \<open>after x xs\<close> is the range \<open>neighbors().next()\<close> of an element of an intrusive list: the
  elements to its right.
\<close>

fun after :: "'a \<Rightarrow> 'a list \<Rightarrow> 'a list" where
  "after x [] = []"
| "after x (y # ys) = (if x = y then ys else after x ys)"

lemma after_split: "x \<notin> set us \<Longrightarrow> after x (us @ x # vs) = vs"
  by (induction us) auto

lemma after_notin: "x \<notin> set xs \<Longrightarrow> after x xs = []"
  by (induction xs) auto

lemma set_after: "set (after x xs) \<subseteq> set xs"
  by (induction xs) auto

lemma after_Cons_after:
  "distinct xs \<Longrightarrow> after x xs = y # ys \<Longrightarrow> after y xs = ys"
proof (induction xs)
  case (Cons a xs)
  have "y \<in> set (after x xs) \<or> x = a \<and> y \<in> set xs"
    using Cons.prems by (auto split: if_splits)
  then have "y \<in> set xs" using set_after [of x xs] by auto
  then have "y \<noteq> a" using Cons.prems(1) by auto
  with Cons show ?case by (auto split: if_splits)
qed simp

definition first_of :: "'a list \<Rightarrow> 'a option" where
  "first_of xs = (case xs of [] \<Rightarrow> None | x # _ \<Rightarrow> Some x)"

lemma first_of_simps [simp]: "first_of [] = None" "first_of (x # xs) = Some x"
  by (simp_all add: first_of_def)

lemma first_of_eq_None [simp]: "first_of xs = None \<longleftrightarrow> xs = []"
  by (cases xs) auto

lemma first_of_in: "first_of xs = Some x \<Longrightarrow> x \<in> set xs"
  by (cases xs) auto

lemma first_of_append:
  "first_of (xs @ ys) = (case first_of xs of None \<Rightarrow> first_of ys | Some x \<Rightarrow> Some x)"
  by (cases xs) auto

end
