(* ===== verification/Bit_Sets.thy ===== *)
theory Bit_Sets
  imports Idle_Prelude
begin

text \<open>
  The flag set \<open>BitSet\<close> of src/include/idle/core/util/bitset.hpp. Every enumeration that the
  engine stores in one has the underlying type \<open>std::uint8_t\<close>, so the mask is an
  \<open>8 word\<close> and an enumerator is its index. The theory holds the mask operations, the
  iterator with its assertions, the abstraction \<open>bs_elems\<close> to a set of indices and
  the laws a flag set promises (locale \<open>flag_set\<close>), which the graph and the
  scheduler rely on.
\<close>

section \<open>The operations\<close>

type_synonym mask = "8 word"

definition bits :: nat where "bits = 8"

definition mask_of :: "nat \<Rightarrow> mask" where
  "mask_of v = push_bit v 1"

definition full_mask :: mask where "full_mask = 255"

definition empty_mask :: mask where "empty_mask = 0"

text \<open>The trait writes the store and reports whether the write changed it.\<close>

definition set_or :: "mask \<Rightarrow> mask \<Rightarrow> bool \<times> mask" where
  "set_or store m = ((store AND m) \<noteq> m, store OR m)"

definition set_and :: "mask \<Rightarrow> mask \<Rightarrow> bool \<times> mask" where
  "set_and store m = ((store AND NOT m) \<noteq> 0, store AND m)"

definition has_mask :: "mask \<Rightarrow> mask \<Rightarrow> bool" where
  "has_mask s m \<longleftrightarrow> (s AND m) = m"

definition contains :: "mask \<Rightarrow> nat \<Rightarrow> bool" where
  "contains s v \<longleftrightarrow> has_mask s (mask_of v)"

definition contains_any :: "mask \<Rightarrow> mask \<Rightarrow> bool" where
  "contains_any s t \<longleftrightarrow> (s AND t) \<noteq> 0"

definition contains_all :: "mask \<Rightarrow> mask \<Rightarrow> bool" where
  "contains_all s t \<longleftrightarrow> has_mask s t"

definition bs_insert :: "nat \<Rightarrow> mask \<Rightarrow> bool \<times> mask" where
  "bs_insert v s = set_or s (mask_of v)"

definition bs_erase :: "nat \<Rightarrow> mask \<Rightarrow> nat \<times> mask" where
  "bs_erase v s = (let (b, s') = set_and s (NOT (mask_of v)) in (if b then 1 else 0, s'))"

definition bs_of_list :: "nat list \<Rightarrow> mask" where
  "bs_of_list vs = fold (\<lambda>v s. snd (bs_insert v s)) vs empty_mask"

definition bs_union :: "mask \<Rightarrow> mask \<Rightarrow> mask" where
  "bs_union s t = s OR t"

definition bs_inter :: "mask \<Rightarrow> mask \<Rightarrow> mask" where
  "bs_inter s t = s AND t"

definition bs_size :: "mask \<Rightarrow> nat" where
  "bs_size s = fold (\<lambda>i n. if (s AND mask_of i) \<noteq> 0 then n + 1 else n) [0..<bits] 0"

definition bs_empty :: "mask \<Rightarrow> bool" where
  "bs_empty s \<longleftrightarrow> s = empty_mask"

text \<open>
  \<open>scan_next\<close> asserts that the start index is below the width; the iterator's
  \<open>increment\<close> calls it with the successor of the current index.
\<close>

function scan_from :: "mask \<Rightarrow> nat \<Rightarrow> nat" where
  "scan_from s i =
     (if i < bits then (if (s AND mask_of i) \<noteq> 0 then i else scan_from s (Suc i)) else bits)"
  by pat_completeness auto
termination
  by (relation "measure (\<lambda>(s, i). bits - i)") auto

declare scan_from.simps [simp del]

definition scan_next :: "mask \<Rightarrow> nat \<Rightarrow> nat res" where
  "scan_next s i = check (i < bits) (scan_from s i)"

definition bs_begin :: "mask \<Rightarrow> nat res" where
  "bs_begin s = scan_next s 0"

definition bs_increment :: "mask \<Rightarrow> nat \<Rightarrow> nat res" where
  "bs_increment s i = (if i < bits then scan_next s (i + 1) else Inl AssertFailed)"

section \<open>The abstraction\<close>

definition bs_elems :: "mask \<Rightarrow> nat set" where
  "bs_elems s = {v. v < bits \<and> bit s v}"

lemma bit_mask_of [simp]: "bit (mask_of v) i \<longleftrightarrow> i = v \<and> i < bits"
  unfolding mask_of_def bits_def bit_push_bit_iff bit_1_iff by auto

lemma bit_less_bits: "bit (s :: mask) i \<Longrightarrow> i < bits"
  using bit_imp_le_length [of s i] by (simp add: bits_def)

lemma bs_elems_eqI: "(\<And>v. v < bits \<Longrightarrow> bit s v \<longleftrightarrow> bit t v) \<Longrightarrow> s = (t :: mask)"
  by (rule bit_word_eqI) (simp add: bits_def)

lemma contains_iff: "v < bits \<Longrightarrow> contains s v \<longleftrightarrow> v \<in> bs_elems s"
proof -
  assume v: "v < bits"
  have "(s AND mask_of v) = mask_of v \<longleftrightarrow> bit s v"
  proof
    assume "(s AND mask_of v) = mask_of v"
    then have "bit (s AND mask_of v) v \<longleftrightarrow> bit (mask_of v) v" by simp
    with v show "bit s v" by (simp add: bit_and_iff)
  next
    assume "bit s v"
    then show "(s AND mask_of v) = mask_of v"
      by (intro bs_elems_eqI) (auto simp: bit_and_iff)
  qed
  with v show ?thesis by (simp add: contains_def has_mask_def bs_elems_def)
qed

lemma elems_or [simp]: "bs_elems (s OR t) = bs_elems s \<union> bs_elems t"
  by (auto simp: bs_elems_def bit_or_iff)

lemma elems_and [simp]: "bs_elems (s AND t) = bs_elems s \<inter> bs_elems t"
  by (auto simp: bs_elems_def bit_and_iff)

lemma elems_not [simp]: "bs_elems (NOT s) = {..<bits} - bs_elems s"
  by (auto simp: bs_elems_def bit_not_iff bits_def)

lemma elems_mask_of [simp]: "bs_elems (mask_of v) = (if v < bits then {v} else {})"
  by (auto simp: bs_elems_def)

lemma elems_inject: "bs_elems s = bs_elems t \<longleftrightarrow> s = t"
proof
  assume eq: "bs_elems s = bs_elems t"
  show "s = t"
  proof (rule bs_elems_eqI)
    fix v assume "v < bits"
    with eq show "bit s v \<longleftrightarrow> bit t v" by (auto simp: bs_elems_def set_eq_iff)
  qed
qed simp

lemma elems_0 [simp]: "bs_elems 0 = {}"
  by (simp add: bs_elems_def)

lemma elems_le_bits: "bs_elems s \<subseteq> {..<bits}"
  by (auto simp: bs_elems_def)

lemma elems_eq_empty: "bs_elems s = {} \<longleftrightarrow> s = 0"
  using elems_inject [of s 0] by simp

lemma and_eq_iff_subset: "(s AND t) = t \<longleftrightarrow> bs_elems t \<subseteq> bs_elems (s :: mask)"
  by (auto simp flip: elems_inject)

lemma bs_insert_elems:
  assumes "v < bits"
  shows "bs_elems (snd (bs_insert v s)) = insert v (bs_elems s)"
    and "fst (bs_insert v s) \<longleftrightarrow> v \<notin> bs_elems s"
  using assms by (auto simp: bs_insert_def set_or_def and_eq_iff_subset)

lemma bs_erase_elems:
  assumes "v < bits"
  shows "bs_elems (snd (bs_erase v s)) = bs_elems s - {v}"
    and "fst (bs_erase v s) = (if v \<in> bs_elems s then 1 else 0)"
proof -
  show "bs_elems (snd (bs_erase v s)) = bs_elems s - {v}"
    using assms elems_le_bits [of s] by (auto simp: bs_erase_def set_and_def)
  have "(s AND NOT (NOT (mask_of v))) \<noteq> 0 \<longleftrightarrow> v \<in> bs_elems s"
    using assms elems_le_bits [of s]
    by (simp flip: elems_eq_empty)
  then show "fst (bs_erase v s) = (if v \<in> bs_elems s then 1 else 0)"
    by (simp add: bs_erase_def set_and_def)
qed

lemma bs_of_list_elems:
  assumes "\<forall>v\<in>set vs. v < bits"
  shows "bs_elems (bs_of_list vs) = set vs"
proof -
  have "bs_elems (fold (\<lambda>v s. snd (bs_insert v s)) vs s) = set vs \<union> bs_elems s" for s
    using assms by (induction vs arbitrary: s) (auto simp: bs_insert_elems)
  then show ?thesis by (simp add: bs_of_list_def empty_mask_def)
qed

lemma contains_all_iff: "contains_all s t \<longleftrightarrow> bs_elems t \<subseteq> bs_elems s"
  by (simp add: contains_all_def has_mask_def and_eq_iff_subset)

lemma contains_any_iff: "contains_any s t \<longleftrightarrow> bs_elems s \<inter> bs_elems t \<noteq> {}"
  by (simp add: contains_any_def flip: elems_eq_empty)

section \<open>The interface\<close>

text \<open>
  What the clients of a flag set rely on: membership is the last insert or erase of
  the flag, other flags are untouched, and the reported result says whether
  the set changed.
\<close>

locale flag_set =
  fixes cont :: "'s \<Rightarrow> nat \<Rightarrow> bool"
    and ins :: "nat \<Rightarrow> 's \<Rightarrow> bool \<times> 's"
    and del :: "nat \<Rightarrow> 's \<Rightarrow> nat \<times> 's"
    and elems :: "'s \<Rightarrow> nat set"
    and width :: nat
  assumes cont_elems: "v < width \<Longrightarrow> cont s v \<longleftrightarrow> v \<in> elems s"
    and elems_ins: "v < width \<Longrightarrow> elems (snd (ins v s)) = insert v (elems s)"
    and ins_changed: "v < width \<Longrightarrow> fst (ins v s) \<longleftrightarrow> v \<notin> elems s"
    and elems_del: "v < width \<Longrightarrow> elems (snd (del v s)) = elems s - {v}"
    and del_count: "v < width \<Longrightarrow> fst (del v s) = (if v \<in> elems s then 1 else 0)"
begin

lemma cont_ins: "v < width \<Longrightarrow> u < width \<Longrightarrow> cont (snd (ins v s)) u \<longleftrightarrow> u = v \<or> cont s u"
  by (simp add: cont_elems elems_ins)

lemma cont_del: "v < width \<Longrightarrow> u < width \<Longrightarrow> cont (snd (del v s)) u \<longleftrightarrow> u \<noteq> v \<and> cont s u"
  by (auto simp: cont_elems elems_del)

lemma insert_then_erase:
  "v < width \<Longrightarrow> fst (ins v s) \<Longrightarrow> elems (snd (del v (snd (ins v s)))) = elems s"
  by (simp add: elems_ins elems_del ins_changed)

end

interpretation bs: flag_set contains bs_insert bs_erase bs_elems bits
  by unfold_locales (simp_all add: contains_iff bs_insert_elems bs_erase_elems)

section \<open>Iteration\<close>

lemma and_mask_of_ne_0: "(s AND mask_of i) \<noteq> 0 \<longleftrightarrow> i \<in> bs_elems s"
proof -
  have "bs_elems (s AND mask_of i) = (if i \<in> bs_elems s then {i} else {})"
    using elems_le_bits [of s] by auto
  then show ?thesis
    unfolding elems_eq_empty [symmetric] by (auto split: if_splits)
qed

lemma scan_from_spec:
  "i \<le> bits \<Longrightarrow> i \<le> scan_from s i \<and> scan_from s i \<le> bits
     \<and> (\<forall>v. i \<le> v \<and> v < scan_from s i \<longrightarrow> v \<notin> bs_elems s)
     \<and> (scan_from s i < bits \<longrightarrow> scan_from s i \<in> bs_elems s)"
proof (induction s i rule: scan_from.induct)
  case (1 s i)
  show ?case
  proof (cases "i < bits \<and> i \<notin> bs_elems s")
    case True
    then have step: "scan_from s i = scan_from s (Suc i)"
      by (subst scan_from.simps) (simp add: and_mask_of_ne_0)
    have IH: "Suc i \<le> scan_from s (Suc i) \<and> scan_from s (Suc i) \<le> bits
        \<and> (\<forall>v. Suc i \<le> v \<and> v < scan_from s (Suc i) \<longrightarrow> v \<notin> bs_elems s)
        \<and> (scan_from s (Suc i) < bits \<longrightarrow> scan_from s (Suc i) \<in> bs_elems s)"
      by (rule 1) (use True in \<open>auto simp: and_mask_of_ne_0\<close>)
    moreover have "\<forall>v. i \<le> v \<and> v < scan_from s (Suc i) \<longrightarrow> v \<notin> bs_elems s"
      using IH True by (metis Suc_leI le_neq_implies_less)
    ultimately show ?thesis
      unfolding step by (meson Suc_leD)
  next
    case False
    then have "scan_from s i = i"
      using 1 by (subst scan_from.simps) (auto simp: and_mask_of_ne_0)
    with False 1 show ?thesis by (auto simp: le_eq_less_or_eq)
  qed
qed

text \<open>The traversal a range-for performs: from an index on, until the end index.\<close>

function bs_collect :: "mask \<Rightarrow> nat \<Rightarrow> nat list res" where
  "bs_collect s i =
     (if i < bits then bind (bs_increment s i) (\<lambda>j. bind (if i < j then bs_collect s j else Inl Unreachable) (\<lambda>js. Inr (i # js)))
      else Inr [])"
  by pat_completeness auto
termination
  by (relation "measure (\<lambda>(s, i). bits - i)") auto

declare bs_collect.simps [simp del]

definition bs_to_list :: "mask \<Rightarrow> nat list res" where
  "bs_to_list s = bind (bs_begin s) (bs_collect s)"

lemma bs_collect_spec:
  assumes "bits - 1 \<notin> bs_elems s" and "i < bits \<Longrightarrow> i \<in> bs_elems s"
  shows "bs_collect s i = Inr (filter (\<lambda>v. v \<in> bs_elems s) [i..<bits])"
  using assms
proof (induction s i rule: bs_collect.induct)
  case (1 s i)
  show ?case
  proof (cases "i < bits")
    case False
    then show ?thesis by (subst bs_collect.simps) simp
  next
    case True
    with 1(2,3) have lt: "Suc i < bits"
      by (metis Suc_lessI diff_Suc_1)
    let ?j = "scan_from s (Suc i)"
    have sp: "Suc i \<le> ?j" "?j \<le> bits" "\<forall>v. Suc i \<le> v \<and> v < ?j \<longrightarrow> v \<notin> bs_elems s"
      "?j < bits \<longrightarrow> ?j \<in> bs_elems s"
      using scan_from_spec [of "Suc i" s] lt by auto
    have inc: "bs_increment s i = Inr ?j"
      using True lt by (simp add: bs_increment_def scan_next_def)
    have IH: "bs_collect s ?j = Inr (filter (\<lambda>v. v \<in> bs_elems s) [?j..<bits])"
      by (rule 1(1) [OF True]) (use inc sp 1(2) in auto)
    have "filter (\<lambda>v. v \<in> bs_elems s) [Suc i..<bits] = filter (\<lambda>v. v \<in> bs_elems s) [?j..<bits]"
    proof -
      have "[Suc i..<bits] = [Suc i..<?j] @ [?j..<bits]"
        using sp by (metis le_add_diff_inverse upt_add_eq_append)
      moreover have "filter (\<lambda>v. v \<in> bs_elems s) [Suc i..<?j] = []"
        using sp by (auto simp: filter_empty_conv)
      ultimately show ?thesis by simp
    qed
    moreover have "bs_collect s i = Inr (i # filter (\<lambda>v. v \<in> bs_elems s) [?j..<bits])"
      using True inc IH sp by (subst bs_collect.simps) (simp add: Suc_le_eq)
    ultimately show ?thesis
      using True 1(3) by (simp add: upt_conv_Cons)
  qed
qed

text \<open>
  Iterating a flag set lists its members in ascending order, provided the
  topmost flag is not a member.
\<close>

theorem bitset_iteration_complete:
  assumes "bits - 1 \<notin> bs_elems s"
  shows "bs_to_list s = Inr (filter (\<lambda>v. v \<in> bs_elems s) [0..<bits])"
proof -
  have sp: "\<forall>v. v < scan_from s 0 \<longrightarrow> v \<notin> bs_elems s" "scan_from s 0 \<le> bits"
    "scan_from s 0 < bits \<longrightarrow> scan_from s 0 \<in> bs_elems s"
    using scan_from_spec [of 0 s] by auto
  have "[0..<bits] = [0..<scan_from s 0] @ [scan_from s 0..<bits]"
    using sp(2) by (metis le0 le_add_diff_inverse upt_add_eq_append)
  then have "filter (\<lambda>v. v \<in> bs_elems s) [0..<bits] = filter (\<lambda>v. v \<in> bs_elems s) [scan_from s 0..<bits]"
    using sp(1) by (simp add: filter_empty_conv)
  then show ?thesis
    using bs_collect_spec [OF assms, of "scan_from s 0"] sp(3)
    by (simp add: bs_to_list_def bs_begin_def scan_next_def bits_def)
qed

theorem bitset_iteration_complete_witness: "bs_to_list 37 = Inr [0, 2, 5]"
proof -
  have e: "bs_elems 37 = {0, 2, 5}"
    using bs_of_list_elems [of "[0, 2, 5]"]
    by (simp add: bits_def bs_of_list_def bs_insert_def set_or_def mask_of_def empty_mask_def)
  then have "bits - 1 \<notin> bs_elems 37" by (simp add: bits_def)
  from bitset_iteration_complete [OF this] show ?thesis
    unfolding e by (simp add: bits_def upt_rec)
qed

end
