(* ===== verification/Flat_Sets.thy ===== *)
theory Flat_Sets
  imports Idle_Prelude
begin

text \<open>
  The sorted vector \<open>FlatSet\<close> of src/include/idle/core/util/flat_set.hpp and the binary search
  of src/include/idle/core/util/algorithm.hpp it is built on. The storage is a list, an
  iterator is an index into it and \<open>end()\<close> is its length; the ordering predicate is an
  argument, because the engine uses the set both with \<open>std::less\<close> and with
  \<open>std::greater\<close>. The locale \<open>strict_total\<close> is what the predicate has to satisfy, the
  locale \<open>set_store\<close> the contract that the scheduling queue, the graph traversal and the
  guid recycler rely on.
\<close>

section \<open>Binary search\<close>

definition is_equal_element :: "('a \<Rightarrow> 'a \<Rightarrow> bool) \<Rightarrow> 'a list \<Rightarrow> nat \<Rightarrow> 'a \<Rightarrow> bool" where
  "is_equal_element prec xs i v \<longleftrightarrow> i \<noteq> length xs \<and> \<not> prec v (xs ! i)"

function lower_bound_loop :: "('a \<Rightarrow> 'a \<Rightarrow> bool) \<Rightarrow> 'a list \<Rightarrow> 'a \<Rightarrow> nat \<Rightarrow> nat \<Rightarrow> nat" where
  "lower_bound_loop prec xs v begin count =
     (if count > 0 then
        (let step = count div 2; itr = begin + step
         in if prec (xs ! itr) v then lower_bound_loop prec xs v (itr + 1) (count - (step + 1))
            else lower_bound_loop prec xs v begin step)
      else begin)"
  by pat_completeness auto
termination
  by (relation "measure (\<lambda>(prec, xs, v, begin, count). count)") auto

declare lower_bound_loop.simps [simp del]

definition lower_bound :: "('a \<Rightarrow> 'a \<Rightarrow> bool) \<Rightarrow> 'a list \<Rightarrow> 'a \<Rightarrow> nat" where
  "lower_bound prec xs v = lower_bound_loop prec xs v 0 (length xs)"

definition find_first_lower_bound_of :: "('a \<Rightarrow> 'a \<Rightarrow> bool) \<Rightarrow> 'a list \<Rightarrow> 'a \<Rightarrow> nat" where
  "find_first_lower_bound_of prec xs v =
     (let lower = lower_bound prec xs v
      in if is_equal_element prec xs lower v then lower else length xs)"

section \<open>The set operations\<close>

definition fs_insert :: "('a \<Rightarrow> 'a \<Rightarrow> bool) \<Rightarrow> 'a \<Rightarrow> 'a list \<Rightarrow> (nat \<times> bool) \<times> 'a list" where
  "fs_insert prec v xs =
     (let lower = lower_bound prec xs v
      in if is_equal_element prec xs lower v then ((lower, False), xs)
         else ((lower, True), take lower xs @ v # drop lower xs))"

definition fs_insert_range :: "('a \<Rightarrow> 'a \<Rightarrow> bool) \<Rightarrow> 'a list \<Rightarrow> 'a list \<Rightarrow> 'a list" where
  "fs_insert_range prec vs xs = fold (\<lambda>v ys. snd (fs_insert prec v ys)) vs xs"

definition fs_find :: "('a \<Rightarrow> 'a \<Rightarrow> bool) \<Rightarrow> 'a list \<Rightarrow> 'a \<Rightarrow> nat" where
  "fs_find prec xs v = find_first_lower_bound_of prec xs v"

definition fs_contains :: "('a \<Rightarrow> 'a \<Rightarrow> bool) \<Rightarrow> 'a list \<Rightarrow> 'a \<Rightarrow> bool" where
  "fs_contains prec xs v \<longleftrightarrow> fs_find prec xs v \<noteq> length xs"

definition fs_erase_at :: "nat \<Rightarrow> 'a list \<Rightarrow> 'a list" where
  "fs_erase_at i xs = take i xs @ drop (Suc i) xs"

definition fs_erase :: "('a \<Rightarrow> 'a \<Rightarrow> bool) \<Rightarrow> 'a \<Rightarrow> 'a list \<Rightarrow> nat \<times> 'a list" where
  "fs_erase prec v xs =
     (let lower = lower_bound prec xs v
      in if lower \<noteq> length xs \<and> \<not> prec v (xs ! lower) then (1, fs_erase_at lower xs) else (0, xs))"

text \<open>\<open>std::prev(end())\<close> read and erased: the set's last element.\<close>

definition fs_pop_last :: "'a list \<Rightarrow> 'a \<times> 'a list" where
  "fs_pop_last xs = (xs ! (length xs - 1), fs_erase_at (length xs - 1) xs)"

lemma fs_pop_last_eq: "xs \<noteq> [] \<Longrightarrow> fs_pop_last xs = (last xs, butlast xs)"
  by (simp add: fs_pop_last_def fs_erase_at_def last_conv_nth butlast_conv_take)

section \<open>The ordering predicate\<close>

locale strict_total =
  fixes prec :: "'a \<Rightarrow> 'a \<Rightarrow> bool"
  assumes irrefl: "\<not> prec x x"
    and trans: "prec x y \<Longrightarrow> prec y z \<Longrightarrow> prec x z"
    and total: "prec x y \<or> x = y \<or> prec y x"
begin

text \<open>The binary search finds the partition point of a sorted vector.\<close>

lemma lower_bound_loop_spec:
  assumes "sorted_wrt prec xs" and "b + c \<le> length xs"
    and "\<forall>i<b. prec (xs ! i) v"
    and "\<forall>i. b + c \<le> i \<and> i < length xs \<longrightarrow> \<not> prec (xs ! i) v"
  shows "lower_bound_loop prec xs v b c \<le> length xs
    \<and> (\<forall>i<lower_bound_loop prec xs v b c. prec (xs ! i) v)
    \<and> (\<forall>i. lower_bound_loop prec xs v b c \<le> i \<and> i < length xs \<longrightarrow> \<not> prec (xs ! i) v)"
  using assms
proof (induction c arbitrary: b rule: less_induct)
  case (less c)
  show ?case
  proof (cases "c = 0")
    case True
    with less.prems show ?thesis by (subst (1 2 3) lower_bound_loop.simps) simp
  next
    case False
    define m where "m = b + c div 2"
    have m: "m < length xs" "b \<le> m" "m < b + c"
      using False less.prems(2) by (auto simp: m_def)
    show ?thesis
    proof (cases "prec (xs ! m) v")
      case True
      have "prec (xs ! i) v" if "i < m + 1" for i
      proof (cases "i = m")
        case False
        with that have "i < m" by simp
        then have "prec (xs ! i) (xs ! m)"
          using less.prems(1) m(1) by (simp add: sorted_wrt_iff_nth_less)
        with True show ?thesis by (rule trans [rotated])
      qed (use True in simp)
      moreover have "lower_bound_loop prec xs v b c
          = lower_bound_loop prec xs v (m + 1) (c - (c div 2 + 1))"
        using False True by (subst lower_bound_loop.simps) (simp add: Let_def m_def)
      moreover have "c - (c div 2 + 1) < c" using False by simp
      moreover have "m + 1 + (c - (c div 2 + 1)) = b + c" using m by (simp add: m_def)
      moreover have "\<forall>i. m + 1 + (c - (c div 2 + 1)) \<le> i \<and> i < length xs \<longrightarrow> \<not> prec (xs ! i) v"
        using calculation(4) less.prems(4) by simp
      moreover have "m + 1 + (c - (c div 2 + 1)) \<le> length xs"
        using calculation(4) less.prems(2) by simp
      moreover have "\<forall>i<m + 1. prec (xs ! i) v" using calculation(1) by blast
      ultimately show ?thesis
        using less.IH [of "c - (c div 2 + 1)" "m + 1"] less.prems(1) by presburger
    next
      case nless: False
      have "\<not> prec (xs ! i) v" if "m \<le> i" "i < length xs" for i
      proof
        assume iv: "prec (xs ! i) v"
        have "prec (xs ! m) v"
        proof (cases "m = i")
          case False
          with that have "prec (xs ! m) (xs ! i)"
            using less.prems(1) by (simp add: sorted_wrt_iff_nth_less)
          then show ?thesis using iv by (rule trans)
        qed (use iv in simp)
        with nless show False by simp
      qed
      then have ge: "\<forall>i. b + c div 2 \<le> i \<and> i < length xs \<longrightarrow> \<not> prec (xs ! i) v"
        by (simp add: m_def)
      have eq: "lower_bound_loop prec xs v b c = lower_bound_loop prec xs v b (c div 2)"
        using False nless by (subst lower_bound_loop.simps) (simp add: Let_def m_def)
      show ?thesis
        unfolding eq by (rule less.IH [OF _ less.prems(1) _ less.prems(3) ge])
          (use False m in \<open>simp_all add: m_def\<close>)
    qed
  qed
qed

lemma lower_bound_spec:
  assumes "sorted_wrt prec xs"
  shows "lower_bound prec xs v \<le> length xs"
    and "i < lower_bound prec xs v \<Longrightarrow> prec (xs ! i) v"
    and "lower_bound prec xs v \<le> i \<Longrightarrow> i < length xs \<Longrightarrow> \<not> prec (xs ! i) v"
proof -
  have sp: "lower_bound prec xs v \<le> length xs
    \<and> (\<forall>i<lower_bound prec xs v. prec (xs ! i) v)
    \<and> (\<forall>i. lower_bound prec xs v \<le> i \<and> i < length xs \<longrightarrow> \<not> prec (xs ! i) v)"
    unfolding lower_bound_def by (rule lower_bound_loop_spec [OF assms]) auto
  then show "lower_bound prec xs v \<le> length xs" by (rule conjunct1)
  show "i < lower_bound prec xs v \<Longrightarrow> prec (xs ! i) v" using sp by blast
  show "lower_bound prec xs v \<le> i \<Longrightarrow> i < length xs \<Longrightarrow> \<not> prec (xs ! i) v" using sp by blast
qed

lemma equal_element_iff:
  assumes "sorted_wrt prec xs"
  shows "is_equal_element prec xs (lower_bound prec xs v) v \<longleftrightarrow> v \<in> set xs"
    and "v \<in> set xs \<Longrightarrow> xs ! lower_bound prec xs v = v"
proof -
  let ?l = "lower_bound prec xs v"
  note sp = lower_bound_spec [OF assms, where v = v]
  have eq: "is_equal_element prec xs ?l v \<longleftrightarrow> ?l < length xs \<and> xs ! ?l = v"
    using sp(1) sp(3) [of ?l] total [of v "xs ! ?l"] irrefl
    by (auto simp: is_equal_element_def)
  have ex: "?l < length xs \<and> xs ! ?l = v" if "v \<in> set xs"
  proof -
    from that obtain j where j: "j < length xs" "xs ! j = v" by (auto simp: in_set_conv_nth)
    with sp(2) irrefl have lj: "?l \<le> j" by (metis not_le)
    have "\<not> prec (xs ! ?l) (xs ! j)" using sp(3) [of ?l] lj j by simp
    then have "?l = j"
      using assms lj j(1) by (metis le_neq_implies_less sorted_wrt_iff_nth_less)
    with j show ?thesis by simp
  qed
  show "is_equal_element prec xs ?l v \<longleftrightarrow> v \<in> set xs"
    unfolding eq using ex by (metis nth_mem)
  show "v \<in> set xs \<Longrightarrow> xs ! ?l = v" using ex by blast
qed

lemma sorted_insert_at:
  assumes "sorted_wrt prec xs" and "v \<notin> set xs"
  shows "sorted_wrt prec (take (lower_bound prec xs v) xs @ v # drop (lower_bound prec xs v) xs)"
proof -
  let ?l = "lower_bound prec xs v"
  note sp = lower_bound_spec [OF assms(1), where v = v]
  have lo: "\<forall>x\<in>set (take ?l xs). prec x v"
    using sp(1,2) by (auto simp: in_set_conv_nth)
  have hi: "\<forall>x\<in>set (drop ?l xs). prec v x"
  proof
    fix x assume "x \<in> set (drop ?l xs)"
    then obtain i where i: "?l \<le> i" "i < length xs" "x = xs ! i"
      by (auto simp: in_set_conv_nth) (metis add.commute le_add2 less_diff_conv)
    then have "\<not> prec x v" using sp(3) by simp
    moreover have "x \<noteq> v" using i assms(2) by auto
    ultimately show "prec v x" using total by blast
  qed
  have "sorted_wrt prec (take ?l xs @ drop ?l xs)" using assms(1) by simp
  then have "sorted_wrt prec (take ?l xs)" "sorted_wrt prec (drop ?l xs)"
    "\<forall>x\<in>set (take ?l xs). \<forall>y\<in>set (drop ?l xs). prec x y"
    unfolding sorted_wrt_append by auto
  with lo hi show ?thesis by (auto simp: sorted_wrt_append)
qed

lemma sorted_distinct: "sorted_wrt prec xs \<Longrightarrow> distinct xs"
  by (induction xs) (auto simp: irrefl)

lemma fs_insert_sorted: "sorted_wrt prec xs \<Longrightarrow> sorted_wrt prec (snd (fs_insert prec v xs))"
  by (simp add: fs_insert_def Let_def equal_element_iff sorted_insert_at)

lemma fs_insert_set:
  assumes "sorted_wrt prec xs"
  shows "set (snd (fs_insert prec v xs)) = insert v (set xs)"
proof -
  have "set xs = set (take (lower_bound prec xs v) xs) \<union> set (drop (lower_bound prec xs v) xs)"
    by (metis append_take_drop_id set_append)
  with assms show ?thesis
    by (auto simp: fs_insert_def Let_def equal_element_iff)
qed

lemma fs_insert_new:
  "sorted_wrt prec xs \<Longrightarrow> snd (fst (fs_insert prec v xs)) \<longleftrightarrow> v \<notin> set xs"
  by (simp add: fs_insert_def Let_def equal_element_iff)

text \<open>The returned iterator points at the element.\<close>

lemma fs_insert_pos:
  assumes "sorted_wrt prec xs"
  shows "snd (fs_insert prec v xs) ! fst (fst (fs_insert prec v xs)) = v"
  using assms lower_bound_spec(1) [OF assms, of v]
  by (simp add: fs_insert_def Let_def equal_element_iff nth_append)

lemma fs_contains_iff: "sorted_wrt prec xs \<Longrightarrow> fs_contains prec xs v \<longleftrightarrow> v \<in> set xs"
proof -
  assume s: "sorted_wrt prec xs"
  have "v \<in> set xs \<Longrightarrow> lower_bound prec xs v \<noteq> length xs"
    using equal_element_iff(1) [OF s, of v] by (auto simp: is_equal_element_def)
  with s show ?thesis
    by (auto simp: fs_contains_def fs_find_def find_first_lower_bound_of_def Let_def equal_element_iff)
qed

lemma erase_at_set:
  assumes "distinct xs" and "i < length xs"
  shows "set (fs_erase_at i xs) = set xs - {xs ! i}"
proof -
  have "xs = take i xs @ xs ! i # drop (Suc i) xs"
    using assms(2) by (rule id_take_nth_drop)
  then show ?thesis using assms(1)
    unfolding fs_erase_at_def by (metis Diff_insert_absorb Un_insert_right distinct.simps(2)
        distinct_append insertCI list.simps(15) not_distinct_conv_prefix set_append Un_iff)
qed

lemma sorted_erase_at: "sorted_wrt prec xs \<Longrightarrow> sorted_wrt prec (fs_erase_at i xs)"
proof (cases "i < length xs")
  case True
  assume "sorted_wrt prec xs"
  then have "sorted_wrt prec (take i xs @ xs ! i # drop (Suc i) xs)"
    using id_take_nth_drop [OF True] by simp
  then show ?thesis unfolding fs_erase_at_def sorted_wrt_append by simp
qed (simp add: fs_erase_at_def)

lemma fs_erase_eq:
  "sorted_wrt prec xs \<Longrightarrow>
     fs_erase prec v xs = (if v \<in> set xs then (1, fs_erase_at (lower_bound prec xs v) xs) else (0, xs))"
  using equal_element_iff(1) [of xs v] by (simp add: fs_erase_def Let_def is_equal_element_def)

lemma fs_erase_set:
  assumes "sorted_wrt prec xs"
  shows "set (snd (fs_erase prec v xs)) = set xs - {v}"
proof (cases "v \<in> set xs")
  case True
  then have "lower_bound prec xs v < length xs" and "xs ! lower_bound prec xs v = v"
    using equal_element_iff [OF assms, of v] lower_bound_spec(1) [OF assms, of v]
    by (auto simp: is_equal_element_def)
  with True show ?thesis
    using erase_at_set [OF sorted_distinct [OF assms]] by (simp add: fs_erase_eq [OF assms])
next
  case False
  then show ?thesis by (simp add: fs_erase_eq [OF assms])
qed

lemma fs_erase_sorted: "sorted_wrt prec xs \<Longrightarrow> sorted_wrt prec (snd (fs_erase prec v xs))"
  by (simp add: fs_erase_eq sorted_erase_at)

lemma fs_erase_count: "sorted_wrt prec xs \<Longrightarrow> fst (fs_erase prec v xs) = (if v \<in> set xs then 1 else 0)"
  by (simp add: fs_erase_eq)

lemma last_greatest: "sorted_wrt prec xs \<Longrightarrow> x \<in> set xs \<Longrightarrow> x = last xs \<or> prec x (last xs)"
  by (induction xs rule: rev_induct) (auto simp: sorted_wrt_append)

lemma sorted_butlast: "sorted_wrt prec xs \<Longrightarrow> sorted_wrt prec (butlast xs)"
  by (induction xs rule: rev_induct) (auto simp: sorted_wrt_append)

end

interpretation lt: strict_total "(<) :: 'a::linorder \<Rightarrow> 'a \<Rightarrow> bool"
  by unfold_locales auto

interpretation gt: strict_total "(>) :: 'a::linorder \<Rightarrow> 'a \<Rightarrow> bool"
  by unfold_locales auto

section \<open>The contract for the clients\<close>

locale set_store =
  fixes ins :: "'a \<Rightarrow> 's \<Rightarrow> 's"
    and del :: "'a \<Rightarrow> 's \<Rightarrow> nat \<times> 's"
    and mem :: "'s \<Rightarrow> 'a \<Rightarrow> bool"
    and elems :: "'s \<Rightarrow> 'a set"
    and invar :: "'s \<Rightarrow> bool"
  assumes mem_elems: "invar s \<Longrightarrow> mem s x \<longleftrightarrow> x \<in> elems s"
    and elems_ins: "invar s \<Longrightarrow> elems (ins x s) = insert x (elems s)"
    and elems_del: "invar s \<Longrightarrow> elems (snd (del x s)) = elems s - {x}"
    and del_count: "invar s \<Longrightarrow> fst (del x s) = (if x \<in> elems s then 1 else 0)"
    and invar_ins: "invar s \<Longrightarrow> invar (ins x s)"
    and invar_del: "invar s \<Longrightarrow> invar (snd (del x s))"
begin

lemma mem_ins: "invar s \<Longrightarrow> mem (ins x s) y \<longleftrightarrow> y = x \<or> mem s y"
  by (simp add: mem_elems elems_ins invar_ins)

lemma mem_del: "invar s \<Longrightarrow> mem (snd (del x s)) y \<longleftrightarrow> y \<noteq> x \<and> mem s y"
  by (auto simp: mem_elems elems_del invar_del)

lemma elems_fold_ins: "invar s \<Longrightarrow> elems (fold ins xs s) = set xs \<union> elems s \<and> invar (fold ins xs s)"
  by (induction xs arbitrary: s) (auto simp: elems_ins invar_ins)

end

interpretation fs_lt: set_store
  "\<lambda>x s. snd (fs_insert (<) x s)" "fs_erase (<)" "fs_contains (<)" set
  "sorted_wrt ((<) :: 'a::linorder \<Rightarrow> 'a \<Rightarrow> bool)"
  by unfold_locales
    (simp_all add: lt.fs_contains_iff lt.fs_insert_set lt.fs_erase_set lt.fs_erase_count
      lt.fs_insert_sorted lt.fs_erase_sorted)

interpretation fs_gt: set_store
  "\<lambda>x s. snd (fs_insert (>) x s)" "fs_erase (>)" "fs_contains (>)" set
  "sorted_wrt ((>) :: 'a::linorder \<Rightarrow> 'a \<Rightarrow> bool)"
  by unfold_locales
    (simp_all add: gt.fs_contains_iff gt.fs_insert_set gt.fs_erase_set gt.fs_erase_count
      gt.fs_insert_sorted gt.fs_erase_sorted)

section \<open>Properties\<close>

text \<open>
  On a sorted vector without duplicates the flat set behaves as a finite set: insertion keeps
  the order, reports whether the element is new and returns the position of the element;
  erasing removes exactly the element and reports how many were removed; \<open>find\<close>
  returns the element's position, or the end when it is absent.
\<close>

theorem flat_set_is_a_set:
  fixes xs :: "'a::linorder list"
  assumes "sorted_wrt (<) xs"
  shows "sorted_wrt (<) (snd (fs_insert (<) v xs)) \<and> set (snd (fs_insert (<) v xs)) = insert v (set xs)
    \<and> (snd (fst (fs_insert (<) v xs)) \<longleftrightarrow> v \<notin> set xs)
    \<and> snd (fs_insert (<) v xs) ! fst (fst (fs_insert (<) v xs)) = v
    \<and> sorted_wrt (<) (snd (fs_erase (<) v xs)) \<and> set (snd (fs_erase (<) v xs)) = set xs - {v}
    \<and> fst (fs_erase (<) v xs) = (if v \<in> set xs then 1 else 0)
    \<and> (if v \<in> set xs then fs_find (<) xs v < length xs \<and> xs ! fs_find (<) xs v = v
       else fs_find (<) xs v = length xs)"
proof -
  have "fs_find (<) xs v < length xs \<and> xs ! fs_find (<) xs v = v" if "v \<in> set xs"
    using that lt.equal_element_iff [OF assms, of v] lt.lower_bound_spec(1) [OF assms, of v]
    by (simp add: fs_find_def find_first_lower_bound_of_def is_equal_element_def)
  moreover have "fs_find (<) xs v = length xs" if "v \<notin> set xs"
    using that lt.equal_element_iff [OF assms, of v]
    by (simp add: fs_find_def find_first_lower_bound_of_def)
  ultimately show ?thesis
    by (simp add: lt.fs_insert_sorted lt.fs_insert_set lt.fs_insert_new lt.fs_insert_pos lt.fs_erase_sorted
        lt.fs_erase_set lt.fs_erase_count assms)
qed

theorem flat_set_is_a_set_witness:
  "sorted_wrt (<) (snd (fs_insert (<) 4 [1, 5, 9 :: nat]))
    \<and> set (snd (fs_insert (<) 4 [1, 5, 9 :: nat])) = insert 4 (set [1, 5, 9])
    \<and> (snd (fst (fs_insert (<) 4 [1, 5, 9 :: nat])) \<longleftrightarrow> 4 \<notin> set [1, 5, 9 :: nat])
    \<and> snd (fs_insert (<) 4 [1, 5, 9 :: nat]) ! fst (fst (fs_insert (<) 4 [1, 5, 9 :: nat])) = 4
    \<and> sorted_wrt (<) (snd (fs_erase (<) 4 [1, 5, 9 :: nat]))
    \<and> set (snd (fs_erase (<) 4 [1, 5, 9 :: nat])) = set [1, 5, 9] - {4}
    \<and> fst (fs_erase (<) 4 [1, 5, 9 :: nat]) = (if 4 \<in> set [1, 5, 9 :: nat] then 1 else 0)
    \<and> (if 4 \<in> set [1, 5, 9 :: nat]
       then fs_find (<) [1, 5, 9 :: nat] 4 < length [1, 5, 9 :: nat]
         \<and> [1, 5, 9 :: nat] ! fs_find (<) [1, 5, 9 :: nat] 4 = 4
       else fs_find (<) [1, 5, 9 :: nat] 4 = length [1, 5, 9 :: nat])"
  by (rule flat_set_is_a_set) simp

end
