(* ===== verification/Guids.thy ===== *)
theory Guids
  imports Flat_Sets "HOL-Library.Product_Lexorder"
begin

text \<open>
  Service identifiers: the packed \<open>Guid\<close> of src/include/idle/core/guid.hpp and
  src/lib/idle/core/guid.cpp, the recycler that hands out the low parts and the context's table
  from low parts to cluster heads (\<open>ContextImpl::id_recycler\<close>, \<open>allocate_guid\<close>,
  \<open>recycle_guid\<close> of src/lib/idle/core/detail/context/context_impl.cpp). The three bit fields of
  the C++ class are words of their declared widths, so that assignments truncate as the
  bit fields do. The interface \<open>id_allocator\<close> is what the context relies on.
\<close>

section \<open>The packed identifier\<close>

datatype guid = Guid (guid_low: "40 word") (guid_high: "16 word") (guid_ordinal: "8 word")

text \<open>\<open>Low\<close> is a 64 bit integer, so the accessors widen and the constructor narrows.\<close>

definition max_low :: "64 word" where "max_low = push_bit 40 1 - 1"
definition min_low :: "64 word" where "min_low = 0"
definition max_high :: "16 word" where "max_high = ucast (push_bit 16 (1 :: 64 word) - 1)"
definition min_high :: "16 word" where "min_high = 0"
definition max_ordinal :: "8 word" where "max_ordinal = ucast (push_bit 8 (1 :: 64 word) - 1)"
definition min_ordinal :: "8 word" where "min_ordinal = 0"

definition mk_guid :: "64 word \<Rightarrow> 16 word \<Rightarrow> 8 word \<Rightarrow> guid" where
  "mk_guid l h r = Guid (ucast l) h r"

definition empty_guid :: guid where
  "empty_guid = mk_guid max_low max_high max_ordinal"

definition low :: "guid \<Rightarrow> 64 word" where "low g = ucast (guid_low g)"
definition high :: "guid \<Rightarrow> 16 word" where "high g = guid_high g"
definition ordinal :: "guid \<Rightarrow> 8 word" where "ordinal g = guid_ordinal g"

definition fromValue :: "64 word \<Rightarrow> guid" where
  "fromValue v =
     mk_guid (v AND max_low) (ucast (drop_bit 40 v AND ucast max_high))
       (ucast (drop_bit (16 + 40) v AND ucast max_ordinal))"

definition guid_value :: "guid \<Rightarrow> 64 word" where
  "guid_value g =
     (push_bit (16 + 40) (ucast (guid_ordinal g)) OR push_bit 40 (ucast (guid_high g)))
       OR ucast (guid_low g)"

definition is_empty_guid :: "guid \<Rightarrow> bool" where
  "is_empty_guid g \<longleftrightarrow> low g = max_low"

definition isCluster :: "guid \<Rightarrow> bool" where
  "isCluster g \<longleftrightarrow> low g \<noteq> max_low \<and> guid_high g = 0 \<and> guid_ordinal g = 0"

definition isComponent :: "guid \<Rightarrow> bool" where
  "isComponent g \<longleftrightarrow> guid_high g \<noteq> 0 \<and> guid_ordinal g = 0"

definition isPart :: "guid \<Rightarrow> bool" where
  "isPart g \<longleftrightarrow> guid_ordinal g \<noteq> 0"

definition guid_cluster :: "guid \<Rightarrow> guid" where
  "guid_cluster g = mk_guid (low g) min_high min_ordinal"

definition guid_owner :: "guid \<Rightarrow> guid" where
  "guid_owner g = mk_guid (low g) (high g) min_ordinal"

lemma bit_ucast_iff: "bit (ucast (w :: 'a::len word) :: 'b::len word) n \<longleftrightarrow> n < LENGTH('b) \<and> bit w n"
  by (simp add: bit_unsigned_iff)

lemma ucast_low_inject: "(ucast (x :: 40 word) :: 64 word) = ucast y \<longleftrightarrow> x = y"
proof
  assume eq: "(ucast x :: 64 word) = ucast y"
  show "x = y"
  proof (rule bit_word_eqI)
    fix n assume "n < LENGTH(40)"
    with eq show "bit x n \<longleftrightarrow> bit y n"
      using bit_ucast_iff [of x n, where 'b = 64] bit_ucast_iff [of y n, where 'b = 64] by simp
  qed
qed simp

text \<open>The comparison operators compare the three parts as a tuple.\<close>

definition guid_tuple :: "guid \<Rightarrow> 64 word \<times> 16 word \<times> 8 word" where
  "guid_tuple g = (low g, high g, ordinal g)"

instantiation guid :: linorder
begin

definition less_eq_guid :: "guid \<Rightarrow> guid \<Rightarrow> bool" where
  "less_eq_guid a b \<longleftrightarrow> guid_tuple a \<le> guid_tuple b"

definition less_guid :: "guid \<Rightarrow> guid \<Rightarrow> bool" where
  "less_guid a b \<longleftrightarrow> guid_tuple a < guid_tuple b"

instance
proof
  have inj: "a = b" if "guid_tuple a = guid_tuple b" for a b
    using that by (cases a; cases b)
      (simp add: guid_tuple_def low_def high_def ordinal_def ucast_low_inject)
  fix x y z :: guid
  show "x < y \<longleftrightarrow> x \<le> y \<and> \<not> y \<le> x" by (auto simp: less_eq_guid_def less_guid_def)
  show "x \<le> x" by (simp add: less_eq_guid_def)
  show "x \<le> y \<Longrightarrow> y \<le> z \<Longrightarrow> x \<le> z" by (simp add: less_eq_guid_def)
  show "x \<le> y \<Longrightarrow> y \<le> x \<Longrightarrow> x = y" by (auto simp: less_eq_guid_def intro: inj)
  show "x \<le> y \<or> y \<le> x" by (auto simp: less_eq_guid_def)
qed

end

text \<open>Hexadecimal rendering: a buffer of 18 characters filled from the right.\<close>

definition hex_digits :: string where "hex_digits = ''0123456789ABCDEF''"

definition guid_nibble :: "guid \<Rightarrow> nat \<Rightarrow> 8 word" where
  "guid_nibble g i = ucast (drop_bit (i * 4) (guid_value g) AND 0x0F)"

definition guid_hex :: "guid \<Rightarrow> string" where
  "guid_hex g =
     (let buffer = (replicate 18 (CHR 0x00))[0 := CHR ''0'', 1 := CHR ''x'']
      in fold (\<lambda>i b. b[16 - i + 1 := hex_digits ! unat (guid_nibble g i)]) [0..<16] buffer)"

section \<open>The recycler of low parts\<close>

record id_recycler =
  rc_current :: "64 word"
  rc_recycled :: "64 word list"

definition init_recycler :: id_recycler where
  "init_recycler = \<lparr>rc_current = min_low, rc_recycled = []\<rparr>"

definition rec_allocate :: "id_recycler \<Rightarrow> (64 word \<times> id_recycler) res" where
  "rec_allocate r =
     (if rc_recycled r = [] then
        (if rc_current r \<noteq> max_low then Inr (rc_current r, r\<lparr>rc_current := rc_current r + 1\<rparr>)
         else Inl AssertFailed)
      else (let (i, rest) = fs_pop_last (rc_recycled r) in Inr (i, r\<lparr>rc_recycled := rest\<rparr>)))"

function rec_shrink :: "id_recycler \<Rightarrow> id_recycler" where
  "rec_shrink r =
     (if rc_recycled r \<noteq> [] then
        (let (i, rest) = fs_pop_last (rc_recycled r)
         in if i \<noteq> rc_current r - 1 then r
            else rec_shrink (r\<lparr>rc_recycled := rest, rc_current := rc_current r - 1\<rparr>))
      else r)"
  by pat_completeness auto
termination
  by (relation "measure (\<lambda>r. length (rc_recycled r))") (auto simp: fs_pop_last_eq)

declare rec_shrink.simps [simp del]

definition rec_recycle :: "64 word \<Rightarrow> id_recycler \<Rightarrow> id_recycler" where
  "rec_recycle i r = rec_shrink (r\<lparr>rc_recycled := snd (fs_insert (<) i (rc_recycled r))\<rparr>)"

text \<open>The context's table from low parts to cluster heads.\<close>

record id_table =
  it_recycler :: id_recycler
  it_services :: "64 word \<rightharpoonup> nat"

definition init_table :: id_table where
  "init_table = \<lparr>it_recycler = init_recycler, it_services = Map.empty\<rparr>"

definition allocate_guid :: "nat \<Rightarrow> id_table \<Rightarrow> (64 word \<times> id_table) res" where
  "allocate_guid s t =
     bind (rec_allocate (it_recycler t)) (\<lambda>(l, r).
       check (it_services t l = None) (l, t\<lparr>it_recycler := r, it_services := (it_services t)(l \<mapsto> s)\<rparr>))"

definition recycle_guid :: "nat \<Rightarrow> 64 word \<Rightarrow> id_table \<Rightarrow> id_table res" where
  "recycle_guid s l t =
     check (it_services t l = Some s)
       (t\<lparr>it_services := (it_services t)(l := None), it_recycler := rec_recycle l (it_recycler t)\<rparr>)"

text \<open>The identifier of the next member of a cluster (src/lib/idle/core/service.cpp).\<close>

definition next_child_guid :: "guid \<Rightarrow> guid" where
  "next_child_guid g = mk_guid (low g) (high g + 1) min_ordinal"

section \<open>Facts on the packed identifier\<close>

lemma max_low_eq: "max_low = mask 40"
  by (simp add: max_low_def mask_eq_decr_exp)

lemma max_low_numeral: "max_low = 1099511627775"
  by (simp add: max_low_def)

lemma max_high_eq: "(ucast max_high :: 64 word) = mask 16"
  by (simp add: max_high_def mask_eq_decr_exp)

lemma max_ordinal_eq: "(ucast max_ordinal :: 64 word) = mask 8"
  by (simp add: max_ordinal_def mask_eq_decr_exp)

lemma guid_value_bit:
  "bit (guid_value g) n \<longleftrightarrow>
     (if n < 40 then bit (guid_low g) n
      else if n < 56 then bit (guid_high g) (n - 40)
      else if n < 64 then bit (guid_ordinal g) (n - 56) else False)"
  using bit_imp_le_length [of "guid_low g" n] bit_imp_le_length [of "guid_high g" "n - 40"]
    bit_imp_le_length [of "guid_ordinal g" "n - 56"]
  by (auto simp: guid_value_def bit_or_iff bit_push_bit_iff bit_ucast_iff)

lemma fromValue_low_bit: "bit (guid_low (fromValue v)) n \<longleftrightarrow> n < 40 \<and> bit v n"
  by (auto simp: fromValue_def mk_guid_def max_low_eq bit_ucast_iff bit_and_iff bit_mask_iff)

lemma fromValue_high_bit: "bit (guid_high (fromValue v)) n \<longleftrightarrow> n < 16 \<and> bit v (n + 40)"
  by (auto simp: fromValue_def mk_guid_def max_high_eq bit_ucast_iff bit_and_iff bit_mask_iff
      bit_drop_bit_eq add.commute)

lemma fromValue_ordinal_bit: "bit (guid_ordinal (fromValue v)) n \<longleftrightarrow> n < 8 \<and> bit v (n + 56)"
  by (auto simp: fromValue_def mk_guid_def max_ordinal_eq bit_ucast_iff bit_and_iff bit_mask_iff
      bit_drop_bit_eq add.commute)

lemma fromValue_guid_value: "fromValue (guid_value g) = g"
proof (rule guid.expand)
  have "guid_low (fromValue (guid_value g)) = guid_low g"
    by (rule bit_word_eqI) (simp add: fromValue_low_bit guid_value_bit)
  moreover have "guid_high (fromValue (guid_value g)) = guid_high g"
    by (rule bit_word_eqI) (simp add: fromValue_high_bit guid_value_bit)
  moreover have "guid_ordinal (fromValue (guid_value g)) = guid_ordinal g"
    by (rule bit_word_eqI) (simp add: fromValue_ordinal_bit guid_value_bit)
  ultimately show "guid_low (fromValue (guid_value g)) = guid_low g \<and>
    guid_high (fromValue (guid_value g)) = guid_high g \<and>
    guid_ordinal (fromValue (guid_value g)) = guid_ordinal g" by simp
qed

lemma guid_value_fromValue: "guid_value (fromValue v) = v"
proof (rule bit_word_eqI)
  fix n assume "n < LENGTH(64)"
  then show "bit (guid_value (fromValue v)) n \<longleftrightarrow> bit v n"
    by (auto simp: guid_value_bit fromValue_low_bit fromValue_high_bit fromValue_ordinal_bit)
qed

section \<open>Facts on the recycler\<close>

definition rec_inv :: "id_recycler \<Rightarrow> bool" where
  "rec_inv r \<longleftrightarrow> sorted_wrt (<) (rc_recycled r) \<and> (\<forall>i\<in>set (rc_recycled r). i < rc_current r)
     \<and> rc_current r \<le> max_low
     \<and> (rc_recycled r \<noteq> [] \<longrightarrow> last (rc_recycled r) \<noteq> rc_current r - 1)"

definition rec_live :: "id_recycler \<Rightarrow> 64 word set" where
  "rec_live r = {i. i < rc_current r} - set (rc_recycled r)"

lemma word_less_Suc: "(x :: 64 word) < c + 1 \<longleftrightarrow> x < c \<or> x = c" if "c < max_low" for x c
proof -
  from that have "unat c < 2 ^ 40" by (simp add: max_low_numeral word_less_nat_alt)
  then have "unat (c + 1) = unat c + 1" by (simp add: unat_add_lem [THEN iffD1])
  then show ?thesis by (auto simp: word_less_nat_alt word_unat_eq_iff)
qed

lemma word_less_pred: "(x :: 64 word) < c - 1 \<longleftrightarrow> x < c \<and> x \<noteq> c - 1" if "0 < c" for x c
proof -
  from that have "unat (c - 1) = unat c - 1" and "0 < unat c"
    by (simp_all add: unat_sub word_le_nat_alt word_less_nat_alt Suc_le_eq)
  then show ?thesis by (auto simp: word_less_nat_alt word_unat_eq_iff)
qed

lemma rec_allocate_fresh:
  assumes "rec_inv r" and "rec_allocate r = Inr (i, r')"
  shows "i \<notin> rec_live r" and "rec_live r' = insert i (rec_live r)" and "rec_inv r'"
proof -
  have "i \<notin> rec_live r \<and> rec_live r' = insert i (rec_live r) \<and> rec_inv r'"
  proof (cases "rc_recycled r = []")
    case True
    with assms(2) have r': "i = rc_current r" "r' = r\<lparr>rc_current := rc_current r + 1\<rparr>" "rc_current r \<noteq> max_low"
      by (auto simp: rec_allocate_def split: if_splits)
    with assms(1) have lt: "rc_current r < max_low"
      by (simp add: rec_inv_def order.strict_iff_order)
    then have "rc_current r + 1 \<le> max_low"
      using word_less_Suc [OF lt, of max_low] by (metis linorder_not_less order_less_irrefl not_less_iff_gr_or_eq)
    with True r' lt show ?thesis
      by (auto simp: rec_live_def rec_inv_def word_less_Suc)
  next
    case False
    with assms(2) have r': "i = last (rc_recycled r)" "r' = r\<lparr>rc_recycled := butlast (rc_recycled r)\<rparr>"
      by (auto simp: rec_allocate_def fs_pop_last_eq)
    let ?xs = "butlast (rc_recycled r)"
    have xs: "rc_recycled r = ?xs @ [i]" using False r'(1) by simp
    have srt: "sorted_wrt (<) (?xs @ [i])" using assms(1) xs by (simp add: rec_inv_def)
    have lt: "i < rc_current r" "\<forall>j\<in>set ?xs. j < rc_current r"
      using assms(1) False r'(1) by (auto simp: rec_inv_def dest: in_set_butlastD)
    have notlast: "last ?xs \<noteq> rc_current r - 1" if "?xs \<noteq> []"
    proof -
      from that srt have "last ?xs < i" by (simp add: sorted_wrt_append)
      moreover have "0 < rc_current r" using lt(1) by (rule order.strict_trans1 [rotated]) simp
      then have "i \<le> rc_current r - 1"
        using lt(1) word_less_pred [of "rc_current r" i] by (metis order.order_iff_strict)
      ultimately show ?thesis by auto
    qed
    have "rec_live r' = insert i (rec_live r)"
      unfolding rec_live_def r'(2) using lt srt
      by (subst (2) xs) (auto simp: sorted_wrt_append)
    moreover have "i \<notin> rec_live r" unfolding rec_live_def using False r'(1) by simp
    moreover have "rec_inv r'"
      using assms(1) srt lt notlast r'(2) by (auto simp: rec_inv_def sorted_wrt_append)
    ultimately show ?thesis by blast
  qed
  then show "i \<notin> rec_live r" "rec_live r' = insert i (rec_live r)" "rec_inv r'" by auto
qed

lemma rec_shrink_spec:
  assumes "sorted_wrt (<) (rc_recycled r)" and "\<forall>i\<in>set (rc_recycled r). i < rc_current r"
    and "rc_current r \<le> max_low"
  shows "rec_inv (rec_shrink r) \<and> rec_live (rec_shrink r) = rec_live r"
  using assms
proof (induction r rule: rec_shrink.induct)
  case (1 r)
  show ?case
  proof (cases "rc_recycled r \<noteq> [] \<and> last (rc_recycled r) = rc_current r - 1")
    case False
    then have "rec_shrink r = r"
      by (subst rec_shrink.simps) (auto simp: fs_pop_last_eq)
    with False 1(2-4) show ?thesis by (auto simp: rec_inv_def)
  next
    case True
    let ?xs = "butlast (rc_recycled r)"
    let ?r' = "r\<lparr>rc_recycled := ?xs, rc_current := rc_current r - 1\<rparr>"
    have step: "rec_shrink r = rec_shrink ?r'"
      using True by (subst rec_shrink.simps) (simp add: fs_pop_last_eq)
    have xs: "rc_recycled r = ?xs @ [rc_current r - 1]" using True by (metis append_butlast_last_id)
    have srt: "sorted_wrt (<) (?xs @ [rc_current r - 1])" using 1(2) xs by simp
    have pos: "0 < rc_current r"
      using 1(3) True by (metis last_in_set order.strict_trans1 word_zero_le)
    have le: "rc_current r - 1 \<le> max_low"
      using 1(4) pos word_less_pred [OF pos] by (metis order.strict_implies_order order_trans
          word_le_nat_alt linorder_le_cases word_less_pred [OF pos] order.order_iff_strict not_less)
    have "rec_inv (rec_shrink ?r') \<and> rec_live (rec_shrink ?r') = rec_live ?r'"
      by (rule 1(1)) (use True srt le in \<open>auto simp: fs_pop_last_eq sorted_wrt_append\<close>)
    moreover have "rec_live ?r' = rec_live r"
      unfolding rec_live_def using pos by (subst (2) xs) (auto simp: word_less_pred)
    ultimately show ?thesis unfolding step by simp
  qed
qed

lemma rec_recycle_live:
  assumes "rec_inv r" and "i \<in> rec_live r"
  shows "rec_live (rec_recycle i r) = rec_live r - {i}" and "rec_inv (rec_recycle i r)"
proof -
  let ?r = "r\<lparr>rc_recycled := snd (fs_insert (<) i (rc_recycled r))\<rparr>"
  have srt: "sorted_wrt (<) (rc_recycled r)" using assms(1) by (simp add: rec_inv_def)
  have "rec_inv (rec_shrink ?r) \<and> rec_live (rec_shrink ?r) = rec_live ?r"
    by (rule rec_shrink_spec)
      (use assms srt in \<open>auto simp: rec_inv_def rec_live_def lt.fs_insert_set lt.fs_insert_sorted\<close>)
  moreover have "rec_live ?r = rec_live r - {i}"
    using srt by (auto simp: rec_live_def lt.fs_insert_set)
  ultimately show "rec_live (rec_recycle i r) = rec_live r - {i}" "rec_inv (rec_recycle i r)"
    by (simp_all add: rec_recycle_def)
qed

lemma rec_allocate_total: "rec_inv r \<Longrightarrow> rec_live r \<noteq> {i. i < max_low} \<Longrightarrow> \<exists>x. rec_allocate r = Inr x"
  by (auto simp: rec_allocate_def rec_live_def rec_inv_def Let_def split: prod.splits)

section \<open>The allocator interface\<close>

locale id_allocator =
  fixes alloc :: "'r \<Rightarrow> ('i \<times> 'r) res"
    and free :: "'i \<Rightarrow> 'r \<Rightarrow> 'r"
    and live :: "'r \<Rightarrow> 'i set"
    and invar :: "'r \<Rightarrow> bool"
  assumes alloc_fresh: "invar r \<Longrightarrow> alloc r = Inr (i, r') \<Longrightarrow> i \<notin> live r"
    and alloc_live: "invar r \<Longrightarrow> alloc r = Inr (i, r') \<Longrightarrow> live r' = insert i (live r)"
    and alloc_invar: "invar r \<Longrightarrow> alloc r = Inr (i, r') \<Longrightarrow> invar r'"
    and free_live: "invar r \<Longrightarrow> i \<in> live r \<Longrightarrow> live (free i r) = live r - {i}"
    and free_invar: "invar r \<Longrightarrow> i \<in> live r \<Longrightarrow> invar (free i r)"
begin

lemma alloc_distinct:
  assumes "invar r" and "alloc r = Inr (i, r')" and "alloc r' = Inr (j, r'')"
  shows "i \<noteq> j"
  using assms alloc_fresh [OF alloc_invar, of r i r' j r''] alloc_live [of r i r'] by auto

lemma alloc_free: "invar r \<Longrightarrow> alloc r = Inr (i, r') \<Longrightarrow> live (free i r') = live r"
  using free_live [OF alloc_invar, of r i r' i] alloc_live [of r i r'] alloc_fresh [of r i r'] by auto

end

interpretation recycler: id_allocator rec_allocate rec_recycle rec_live rec_inv
  by unfold_locales (simp_all add: rec_allocate_fresh rec_recycle_live)

section \<open>The guid table\<close>

text \<open>Every table the context can be in: allocations and recyclings from the empty one.\<close>

inductive id_reach :: "id_table \<Rightarrow> bool" where
  init: "id_reach init_table"
| alloc: "id_reach t \<Longrightarrow> allocate_guid s t = Inr (l, t') \<Longrightarrow> id_reach t'"
| recycle: "id_reach t \<Longrightarrow> recycle_guid s l t = Inr t' \<Longrightarrow> id_reach t'"

definition table_inv :: "id_table \<Rightarrow> bool" where
  "table_inv t \<longleftrightarrow> rec_inv (it_recycler t) \<and> dom (it_services t) = rec_live (it_recycler t)"

lemma init_table_inv: "table_inv init_table"
  by (simp add: table_inv_def init_table_def init_recycler_def rec_inv_def rec_live_def min_low_def
      max_low_numeral)

lemma allocate_guid_inv [pres]:
  assumes "table_inv t" and "allocate_guid s t = Inr (l, t')"
  shows "table_inv t'"
proof -
  from assms(2) obtain r where "rec_allocate (it_recycler t) = Inr (l, r)"
    and "t' = t\<lparr>it_recycler := r, it_services := (it_services t)(l \<mapsto> s)\<rparr>"
    by (auto simp: allocate_guid_def split: prod.splits)
  with assms(1) show ?thesis
    using recycler.alloc_live recycler.alloc_invar by (auto simp: table_inv_def)
qed

lemma recycle_guid_inv [pres]:
  assumes "table_inv t" and "recycle_guid s l t = Inr t'"
  shows "table_inv t'"
proof -
  from assms have "l \<in> rec_live (it_recycler t)"
    and "t' = t\<lparr>it_services := (it_services t)(l := None), it_recycler := rec_recycle l (it_recycler t)\<rparr>"
    by (auto simp: recycle_guid_def table_inv_def dom_def)
  with assms(1) show ?thesis
    using recycler.free_live recycler.free_invar by (auto simp: table_inv_def)
qed

lemma id_reach_inv: "id_reach t \<Longrightarrow> table_inv t"
  by (induction rule: id_reach.induct) (auto intro: init_table_inv pres)

lemma allocate_guid_total:
  assumes "table_inv t" and "dom (it_services t) \<noteq> {i. i < max_low}"
  shows "\<exists>l t'. allocate_guid s t = Inr (l, t') \<and> it_services t l = None \<and> it_services t' l = Some s"
proof -
  from assms obtain l r where lr: "rec_allocate (it_recycler t) = Inr (l, r)"
    using rec_allocate_total [of "it_recycler t"] by (auto simp: table_inv_def)
  with assms have "it_services t l = None"
    using recycler.alloc_fresh [of "it_recycler t" l r] by (auto simp: table_inv_def dom_def)
  with lr show ?thesis by (simp add: allocate_guid_def)
qed

text \<open>
  C31. The guid table never fails its own assertions: in every state the context can reach,
  allocating a guid for a service succeeds, with a low part no live service has,
  as long as the 40 bit space is not exhausted.
\<close>

theorem allocate_guid_never_clashes:
  assumes "id_reach t" and "dom (it_services t) \<noteq> {i. i < max_low}"
  shows "\<exists>l t'. allocate_guid s t = Inr (l, t') \<and> it_services t l = None \<and> it_services t' l = Some s
           \<and> id_reach t'"
  using allocate_guid_total [OF id_reach_inv [OF assms(1)] assms(2), of s] id_reach.alloc [OF assms(1)]
  by blast

theorem allocate_guid_never_clashes_witness:
  "\<exists>l t'. allocate_guid 7 init_table = Inr (l, t') \<and> it_services init_table l = None
     \<and> it_services t' l = Some 7 \<and> id_reach t'"
proof (rule allocate_guid_never_clashes)
  show "id_reach init_table" by (rule id_reach.init)
  have "0 \<in> {i. i < max_low}" by (simp add: max_low_numeral)
  then show "dom (it_services init_table) \<noteq> {i. i < max_low}"
    by (auto simp: init_table_def)
qed

text \<open>
  Destroying a service gives its low part back: recycling the guid a service was given
  succeeds in every reachable state, removes exactly this service from the table, and
  keeps every other service's guid.
\<close>

theorem recycle_guid_exact:
  assumes "id_reach t" and "it_services t l = Some s"
  shows "\<exists>t'. recycle_guid s l t = Inr t' \<and> id_reach t' \<and> it_services t' = (it_services t)(l := None)
           \<and> rec_live (it_recycler t') = rec_live (it_recycler t) - {l}"
proof -
  have inv: "table_inv t" using assms(1) by (rule id_reach_inv)
  then have "l \<in> rec_live (it_recycler t)" using assms(2) by (auto simp: table_inv_def)
  then have "rec_live (rec_recycle l (it_recycler t)) = rec_live (it_recycler t) - {l}"
    using inv recycler.free_live by (auto simp: table_inv_def)
  moreover have "recycle_guid s l t = Inr (t\<lparr>it_services := (it_services t)(l := None),
      it_recycler := rec_recycle l (it_recycler t)\<rparr>)"
    using assms(2) by (simp add: recycle_guid_def)
  ultimately show ?thesis using id_reach.recycle [OF assms(1)] by fastforce
qed

theorem recycle_guid_exact_witness:
  "\<exists>t. id_reach t \<and> it_services t 0 = Some 7
     \<and> (\<exists>t'. recycle_guid 7 0 t = Inr t' \<and> id_reach t' \<and> it_services t' = (it_services t)(0 := None)
           \<and> rec_live (it_recycler t') = rec_live (it_recycler t) - {0})"
proof -
  have a: "allocate_guid 7 init_table
      = Inr (0, init_table\<lparr>it_recycler := \<lparr>rc_current = 1, rc_recycled = []\<rparr>, it_services := [0 \<mapsto> 7]\<rparr>)"
    by (simp add: allocate_guid_def init_table_def init_recycler_def rec_allocate_def min_low_def
        max_low_numeral)
  let ?t = "init_table\<lparr>it_recycler := \<lparr>rc_current = 1, rc_recycled = []\<rparr>, it_services := [0 \<mapsto> 7]\<rparr>"
  have r: "id_reach ?t" by (rule id_reach.alloc [OF id_reach.init a])
  have "it_services ?t 0 = Some 7" by simp
  from recycle_guid_exact [OF r this] r show ?thesis by (intro exI [of _ ?t]) simp
qed

section \<open>Round trips\<close>

text \<open>
  A guid is its 64 bit value: packing and unpacking are inverse to each other
  in both directions, so no information of the three parts is lost.
\<close>

theorem guid_value_roundtrip: "fromValue (guid_value g) = g \<and> guid_value (fromValue v) = v"
  by (simp add: fromValue_guid_value guid_value_fromValue)

text \<open>Reading a hexadecimal string, the reference for the renderer.\<close>

definition hex_digit_val :: "char \<Rightarrow> nat" where
  "hex_digit_val c = length (takeWhile (\<lambda>d. d \<noteq> c) hex_digits)"

definition hex_read :: "string \<Rightarrow> nat" where
  "hex_read cs = foldl (\<lambda>a c. 16 * a + hex_digit_val c) 0 cs"

lemma hex_digit_val_nth: "n < 16 \<Longrightarrow> hex_digit_val (hex_digits ! n) = n"
proof -
  assume "n < 16"
  then have "n \<in> set [0..<16]" by simp
  moreover have "\<forall>n\<in>set [0..<16]. hex_digit_val (hex_digits ! n) = n"
    by (simp add: hex_digit_val_def hex_digits_def upt_rec)
  ultimately show ?thesis by blast
qed

lemma unat_guid_nibble: "unat (guid_nibble g i) = unat (guid_value g) div 16 ^ i mod 16"
proof -
  let ?w = "drop_bit (i * 4) (guid_value g)"
  have "?w AND 0x0F = take_bit 4 ?w" by (simp add: take_bit_eq_mask mask_eq_exp_minus_1)
  then have "unat (?w AND 0x0F) = unat ?w mod 16" by (simp add: unat_mod_distrib take_bit_eq_mod)
  also have "\<dots> = unat (guid_value g) div 16 ^ i mod 16"
  proof -
    have "(2 :: nat) ^ (i * 4) = 16 ^ i" by (subst mult.commute) (simp add: power_mult)
    then show ?thesis unfolding unat_drop_bit_eq unfolding drop_bit_eq_div by simp
  qed
  finally have eq: "unat (?w AND 0x0F) = unat (guid_value g) div 16 ^ i mod 16" .
  have "unat (guid_value g) div 16 ^ i mod 16 < 256" by (rule less_trans [of _ 16]) simp_all
  with eq show ?thesis by (simp add: guid_nibble_def unsigned_ucast_eq take_bit_eq_mod)
qed

lemma guid_hex_eq:
  "guid_hex g = ''0x'' @ map (\<lambda>i. hex_digits ! unat (guid_nibble g i)) (rev [0..<16])"
  by (simp add: guid_hex_def Let_def upt_rec eval_nat_numeral(2,3))

lemma hex_read_digits:
  "foldl (\<lambda>a d. 16 * a + d) 0 (map (\<lambda>i. n div 16 ^ i mod 16) (rev [0..<k])) = n mod 16 ^ k" for n k :: nat
proof (induction k arbitrary: n)
  case (Suc k)
  have shift: "map (\<lambda>i. n div 16 ^ i mod 16) (rev [0..<Suc k])
      = map (\<lambda>i. n div 16 div 16 ^ i mod 16) (rev [0..<k]) @ [n mod 16]"
    by (simp add: upt_conv_Cons map_Suc_upt [symmetric] rev_map div_mult2_eq o_def del: upt_Suc)
  show ?case
    unfolding shift foldl_append using Suc.IH [of "n div 16"] by (simp add: mod_mult2_eq)
qed simp

text \<open>
  The hexadecimal rendering of a guid is faithful: it is \<open>0x\<close> and sixteen digits, and
  reading the digits gives back the 64 bit value.
\<close>

theorem guid_hex_readable:
  "length (guid_hex g) = 18 \<and> take 2 (guid_hex g) = ''0x''
     \<and> hex_read (drop 2 (guid_hex g)) = unat (guid_value g)"
proof -
  let ?n = "unat (guid_value g)"
  have lt: "?n < 16 ^ 16" using unsigned_less [of "guid_value g"] by simp
  have "hex_read (drop 2 (guid_hex g))
      = foldl (\<lambda>a d. 16 * a + d) 0 (map hex_digit_val (map (\<lambda>i. hex_digits ! unat (guid_nibble g i)) (rev [0..<16])))"
    unfolding hex_read_def guid_hex_eq by (simp add: foldl_map del: upt_rec_numeral)
  also have "map hex_digit_val (map (\<lambda>i. hex_digits ! unat (guid_nibble g i)) (rev [0..<16]))
      = map (\<lambda>i. ?n div 16 ^ i mod 16) (rev [0..<16])"
    by (simp add: unat_guid_nibble hex_digit_val_nth del: upt_rec_numeral)
  also have "foldl (\<lambda>a d. 16 * a + d) 0 \<dots> = ?n mod 16 ^ 16" by (rule hex_read_digits)
  finally show ?thesis using lt by (simp add: guid_hex_eq)
qed

text \<open>
  The member counter of a cluster is 16 bits wide and is not checked: the member
  initialised after number 65535 is given the guid of the cluster head.
\<close>

theorem next_child_guid_wraps:
  "next_child_guid (mk_guid l max_high 0) = mk_guid l min_high min_ordinal"
proof -
  have "(ucast (ucast (ucast l :: 40 word) :: 64 word) :: 40 word) = ucast l"
    by (rule bit_word_eqI) (simp add: bit_ucast_iff)
  then show ?thesis
    by (simp add: next_child_guid_def mk_guid_def low_def high_def max_high_def min_high_def)
qed

end
