(* ===== verification/Service_Model.thy ===== *)
theory Service_Model
  imports Bit_Sets Guids
begin

text \<open>
  The data model of the engine: services, their parts, usages and clusters, as declared in
  src/include/idle/core/service.hpp, src/include/idle/core/part.hpp and
  src/include/idle/core/detail/state.inl. C++ objects are linked by pointers, so the model is a
  store: services, parts, usages and clusters are numbered and a pointer is a number. Services
  are numbered in the order of their construction, which is why the owner of a
  service's parent part has a smaller number than the service itself.

  Intrusive lists are lists of numbers; \<open>neighbors().next()\<close> of an element is
  \<open>after\<close>. Counters keep their C++ width.
\<close>

section \<open>Enumerations\<close>

datatype phase =
    uninitialized | on_init | stopped | locked | starting | running | stopping | pending
  | on_destroy | destroyed

datatype override_t = ovr_none | ovr_start

datatype target_t = tgt_none | tgt_start | tgt_stop

datatype part_kind = kImport | kExport | kInterface

text \<open>The underlying integer of a phase: its position in the enumeration.\<close>

primrec phase_num :: "phase \<Rightarrow> nat" where
  "phase_num uninitialized = 0"
| "phase_num on_init = 1"
| "phase_num stopped = 2"
| "phase_num locked = 3"
| "phase_num starting = 4"
| "phase_num running = 5"
| "phase_num stopping = 6"
| "phase_num pending = 7"
| "phase_num on_destroy = 8"
| "phase_num destroyed = 9"

section \<open>The objects\<close>

type_synonym sid = nat
type_synonym pid = nat
type_synonym uid = nat
type_synonym cid = nat

record service =
  s_phase :: phase
  s_inner :: "16 word"
  s_high_guid :: "16 word"
  s_parent :: pid
  s_parts :: "pid list"
  s_uses :: "32 word"
  s_cluster :: "cid option"

record part =
  p_kind :: part_kind
  p_owner :: sid
  p_children :: "sid list"
  p_users :: "uid list"
  p_imports :: "uid list"
  p_satisfied :: bool

text \<open>\<open>Usage::Flags\<close> are \<open>Connected\<close>, \<open>Weak\<close> and \<open>ReleaseRequested\<close>, in this order.\<close>

record usage =
  u_used :: pid
  u_user :: pid
  u_flags :: mask

text \<open>
  A cluster object is shared by the members of a cluster. The bit field \<open>running_\<close> has
  the \<open>32 - 3 - 2 - 1 = 26\<close> bits the declaration leaves it. A promise that waits for the
  transition is represented by the tokens chained into it.
\<close>

record cluster =
  c_marked_stop :: bool
  c_marked_start :: bool
  c_auto_created :: bool
  c_override :: override_t
  c_target :: target_t
  c_running :: "26 word"
  c_outer :: "16 word"
  c_pushes :: "16 word"
  c_pulls :: "16 word"
  c_guid :: guid
  c_epoch :: "64 word"
  c_promise :: "nat list"

record store =
  svc :: "sid \<Rightarrow> service"
  prt :: "pid \<Rightarrow> part"
  usg :: "uid \<Rightarrow> usage"
  clu :: "cid \<Rightarrow> cluster"
  root :: sid
  nsvc :: nat

definition init_cluster :: "bool \<Rightarrow> cluster" where
  "init_cluster is_auto_created =
     \<lparr>c_marked_stop = False, c_marked_start = False, c_auto_created = is_auto_created,
      c_override = ovr_none, c_target = tgt_none, c_running = 0, c_outer = 0, c_pushes = 0,
      c_pulls = 0, c_guid = empty_guid, c_epoch = 0, c_promise = []\<rparr>"

definition init_service :: "pid \<Rightarrow> service" where
  "init_service p =
     \<lparr>s_phase = uninitialized, s_inner = 0, s_high_guid = high empty_guid, s_parent = p,
      s_parts = [], s_uses = 0, s_cluster = None\<rparr>"

section \<open>Field access\<close>

definition isa_import :: "'a store_scheme \<Rightarrow> pid \<Rightarrow> bool" where
  "isa_import st p \<longleftrightarrow> p_kind (prt st p) = kImport"

definition isa_export :: "'a store_scheme \<Rightarrow> pid \<Rightarrow> bool" where
  "isa_export st p \<longleftrightarrow> (case p_kind (prt st p) of kExport \<Rightarrow> True | kInterface \<Rightarrow> True | _ \<Rightarrow> False)"

definition isa_interface :: "'a store_scheme \<Rightarrow> pid \<Rightarrow> bool" where
  "isa_interface st p \<longleftrightarrow> p_kind (prt st p) = kInterface"

abbreviation parent :: "'a store_scheme \<Rightarrow> sid \<Rightarrow> pid" where
  "parent st s \<equiv> s_parent (svc st s)"

abbreviation owner :: "'a store_scheme \<Rightarrow> pid \<Rightarrow> sid" where
  "owner st p \<equiv> p_owner (prt st p)"

abbreviation phase_of :: "'a store_scheme \<Rightarrow> sid \<Rightarrow> phase" where
  "phase_of st s \<equiv> s_phase (svc st s)"

abbreviation uses_of :: "'a store_scheme \<Rightarrow> sid \<Rightarrow> 32 word" where
  "uses_of st s \<equiv> s_uses (svc st s)"

definition imports_of :: "'a store_scheme \<Rightarrow> sid \<Rightarrow> pid list" where
  "imports_of st s = filter (isa_import st) (s_parts (svc st s))"

definition exports_of :: "'a store_scheme \<Rightarrow> sid \<Rightarrow> pid list" where
  "exports_of st s = filter (isa_export st) (s_parts (svc st s))"

definition interfaces_of :: "'a store_scheme \<Rightarrow> sid \<Rightarrow> pid list" where
  "interfaces_of st s = filter (isa_interface st) (s_parts (svc st s))"

definition isRoot :: "'a store_scheme \<Rightarrow> sid \<Rightarrow> bool" where
  "isRoot st s \<longleftrightarrow> owner st (parent st s) = s"

definition is_cluster_head :: "'a store_scheme \<Rightarrow> sid \<Rightarrow> bool" where
  "is_cluster_head st s \<longleftrightarrow> isa_export st (parent st s)"

definition partOffset :: "'a store_scheme \<Rightarrow> pid \<Rightarrow> 8 word res" where
  "partOffset st p =
     (let size = length (takeWhile (\<lambda>q. q \<noteq> p) (s_parts (svc st (owner st p))))
      in check (size < 255) (of_nat size + 1))"

definition guid_of_service :: "'a store_scheme \<Rightarrow> sid \<Rightarrow> guid res" where
  "guid_of_service st s =
     (case s_cluster (svc st s) of
        None \<Rightarrow> Inl AssertFailed
      | Some c \<Rightarrow> Inr (mk_guid (low (c_guid (clu st c))) (s_high_guid (svc st s)) min_ordinal))"

definition guid_of_part :: "'a store_scheme \<Rightarrow> pid \<Rightarrow> guid res" where
  "guid_of_part st p =
     bind (guid_of_service st (owner st p)) (\<lambda>g.
       bind (partOffset st p) (\<lambda>k. Inr (mk_guid (low g) (high g) k)))"

section \<open>The state predicates of a service\<close>

definition is_between :: "phase \<Rightarrow> phase \<Rightarrow> phase \<Rightarrow> bool" where
  "is_between lo hi p \<longleftrightarrow> phase_num lo \<le> phase_num p \<and> phase_num hi \<ge> phase_num p"

definition isLocked :: "'a store_scheme \<Rightarrow> sid \<Rightarrow> bool" where
  "isLocked st s \<longleftrightarrow> is_between locked pending (phase_of st s)"

definition isRunning :: "'a store_scheme \<Rightarrow> sid \<Rightarrow> bool" where
  "isRunning st s \<longleftrightarrow> phase_of st s = running"

definition isUsable :: "'a store_scheme \<Rightarrow> sid \<Rightarrow> bool" where
  "isUsable st s \<longleftrightarrow> is_between starting running (phase_of st s)"

definition isStopped :: "'a store_scheme \<Rightarrow> sid \<Rightarrow> bool" where
  "isStopped st s \<longleftrightarrow> phase_of st s = stopped"

definition isConfigurable :: "'a store_scheme \<Rightarrow> sid \<Rightarrow> bool" where
  "isConfigurable st s \<longleftrightarrow> is_between stopped locked (phase_of st s)"

definition isStarting :: "'a store_scheme \<Rightarrow> sid \<Rightarrow> bool" where
  "isStarting st s \<longleftrightarrow> (case phase_of st s of locked \<Rightarrow> True | starting \<Rightarrow> True | _ \<Rightarrow> False)"

definition isStopping :: "'a store_scheme \<Rightarrow> sid \<Rightarrow> bool" where
  "isStopping st s \<longleftrightarrow> phase_of st s = stopping"

definition isInitializedUnsafe :: "'a store_scheme \<Rightarrow> sid \<Rightarrow> bool" where
  "isInitializedUnsafe st s \<longleftrightarrow>
     (case phase_of st s of uninitialized \<Rightarrow> False | destroyed \<Rightarrow> False | on_destroy \<Rightarrow> False | _ \<Rightarrow> True)"

definition isDestroyedUnsafe :: "'a store_scheme \<Rightarrow> sid \<Rightarrow> bool" where
  "isDestroyedUnsafe st s \<longleftrightarrow>
     (case phase_of st s of uninitialized \<Rightarrow> True | destroyed \<Rightarrow> True | _ \<Rightarrow> False)"

definition isHidden :: "'a store_scheme \<Rightarrow> sid \<Rightarrow> bool" where
  "isHidden st s \<longleftrightarrow> isa_import st (parent st s)"

text \<open>
  A member of a cluster that is not its head has one use more than its own while its parent
  is up, so two uses are no external use for it.
\<close>

definition has_no_external_uses :: "'a store_scheme \<Rightarrow> sid \<Rightarrow> 32 word \<Rightarrow> bool" where
  "has_no_external_uses st s cur \<longleftrightarrow> cur = 1 \<or> (cur = 2 \<and> isa_import st (parent st s))"

definition isStoppable :: "'a store_scheme \<Rightarrow> sid \<Rightarrow> bool" where
  "isStoppable st s \<longleftrightarrow> isRunning st s \<and> has_no_external_uses st s (uses_of st s)"

lemmas state_defs =
  isLocked_def isRunning_def isUsable_def isStopped_def isStarting_def isStopping_def
  isInitializedUnsafe_def isDestroyedUnsafe_def is_between_def

text \<open>The flags of a usage.\<close>

definition fl_Connected :: nat where "fl_Connected = 0"
definition fl_Weak :: nat where "fl_Weak = 1"
definition fl_ReleaseRequested :: nat where "fl_ReleaseRequested = 2"

definition isConnected :: "'a store_scheme \<Rightarrow> uid \<Rightarrow> bool" where
  "isConnected st u \<longleftrightarrow> contains (u_flags (usg st u)) fl_Connected"

definition isWeak :: "'a store_scheme \<Rightarrow> uid \<Rightarrow> bool" where
  "isWeak st u \<longleftrightarrow> contains (u_flags (usg st u)) fl_Weak"

section \<open>Epochs\<close>

text \<open>The comparison operators of \<open>Epoch\<close> (src/include/idle/core/part.hpp), as written.\<close>

definition epoch_eq :: "64 word \<Rightarrow> 64 word \<Rightarrow> bool" where
  "epoch_eq a b \<longleftrightarrow> a = b"

definition epoch_ne :: "64 word \<Rightarrow> 64 word \<Rightarrow> bool" where
  "epoch_ne a b \<longleftrightarrow> a = b"

section \<open>Well-formed stores\<close>

text \<open>
  What construction, \<open>onChildInit\<close>/\<open>onChildDestroy\<close> and \<open>dependent_add\<close>/\<open>dependent_remove\<close>
  maintain: parts know their owner, child lists and parent pointers agree, the parent's owner is
  older than the child, and the root is its own parent.
\<close>

definition wf_tree :: "'a store_scheme \<Rightarrow> bool" where
  "wf_tree st \<longleftrightarrow>
     root st < nsvc st \<and> owner st (parent st (root st)) = root st
     \<and> (\<forall>s. s \<noteq> root st \<longrightarrow> owner st (parent st s) < s)
     \<and> (\<forall>s. distinct (s_parts (svc st s)) \<and> (\<forall>p\<in>set (s_parts (svc st s)). owner st p = s))
     \<and> (\<forall>p. distinct (p_children (prt st p)))
     \<and> (\<forall>p. \<forall>c\<in>set (p_children (prt st p)). parent st c = p \<and> c \<noteq> root st \<and> c < nsvc st
             \<and> p \<in> set (s_parts (svc st (owner st p))))"

text \<open>Usage lists agree with the end points of the usages.\<close>

definition wf_usages :: "'a store_scheme \<Rightarrow> bool" where
  "wf_usages st \<longleftrightarrow>
     (\<forall>p. distinct (p_users (prt st p)) \<and> distinct (p_imports (prt st p)))
     \<and> (\<forall>p u. u \<in> set (p_users (prt st p)) \<longleftrightarrow> isConnected st u \<and> u_used (usg st u) = p)
     \<and> (\<forall>p u. u \<in> set (p_imports (prt st p)) \<longleftrightarrow> isConnected st u \<and> u_user (usg st u) = p)
     \<and> (\<forall>u. isConnected st u \<longrightarrow>
           isa_export st (u_used (usg st u)) \<and> isa_import st (u_user (usg st u))
         \<and> u_used (usg st u) \<in> set (s_parts (svc st (owner st (u_used (usg st u)))))
         \<and> u_user (usg st u) \<in> set (s_parts (svc st (owner st (u_user (usg st u))))))"

lemma export_not_import: "isa_export st p \<Longrightarrow> \<not> isa_import st p"
  by (cases "p_kind (prt st p)") (simp_all add: isa_export_def isa_import_def)

lemma export_or_import: "isa_export st p \<longleftrightarrow> \<not> isa_import st p"
  by (simp add: isa_export_def isa_import_def split: part_kind.splits)

lemma wf_treeD:
  assumes "wf_tree st"
  shows "root st < nsvc st" "owner st (parent st (root st)) = root st"
    "s \<noteq> root st \<Longrightarrow> owner st (parent st s) < s"
    "distinct (s_parts (svc st s))" "p \<in> set (s_parts (svc st s)) \<Longrightarrow> owner st p = s"
    "distinct (p_children (prt st p))"
    "c \<in> set (p_children (prt st p)) \<Longrightarrow> parent st c = p"
    "c \<in> set (p_children (prt st p)) \<Longrightarrow> c \<noteq> root st"
    "c \<in> set (p_children (prt st p)) \<Longrightarrow> c < nsvc st"
    "c \<in> set (p_children (prt st p)) \<Longrightarrow> p \<in> set (s_parts (svc st (owner st p)))"
  using assms by (auto simp: wf_tree_def)

lemma isRoot_iff: "wf_tree st \<Longrightarrow> isRoot st s \<longleftrightarrow> s = root st"
  using wf_treeD(2,3) by (fastforce simp: isRoot_def)

end
