(* ===== verification/Service_Iterators.thy ===== *)
theory Service_Iterators
  imports Service_Model
begin

text \<open>
  The tree iterators of src/lib/idle/core/iterators.cpp. The iterators walk the parent, part and child
  links of the store and keep no stack: the successor of a service is its first child, or the
  next neighbour, or the first child of a later part, or the same for its parent. Climbing
  loops are bounded by the number of the service, because every climb reaches an older
  service; traversals are bounded by the number of services. The theorems show that the bounds
  suffice on every well-formed store and that the iterations are exactly the pre-order of the tree.
\<close>

section \<open>The steps\<close>

definition it_imports :: nat where "it_imports = 0"
definition it_exports :: nat where "it_exports = 1"

definition it_all :: mask where "it_all = full_mask"
definition it_only_imports :: mask where "it_only_imports = bs_of_list [it_imports]"
definition it_both :: mask where "it_both = bs_of_list [it_exports, it_imports]"

definition steps_into :: "'a store_scheme \<Rightarrow> mask \<Rightarrow> pid \<Rightarrow> bool" where
  "steps_into st flags p \<longleftrightarrow>
     \<not> (isa_export st p \<and> \<not> contains flags it_exports) \<and> \<not> (isa_import st p \<and> \<not> contains flags it_imports)"

fun next_child_of_parts :: "'a store_scheme \<Rightarrow> pid list \<Rightarrow> mask \<Rightarrow> sid option" where
  "next_child_of_parts st [] flags = None"
| "next_child_of_parts st (p # ps) flags =
     (if \<not> steps_into st flags p then next_child_of_parts st ps flags
      else case p_children (prt st p) of
        [] \<Rightarrow> next_child_of_parts st ps flags
      | c # _ \<Rightarrow> Some c)"

definition next_neighbour_or_child :: "'a store_scheme \<Rightarrow> sid \<Rightarrow> mask \<Rightarrow> sid option" where
  "next_neighbour_or_child st s flags =
     (case after s (p_children (prt st (parent st s))) of
        n # _ \<Rightarrow> Some n
      | [] \<Rightarrow> next_child_of_parts st (after (parent st s) (s_parts (svc st (owner st (parent st s))))) flags)"

primrec climb :: "nat \<Rightarrow> 'a store_scheme \<Rightarrow> sid \<Rightarrow> mask \<Rightarrow> sid option" where
  "climb 0 st s flags = None"
| "climb (Suc n) st s flags =
     (if isRoot st s then None
      else case next_neighbour_or_child st s flags of
        Some nxt \<Rightarrow> Some nxt
      | None \<Rightarrow> climb n st (owner st (parent st s)) flags)"

definition next_parent_or_neighbour :: "'a store_scheme \<Rightarrow> sid \<Rightarrow> mask \<Rightarrow> sid option" where
  "next_parent_or_neighbour st s flags = climb (Suc s) st s flags"

definition next_child_or_up :: "'a store_scheme \<Rightarrow> sid \<Rightarrow> mask \<Rightarrow> sid option" where
  "next_child_or_up st s flags =
     (case next_child_of_parts st (s_parts (svc st s)) flags of
        Some c \<Rightarrow> Some c
      | None \<Rightarrow> next_parent_or_neighbour st s flags)"

text \<open>A range-for from an iterator up to an end iterator; at most \<open>n\<close> elements.\<close>

primrec walk :: "nat \<Rightarrow> (sid \<Rightarrow> sid option) \<Rightarrow> sid option \<Rightarrow> sid option \<Rightarrow> sid list" where
  "walk 0 step cur end = []"
| "walk (Suc n) step cur end =
     (if cur = end then []
      else case cur of None \<Rightarrow> [] | Some s \<Rightarrow> s # walk n step (step s) end)"

definition transitive_services :: "'a store_scheme \<Rightarrow> sid \<Rightarrow> sid list" where
  "transitive_services st s =
     walk (nsvc st) (\<lambda>x. next_child_or_up st x it_all) (Some s) None"

primrec head_climb :: "nat \<Rightarrow> 'a store_scheme \<Rightarrow> sid \<Rightarrow> sid" where
  "head_climb 0 st s = s"
| "head_climb (Suc n) st s =
     (if isa_import st (parent st s) then head_climb n st (owner st (parent st s)) else s)"

definition get_cluster_head_of :: "'a store_scheme \<Rightarrow> sid \<Rightarrow> sid" where
  "get_cluster_head_of st s = head_climb (Suc s) st s"

definition cluster_members :: "'a store_scheme \<Rightarrow> sid \<Rightarrow> sid list" where
  "cluster_members st s =
     walk (nsvc st) (\<lambda>x. next_child_or_up st x it_only_imports) (Some s)
       (next_parent_or_neighbour st (get_cluster_head_of st s) it_only_imports)"

text \<open>The cluster iterator skips services until it finds a head.\<close>

primrec cluster_step :: "nat \<Rightarrow> 'a store_scheme \<Rightarrow> sid \<Rightarrow> sid option" where
  "cluster_step 0 st s = None"
| "cluster_step (Suc n) st s =
     (case next_child_or_up st s it_both of
        None \<Rightarrow> None
      | Some t \<Rightarrow> if is_cluster_head st t then Some t else cluster_step n st t)"

definition clusters :: "'a store_scheme \<Rightarrow> sid \<Rightarrow> sid list" where
  "clusters st s =
     walk (nsvc st) (cluster_step (nsvc st) st) (Some s)
       (next_parent_or_neighbour st s it_both)"




primrec parent_climb :: "nat \<Rightarrow> 'a store_scheme \<Rightarrow> sid \<Rightarrow> sid list" where
  "parent_climb 0 st s = []"
| "parent_climb (Suc n) st s =
     s # (if owner st (parent st s) = s then [] else parent_climb n st (owner st (parent st s)))"

definition parent_services :: "'a store_scheme \<Rightarrow> sid \<Rightarrow> sid list" where
  "parent_services st s = parent_climb (Suc s) st s"

primrec cluster_parent_climb :: "nat \<Rightarrow> 'a store_scheme \<Rightarrow> sid \<Rightarrow> sid list" where
  "cluster_parent_climb 0 st s = []"
| "cluster_parent_climb (Suc n) st s =
     s # (if isa_import st (parent st s) then cluster_parent_climb n st (owner st (parent st s)) else [])"

definition cluster_parent_services :: "'a store_scheme \<Rightarrow> sid \<Rightarrow> sid list" where
  "cluster_parent_services st s = cluster_parent_climb (Suc s) st s"

section \<open>Climbing terminates\<close>

lemma climb_fuel:
  assumes "wf_tree st" and "s < n" and "s < m"
  shows "climb n st s flags = climb m st s flags"
  using assms(2,3)
proof (induction s arbitrary: n m rule: less_induct)
  case (less s)
  obtain n' m' where nm: "n = Suc n'" "m = Suc m'"
    using less.prems by (cases n; cases m) auto
  show ?case
  proof (cases "isRoot st s")
    case False
    then have lt: "owner st (parent st s) < s"
      using assms(1) wf_treeD(3) isRoot_iff by blast
    then have "climb n' st (owner st (parent st s)) flags = climb m' st (owner st (parent st s)) flags"
      by (rule less.IH) (use lt less.prems nm in auto)
    with nm show ?thesis by (simp split: option.split)
  qed (simp add: nm)
qed

lemma next_parent_or_neighbour_rec:
  assumes "wf_tree st"
  shows "next_parent_or_neighbour st s flags =
     (if s = root st then None
      else case next_neighbour_or_child st s flags of
        Some nxt \<Rightarrow> Some nxt
      | None \<Rightarrow> next_parent_or_neighbour st (owner st (parent st s)) flags)"
proof (cases "s = root st")
  case False
  then have "owner st (parent st s) < s" using assms by (simp add: wf_treeD)
  then have "climb s st (owner st (parent st s)) flags
      = climb (Suc (owner st (parent st s))) st (owner st (parent st s)) flags"
    by (intro climb_fuel [OF assms]) auto
  with False assms show ?thesis
    by (simp add: next_parent_or_neighbour_def isRoot_iff split: option.split)
qed (use assms in \<open>simp add: next_parent_or_neighbour_def isRoot_iff\<close>)

text \<open>The head of a well-formed cluster: no import parent is left, and the root is a head.\<close>

definition wf_heads :: "'a store_scheme \<Rightarrow> bool" where
  "wf_heads st \<longleftrightarrow> wf_tree st \<and> is_cluster_head st (root st)"

lemma head_climb_fuel:
  assumes "wf_heads st" and "s < n" and "s < m"
  shows "head_climb n st s = head_climb m st s"
  using assms(2,3)
proof (induction s arbitrary: n m rule: less_induct)
  case (less s)
  obtain n' m' where nm: "n = Suc n'" "m = Suc m'"
    using less.prems by (cases n; cases m) auto
  show ?case
  proof (cases "isa_import st (parent st s)")
    case True
    with assms(1) have "s \<noteq> root st"
      by (auto simp: wf_heads_def is_cluster_head_def export_or_import)
    with assms(1) have lt: "owner st (parent st s) < s" by (simp add: wf_heads_def wf_treeD)
    then have "head_climb n' st (owner st (parent st s)) = head_climb m' st (owner st (parent st s))"
      by (rule less.IH) (use lt less.prems nm in auto)
    with nm True show ?thesis by simp
  qed (simp add: nm)
qed

lemma get_cluster_head_of_rec:
  assumes "wf_heads st"
  shows "get_cluster_head_of st s =
     (if isa_import st (parent st s) then get_cluster_head_of st (owner st (parent st s)) else s)"
proof (cases "isa_import st (parent st s)")
  case True
  with assms have "s \<noteq> root st" by (auto simp: wf_heads_def is_cluster_head_def export_or_import)
  with assms have "owner st (parent st s) < s" by (simp add: wf_heads_def wf_treeD)
  then have "head_climb s st (owner st (parent st s))
      = head_climb (Suc (owner st (parent st s))) st (owner st (parent st s))"
    by (intro head_climb_fuel [OF assms]) auto
  with True show ?thesis by (simp add: get_cluster_head_of_def)
qed (simp add: get_cluster_head_of_def)

lemma get_cluster_head_of_head:
  assumes "wf_heads st"
  shows "is_cluster_head st (get_cluster_head_of st s) \<and> get_cluster_head_of st s \<le> s"
proof (induction s rule: less_induct)
  case (less s)
  show ?case
  proof (cases "isa_import st (parent st s)")
    case True
    with assms have "s \<noteq> root st" by (auto simp: wf_heads_def is_cluster_head_def export_or_import)
    with assms have lt: "owner st (parent st s) < s" by (simp add: wf_heads_def wf_treeD)
    from less.IH [OF lt] True show ?thesis
      using lt get_cluster_head_of_rec [OF assms, of s] by auto
  next
    case False
    then show ?thesis
      using get_cluster_head_of_rec [OF assms, of s]
      by (simp add: is_cluster_head_def export_or_import)
  qed
qed

lemma head_of_head: "is_cluster_head st s \<Longrightarrow> get_cluster_head_of st s = s"
  by (simp add: get_cluster_head_of_def is_cluster_head_def export_or_import)

section \<open>The traversals are the pre-order of the tree\<close>

definition kids :: "'a store_scheme \<Rightarrow> mask \<Rightarrow> sid \<Rightarrow> sid list" where
  "kids st flags s =
     concat (map (\<lambda>p. p_children (prt st p)) (filter (steps_into st flags) (s_parts (svc st s))))"

function preorder :: "'a store_scheme \<Rightarrow> mask \<Rightarrow> sid \<Rightarrow> sid list" where
  "preorder st flags s =
     s # concat (map (\<lambda>c. if s < c \<and> c < nsvc st then preorder st flags c else []) (kids st flags s))"
  by pat_completeness auto
termination
  by (relation "measure (\<lambda>(st, flags, s). nsvc st - s)") auto

declare preorder.simps [simp del]

lemma kids_in:
  assumes "wf_tree st" and "c \<in> set (kids st flags s)"
  shows "s < c" "c < nsvc st" "c \<noteq> root st" "owner st (parent st c) = s"
    "parent st c \<in> set (s_parts (svc st s))" "c \<in> set (p_children (prt st (parent st c)))"
    "steps_into st flags (parent st c)"
proof -
  from assms(2) obtain p where p: "p \<in> set (s_parts (svc st s))" "steps_into st flags p"
    "c \<in> set (p_children (prt st p))" by (auto simp: kids_def)
  note w = wf_treeD [OF assms(1)]
  have "parent st c = p" "owner st p = s" using p w by auto
  with p w(3) [of c] w(8,9) [of c p]
  show "s < c" "c < nsvc st" "c \<noteq> root st" "owner st (parent st c) = s"
    "parent st c \<in> set (s_parts (svc st s))" "c \<in> set (p_children (prt st (parent st c)))"
    "steps_into st flags (parent st c)" by auto
qed

lemma preorder_rec:
  "wf_tree st \<Longrightarrow> preorder st flags s = s # concat (map (preorder st flags) (kids st flags s))"
  by (subst preorder.simps) (simp add: kids_in cong: map_cong)

lemma next_child_of_parts_eq:
  "next_child_of_parts st ps flags =
     first_of (concat (map (\<lambda>p. p_children (prt st p)) (filter (steps_into st flags) ps)))"
  by (induction st ps flags rule: next_child_of_parts.induct) (auto split: list.splits)

lemma append_mid_split:
  "xs @ ys = us @ c # vs \<Longrightarrow>
     (\<exists>ws. xs = us @ c # ws \<and> vs = ws @ ys) \<or> (\<exists>us'. us = xs @ us' \<and> ys = us' @ c # vs)"
proof (induction xs arbitrary: us)
  case (Cons x xs)
  then show ?case by (cases us) auto
qed simp

lemma concat_split:
  "concat xss = us @ c # vs \<Longrightarrow>
     \<exists>yss ys zs zss. xss = yss @ (ys @ c # zs) # zss \<and> us = concat yss @ ys \<and> vs = zs @ concat zss"
proof (induction xss arbitrary: us)
  case (Cons xs xss)
  from Cons.prems have eq: "xs @ concat xss = us @ c # vs" by simp
  then consider (left) ws where "xs = us @ c # ws" "vs = ws @ concat xss"
    | (right) us' where "us = xs @ us'" "concat xss = us' @ c # vs"
    using append_mid_split [OF eq] by blast
  then show ?case
  proof cases
    case left
    then have "xs # xss = [] @ (us @ c # ws) # xss \<and> us = concat [] @ us \<and> vs = ws @ concat xss" by simp
    then show ?thesis by blast
  next
    case right
    from Cons.IH [OF right(2)] obtain yss ys zs zss where
      "xss = yss @ (ys @ c # zs) # zss" "us' = concat yss @ ys" "vs = zs @ concat zss" by blast
    with right(1) have "xs # xss = (xs # yss) @ (ys @ c # zs) # zss
        \<and> us = concat (xs # yss) @ ys \<and> vs = zs @ concat zss" by simp
    then show ?thesis by blast
  qed
qed simp

lemma filter_split: "filter P xs = us @ p # vs \<Longrightarrow> \<exists>ys zs. xs = ys @ p # zs \<and> vs = filter P zs"
proof (induction xs arbitrary: us)
  case (Cons x xs)
  show ?case
  proof (cases "P x \<and> us = []")
    case True
    with Cons.prems have "x # xs = [] @ p # xs \<and> vs = filter P xs" by auto
    then show ?thesis by blast
  next
    case False
    with Cons.prems obtain us' where "filter P xs = us' @ p # vs"
      by (cases us) (auto split: if_splits)
    from Cons.IH [OF this] obtain ys zs where "xs = ys @ p # zs \<and> vs = filter P zs" by blast
    then have "x # xs = (x # ys) @ p # zs \<and> vs = filter P zs" by simp
    then show ?thesis by blast
  qed
qed simp

lemma next_neighbour_of_kid:
  assumes wf: "wf_tree st" and split: "kids st flags s = us @ c # vs"
  shows "next_neighbour_or_child st c flags = first_of vs"
proof -
  let ?ch = "\<lambda>p. p_children (prt st p)"
  note w = wf_treeD [OF wf]
  from concat_split [OF split [unfolded kids_def]] obtain yss ys zs zss where
    cs: "map ?ch (filter (steps_into st flags) (s_parts (svc st s))) = yss @ (ys @ c # zs) # zss"
    and vs: "vs = zs @ concat zss" by blast
  from cs obtain fs1 p fs2 where fs: "filter (steps_into st flags) (s_parts (svc st s)) = fs1 @ p # fs2"
    and ch: "?ch p = ys @ c # zs" and zss: "zss = map ?ch fs2"
    by (auto simp: map_eq_append_conv map_eq_Cons_conv Cons_eq_map_conv)
  from fs obtain ps1 ps2 where ps: "s_parts (svc st s) = ps1 @ p # ps2"
    and fs2: "fs2 = filter (steps_into st flags) ps2"
    using filter_split [OF fs] by blast
  have par: "parent st c = p" and own: "owner st p = s"
    using ch ps w(5) [of p s] w(7) [of c p] by auto
  have "c \<notin> set ys" using w(6) [of p] ch by auto
  then have a1: "after c (?ch p) = zs" using ch by (simp add: after_split)
  have "p \<notin> set ps1" using w(4) [of s] ps by auto
  then have a2: "after p (s_parts (svc st s)) = ps2" using ps by (simp add: after_split)
  show ?thesis
    unfolding next_neighbour_or_child_def par own a1 a2 next_child_of_parts_eq vs zss fs2
    by (cases zs) auto
qed

text \<open>Pointer paths: \<open>as\<close> is what the iterator visits from \<open>x\<close> until it stands at \<open>y\<close>.\<close>

fun spath :: "(sid \<Rightarrow> sid option) \<Rightarrow> sid option \<Rightarrow> sid list \<Rightarrow> sid option \<Rightarrow> bool" where
  "spath h x [] y \<longleftrightarrow> x = y"
| "spath h x (a # as) y \<longleftrightarrow> x = Some a \<and> spath h (h a) as y"

lemma spath_append: "spath h x (as @ bs) z \<longleftrightarrow> (\<exists>y. spath h x as y \<and> spath h y bs z)"
  by (induction as arbitrary: x) auto

lemma walk_spath:
  "spath h x as y \<Longrightarrow> length as \<le> n \<Longrightarrow> y \<notin> Some ` set as \<Longrightarrow> walk n h x y = as"
proof (induction as arbitrary: x n)
  case Nil
  then show ?case by (cases n) auto
next
  case (Cons a as)
  then obtain m where "n = Suc m" by (cases n) auto
  with Cons show ?case by auto
qed

lemma kid_up:
  assumes "wf_tree st" and "kids st flags s = us @ c # vs"
  shows "next_parent_or_neighbour st c flags =
     (case first_of vs of Some x \<Rightarrow> Some x | None \<Rightarrow> next_parent_or_neighbour st s flags)"
proof -
  have "c \<in> set (kids st flags s)" using assms(2) by simp
  from kids_in(3,4) [OF assms(1) this]
  have "c \<noteq> root st" and own: "owner st (parent st c) = s" by auto
  then show ?thesis
    unfolding next_parent_or_neighbour_rec [OF assms(1), of c] own next_neighbour_of_kid [OF assms]
    by (cases vs) simp_all
qed

lemma preorder_spath:
  assumes "wf_tree st"
  shows "spath (\<lambda>x. next_child_or_up st x flags) (Some s) (preorder st flags s)
           (next_parent_or_neighbour st s flags)"
proof (induction "nsvc st - s" arbitrary: s rule: less_induct)
  case less
  let ?h = "\<lambda>x. next_child_or_up st x flags"
  let ?up = "\<lambda>x. next_parent_or_neighbour st x flags"
  have IH: "spath ?h (Some c) (preorder st flags c) (?up c)" if "c \<in> set (kids st flags s)" for c
    by (rule less) (use kids_in(1,2) [OF assms that] in auto)
  have suffix: "spath ?h (case first_of vs of Some x \<Rightarrow> Some x | None \<Rightarrow> ?up s)
      (concat (map (preorder st flags) vs)) (?up s)" if "kids st flags s = us @ vs" for us vs
    using that
  proof (induction vs arbitrary: us)
    case (Cons c vs)
    have "spath ?h (Some c) (preorder st flags c) (?up c)" by (rule IH) (simp add: Cons.prems)
    moreover have "spath ?h (?up c) (concat (map (preorder st flags) vs)) (?up s)"
      unfolding kid_up [OF assms Cons.prems] by (rule Cons.IH [of "us @ [c]"]) (simp add: Cons.prems)
    ultimately show ?case by (auto simp: spath_append)
  qed simp
  have "?h s = (case first_of (kids st flags s) of Some x \<Rightarrow> Some x | None \<Rightarrow> ?up s)"
    by (simp add: next_child_or_up_def next_child_of_parts_eq kids_def)
  with suffix [of "[]"] show ?case
    by (simp add: preorder_rec [OF assms, of flags s])
qed

lemma preorder_up_closed:
  assumes "wf_tree st" and "x \<in> set (preorder st flags s)"
  shows "s \<le> x \<and> (x = s \<or> x < nsvc st \<and> owner st (parent st x) \<in> set (preorder st flags s)
           \<and> steps_into st flags (parent st x) \<and> x \<noteq> root st)"
  using assms(2)
proof (induction "nsvc st - s" arbitrary: s rule: less_induct)
  case less
  show ?case
  proof (cases "x = s")
    case False
    with less.prems obtain c where c: "c \<in> set (kids st flags s)" "x \<in> set (preorder st flags c)"
      by (auto simp: preorder_rec [OF assms(1), of flags s])
    note k = kids_in [OF assms(1) c(1)]
    have "c \<le> x \<and> (x = c \<or> x < nsvc st \<and> owner st (parent st x) \<in> set (preorder st flags c)
        \<and> steps_into st flags (parent st x) \<and> x \<noteq> root st)"
      by (rule less.hyps [OF _ c(2)]) (use k in auto)
    with c k show ?thesis
      by (auto simp: preorder_rec [OF assms(1), of flags s])
  qed simp
qed

lemma preorder_self: "wf_tree st \<Longrightarrow> s \<in> set (preorder st flags s)"
  by (subst preorder_rec) simp_all

lemma kids_distinct:
  assumes "wf_tree st"
  shows "distinct (kids st flags s)"
proof -
  note w = wf_treeD [OF assms]
  have "distinct (concat (map (\<lambda>p. p_children (prt st p)) ps))" if "distinct ps" for ps
    using that
  proof (induction ps)
    case (Cons p ps)
    have "c \<notin> set (p_children (prt st q))" if "c \<in> set (p_children (prt st p))" "q \<in> set ps" for c q
      using that w(7) [of c] Cons.prems by auto
    with Cons w(6) show ?case by fastforce
  qed simp
  then show ?thesis unfolding kids_def using w(4) by simp
qed

lemma preorder_kids_disjoint:
  assumes "wf_tree st" and "c \<in> set (kids st flags s)" and "d \<in> set (kids st flags s)" and "c \<noteq> d"
  shows "set (preorder st flags c) \<inter> set (preorder st flags d) = {}"
proof (rule ccontr)
  assume "\<not> ?thesis"
  then obtain y where y: "y \<in> set (preorder st flags c) \<inter> set (preorder st flags d)" by blast
  define x where "x = (LEAST y. y \<in> set (preorder st flags c) \<inter> set (preorder st flags d))"
  have x: "x \<in> set (preorder st flags c)" "x \<in> set (preorder st flags d)"
    using LeastI [of "\<lambda>y. y \<in> set (preorder st flags c) \<inter> set (preorder st flags d)", OF y]
    by (auto simp: x_def)
  have least: "x \<le> z" if "z \<in> set (preorder st flags c)" "z \<in> set (preorder st flags d)" for z
    using that Least_le [of "\<lambda>y. y \<in> set (preorder st flags c) \<inter> set (preorder st flags d)" z]
    by (simp add: x_def)
  note c = kids_in [OF assms(1,2)] and d = kids_in [OF assms(1,3)]
  note xc = preorder_up_closed [OF assms(1) x(1)] and xd = preorder_up_closed [OF assms(1) x(2)]
  have no: "s \<notin> set (preorder st flags e)" if "s < e" for e
    using preorder_up_closed [OF assms(1), of s flags e] that by auto
  show False
  proof (cases "x = c \<or> x = d")
    case True
    with xc xd assms(4) c d no show False by auto
  next
    case False
    with xc xd have "x \<le> owner st (parent st x)" by (intro least) auto
    moreover have "owner st (parent st x) < x"
      using False xc wf_treeD(3) [OF assms(1)] by blast
    ultimately show False by simp
  qed
qed

lemma preorder_distinct:
  assumes "wf_tree st"
  shows "distinct (preorder st flags s)"
proof (induction "nsvc st - s" arbitrary: s rule: less_induct)
  case less
  have IH: "distinct (preorder st flags c)" if "c \<in> set (kids st flags s)" for c
    by (rule less) (use kids_in(1,2) [OF assms that] in auto)
  have notin: "s \<notin> set (preorder st flags c)" if "c \<in> set (kids st flags s)" for c
    using preorder_up_closed [OF assms, of s flags c] kids_in(1) [OF assms that] by auto
  have "distinct (concat (map (preorder st flags) cs))"
    if "set cs \<subseteq> set (kids st flags s)" "distinct cs" for cs
    using that
  proof (induction cs)
    case (Cons c cs)
    have "set (preorder st flags c) \<inter> set (preorder st flags d) = {}" if "d \<in> set cs" for d
      by (rule preorder_kids_disjoint [OF assms, of _ _ s]) (use Cons.prems that in auto)
    with Cons IH show ?case by fastforce
  qed simp
  from this [OF order_refl kids_distinct [OF assms]] notin show ?case
    by (auto simp: preorder_rec [OF assms, of flags s])
qed

lemma preorder_bound: "wf_tree st \<Longrightarrow> s < nsvc st \<Longrightarrow> x \<in> set (preorder st flags s) \<Longrightarrow> x < nsvc st"
  using preorder_up_closed by fastforce

lemma preorder_length:
  assumes "wf_tree st" and "s < nsvc st"
  shows "length (preorder st flags s) \<le> nsvc st"
proof -
  have "length (preorder st flags s) = card (set (preorder st flags s))"
    using preorder_distinct [OF assms(1)] by (simp add: distinct_card)
  also have "\<dots> \<le> card {..<nsvc st}"
    by (rule card_mono) (use preorder_bound [OF assms] in auto)
  finally show ?thesis by simp
qed

text \<open>The end iterator of a cluster range lies outside of the cluster.\<close>

lemma up_owner:
  assumes "wf_tree st" and "next_parent_or_neighbour st s flags = Some e"
  shows "e \<noteq> s \<and> owner st (parent st e) < s"
  using assms(2)
proof (induction s rule: less_induct)
  case (less s)
  note w = wf_treeD [OF assms(1)]
  have nr: "s \<noteq> root st" using less.prems by (subst (asm) next_parent_or_neighbour_rec [OF assms(1)]) (auto split: if_splits)
  then have lt: "owner st (parent st s) < s" by (rule w(3))
  show ?case
  proof (cases "next_neighbour_or_child st s flags")
    case None
    with less.prems nr have "next_parent_or_neighbour st (owner st (parent st s)) flags = Some e"
      by (subst (asm) next_parent_or_neighbour_rec [OF assms(1)]) simp
    from less.IH [OF lt this] lt w(3) [of s] show ?thesis
      by (metis less_trans nat_neq_iff nr)
  next
    case (Some x)
    with less.prems nr have x: "next_neighbour_or_child st s flags = Some e"
      by (subst (asm) next_parent_or_neighbour_rec [OF assms(1)]) simp
    show ?thesis
    proof (cases "after s (p_children (prt st (parent st s)))")
      case (Cons n ns)
      then have e: "e = n" using x by (simp add: next_neighbour_or_child_def)
      have "n \<in> set (p_children (prt st (parent st s)))"
        using Cons set_after [of s "p_children (prt st (parent st s))"] by auto
      then have "parent st e = parent st s" using e w(7) by blast
      moreover have "n \<noteq> s"
        using after_Cons_after [OF w(6) Cons] Cons by (metis not_Cons_self)
      ultimately show ?thesis using lt e by simp
    next
      case Nil
      let ?ps = "after (parent st s) (s_parts (svc st (owner st (parent st s))))"
      have "first_of (concat (map (\<lambda>p. p_children (prt st p)) (filter (steps_into st flags) ?ps))) = Some e"
        using x Nil by (simp add: next_neighbour_or_child_def next_child_of_parts_eq)
      from first_of_in [OF this] obtain p where p: "p \<in> set ?ps" "e \<in> set (p_children (prt st p))" by auto
      have "p \<in> set (s_parts (svc st (owner st (parent st s))))" using p(1) set_after by fastforce
      then have oe: "owner st (parent st e) = owner st (parent st s)"
        using p(2) w(5,7) by metis
      have "e \<noteq> s"
      proof
        assume "e = s"
        then have "parent st s = p" using p(2) w(7) by blast
        moreover have "p \<notin> set (after p xs)" if "distinct xs" for xs
          using that by (induction xs) auto
        ultimately show False using p(1) w(4) by blast
      qed
      with oe lt show ?thesis by simp
    qed
  qed
qed

lemma up_notin_preorder:
  assumes "wf_tree st"
  shows "next_parent_or_neighbour st s flags \<notin> Some ` set (preorder st flags s)"
proof
  assume "next_parent_or_neighbour st s flags \<in> Some ` set (preorder st flags s)"
  then obtain e where e: "next_parent_or_neighbour st s flags = Some e" "e \<in> set (preorder st flags s)"
    by auto
  from up_owner [OF assms e(1)] have ne: "e \<noteq> s" and lt: "owner st (parent st e) < s" by auto
  from preorder_up_closed [OF assms e(2)] ne have "owner st (parent st e) \<in> set (preorder st flags s)" by auto
  then have "s \<le> owner st (parent st e)" using preorder_up_closed [OF assms] by blast
  with lt show False by simp
qed

lemma walk_preorder:
  assumes "wf_tree st" and "s < nsvc st"
  shows "walk (nsvc st) (\<lambda>x. next_child_or_up st x flags) (Some s) (next_parent_or_neighbour st s flags)
     = preorder st flags s"
  by (rule walk_spath [OF preorder_spath preorder_length up_notin_preorder]) (use assms in auto)

lemma cluster_members_preorder:
  assumes "wf_tree st" and "s < nsvc st" and "is_cluster_head st s"
  shows "cluster_members st s = preorder st it_only_imports s"
  using walk_preorder [OF assms(1,2), of it_only_imports] assms(3)
  by (simp add: cluster_members_def head_of_head)

lemma transitive_services_preorder:
  assumes "wf_tree st"
  shows "transitive_services st (root st) = preorder st it_all (root st)"
proof -
  have "next_parent_or_neighbour st (root st) it_all = None"
    by (subst next_parent_or_neighbour_rec [OF assms]) simp
  with walk_preorder [OF assms wf_treeD(1) [OF assms], of it_all] show ?thesis
    by (simp add: transitive_services_def)
qed

section \<open>What the ranges contain\<close>

text \<open>Every constructed service is in the child list of its parent part.\<close>

definition all_attached :: "'a store_scheme \<Rightarrow> bool" where
  "all_attached st \<longleftrightarrow>
     (\<forall>x<nsvc st. x \<noteq> root st \<longrightarrow> x \<in> set (p_children (prt st (parent st x))))"

lemma preorder_kids_closed:
  assumes "wf_tree st" and "y \<in> set (preorder st flags s)" and "x \<in> set (kids st flags y)"
  shows "x \<in> set (preorder st flags s)"
  using assms(2)
proof (induction "nsvc st - s" arbitrary: s rule: less_induct)
  case less
  show ?case
  proof (cases "y = s")
    case True
    with assms(3) show ?thesis
      using preorder_self [OF assms(1), of x flags]
      by (auto simp: preorder_rec [OF assms(1), of flags s])
  next
    case False
    with less.prems obtain c where c: "c \<in> set (kids st flags s)" "y \<in> set (preorder st flags c)"
      by (auto simp: preorder_rec [OF assms(1), of flags s])
    have "x \<in> set (preorder st flags c)"
      by (rule less.hyps [OF _ c(2)]) (use kids_in(1,2) [OF assms(1) c(1)] in auto)
    with c(1) show ?thesis by (auto simp: preorder_rec [OF assms(1), of flags s])
  qed
qed

lemma attached_kid:
  assumes "wf_tree st" and "all_attached st" and "x < nsvc st" and "x \<noteq> root st"
    and "steps_into st flags (parent st x)"
  shows "x \<in> set (kids st flags (owner st (parent st x)))"
proof -
  have x: "x \<in> set (p_children (prt st (parent st x)))" using assms(2-4) by (simp add: all_attached_def)
  then have "parent st x \<in> set (s_parts (svc st (owner st (parent st x))))"
    using wf_treeD(10) [OF assms(1)] by blast
  with x assms(5) show ?thesis by (auto simp: kids_def)
qed

lemma steps_into_imports [simp]: "steps_into st it_only_imports p \<longleftrightarrow> isa_import st p"
  by (simp add: steps_into_def export_or_import it_only_imports_def bs_of_list_def bs_insert_def
      set_or_def mask_of_def contains_def has_mask_def it_exports_def it_imports_def empty_mask_def)

lemma steps_into_both [simp]: "steps_into st it_both p"
  by (simp add: steps_into_def it_both_def bs_of_list_def bs_insert_def
      set_or_def mask_of_def contains_def has_mask_def it_exports_def it_imports_def empty_mask_def)

lemma steps_into_all [simp]: "steps_into st it_all p"
  by (simp add: steps_into_def it_all_def full_mask_def mask_of_def contains_def has_mask_def
      it_exports_def it_imports_def)

lemma head_lt:
  assumes "wf_heads st" and "isa_import st (parent st x)"
  shows "x \<noteq> root st" and "owner st (parent st x) < x"
proof -
  show "x \<noteq> root st" using assms by (auto simp: wf_heads_def is_cluster_head_def export_or_import)
  then show "owner st (parent st x) < x" using assms(1) by (simp add: wf_heads_def wf_treeD)
qed

lemma set_preorder_cluster:
  assumes "wf_heads st" and "all_attached st" and "s < nsvc st" and "is_cluster_head st s"
  shows "set (preorder st it_only_imports s) = {x. x < nsvc st \<and> get_cluster_head_of st x = s}"
proof -
  have wf: "wf_tree st" using assms(1) by (simp add: wf_heads_def)
  have "x \<in> set (preorder st it_only_imports s) \<longleftrightarrow> x < nsvc st \<and> get_cluster_head_of st x = s" for x
  proof (induction x rule: less_induct)
    case (less x)
    show ?case
    proof (cases "x = s")
      case True
      with wf assms(3,4) show ?thesis by (simp add: preorder_self head_of_head)
    next
      case False
      note up = preorder_up_closed [OF wf, of x it_only_imports s]
      show ?thesis
      proof (cases "isa_import st (parent st x)")
        case True
        note lt = head_lt [OF assms(1) True]
        have rec: "get_cluster_head_of st x = get_cluster_head_of st (owner st (parent st x))"
          using get_cluster_head_of_rec [OF assms(1), of x] True by simp
        have "x < nsvc st \<Longrightarrow> owner st (parent st x) \<in> set (preorder st it_only_imports s)
            \<Longrightarrow> x \<in> set (preorder st it_only_imports s)"
          by (rule preorder_kids_closed [OF wf], assumption, rule attached_kid [OF wf assms(2)])
            (use True lt in auto)
        with less.IH [OF lt(2)] up False lt rec show ?thesis by auto
      next
        case nimp: False
        then have "get_cluster_head_of st x = x"
          using get_cluster_head_of_rec [OF assms(1), of x] by simp
        with up False nimp show ?thesis by auto
      qed
    qed
  qed
  then show ?thesis by blast
qed

lemma preorder_flags_eq:
  assumes "\<And>p. steps_into st f p = steps_into st g p"
  shows "preorder st f s = preorder st g s"
proof (induction "nsvc st - s" arbitrary: s rule: less_induct)
  case less
  have "steps_into st f = steps_into st g" by (rule ext) (rule assms)
  then have k: "kids st f s = kids st g s" by (simp add: kids_def)
  have "(if s < c \<and> c < nsvc st then preorder st f c else []) = (if s < c \<and> c < nsvc st then preorder st g c else [])" for c
    using less [of c] by auto
  then show ?case unfolding preorder.simps [of st f s] preorder.simps [of st g s] k by simp
qed

lemma cluster_step_spath:
  assumes "spath (\<lambda>x. next_child_or_up st x it_both) (next_child_or_up st s it_both) xs None"
    and "length xs < n"
  shows "cluster_step n st s = first_of (filter (is_cluster_head st) xs)"
  using assms
proof (induction xs arbitrary: s n)
  case Nil
  then show ?case by (cases n) auto
next
  case (Cons a as)
  then show ?case by (cases n) auto
qed

lemma clusters_spath:
  assumes "spath (\<lambda>x. next_child_or_up st x it_both) x xs None" and "length xs \<le> n"
  shows "spath (cluster_step n st) (first_of (filter (is_cluster_head st) xs)) (filter (is_cluster_head st) xs) None"
  using assms
proof (induction xs arbitrary: x)
  case (Cons a as)
  then have "cluster_step n st a = first_of (filter (is_cluster_head st) as)"
    by (intro cluster_step_spath) auto
  with Cons show ?case by auto
qed simp

lemma clusters_preorder:
  assumes "wf_heads st"
  shows "clusters st (root st) = filter (is_cluster_head st) (preorder st it_both (root st))"
proof -
  have wf: "wf_tree st" and rt: "is_cluster_head st (root st)" using assms by (auto simp: wf_heads_def)
  have up: "next_parent_or_neighbour st (root st) it_both = None"
    by (subst next_parent_or_neighbour_rec [OF wf]) simp
  let ?xs = "preorder st it_both (root st)"
  have len: "length ?xs \<le> nsvc st" by (rule preorder_length [OF wf wf_treeD(1) [OF wf]])
  have sp: "spath (cluster_step (nsvc st) st) (first_of (filter (is_cluster_head st) ?xs))
      (filter (is_cluster_head st) ?xs) None"
    by (rule clusters_spath) (use preorder_spath [OF wf, of it_both "root st"] up len in auto)
  moreover have "first_of (filter (is_cluster_head st) ?xs) = Some (root st)"
    using rt by (simp add: preorder_rec [OF wf, of it_both "root st"])
  ultimately show ?thesis
    unfolding clusters_def up using len
    by (intro walk_spath) (auto intro: le_trans [OF length_filter_le])
qed

subsection \<open>Post-order\<close>













lemma set_preorder_root:
  assumes "wf_tree st" and "all_attached st" and "\<And>p. steps_into st flags p"
  shows "set (preorder st flags (root st)) = {..<nsvc st}"
proof -
  have "x \<in> set (preorder st flags (root st))" if "x < nsvc st" for x
    using that
  proof (induction x rule: less_induct)
    case (less x)
    show ?case
    proof (cases "x = root st")
      case True
      then show ?thesis by (simp add: preorder_self [OF assms(1)])
    next
      case False
      have lt: "owner st (parent st x) < x" using False by (rule wf_treeD(3) [OF assms(1)])
      have "owner st (parent st x) \<in> set (preorder st flags (root st))"
        by (rule less.IH) (use lt less.prems in auto)
      then show ?thesis
        by (rule preorder_kids_closed [OF assms(1)])
          (rule attached_kid [OF assms(1,2) less.prems False assms(3)])
    qed
  qed
  then show ?thesis
    using preorder_bound [OF assms(1) wf_treeD(1) [OF assms(1)]] by auto
qed


section \<open>Properties\<close>

text \<open>
  An example store: the root 0 owns a container with the services 1 and 3, the service 1
  imports through a part that owns the service 2 and has an export part without children.
\<close>

definition ex_store :: store where
  "ex_store =
    \<lparr>svc = (\<lambda>s. (init_service (if s = 2 then 1 else 0))
             \<lparr>s_parts := (if s = 0 then [0] else if s = 1 then [1, 2] else [])\<rparr>),
     prt = (\<lambda>p. \<lparr>p_kind = (if p = 1 then kImport else if p = 0 then kInterface else kExport),
             p_owner = (if p = 1 \<or> p = 2 then 1 else 0),
             p_children = (if p = 0 then [1, 3] else if p = 1 then [2] else []),
             p_users = [], p_imports = [], p_satisfied = False\<rparr>),
     usg = (\<lambda>u. \<lparr>u_used = 0, u_user = 0, u_flags = 0\<rparr>),
     clu = (\<lambda>c. init_cluster False), root = 0, nsvc = 4\<rparr>"

lemma wf_heads_ex_store: "wf_heads ex_store"
  by (auto simp: wf_heads_def wf_tree_def ex_store_def init_service_def is_cluster_head_def isa_export_def)

lemma all_attached_ex_store: "all_attached ex_store"
  by (auto simp: all_attached_def ex_store_def init_service_def)

text \<open>
  C29. The range \<open>cluster_members\<close> of a cluster head visits exactly the services whose
  cluster head it is, each of them once, although the iterator follows parent, part and
  neighbour pointers and recognises the end of the range only by comparing pointers.
\<close>

theorem cluster_members_exact:
  assumes "wf_heads st" and "all_attached st" and "s < nsvc st" and "is_cluster_head st s"
  shows "distinct (cluster_members st s)
    \<and> set (cluster_members st s) = {x. x < nsvc st \<and> get_cluster_head_of st x = s}"
proof -
  have wf: "wf_tree st" using assms(1) by (simp add: wf_heads_def)
  show ?thesis
    unfolding cluster_members_preorder [OF wf assms(3,4)]
    by (simp add: preorder_distinct [OF wf] set_preorder_cluster [OF assms])
qed

theorem cluster_members_exact_witness:
  "distinct (cluster_members ex_store 1)
    \<and> set (cluster_members ex_store 1) = {x. x < nsvc ex_store \<and> get_cluster_head_of ex_store x = 1}"
  by (rule cluster_members_exact [OF wf_heads_ex_store all_attached_ex_store])
    (simp_all add: ex_store_def is_cluster_head_def isa_export_def init_service_def)

text \<open>
  From the root, \<open>transitive_services\<close> visits every service once and \<open>clusters\<close>
  visits every cluster head once.
\<close>

theorem clusters_exact:
  assumes "wf_heads st" and "all_attached st"
  shows "distinct (transitive_services st (root st)) \<and> set (transitive_services st (root st)) = {..<nsvc st}
    \<and> distinct (clusters st (root st))
    \<and> set (clusters st (root st)) = {x. x < nsvc st \<and> is_cluster_head st x}"
proof -
  have wf: "wf_tree st" using assms(1) by (simp add: wf_heads_def)
  show ?thesis
    unfolding transitive_services_preorder [OF wf] clusters_preorder [OF assms(1)]
    using set_preorder_root [OF wf assms(2), of it_all] set_preorder_root [OF wf assms(2), of it_both]
    by (auto simp: preorder_distinct [OF wf])
qed

theorem clusters_exact_witness:
  "distinct (transitive_services ex_store (root ex_store))
    \<and> set (transitive_services ex_store (root ex_store)) = {..<nsvc ex_store}
    \<and> distinct (clusters ex_store (root ex_store))
    \<and> set (clusters ex_store (root ex_store)) = {x. x < nsvc ex_store \<and> is_cluster_head ex_store x}"
  by (rule clusters_exact [OF wf_heads_ex_store all_attached_ex_store])



end
