(* ===== verification/Dep_Graph.thy ===== *)
theory Dep_Graph
  imports Service_Iterators
begin

text \<open>
  The dependency graphs of src/include/idle/core/graph.hpp and src/lib/idle/core/graph.cpp. A node
  is a service, an import part, an export part or a usage; the edges are never stored but computed
  from the pointers by three functions per node kind and direction: \<open>begin\<close>, \<open>advance\<close> and
  \<open>degree\<close> (\<open>edge_trait_t\<close>). The theory models these functions with their assertions, the iterators
  on top of them and the graphs over nodes, services and clusters, and compares
  them with a closed form, the list of neighbours of a node.
\<close>

section \<open>Flags\<close>

definition gf_child_importer :: nat where "gf_child_importer = 0"
definition gf_owner_exporter :: nat where "gf_owner_exporter = 1"
definition gf_exporter_child :: nat where "gf_exporter_child = 2"
definition gf_exporter_usage :: nat where "gf_exporter_usage = 3"
definition gf_importer_owner :: nat where "gf_importer_owner = 4"
definition gf_usage_importer :: nat where "gf_usage_importer = 5"
definition gf_usage_strong :: nat where "gf_usage_strong = 6"
definition gf_usage_weak :: nat where "gf_usage_weak = 7"

definition has_child_importer_edge :: "mask \<Rightarrow> bool" where
  "has_child_importer_edge fl \<longleftrightarrow> \<not> contains fl gf_child_importer"

definition has_owner_exporter_edge :: "mask \<Rightarrow> bool" where
  "has_owner_exporter_edge fl \<longleftrightarrow> \<not> contains fl gf_owner_exporter"

definition has_exporter_child_edge :: "mask \<Rightarrow> bool" where
  "has_exporter_child_edge fl \<longleftrightarrow> \<not> contains fl gf_exporter_child"

definition has_any_usage_edge :: "mask \<Rightarrow> bool" where
  "has_any_usage_edge fl \<longleftrightarrow> \<not> contains_all fl (bs_of_list [gf_usage_weak, gf_usage_strong])"

definition has_all_usage_edge :: "mask \<Rightarrow> bool" where
  "has_all_usage_edge fl \<longleftrightarrow> \<not> contains_any fl (bs_of_list [gf_usage_weak, gf_usage_strong])"

definition has_exporter_usage_edge :: "mask \<Rightarrow> bool" where
  "has_exporter_usage_edge fl \<longleftrightarrow> \<not> contains fl gf_exporter_usage \<and> has_any_usage_edge fl"

definition has_importer_owner_edge :: "mask \<Rightarrow> bool" where
  "has_importer_owner_edge fl \<longleftrightarrow> \<not> contains fl gf_importer_owner"

definition has_usage_importer_edge :: "mask \<Rightarrow> bool" where
  "has_usage_importer_edge fl \<longleftrightarrow> \<not> contains fl gf_usage_importer \<and> has_any_usage_edge fl"

definition has_usage_weak_edge :: "mask \<Rightarrow> bool" where
  "has_usage_weak_edge fl \<longleftrightarrow> \<not> contains fl gf_usage_weak"

definition has_usage_strong_edge :: "mask \<Rightarrow> bool" where
  "has_usage_strong_edge fl \<longleftrightarrow> \<not> contains fl gf_usage_strong"

definition service_graph :: mask where
  "service_graph = bs_of_list [gf_owner_exporter, gf_importer_owner]"

definition cluster_graph :: mask where
  "cluster_graph = bs_of_list [gf_exporter_child, gf_usage_importer, gf_exporter_usage]"

definition external_graph :: mask where
  "external_graph = bs_of_list [gf_child_importer]"

definition weak_usage_graph :: mask where
  "weak_usage_graph = bs_of_list [gf_usage_strong]"

definition strong_usage_graph :: mask where
  "strong_usage_graph = bs_of_list [gf_usage_weak]"

section \<open>Nodes and edges\<close>

datatype node = NService sid | NImport pid | NExport pid | NUsage uid

datatype dir = dir_out | dir_in

type_synonym edge = "node \<times> node"

definition from_part :: "'a store_scheme \<Rightarrow> pid \<Rightarrow> node" where
  "from_part st p = (if isa_import st p then NImport p else NExport p)"

fun has_owner :: "node \<Rightarrow> bool" where
  "has_owner (NUsage u) = False"
| "has_owner n = True"

fun node_owner :: "'a store_scheme \<Rightarrow> node \<Rightarrow> sid res" where
  "node_owner st (NService s) = Inr s"
| "node_owner st (NImport p) = Inr (owner st p)"
| "node_owner st (NExport p) = Inr (owner st p)"
| "node_owner st (NUsage u) = Inl Unreachable"

fun iteration_node_of :: "dir \<Rightarrow> edge \<Rightarrow> node" where
  "iteration_node_of dir_out e = fst e"
| "iteration_node_of dir_in e = snd e"

fun current_itr_of :: "dir \<Rightarrow> edge \<Rightarrow> node" where
  "current_itr_of dir_out e = snd e"
| "current_itr_of dir_in e = fst e"

fun make_edge :: "dir \<Rightarrow> node \<Rightarrow> node \<Rightarrow> edge" where
  "make_edge dir_out n itr = (n, itr)"
| "make_edge dir_in n itr = (itr, n)"

datatype edge_relation = implicit | rel_parent | dependency

fun is_exporter :: "node \<Rightarrow> bool" where
  "is_exporter (NExport p) = True"
| "is_exporter n = False"

fun is_usage :: "node \<Rightarrow> bool" where
  "is_usage (NUsage u) = True"
| "is_usage n = False"

fun relation_of :: "edge \<Rightarrow> edge_relation" where
  "relation_of (src, NService s) = (if is_exporter src then rel_parent else implicit)"
| "relation_of (src, NImport p) = (if is_usage src then dependency else implicit)"
| "relation_of (src, NExport p) = implicit"
| "relation_of (src, NUsage u) = dependency"

definition edge_relation_between :: "guid \<Rightarrow> guid \<Rightarrow> edge_relation" where
  "edge_relation_between src tgt =
     (if guid_cluster src = guid_cluster tgt then implicit
      else if isCluster tgt then rel_parent else dependency)"

fun edge_is_active :: "'a store_scheme \<Rightarrow> edge \<Rightarrow> bool" where
  "edge_is_active st (NUsage u, t) = isRunning st (owner st (u_used (usg st u)))"
| "edge_is_active st (NService s, t) = isRunning st s"
| "edge_is_active st (NImport p, t) = isRunning st (owner st p)"
| "edge_is_active st (NExport p, t) = isRunning st (owner st p)"

fun edge_isWeak :: "'a store_scheme \<Rightarrow> edge \<Rightarrow> bool" where
  "edge_isWeak st (NUsage u, t) = isWeak st u"
| "edge_isWeak st (src, NUsage u) = isWeak st u"
| "edge_isWeak st (src, t) = False"

section \<open>The edge traits\<close>

definition filter_usages :: "'a store_scheme \<Rightarrow> mask \<Rightarrow> uid list \<Rightarrow> uid list res" where
  "filter_usages st fl us =
     check (has_any_usage_edge fl \<and> \<not> has_all_usage_edge fl
            \<and> (\<not> has_usage_weak_edge fl \<or> \<not> has_usage_strong_edge fl)
            \<and> (has_usage_weak_edge fl \<or> has_usage_strong_edge fl))
       (filter (\<lambda>u. has_usage_weak_edge fl = isWeak st u) us)"

definition usages_of :: "'a store_scheme \<Rightarrow> mask \<Rightarrow> uid list \<Rightarrow> uid list res" where
  "usages_of st fl us = (if has_all_usage_edge fl then Inr us else filter_usages st fl us)"

definition first_child :: "'a store_scheme \<Rightarrow> sid list \<Rightarrow> node option res" where
  "first_child st cs =
     (case cs of [] \<Rightarrow> Inr None | c # _ \<Rightarrow> check (isInitializedUnsafe st c) (Some (NService c)))"

definition first_usage :: "'a store_scheme \<Rightarrow> mask \<Rightarrow> uid list \<Rightarrow> node option res" where
  "first_usage st fl us = bind (usages_of st fl us) (\<lambda>vs. Inr (map_option NUsage (first_of vs)))"

text \<open>The test a usage node applies to itself.\<close>

definition usage_selected :: "'a store_scheme \<Rightarrow> mask \<Rightarrow> uid \<Rightarrow> bool" where
  "usage_selected st fl u \<longleftrightarrow>
     (has_usage_weak_edge fl \<or> \<not> isWeak st u) \<and> (has_usage_strong_edge fl \<or> isWeak st u)"

subsection \<open>Services\<close>

fun has_parent_edge :: "dir \<Rightarrow> 'a store_scheme \<Rightarrow> sid \<Rightarrow> mask \<Rightarrow> bool" where
  "has_parent_edge dir_out st s fl \<longleftrightarrow>
     isa_import st (parent st s) \<and> has_child_importer_edge fl \<and> \<not> isRoot st s"
| "has_parent_edge dir_in st s fl \<longleftrightarrow>
     isa_export st (parent st s) \<and> has_exporter_child_edge fl \<and> \<not> isRoot st s"

fun service_begin :: "dir \<Rightarrow> 'a store_scheme \<Rightarrow> sid \<Rightarrow> mask \<Rightarrow> node option" where
  "service_begin dir_out st s fl =
     (if has_parent_edge dir_out st s fl then Some (NImport (parent st s))
      else if has_owner_exporter_edge fl then map_option NExport (first_of (exports_of st s))
      else None)"
| "service_begin dir_in st s fl =
     (if has_parent_edge dir_in st s fl then Some (NExport (parent st s))
      else if has_importer_owner_edge fl then map_option NImport (first_of (imports_of st s))
      else None)"

definition exportNeighbors_next :: "'a store_scheme \<Rightarrow> pid \<Rightarrow> pid list" where
  "exportNeighbors_next st p = filter (isa_export st) (after p (s_parts (svc st (owner st p))))"

definition importNeighbors_next :: "'a store_scheme \<Rightarrow> pid \<Rightarrow> pid list" where
  "importNeighbors_next st p = filter (isa_import st) (after p (s_parts (svc st (owner st p))))"

fun service_advance :: "dir \<Rightarrow> 'a store_scheme \<Rightarrow> sid \<Rightarrow> node \<Rightarrow> mask \<Rightarrow> node option res" where
  "service_advance dir_out st s itr fl =
     (if has_owner_exporter_edge fl then
        case itr of
          NImport p \<Rightarrow> check (parent st s = p \<and> has_parent_edge dir_out st s fl)
                         (map_option NExport (first_of (exports_of st s)))
        | NExport p \<Rightarrow> Inr (map_option NExport (first_of (exportNeighbors_next st p)))
        | _ \<Rightarrow> Inl Unreachable
      else Inr None)"
| "service_advance dir_in st s itr fl =
     (if has_importer_owner_edge fl then
        case itr of
          NExport p \<Rightarrow> check (parent st s = p \<and> has_parent_edge dir_in st s fl)
                         (map_option NImport (first_of (imports_of st s)))
        | NImport p \<Rightarrow> Inr (map_option NImport (first_of (importNeighbors_next st p)))
        | _ \<Rightarrow> Inl Unreachable
      else Inr None)"

fun service_degree :: "dir \<Rightarrow> 'a store_scheme \<Rightarrow> sid \<Rightarrow> mask \<Rightarrow> nat" where
  "service_degree dir_out st s fl =
     (if has_parent_edge dir_out st s fl then 1 else 0)
     + (if has_owner_exporter_edge fl then length (exports_of st s) else 0)"
| "service_degree dir_in st s fl =
     (if has_parent_edge dir_in st s fl then 1 else 0)
     + (if has_importer_owner_edge fl then length (imports_of st s) else 0)"

subsection \<open>Imports\<close>

text \<open>The incoming \<open>begin\<close> takes the first imported usage as it is, whatever kind the flags select.\<close>

fun import_begin :: "dir \<Rightarrow> 'a store_scheme \<Rightarrow> pid \<Rightarrow> mask \<Rightarrow> node option res" where
  "import_begin dir_out st p fl =
     (if has_importer_owner_edge fl then Inr (Some (NService (owner st p))) else Inr None)"
| "import_begin dir_in st p fl =
     bind (if has_child_importer_edge fl then first_child st (p_children (prt st p)) else Inr None)
       (\<lambda>r. case r of
          Some n \<Rightarrow> Inr (Some n)
        | None \<Rightarrow> if has_usage_importer_edge fl
                  then Inr (map_option NUsage (first_of (p_imports (prt st p)))) else Inr None)"

fun import_advance :: "dir \<Rightarrow> 'a store_scheme \<Rightarrow> pid \<Rightarrow> node \<Rightarrow> mask \<Rightarrow> node option res" where
  "import_advance dir_out st p itr fl = Inr None"
| "import_advance dir_in st p itr fl =
     (case itr of
        NService c \<Rightarrow>
          if \<not> has_child_importer_edge fl then Inl AssertFailed
          else bind (first_child st (after c (p_children (prt st (parent st c))))) (\<lambda>r. case r of
             Some n \<Rightarrow> Inr (Some n)
           | None \<Rightarrow> if has_usage_importer_edge fl
                     then first_usage st fl (p_imports (prt st p)) else Inr None)
      | NUsage u \<Rightarrow>
          if \<not> (has_usage_importer_edge fl \<and> usage_selected st fl u) then Inl AssertFailed
          else first_usage st fl (after u (p_imports (prt st (u_user (usg st u)))))
      | _ \<Rightarrow> Inl Unreachable)"

fun import_degree :: "dir \<Rightarrow> 'a store_scheme \<Rightarrow> pid \<Rightarrow> mask \<Rightarrow> nat res" where
  "import_degree dir_out st p fl = Inr (if has_importer_owner_edge fl then 1 else 0)"
| "import_degree dir_in st p fl =
     bind (if has_usage_importer_edge fl then usages_of st fl (p_imports (prt st p)) else Inr []) (\<lambda>us.
       Inr ((if has_child_importer_edge fl then length (p_children (prt st p)) else 0) + length us))"

subsection \<open>Exports\<close>

text \<open>The outgoing \<open>advance\<close> from the last child takes the first exported usage as it is.\<close>

fun export_begin :: "dir \<Rightarrow> 'a store_scheme \<Rightarrow> pid \<Rightarrow> mask \<Rightarrow> node option res" where
  "export_begin dir_out st p fl =
     bind (if has_exporter_child_edge fl then first_child st (p_children (prt st p)) else Inr None)
       (\<lambda>r. case r of
          Some n \<Rightarrow> Inr (Some n)
        | None \<Rightarrow> if has_exporter_usage_edge fl
                  then first_usage st fl (p_users (prt st p)) else Inr None)"
| "export_begin dir_in st p fl =
     (if has_owner_exporter_edge fl then Inr (Some (NService (owner st p))) else Inr None)"

fun export_advance :: "dir \<Rightarrow> 'a store_scheme \<Rightarrow> pid \<Rightarrow> node \<Rightarrow> mask \<Rightarrow> node option res" where
  "export_advance dir_out st p itr fl =
     (case itr of
        NService c \<Rightarrow>
          if \<not> has_exporter_child_edge fl then Inl AssertFailed
          else bind (first_child st (after c (p_children (prt st (parent st c))))) (\<lambda>r. case r of
             Some n \<Rightarrow> Inr (Some n)
           | None \<Rightarrow> if has_exporter_usage_edge fl
                     then Inr (map_option NUsage (first_of (p_users (prt st p)))) else Inr None)
      | NUsage u \<Rightarrow>
          if \<not> (has_exporter_usage_edge fl \<and> usage_selected st fl u) then Inl AssertFailed
          else first_usage st fl (after u (p_users (prt st (u_used (usg st u)))))
      | _ \<Rightarrow> Inl Unreachable)"
| "export_advance dir_in st p itr fl = check (has_owner_exporter_edge fl) None"

fun export_degree :: "dir \<Rightarrow> 'a store_scheme \<Rightarrow> pid \<Rightarrow> mask \<Rightarrow> nat res" where
  "export_degree dir_out st p fl =
     bind (if has_exporter_usage_edge fl then usages_of st fl (p_users (prt st p)) else Inr []) (\<lambda>us.
       Inr ((if has_exporter_child_edge fl then length (p_children (prt st p)) else 0) + length us))"
| "export_degree dir_in st p fl = Inr (if has_owner_exporter_edge fl then 1 else 0)"

subsection \<open>Usages\<close>

fun usage_begin :: "dir \<Rightarrow> 'a store_scheme \<Rightarrow> uid \<Rightarrow> mask \<Rightarrow> node option res" where
  "usage_begin dir_out st u fl =
     (if has_usage_importer_edge fl \<and> usage_selected st fl u
      then check (owner st (u_user (usg st u)) \<noteq> owner st (u_used (usg st u))) (Some (NImport (u_user (usg st u))))
      else Inr None)"
| "usage_begin dir_in st u fl =
     (if has_exporter_usage_edge fl \<and> usage_selected st fl u
      then check (owner st (u_user (usg st u)) \<noteq> owner st (u_used (usg st u))) (Some (NExport (u_used (usg st u))))
      else Inr None)"

fun usage_advance :: "dir \<Rightarrow> 'a store_scheme \<Rightarrow> uid \<Rightarrow> node \<Rightarrow> mask \<Rightarrow> node option res" where
  "usage_advance dir_out st u itr fl = check (has_usage_importer_edge fl \<and> usage_selected st fl u) None"
| "usage_advance dir_in st u itr fl = check (has_exporter_usage_edge fl \<and> usage_selected st fl u) None"

fun usage_degree :: "dir \<Rightarrow> 'a store_scheme \<Rightarrow> uid \<Rightarrow> mask \<Rightarrow> nat" where
  "usage_degree dir_out st u fl = (if has_usage_importer_edge fl \<and> usage_selected st fl u then 1 else 0)"
| "usage_degree dir_in st u fl = (if has_exporter_usage_edge fl \<and> usage_selected st fl u then 1 else 0)"

subsection \<open>Dispatch over the node\<close>

fun trait_begin :: "dir \<Rightarrow> 'a store_scheme \<Rightarrow> node \<Rightarrow> mask \<Rightarrow> node option res" where
  "trait_begin d st (NService s) fl = Inr (service_begin d st s fl)"
| "trait_begin d st (NImport p) fl = import_begin d st p fl"
| "trait_begin d st (NExport p) fl = export_begin d st p fl"
| "trait_begin d st (NUsage u) fl = usage_begin d st u fl"

fun trait_advance :: "dir \<Rightarrow> 'a store_scheme \<Rightarrow> node \<Rightarrow> node \<Rightarrow> mask \<Rightarrow> node option res" where
  "trait_advance d st (NService s) itr fl = service_advance d st s itr fl"
| "trait_advance d st (NImport p) itr fl = import_advance d st p itr fl"
| "trait_advance d st (NExport p) itr fl = export_advance d st p itr fl"
| "trait_advance d st (NUsage u) itr fl = usage_advance d st u itr fl"

fun node_degree :: "dir \<Rightarrow> 'a store_scheme \<Rightarrow> node \<Rightarrow> mask \<Rightarrow> nat res" where
  "node_degree d st (NService s) fl = Inr (service_degree d st s fl)"
| "node_degree d st (NImport p) fl = import_degree d st p fl"
| "node_degree d st (NExport p) fl = export_degree d st p fl"
| "node_degree d st (NUsage u) fl = Inr (usage_degree d st u fl)"

definition first_edge_of :: "dir \<Rightarrow> 'a store_scheme \<Rightarrow> node \<Rightarrow> mask \<Rightarrow> edge option res" where
  "first_edge_of d st n fl = bind (trait_begin d st n fl) (\<lambda>r. Inr (map_option (make_edge d n) r))"

definition advance_edge :: "dir \<Rightarrow> 'a store_scheme \<Rightarrow> edge \<Rightarrow> mask \<Rightarrow> edge option res" where
  "advance_edge d st e fl =
     bind (trait_advance d st (iteration_node_of d e) (current_itr_of d e) fl)
       (\<lambda>r. Inr (map_option (make_edge d (iteration_node_of d e)) r))"

section \<open>Ranges\<close>

text \<open>
  The elements of an iterator range: \<open>None\<close> when the iteration does not end, an error when
  an increment violates an assertion.
\<close>

partial_function (option) collect :: "('b \<Rightarrow> 'b option res) \<Rightarrow> 'b option res \<Rightarrow> 'b list res option" where
  [code]: "collect step cur =
     (case cur of
        Inl e \<Rightarrow> Some (Inl e)
      | Inr None \<Rightarrow> Some (Inr [])
      | Inr (Some x) \<Rightarrow>
          Option.bind (collect step (step x)) (\<lambda>r. Some (bind r (\<lambda>xs. Inr (x # xs)))))"

definition out_edges :: "'a store_scheme \<Rightarrow> node \<Rightarrow> mask \<Rightarrow> edge list res option" where
  "out_edges st v fl = collect (\<lambda>e. advance_edge dir_out st e fl) (first_edge_of dir_out st v fl)"

definition in_edges :: "'a store_scheme \<Rightarrow> node \<Rightarrow> mask \<Rightarrow> edge list res option" where
  "in_edges st v fl = collect (\<lambda>e. advance_edge dir_in st e fl) (first_edge_of dir_in st v fl)"

definition out_degree :: "'a store_scheme \<Rightarrow> node \<Rightarrow> mask \<Rightarrow> nat res" where
  "out_degree st v fl = node_degree dir_out st v fl"

definition in_degree :: "'a store_scheme \<Rightarrow> node \<Rightarrow> mask \<Rightarrow> nat res" where
  "in_degree st v fl = node_degree dir_in st v fl"

subsection \<open>The nodes of the graph\<close>

definition next_from_service :: "'a store_scheme \<Rightarrow> sid \<Rightarrow> node option" where
  "next_from_service st s = map_option NService (next_child_or_up st s it_all)"

definition part_or_next :: "'a store_scheme \<Rightarrow> sid \<Rightarrow> pid list \<Rightarrow> node option" where
  "part_or_next st s ps =
     (case ps of q # _ \<Rightarrow> Some (from_part st q) | [] \<Rightarrow> next_from_service st s)"

fun node_increment :: "'a store_scheme \<Rightarrow> node \<Rightarrow> node option" where
  "node_increment st (NService s) = part_or_next st s (s_parts (svc st s))"
| "node_increment st (NImport p) =
     part_or_next st (owner st p) (after p (s_parts (svc st (owner st p))))"
| "node_increment st (NExport p) =
     (case p_users (prt st p) of
        u # _ \<Rightarrow> Some (NUsage u)
      | [] \<Rightarrow> part_or_next st (owner st p) (after p (s_parts (svc st (owner st p)))))"
| "node_increment st (NUsage u) =
     (let p = u_used (usg st u) in
      case after u (p_users (prt st p)) of
        v # _ \<Rightarrow> Some (NUsage v)
      | [] \<Rightarrow> part_or_next st (owner st p) (after p (s_parts (svc st (owner st p)))))"

definition vertices :: "'a store_scheme \<Rightarrow> node list res option" where
  "vertices st = collect (\<lambda>n. Inr (node_increment st n)) (Inr (Some (NService (root st))))"

text \<open>A search loop over the nodes that stops at the first edge.\<close>

partial_function (option) first_edge_in_range ::
  "dir \<Rightarrow> 'a store_scheme \<Rightarrow> node option \<Rightarrow> mask \<Rightarrow> edge option res option" where
  [code]: "first_edge_in_range d st cur fl =
     (case cur of
        None \<Rightarrow> Some (Inr None)
      | Some n \<Rightarrow>
         (case first_edge_of d st n fl of
            Inl e \<Rightarrow> Some (Inl e)
          | Inr (Some e) \<Rightarrow> Some (Inr (Some e))
          | Inr None \<Rightarrow> first_edge_in_range d st (node_increment st n) fl))"

definition edge_increment :: "'a store_scheme \<Rightarrow> mask \<Rightarrow> edge \<Rightarrow> edge option res option" where
  "edge_increment st fl e =
     (case advance_edge dir_out st e fl of
        Inl er \<Rightarrow> Some (Inl er)
      | Inr (Some e') \<Rightarrow> Some (Inr (Some e'))
      | Inr None \<Rightarrow> first_edge_in_range dir_out st (node_increment st (iteration_node_of dir_out e)) fl)"

section \<open>Service and cluster graphs\<close>

fun next_child_node :: "'a store_scheme \<Rightarrow> node \<Rightarrow> node option res" where
  "next_child_node st (NService s) =
     Inr (case imports_of st s of
            p # _ \<Rightarrow> Some (NImport p)
          | [] \<Rightarrow> map_option NExport (first_of (exports_of st s)))"
| "next_child_node st (NImport p) =
     Inr (case importNeighbors_next st p of
            q # _ \<Rightarrow> Some (NImport q)
          | [] \<Rightarrow> map_option NExport (first_of (exports_of st (owner st p))))"
| "next_child_node st (NExport p) = Inr (map_option NExport (first_of (exportNeighbors_next st p)))"
| "next_child_node st (NUsage u) = Inl Unreachable"

text \<open>The nodes of a service from a given one on; \<open>inner_nodes\<close> starts at the service.\<close>

definition inner_range :: "'a store_scheme \<Rightarrow> node \<Rightarrow> node list res option" where
  "inner_range st n = collect (next_child_node st) (Inr (Some n))"

fun first_edge_of_list :: "dir \<Rightarrow> 'a store_scheme \<Rightarrow> node list \<Rightarrow> mask \<Rightarrow> edge option res" where
  "first_edge_of_list d st [] fl = Inr None"
| "first_edge_of_list d st (n # ns) fl =
     bind (first_edge_of d st n fl) (\<lambda>r. case r of
        Some e \<Rightarrow> Inr (Some e)
      | None \<Rightarrow> first_edge_of_list d st ns fl)"

text \<open>Using the elements of a range: an iteration that does not end does not return.\<close>

definition lift_range :: "'b list res option \<Rightarrow> ('b list \<Rightarrow> 'c res) \<Rightarrow> 'c res" where
  "lift_range r f = bind (lift_opt r) f"

lemma lift_opt_eq_Inr: "lift_opt r = Inr x \<longleftrightarrow> r = Some (Inr x)"
  by (auto simp: lift_opt_def split: option.splits)

definition first_outer_edge_of :: "dir \<Rightarrow> 'a store_scheme \<Rightarrow> sid \<Rightarrow> mask \<Rightarrow> edge option res" where
  "first_outer_edge_of d st s fl =
     lift_range (inner_range st (NService s)) (\<lambda>ns. first_edge_of_list d st ns fl)"

fun first_outer_edge_in_range :: "dir \<Rightarrow> 'a store_scheme \<Rightarrow> sid list \<Rightarrow> mask \<Rightarrow> edge option res" where
  "first_outer_edge_in_range d st [] fl = Inr None"
| "first_outer_edge_in_range d st (s # ss) fl =
     bind (first_outer_edge_of d st s fl) (\<lambda>r. case r of
        Some e \<Rightarrow> Inr (Some e)
      | None \<Rightarrow> first_outer_edge_in_range d st ss fl)"

definition advance_outer_edge :: "dir \<Rightarrow> 'a store_scheme \<Rightarrow> mask \<Rightarrow> edge \<Rightarrow> edge option res" where
  "advance_outer_edge d st fl e =
     bind (advance_edge d st e fl) (\<lambda>r. case r of
        Some e' \<Rightarrow> Inr (Some e')
      | None \<Rightarrow> lift_range (inner_range st (iteration_node_of d e))
                  (\<lambda>ns. first_edge_of_list d st (tl ns) fl))"

definition service_out_edges :: "'a store_scheme \<Rightarrow> sid \<Rightarrow> mask \<Rightarrow> edge list res option" where
  "service_out_edges st v fl =
     (let fl' = bs_union fl service_graph
      in collect (advance_outer_edge dir_out st fl') (first_outer_edge_of dir_out st v fl'))"

definition service_in_edges :: "'a store_scheme \<Rightarrow> sid \<Rightarrow> mask \<Rightarrow> edge list res option" where
  "service_in_edges st v fl =
     (let fl' = bs_union fl service_graph
      in collect (advance_outer_edge dir_in st fl') (first_outer_edge_of dir_in st v fl'))"

definition cluster_flags :: "mask \<Rightarrow> mask" where
  "cluster_flags fl = bs_union (bs_union fl service_graph) external_graph"

text \<open>The cluster edge iterators go on with the members that follow the owner of the edge's node.\<close>

definition cluster_increment :: "dir \<Rightarrow> 'a store_scheme \<Rightarrow> mask \<Rightarrow> edge \<Rightarrow> edge option res" where
  "cluster_increment d st fl e =
     bind (advance_outer_edge d st fl e) (\<lambda>r. case r of
        Some e' \<Rightarrow> Inr (Some e')
      | None \<Rightarrow> bind (node_owner st (iteration_node_of d e)) (\<lambda>s.
                  first_outer_edge_in_range d st (tl (cluster_members st s)) fl))"

definition cluster_out_edges :: "'a store_scheme \<Rightarrow> sid \<Rightarrow> mask \<Rightarrow> edge list res option" where
  "cluster_out_edges st v fl =
     collect (cluster_increment dir_out st (cluster_flags fl))
       (first_outer_edge_in_range dir_out st (cluster_members st v) (cluster_flags fl))"

definition cluster_in_edges :: "'a store_scheme \<Rightarrow> sid \<Rightarrow> mask \<Rightarrow> edge list res option" where
  "cluster_in_edges st v fl =
     collect (cluster_increment dir_in st (cluster_flags fl))
       (first_outer_edge_in_range dir_in st (cluster_members st v) (cluster_flags fl))"

fun sum_degree :: "dir \<Rightarrow> 'a store_scheme \<Rightarrow> mask \<Rightarrow> node list \<Rightarrow> nat res" where
  "sum_degree d st fl [] = Inr 0"
| "sum_degree d st fl (n # ns) =
     bind (node_degree d st n fl) (\<lambda>k. bind (sum_degree d st fl ns) (\<lambda>m. Inr (k + m)))"

definition service_degree_of :: "dir \<Rightarrow> 'a store_scheme \<Rightarrow> sid \<Rightarrow> mask \<Rightarrow> nat res" where
  "service_degree_of d st v fl =
     lift_range (inner_range st (NService v)) (sum_degree d st (bs_union fl service_graph))"

fun sum_members :: "dir \<Rightarrow> 'a store_scheme \<Rightarrow> mask \<Rightarrow> sid list \<Rightarrow> nat res" where
  "sum_members d st fl [] = Inr 0"
| "sum_members d st fl (s # ss) =
     bind (lift_range (inner_range st (NService s)) (sum_degree d st fl)) (\<lambda>k.
       bind (sum_members d st fl ss) (\<lambda>m. Inr (k + m)))"

definition cluster_degree_of :: "dir \<Rightarrow> 'a store_scheme \<Rightarrow> sid \<Rightarrow> mask \<Rightarrow> nat res" where
  "cluster_degree_of d st v fl = sum_members d st (cluster_flags fl) (cluster_members st v)"

text \<open>The end points of an edge in the graph of services and in the graph of clusters.\<close>

fun edge_source :: "'a store_scheme \<Rightarrow> edge \<Rightarrow> sid" where
  "edge_source st (NService s, t) = s"
| "edge_source st (NImport p, t) = owner st p"
| "edge_source st (NExport p, t) = owner st p"
| "edge_source st (NUsage u, t) = owner st (u_used (usg st u))"

fun edge_target :: "'a store_scheme \<Rightarrow> edge \<Rightarrow> sid" where
  "edge_target st (src, NService s) = s"
| "edge_target st (src, NImport p) = owner st p"
| "edge_target st (src, NExport p) = owner st p"
| "edge_target st (src, NUsage u) = owner st (u_user (usg st u))"

definition cluster_source :: "'a store_scheme \<Rightarrow> edge \<Rightarrow> sid" where
  "cluster_source st e = get_cluster_head_of st (edge_source st e)"

definition cluster_target :: "'a store_scheme \<Rightarrow> edge \<Rightarrow> sid" where
  "cluster_target st e = get_cluster_head_of st (edge_target st e)"

section \<open>The closed form\<close>

fun succs :: "dir \<Rightarrow> 'a store_scheme \<Rightarrow> mask \<Rightarrow> node \<Rightarrow> node list" where
  "succs dir_out st fl (NService s) =
     (if has_parent_edge dir_out st s fl then [NImport (parent st s)] else [])
     @ (if has_owner_exporter_edge fl then map NExport (exports_of st s) else [])"
| "succs dir_in st fl (NService s) =
     (if has_parent_edge dir_in st s fl then [NExport (parent st s)] else [])
     @ (if has_importer_owner_edge fl then map NImport (imports_of st s) else [])"
| "succs dir_out st fl (NImport p) = (if has_importer_owner_edge fl then [NService (owner st p)] else [])"
| "succs dir_in st fl (NImport p) =
     (if has_child_importer_edge fl then map NService (p_children (prt st p)) else [])
     @ (if has_usage_importer_edge fl
        then map NUsage (filter (usage_selected st fl) (p_imports (prt st p))) else [])"
| "succs dir_out st fl (NExport p) =
     (if has_exporter_child_edge fl then map NService (p_children (prt st p)) else [])
     @ (if has_exporter_usage_edge fl
        then map NUsage (filter (usage_selected st fl) (p_users (prt st p))) else [])"
| "succs dir_in st fl (NExport p) = (if has_owner_exporter_edge fl then [NService (owner st p)] else [])"
| "succs dir_out st fl (NUsage u) =
     (if has_usage_importer_edge fl \<and> usage_selected st fl u then [NImport (u_user (usg st u))] else [])"
| "succs dir_in st fl (NUsage u) =
     (if has_exporter_usage_edge fl \<and> usage_selected st fl u then [NExport (u_used (usg st u))] else [])"

text \<open>The flags as sets of filtered edge kinds.\<close>

lemma has_any_iff: "has_any_usage_edge fl \<longleftrightarrow> has_usage_weak_edge fl \<or> has_usage_strong_edge fl"
  by (simp add: has_any_usage_edge_def has_usage_weak_edge_def has_usage_strong_edge_def contains_all_iff
      bs_of_list_elems contains_iff gf_usage_weak_def gf_usage_strong_def bits_def)

lemma has_all_iff: "has_all_usage_edge fl \<longleftrightarrow> has_usage_weak_edge fl \<and> has_usage_strong_edge fl"
  by (simp add: has_all_usage_edge_def has_usage_weak_edge_def has_usage_strong_edge_def contains_any_iff
      bs_of_list_elems contains_iff gf_usage_weak_def gf_usage_strong_def bits_def)

lemma usages_of_eq:
  "has_any_usage_edge fl \<Longrightarrow> usages_of st fl us = Inr (filter (usage_selected st fl) us)"
  by (auto simp: usages_of_def filter_usages_def has_any_iff has_all_iff usage_selected_def check_def
      cong: filter_cong)

lemma first_usage_eq:
  "has_any_usage_edge fl \<Longrightarrow>
     first_usage st fl us = Inr (map_option NUsage (first_of (filter (usage_selected st fl) us)))"
  by (simp add: first_usage_def usages_of_eq)

lemma any_usage_edge:
  "has_usage_importer_edge fl \<Longrightarrow> has_any_usage_edge fl"
  "has_exporter_usage_edge fl \<Longrightarrow> has_any_usage_edge fl"
  by (simp_all add: has_usage_importer_edge_def has_exporter_usage_edge_def)

lemma node_degree_succs: "node_degree d st n fl = Inr (length (succs d st fl n))"
  by (cases n; cases d) (auto simp: usages_of_eq any_usage_edge)

text \<open>
  The stores the graph is built from: a well-formed tree and usage lists, only constructed
  services have parts, attached services are
  initialised, and no usage between parts of the same service.
\<close>

definition wf_graph :: "'a store_scheme \<Rightarrow> bool" where
  "wf_graph st \<longleftrightarrow> wf_heads st \<and> wf_usages st
     \<and> (\<forall>s. s_parts (svc st s) \<noteq> [] \<longrightarrow> s < nsvc st)
     \<and> (\<forall>p. \<forall>c\<in>set (p_children (prt st p)). isInitializedUnsafe st c)
     \<and> (\<forall>u. isConnected st u \<longrightarrow> owner st (u_user (usg st u)) \<noteq> owner st (u_used (usg st u)))"

fun node_ok :: "'a store_scheme \<Rightarrow> node \<Rightarrow> bool" where
  "node_ok st (NService s) \<longleftrightarrow> s < nsvc st"
| "node_ok st (NImport p) \<longleftrightarrow> isa_import st p \<and> p \<in> set (s_parts (svc st (owner st p)))"
| "node_ok st (NExport p) \<longleftrightarrow> isa_export st p \<and> p \<in> set (s_parts (svc st (owner st p)))"
| "node_ok st (NUsage u) \<longleftrightarrow> isConnected st u"

text \<open>No connected usage is of a kind that the flags filter out, unless they filter out both kinds.\<close>

definition usages_uniform :: "'a store_scheme \<Rightarrow> mask \<Rightarrow> bool" where
  "usages_uniform st fl \<longleftrightarrow> (has_any_usage_edge fl \<longrightarrow> (\<forall>u. isConnected st u \<longrightarrow> usage_selected st fl u))"

lemma all_usages_uniform: "has_all_usage_edge fl \<Longrightarrow> usages_uniform st fl"
  by (simp add: usages_uniform_def usage_selected_def has_all_iff)

lemma wf_graphD:
  assumes "wf_graph st"
  shows "wf_tree st" "wf_heads st" "wf_usages st"
    "c \<in> set (p_children (prt st p)) \<Longrightarrow> isInitializedUnsafe st c"
    "isConnected st u \<Longrightarrow> owner st (u_user (usg st u)) \<noteq> owner st (u_used (usg st u))"
    "q \<in> set (s_parts (svc st s)) \<Longrightarrow> s < nsvc st"
  using assms by (auto simp: wf_graph_def wf_heads_def) (metis empty_iff empty_set)

lemma wf_usagesD:
  assumes "wf_usages st"
  shows "distinct (p_users (prt st p))" "distinct (p_imports (prt st p))"
    "u \<in> set (p_users (prt st p)) \<longleftrightarrow> isConnected st u \<and> u_used (usg st u) = p"
    "u \<in> set (p_imports (prt st p)) \<longleftrightarrow> isConnected st u \<and> u_user (usg st u) = p"
    "isConnected st u \<Longrightarrow> isa_export st (u_used (usg st u))"
    "isConnected st u \<Longrightarrow> isa_import st (u_user (usg st u))"
    "isConnected st u \<Longrightarrow> u_used (usg st u) \<in> set (s_parts (svc st (owner st (u_used (usg st u)))))"
    "isConnected st u \<Longrightarrow> u_user (usg st u) \<in> set (s_parts (svc st (owner st (u_user (usg st u)))))"
  using assms unfolding wf_usages_def by blast+

lemma first_of_map: "first_of (map f xs) = map_option f (first_of xs)"
  by (cases xs) auto

lemma first_child_eq:
  "(\<And>c. c \<in> set cs \<Longrightarrow> isInitializedUnsafe st c) \<Longrightarrow>
     first_child st cs = Inr (map_option NService (first_of cs))"
  by (cases cs) (auto simp: first_child_def)

lemma uniform_imports:
  assumes "wf_usages st" and "usages_uniform st fl" and "has_any_usage_edge fl"
  shows "filter (usage_selected st fl) (p_imports (prt st p)) = p_imports (prt st p)"
    "filter (usage_selected st fl) (p_users (prt st p)) = p_users (prt st p)"
  using assms by (auto simp: usages_uniform_def wf_usagesD intro!: filter_True)

lemma trait_begin_succs:
  assumes "wf_graph st" and "usages_uniform st fl" and "node_ok st n"
  shows "trait_begin d st n fl = Inr (first_of (succs d st fl n))"
proof -
  note w = wf_graphD [OF assms(1)]
  note u = uniform_imports [OF w(3) assms(2)]
  have ch: "first_child st (p_children (prt st p)) = Inr (map_option NService (first_of (p_children (prt st p))))" for p
    by (rule first_child_eq) (rule w(4))
  show ?thesis
    using assms(3)
    by (cases n; cases d)
      (auto simp: first_of_map first_of_append ch u any_usage_edge first_usage_eq w(5) split: option.split)
qed

lemma after_sub:
  assumes "distinct zs" and "filter P zs = us @ x # vs"
  shows "filter P (after x zs) = vs"
proof -
  from filter_split [OF assms(2)] obtain as bs where "zs = as @ x # bs" "vs = filter P bs" by blast
  with assms(1) show ?thesis by (simp add: after_split)
qed

lemma after_at:
  assumes "distinct zs" and "zs = us @ x # vs"
  shows "after x zs = vs"
  using assms by (simp add: after_split)

lemma map_split: "map f xs = us @ y # vs \<Longrightarrow> \<exists>as x bs. xs = as @ x # bs \<and> y = f x \<and> vs = map f bs"
  by (auto simp: map_eq_append_conv map_eq_Cons_conv Cons_eq_map_conv)

lemma part_neighbours:
  assumes "wf_tree st" and "filter P (s_parts (svc st s)) = us @ p # vs"
  shows "filter P (after p (s_parts (svc st (owner st p)))) = vs"
proof -
  have "p \<in> set (filter P (s_parts (svc st s)))" using assms(2) by simp
  then have "owner st p = s" using wf_treeD(5) [OF assms(1)] by simp
  with after_sub [OF wf_treeD(4) [OF assms(1)] assms(2)] show ?thesis by simp
qed

lemma service_advance_succs:
  assumes "wf_graph st" and "succs d st fl (NService s) = us @ x # vs"
  shows "service_advance d st s x fl = Inr (first_of vs)"
proof (cases d)
  case dir_out
  let ?A = "if has_parent_edge dir_out st s fl then [NImport (parent st s)] else []"
  let ?B = "if has_owner_exporter_edge fl then map NExport (exports_of st s) else []"
  from append_mid_split [of ?A ?B us x vs] assms(2) dir_out
  consider (left) ws where "?A = us @ x # ws" "vs = ws @ ?B" | (right) us' where "?B = us' @ x # vs"
    by auto
  then show ?thesis
  proof cases
    case left
    then show ?thesis using dir_out
      by (auto simp: Cons_eq_append_conv first_of_map split: if_splits)
  next
    case right
    then obtain as p bs where p: "exports_of st s = as @ p # bs" "x = NExport p" "vs = map NExport bs"
      "has_owner_exporter_edge fl" using map_split by (fastforce split: if_splits)
    from part_neighbours [OF wf_graphD(1) [OF assms(1)] p(1) [unfolded exports_of_def]] p dir_out
    show ?thesis by (simp add: exportNeighbors_next_def first_of_map)
  qed
next
  case dir_in
  let ?A = "if has_parent_edge dir_in st s fl then [NExport (parent st s)] else []"
  let ?B = "if has_importer_owner_edge fl then map NImport (imports_of st s) else []"
  from append_mid_split [of ?A ?B us x vs] assms(2) dir_in
  consider (left) ws where "?A = us @ x # ws" "vs = ws @ ?B" | (right) us' where "?B = us' @ x # vs"
    by auto
  then show ?thesis
  proof cases
    case left
    then show ?thesis using dir_in
      by (auto simp: Cons_eq_append_conv first_of_map split: if_splits)
  next
    case right
    then obtain as p bs where p: "imports_of st s = as @ p # bs" "x = NImport p" "vs = map NImport bs"
      "has_importer_owner_edge fl" using map_split by (fastforce split: if_splits)
    from part_neighbours [OF wf_graphD(1) [OF assms(1)] p(1) [unfolded imports_of_def]] p dir_in
    show ?thesis by (simp add: importNeighbors_next_def first_of_map)
  qed
qed

text \<open>Import and export parts list their children first and their usages second.\<close>

lemma children_split:
  assumes "wf_graph st" and "p_children (prt st p) = as @ c # bs"
  shows "first_child st (after c (p_children (prt st (parent st c)))) = Inr (map_option NService (first_of bs))"
proof -
  have "parent st c = p" using assms by (auto intro!: wf_treeD(7) [OF wf_graphD(1)])
  moreover have "after c (p_children (prt st p)) = bs"
    by (rule after_at [OF wf_treeD(6) [OF wf_graphD(1) [OF assms(1)]] assms(2)])
  moreover have "first_child st bs = Inr (map_option NService (first_of bs))"
    by (rule first_child_eq) (rule wf_graphD(4) [OF assms(1), of _ p], simp add: assms(2))
  ultimately show ?thesis by simp
qed

lemma two_segments:
  assumes "(if a then map f xs else []) @ (if b then map g ys else []) = us @ x # vs"
  obtains (left) as c bs where "a" "xs = as @ c # bs" "x = f c" "vs = map f bs @ (if b then map g ys else [])"
  | (right) as c bs where "b" "ys = as @ c # bs" "x = g c" "vs = map g bs"
proof -
  from append_mid_split [OF assms]
  consider (l) ws where "(if a then map f xs else []) = us @ x # ws" "vs = ws @ (if b then map g ys else [])"
    | (r) us' where "(if b then map g ys else []) = us' @ x # vs" by blast
  then show thesis
  proof cases
    case l
    then have a by (auto split: if_splits)
    with l map_split [of f xs us x ws] show thesis using left by fastforce
  next
    case r
    then have b by (auto split: if_splits)
    with r map_split [of g ys us' x vs] show thesis using right by fastforce
  qed
qed

lemma import_advance_succs:
  assumes "wf_graph st" and "succs d st fl (NImport p) = us @ x # vs"
  shows "import_advance d st p x fl = Inr (first_of vs)"
proof (cases d)
  case dir_out
  with assms(2) show ?thesis by (auto simp: Cons_eq_append_conv split: if_splits)
next
  case dir_in
  note w = wf_graphD [OF assms(1)]
  from assms(2) [unfolded dir_in succs.simps] show ?thesis
  proof (cases rule: two_segments)
    case (left as c bs)
    then have *: "has_child_importer_edge fl" "p_children (prt st p) = as @ c # bs" "x = NService c"
      "vs = map NService bs @ (if has_usage_importer_edge fl
         then map NUsage (filter (usage_selected st fl) (p_imports (prt st p))) else [])" by simp_all
    from children_split [OF assms(1) *(2)] * dir_in show ?thesis
      by (auto simp: first_usage_eq any_usage_edge first_of_map first_of_append split: option.splits)
  next
    case (right as u bs)
    then have *: "has_usage_importer_edge fl"
      "filter (usage_selected st fl) (p_imports (prt st p)) = as @ u # bs" "x = NUsage u" "vs = map NUsage bs"
      by simp_all
    have u: "u \<in> set (filter (usage_selected st fl) (p_imports (prt st p)))" using *(2) by simp
    then have "usage_selected st fl u" "u_user (usg st u) = p" using wf_usagesD(4) [OF w(3)] by auto
    moreover from after_sub [OF wf_usagesD(2) [OF w(3)] *(2)]
    have "filter (usage_selected st fl) (after u (p_imports (prt st p))) = bs" .
    ultimately show ?thesis using * dir_in by (simp add: first_usage_eq any_usage_edge first_of_map)
  qed
qed

lemma export_advance_succs:
  assumes "wf_graph st" and "usages_uniform st fl" and "succs d st fl (NExport p) = us @ x # vs"
  shows "export_advance d st p x fl = Inr (first_of vs)"
proof (cases d)
  case dir_in
  with assms(3) show ?thesis by (auto simp: Cons_eq_append_conv split: if_splits)
next
  case dir_out
  note w = wf_graphD [OF assms(1)]
  note uni = uniform_imports(2) [OF w(3) assms(2)]
  from assms(3) [unfolded dir_out succs.simps] show ?thesis
  proof (cases rule: two_segments)
    case (left as c bs)
    then have *: "has_exporter_child_edge fl" "p_children (prt st p) = as @ c # bs" "x = NService c"
      "vs = map NService bs @ (if has_exporter_usage_edge fl
         then map NUsage (filter (usage_selected st fl) (p_users (prt st p))) else [])" by simp_all
    from children_split [OF assms(1) *(2)] * dir_out uni show ?thesis
      by (auto simp: any_usage_edge first_of_map first_of_append split: option.splits)
  next
    case (right as u bs)
    then have *: "has_exporter_usage_edge fl"
      "filter (usage_selected st fl) (p_users (prt st p)) = as @ u # bs" "x = NUsage u" "vs = map NUsage bs"
      by simp_all
    have u: "u \<in> set (filter (usage_selected st fl) (p_users (prt st p)))" using *(2) by simp
    then have "usage_selected st fl u" "u_used (usg st u) = p" using wf_usagesD(3) [OF w(3)] by auto
    moreover from after_sub [OF wf_usagesD(1) [OF w(3)] *(2)]
    have "filter (usage_selected st fl) (after u (p_users (prt st p))) = bs" .
    ultimately show ?thesis using * dir_out by (simp add: first_usage_eq any_usage_edge first_of_map)
  qed
qed

lemma trait_advance_succs:
  assumes "wf_graph st" and "usages_uniform st fl" and "succs d st fl n = us @ x # vs"
  shows "trait_advance d st n x fl = Inr (first_of vs)"
proof (cases n)
  case (NUsage u)
  with assms(3) show ?thesis by (cases d) (auto simp: Cons_eq_append_conv split: if_splits)
qed (use assms service_advance_succs import_advance_succs export_advance_succs in auto)

section \<open>Ranges are the closed form\<close>

lemma collect_None [simp]: "collect step (Inr None) = Some (Inr [])"
  by (subst collect.simps) simp

lemma collect_Some [simp]:
  "collect step (Inr (Some x)) =
     Option.bind (collect step (step x)) (\<lambda>r. Some (bind r (\<lambda>xs. Inr (x # xs))))"
  by (subst collect.simps) simp

lemma collect_Inl [simp]: "collect step (Inl e) = Some (Inl e)"
  by (subst collect.simps) simp

lemma collect_list:
  assumes "\<And>us x vs. xs = us @ x # vs \<Longrightarrow> step x = Inr (first_of vs)"
  shows "collect step (Inr (first_of xs)) = Some (Inr xs)"
proof -
  have "collect step (Inr (first_of vs)) = Some (Inr vs)" if "xs = us @ vs" for us vs
    using that
  proof (induction vs arbitrary: us)
    case (Cons x vs)
    from Cons.IH [of "us @ [x]"] Cons.prems have "collect step (Inr (first_of vs)) = Some (Inr vs)" by simp
    with assms [OF Cons.prems] show ?case by simp
  qed simp
  from this [of "[]"] show ?thesis by simp
qed

lemma make_edge_simps [simp]:
  "iteration_node_of d (make_edge d n x) = n" "current_itr_of d (make_edge d n x) = x"
  by (cases d; simp)+

lemma first_edge_succs:
  assumes "wf_graph st" and "usages_uniform st fl" and "node_ok st n"
  shows "first_edge_of d st n fl = Inr (first_of (map (make_edge d n) (succs d st fl n)))"
  by (simp add: first_edge_of_def trait_begin_succs [OF assms] first_of_map)

lemma advance_edge_succs:
  assumes "wf_graph st" and "usages_uniform st fl" and "map (make_edge d n) (succs d st fl n) = us @ e # vs"
  shows "advance_edge d st e fl = Inr (first_of vs)"
proof -
  from map_split [OF assms(3)] obtain as x bs where
    *: "succs d st fl n = as @ x # bs" "e = make_edge d n x" "vs = map (make_edge d n) bs" by blast
  show ?thesis
    by (simp add: * advance_edge_def trait_advance_succs [OF assms(1,2) *(1)] first_of_map)
qed

lemma edges_collect:
  assumes "wf_graph st" and "usages_uniform st fl" and "node_ok st n"
  shows "collect (\<lambda>e. advance_edge d st e fl) (first_edge_of d st n fl)
     = Some (Inr (map (make_edge d n) (succs d st fl n)))"
  unfolding first_edge_succs [OF assms]
  by (rule collect_list) (rule advance_edge_succs [OF assms(1,2)])

text \<open>
  Nested ranges: the edges of the nodes of a list, one after the other. The element after \<open>e\<close> is
  the next one of the same node, or the first one of the nodes that follow.
\<close>

lemma nested_split:
  assumes "concat (map E ns) = us @ e # vs"
  obtains as n bs ys zs where "ns = as @ n # bs" "E n = ys @ e # zs" "vs = zs @ concat (map E bs)"
proof -
  from concat_split [OF assms] obtain yss ys zs zss where
    *: "map E ns = yss @ (ys @ e # zs) # zss" "vs = zs @ concat zss" by blast
  from map_split [OF *(1)] obtain as n bs where "ns = as @ n # bs" "ys @ e # zs = E n" "zss = map E bs"
    by blast
  with *(2) show thesis using that [of as n bs ys zs] by simp
qed

lemma first_of_nested:
  "first_of (zs @ concat (map E bs)) =
     (case first_of zs of Some e \<Rightarrow> Some e | None \<Rightarrow> first_of (concat (map E bs)))"
  by (simp add: first_of_append split: option.split)

lemma collect_suffix:
  assumes "\<And>us x vs. xs = us @ x # vs \<Longrightarrow> step x = Inr (first_of vs)" and "xs = as @ bs"
  shows "collect step (Inr (first_of bs)) = Some (Inr bs)"
  by (rule collect_list) (use assms(1) [of "as @ us" x vs for us x vs] assms(2) in simp)

subsection \<open>Inside of a service\<close>

definition inner_nodes :: "'a store_scheme \<Rightarrow> sid \<Rightarrow> node list" where
  "inner_nodes st s = NService s # map NImport (imports_of st s) @ map NExport (exports_of st s)"

lemma next_child_node_split:
  assumes "wf_tree st" and "inner_nodes st s = us @ n # vs"
  shows "next_child_node st n = Inr (first_of vs)"
proof (cases us)
  case Nil
  with assms(2) show ?thesis
    by (auto simp: inner_nodes_def first_of_append first_of_map split: list.splits)
next
  case (Cons m us')
  with assms(2) have "(if True then map NImport (imports_of st s) else [])
      @ (if True then map NExport (exports_of st s) else []) = us' @ n # vs"
    by (simp add: inner_nodes_def)
  then show ?thesis
  proof (cases rule: two_segments)
    case (left as p bs)
    have "p \<in> set (imports_of st s)" using left(2) by simp
    then have "owner st p = s" using wf_treeD(5) [OF assms(1)] by (simp add: imports_of_def)
    with left part_neighbours [OF assms(1) left(2) [unfolded imports_of_def]] show ?thesis
      by (cases bs) (auto simp: importNeighbors_next_def first_of_map)
  next
    case (right as p bs)
    with part_neighbours [OF assms(1) right(2) [unfolded exports_of_def]] show ?thesis
      by (simp add: exportNeighbors_next_def first_of_map)
  qed
qed

lemma inner_range_suffix:
  assumes "wf_tree st" and "inner_nodes st s = us @ n # vs"
  shows "inner_range st n = Some (Inr (n # vs))"
  using collect_suffix [OF next_child_node_split [OF assms(1)] assms(2)]
  by (simp add: inner_range_def del: collect_Some)

lemma inner_range_service: "wf_tree st \<Longrightarrow> inner_range st (NService s) = Some (Inr (inner_nodes st s))"
  using inner_range_suffix [of st s "[]" "NService s"] by (simp add: inner_nodes_def)

lemma inner_nodes_in:
  assumes "wf_tree st" and "s < nsvc st" and "n \<in> set (inner_nodes st s)"
  shows "node_ok st n" and "node_owner st n = Inr s"
  using assms by (auto simp: inner_nodes_def imports_of_def exports_of_def wf_treeD(5))

definition edges_of :: "dir \<Rightarrow> 'a store_scheme \<Rightarrow> mask \<Rightarrow> node \<Rightarrow> edge list" where
  "edges_of d st fl n = map (make_edge d n) (succs d st fl n)"

definition outer_edges :: "dir \<Rightarrow> 'a store_scheme \<Rightarrow> mask \<Rightarrow> sid \<Rightarrow> edge list" where
  "outer_edges d st fl s = concat (map (edges_of d st fl) (inner_nodes st s))"

lemma first_edge_of_list_eq:
  assumes "wf_graph st" and "usages_uniform st fl" and "\<And>n. n \<in> set ns \<Longrightarrow> node_ok st n"
  shows "first_edge_of_list d st ns fl = Inr (first_of (concat (map (edges_of d st fl) ns)))"
  using assms(3)
proof (induction ns)
  case (Cons n ns)
  have "first_edge_of d st n fl = Inr (first_of (edges_of d st fl n))"
    unfolding edges_of_def by (rule first_edge_succs [OF assms(1,2)]) (simp add: Cons.prems)
  with Cons show ?case by (simp add: first_of_append split: option.split)
qed simp

lemma edge_in_edges_of: "e \<in> set (edges_of d st fl n) \<Longrightarrow> iteration_node_of d e = n"
  by (auto simp: edges_of_def)

lemma first_outer_edge_of_eq:
  assumes "wf_graph st" and "usages_uniform st fl" and "s < nsvc st"
  shows "first_outer_edge_of d st s fl = Inr (first_of (outer_edges d st fl s))"
  unfolding first_outer_edge_of_def inner_range_service [OF wf_graphD(1) [OF assms(1)]] outer_edges_def
  by (simp add: lift_range_def, rule first_edge_of_list_eq [OF assms(1,2)])
    (rule inner_nodes_in(1) [OF wf_graphD(1) [OF assms(1)] assms(3)])

lemma advance_outer_edge_eq:
  assumes "wf_graph st" and "usages_uniform st fl" and "s < nsvc st"
    and "outer_edges d st fl s = us @ e # vs"
  shows "advance_outer_edge d st fl e = Inr (first_of vs)"
proof -
  note wf = wf_graphD(1) [OF assms(1)]
  from assms(4) obtain as n bs ys zs where
    n: "inner_nodes st s = as @ n # bs" and E: "edges_of d st fl n = ys @ e # zs"
    and vs: "vs = zs @ concat (map (edges_of d st fl) bs)"
    unfolding outer_edges_def by (rule nested_split)
  have "advance_edge d st e fl = Inr (first_of zs)"
    by (rule advance_edge_succs [OF assms(1,2), of d n]) (use E in \<open>simp add: edges_of_def\<close>)
  moreover have "iteration_node_of d e = n" by (rule edge_in_edges_of [of _ _ st fl]) (simp add: E)
  moreover have "first_edge_of_list d st bs fl = Inr (first_of (concat (map (edges_of d st fl) bs)))"
    by (rule first_edge_of_list_eq [OF assms(1,2)]) (use inner_nodes_in(1) [OF wf assms(3)] n in auto)
  ultimately show ?thesis
    unfolding vs first_of_nested
    by (simp add: advance_outer_edge_def lift_range_def inner_range_suffix [OF wf n] split: option.split)
qed

lemma outer_edges_collect:
  assumes "wf_graph st" and "usages_uniform st fl" and "s < nsvc st"
  shows "collect (advance_outer_edge d st fl) (first_outer_edge_of d st s fl) = Some (Inr (outer_edges d st fl s))"
  unfolding first_outer_edge_of_eq [OF assms]
  by (rule collect_list) (rule advance_outer_edge_eq [OF assms])

subsection \<open>Inside of a cluster\<close>

lemma cluster_members_suffix:
  assumes "wf_tree st" and "h < nsvc st" and "is_cluster_head st h"
    and "cluster_members st h = us @ s # vs" and "get_cluster_head_of st s = h"
  shows "cluster_members st s = s # vs"
proof -
  let ?f = "\<lambda>x. next_child_or_up st x it_only_imports" and ?e = "next_parent_or_neighbour st h it_only_imports"
  have pre: "preorder st it_only_imports h = us @ s # vs"
    using assms(4) cluster_members_preorder [OF assms(1-3)] by simp
  have sp: "spath ?f (Some s) (s # vs) ?e"
    using preorder_spath [OF assms(1), of it_only_imports h] unfolding pre spath_append by auto
  have "length (s # vs) \<le> nsvc st" using preorder_length [OF assms(1,2), of it_only_imports] pre by simp
  moreover have "?e \<notin> Some ` set (s # vs)"
    using up_notin_preorder [OF assms(1), of h it_only_imports] pre by auto
  ultimately show ?thesis
    using walk_spath [OF sp] by (simp add: cluster_members_def assms(5))
qed

definition all_cluster_edges :: "dir \<Rightarrow> 'a store_scheme \<Rightarrow> mask \<Rightarrow> sid \<Rightarrow> edge list" where
  "all_cluster_edges d st fl h = concat (map (outer_edges d st (cluster_flags fl)) (cluster_members st h))"

lemma first_outer_edge_in_range_eq:
  assumes "wf_graph st" and "usages_uniform st fl" and "\<And>s. s \<in> set ss \<Longrightarrow> s < nsvc st"
  shows "first_outer_edge_in_range d st ss fl = Inr (first_of (concat (map (outer_edges d st fl) ss)))"
  using assms(3)
proof (induction ss)
  case (Cons s ss)
  then have "first_outer_edge_of d st s fl = Inr (first_of (outer_edges d st fl s))"
    by (intro first_outer_edge_of_eq [OF assms(1,2)]) simp
  with Cons show ?case by (simp add: first_of_append split: option.split)
qed simp

lemma edge_in_outer_edges:
  assumes "wf_tree st" and "s < nsvc st" and "e \<in> set (outer_edges d st fl s)"
  shows "node_owner st (iteration_node_of d e) = Inr s"
proof -
  from assms(3) obtain n where "n \<in> set (inner_nodes st s)" "e \<in> set (edges_of d st fl n)"
    by (auto simp: outer_edges_def)
  then show ?thesis using inner_nodes_in(2) [OF assms(1,2)] edge_in_edges_of by metis
qed

lemma cluster_increment_eq:
  assumes "wf_graph st" and "usages_uniform st fl" and "all_attached st"
    and h: "h < nsvc st" "is_cluster_head st h"
    and split: "concat (map (outer_edges d st fl) (cluster_members st h)) = us @ e # vs"
  shows "cluster_increment d st fl e = Inr (first_of vs)"
proof -
  note wf = wf_graphD(1) [OF assms(1)]
  have mem: "set (cluster_members st h) = {x. x < nsvc st \<and> get_cluster_head_of st x = h}"
    using set_preorder_cluster [OF wf_graphD(2) [OF assms(1)] assms(3) h]
      cluster_members_preorder [OF wf h] by simp
  from split obtain as s bs ys zs where
    s: "cluster_members st h = as @ s # bs" and E: "outer_edges d st fl s = ys @ e # zs"
    and vs: "vs = zs @ concat (map (outer_edges d st fl) bs)" by (rule nested_split)
  have "s \<in> set (cluster_members st h)" and bs: "set bs \<subseteq> set (cluster_members st h)" using s by auto
  with mem have sl: "s < nsvc st" and sh: "get_cluster_head_of st s = h" by auto
  have "advance_outer_edge d st fl e = Inr (first_of zs)"
    by (rule advance_outer_edge_eq [OF assms(1,2) sl E])
  moreover have "node_owner st (iteration_node_of d e) = Inr s"
    by (rule edge_in_outer_edges [OF wf sl, of _ _ fl]) (simp add: E)
  moreover have "first_outer_edge_in_range d st bs fl = Inr (first_of (concat (map (outer_edges d st fl) bs)))"
    by (rule first_outer_edge_in_range_eq [OF assms(1,2)]) (use bs mem in auto)
  ultimately show ?thesis
    unfolding vs first_of_nested
    by (simp add: cluster_increment_def cluster_members_suffix [OF wf h s sh] split: option.split)
qed

lemma cluster_edges_collect:
  assumes "wf_graph st" and "usages_uniform st fl" and "all_attached st"
    and h: "h < nsvc st" "is_cluster_head st h"
  shows "collect (cluster_increment d st fl) (first_outer_edge_in_range d st (cluster_members st h) fl)
     = Some (Inr (concat (map (outer_edges d st fl) (cluster_members st h))))"
proof -
  have "\<And>x. x \<in> set (cluster_members st h) \<Longrightarrow> x < nsvc st"
    using preorder_bound [OF wf_graphD(1) [OF assms(1)] h(1)]
      cluster_members_preorder [OF wf_graphD(1) [OF assms(1)] h] by simp
  then show ?thesis
    unfolding first_outer_edge_in_range_eq [OF assms(1,2), of "cluster_members st h" d]
    by (subst first_outer_edge_in_range_eq [OF assms(1,2)], assumption)
      (rule collect_list, rule cluster_increment_eq [OF assms])
qed

end
