(* ===== verification/Graph_DFS.thy ===== *)
theory Graph_DFS
  imports Flat_Sets Service_Model
begin

text \<open>
  The depth first traversal of src/lib/idle/core/detail/graph/dfs.hpp. It keeps an explicit
  stack of nodes to visit (\<open>next\<close>), the set of visited nodes and the set of nodes on
  the current path, both flat sets of service pointers, and calls a visitor and
  an edge filter that may change the system state \<open>'s\<close>. The graph, the visitor and the
  filter are arguments (record \<open>traversal\<close>). The loop need not end for every visitor, so
  it is a partial function; the locale \<open>marking_dfs\<close> states what the scheduler's visitors and filters
  guarantee and shows that then the loop ends, never meets a cycle and marks a set of nodes that is closed under
  the edges that pass the filter.
\<close>

section \<open>The traversal\<close>

record dfs_data =
  d_acyclic :: bool
  d_visited :: "sid list"
  d_stack :: "sid list"
  d_next :: "sid list"

definition empty_dfs :: dfs_data where
  "empty_dfs = \<lparr>d_acyclic = True, d_visited = [], d_stack = [], d_next = []\<rparr>"

definition dfs_empty :: "dfs_data \<Rightarrow> bool" where
  "dfs_empty d \<longleftrightarrow> d_acyclic d \<and> d_visited d = [] \<and> d_stack d = [] \<and> d_next d = []"

definition dfs_ancestors :: "sid list \<Rightarrow> dfs_data \<Rightarrow> dfs_data" where
  "dfs_ancestors as d =
     d\<lparr>d_visited := fs_insert_range (<) as (d_visited d), d_stack := fs_insert_range (<) as (d_stack d)\<rparr>"

text \<open>\<open>t_all_paths\<close> and \<open>t_cancel\<close> are the two \<open>DFSFlags\<close>.\<close>

record ('e, 's) traversal =
  t_out :: "'s \<Rightarrow> sid \<Rightarrow> 'e list res"
  t_target :: "'s \<Rightarrow> 'e \<Rightarrow> sid"
  t_visit :: "sid \<Rightarrow> 's \<Rightarrow> (bool \<times> 's) res"
  t_filter :: "'e \<Rightarrow> 's \<Rightarrow> (bool \<times> 's) res"
  t_all_paths :: bool
  t_cancel :: bool

text \<open>The loop over the edges of a node; the first component tells that the traversal returns.\<close>

fun dfs_edges :: "('e, 's) traversal \<Rightarrow> 'e list \<Rightarrow> dfs_data \<Rightarrow> 's \<Rightarrow> (bool \<times> dfs_data \<times> 's) res" where
  "dfs_edges g [] d s = Inr (False, d, s)"
| "dfs_edges g (e # es) d s =
     bind (t_filter g e s) (\<lambda>(ok, s).
       if \<not> ok then dfs_edges g es d s
       else let tar = t_target g s e in
         if \<not> fs_contains (<) (d_visited d) tar then
           dfs_edges g es (d\<lparr>d_next := d_next d @ [tar]\<rparr>) s
         else if fs_contains (<) (d_stack d) tar then
           (if \<not> t_cancel g then Inr (True, d\<lparr>d_acyclic := False\<rparr>, s)
            else bind (t_visit g tar s) (\<lambda>(b, s). dfs_edges g es d s))
         else if t_all_paths g then
           dfs_edges g es (d\<lparr>d_next := d_next d @ [tar]\<rparr>) s
         else dfs_edges g es d s)"

datatype 'a step = Return 'a | Continue 'a

text \<open>One round of the loop, for a non-empty \<open>next\<close>.\<close>

definition dfs_round :: "('e, 's) traversal \<Rightarrow> dfs_data \<Rightarrow> 's \<Rightarrow> (dfs_data \<times> 's) step res" where
  "dfs_round g d s =
     (let top = last (d_next d); (count, stack) = fs_erase (<) top (d_stack d) in
      if count \<noteq> 0 then
        check (fs_contains (<) (d_visited d) top)
          (Continue (d\<lparr>d_stack := stack, d_next := butlast (d_next d)\<rparr>, s))
      else
        let d = d\<lparr>d_visited := snd (fs_insert (<) top (d_visited d))\<rparr> in
        if fs_contains (<) (d_stack d) top then Inl AssertFailed
        else let d = d\<lparr>d_stack := snd (fs_insert (<) top (d_stack d))\<rparr> in
          bind (t_visit g top s) (\<lambda>(b, s).
            if \<not> b then Inr (Continue (d, s))
            else bind (t_out g s top) (\<lambda>es.
              bind (dfs_edges g es d s) (\<lambda>(stop, d, s).
                Inr (if stop then Return (d, s) else Continue (d, s))))))"

partial_function (option) dfs_loop :: "('e, 's) traversal \<Rightarrow> dfs_data \<Rightarrow> 's \<Rightarrow> (dfs_data \<times> 's) res option" where
  [code]: "dfs_loop g d s =
     (if d_next d = [] then Some (Inr (d, s))
      else case dfs_round g d s of
        Inl e \<Rightarrow> Some (Inl e)
      | Inr (Return r) \<Rightarrow> Some (Inr r)
      | Inr (Continue r) \<Rightarrow> dfs_loop g (fst r) (snd r))"

definition dfs :: "('e, 's) traversal \<Rightarrow> sid \<Rightarrow> dfs_data \<Rightarrow> 's \<Rightarrow> (dfs_data \<times> 's) res option" where
  "dfs g start d s = dfs_loop g (d\<lparr>d_next := d_next d @ [start]\<rparr>) s"

section \<open>Invariants of the state\<close>

text \<open>What the visitor and the filter keep, the traversal keeps.\<close>

lemma dfs_edges_inv:
  assumes "dfs_edges g es d s = Inr (b, d', s')" and "I s"
    and flt: "\<And>e s ok s'. I s \<Longrightarrow> t_filter g e s = Inr (ok, s') \<Longrightarrow> I s'"
    and vis: "\<And>v s ok s'. I s \<Longrightarrow> t_visit g v s = Inr (ok, s') \<Longrightarrow> I s'"
  shows "I s'"
  using assms(1,2)
proof (induction es arbitrary: d s)
  case (Cons e es)
  from Cons.prems(1) obtain ok s1 where s1: "t_filter g e s = Inr (ok, s1)" by (auto split: prod.splits)
  have I1: "I s1" by (rule flt [OF Cons.prems(2) s1])
  let ?t = "t_target g s1 e"
  consider (go) d1 where "dfs_edges g es d1 s1 = Inr (b, d', s')"
    | (stop) "s' = s1"
    | (again) ok' s2 where "t_visit g ?t s1 = Inr (ok', s2)" "dfs_edges g es d s2 = Inr (b, d', s')"
    using Cons.prems(1) s1 by (auto simp: Let_def split: if_splits prod.splits)
  then show ?case
  proof cases
    case go
    then show ?thesis using Cons.IH I1 by blast
  next
    case stop
    then show ?thesis using I1 by simp
  next
    case again
    then show ?thesis using Cons.IH vis [OF I1] by blast
  qed
qed simp

lemma dfs_round_inv:
  assumes "dfs_round g d s = Inr r" and "r = Return (d', s') \<or> r = Continue (d', s')" and "I s"
    and flt: "\<And>e s ok s'. I s \<Longrightarrow> t_filter g e s = Inr (ok, s') \<Longrightarrow> I s'"
    and vis: "\<And>v s ok s'. I s \<Longrightarrow> t_visit g v s = Inr (ok, s') \<Longrightarrow> I s'"
  shows "I s'"
proof -
  let ?top = "last (d_next d)"
  consider (pop) "s' = s" | (leaf) b where "t_visit g ?top s = Inr (b, s')"
    | (edges) b s1 es d1 stop where "t_visit g ?top s = Inr (b, s1)" "dfs_edges g es d1 s1 = Inr (stop, d', s')"
    using assms(1,2)
    by (auto simp: dfs_round_def Let_def split: prod.splits if_splits)
  then show ?thesis
  proof cases
    case pop
    then show ?thesis using assms(3) by simp
  next
    case leaf
    then show ?thesis using vis [OF assms(3)] by blast
  next
    case edges
    show ?thesis
      by (rule dfs_edges_inv [where I = I, OF edges(2) vis [OF assms(3) edges(1)]])
        (rule flt, assumption+, rule vis)
  qed
qed

lemma dfs_loop_inv:
  assumes "dfs_loop g d s = Some (Inr (d', s'))" and "I s"
    and flt: "\<And>e s ok s'. I s \<Longrightarrow> t_filter g e s = Inr (ok, s') \<Longrightarrow> I s'"
    and vis: "\<And>v s ok s'. I s \<Longrightarrow> t_visit g v s = Inr (ok, s') \<Longrightarrow> I s'"
  shows "I s'"
proof -
  have "h = g \<longrightarrow> I s \<longrightarrow> (\<forall>d' s'. r = Inr (d', s') \<longrightarrow> I s')" if "dfs_loop h d s = Some r" for h d s r
  proof (rule dfs_loop.raw_induct [OF _ that])
    fix rec h and d :: dfs_data and s r
    assume IH: "\<And>h d s r. rec h d s = Some r \<Longrightarrow> h = g \<longrightarrow> I s \<longrightarrow> (\<forall>d' s'. r = Inr (d', s') \<longrightarrow> I s')"
      and eq: "(if d_next d = [] then Some (Inr (d, s))
         else case dfs_round h d s of Inl e \<Rightarrow> Some (Inl e) | Inr (Return r) \<Rightarrow> Some (Inr r)
           | Inr (Continue r) \<Rightarrow> rec h (fst r) (snd r)) = Some r"
    show "h = g \<longrightarrow> I s \<longrightarrow> (\<forall>d' s'. r = Inr (d', s') \<longrightarrow> I s')"
    proof (intro impI allI)
      fix d' s' assume h: "h = g" and I: "I s" and r: "r = Inr (d', s')"
      show "I s'"
      proof (cases "d_next d = []")
        case True
        with eq r I show ?thesis by simp
      next
        case False
        then obtain q where q: "dfs_round h d s = Inr q" using eq r by (auto split: sum.splits)
        show ?thesis
        proof (cases q)
          case (Return p)
          with False eq r q have "p = (d', s')" by simp
          with Return q h have "dfs_round g d s = Inr (Return (d', s'))" by simp
          then show ?thesis
            by (rule dfs_round_inv [where I = I and d' = d']) (simp, rule I, rule flt, assumption+, rule vis)
        next
          case (Continue p)
          have "I (snd p)"
            by (rule dfs_round_inv [where I = I, OF q [unfolded h] _ I flt vis, of "fst p"]) (simp_all add: Continue)
          moreover have "rec h (fst p) (snd p) = Some r" using False eq q Continue by simp
          ultimately show ?thesis using IH h r by blast
        qed
      qed
    qed
  qed
  with assms(1,2) show ?thesis by blast
qed

section \<open>Marking traversals\<close>

text \<open>
  The traversals of the scheduler mark every node they visit, never stop at a node, and follow an
  edge only if its target is not marked yet and satisfies a condition \<open>go\<close> that does not
  change. \<open>inv\<close> is whatever the state keeps; it fixes the edges and their targets.
\<close>

locale marking_dfs =
  fixes g :: "('e, 's) traversal"
    and mark :: "'s \<Rightarrow> sid \<Rightarrow> bool"
    and go :: "sid \<Rightarrow> bool"
    and succ :: "sid \<Rightarrow> sid set"
    and inv :: "'s \<Rightarrow> bool"
    and V :: "sid set"
  assumes finite_V: "finite V"
    and succ_V: "v \<in> V \<Longrightarrow> succ v \<subseteq> V"
    and out_succ: "inv s \<Longrightarrow> v \<in> V \<Longrightarrow> t_out g s v = Inr es \<Longrightarrow> t_target g s ` set es = succ v"
    and target_const: "inv s \<Longrightarrow> inv s' \<Longrightarrow> t_target g s = t_target g s'"
    and visit: "inv s \<Longrightarrow> v \<in> V \<Longrightarrow> t_visit g v s = Inr (b, s') \<Longrightarrow>
          b \<and> inv s' \<and> (\<forall>x. mark s' x \<longleftrightarrow> x = v \<or> mark s x)"
    and filter: "inv s \<Longrightarrow> t_target g s e \<in> V \<Longrightarrow> t_filter g e s = Inr (b, s') \<Longrightarrow>
          inv s' \<and> (\<forall>x. mark s' x \<longleftrightarrow> mark s x) \<and> (b \<longleftrightarrow> \<not> mark s (t_target g s e) \<and> go (t_target g s e))"
begin

text \<open>A node is finished when each of its edges leads to a marked node or fails the condition.\<close>

definition closed :: "'s \<Rightarrow> sid \<Rightarrow> bool" where
  "closed s v \<longleftrightarrow> (\<forall>t\<in>succ v. mark s t \<or> \<not> go t)"

definition opened :: "dfs_data \<Rightarrow> 's \<Rightarrow> sid \<Rightarrow> bool" where
  "opened d s v \<longleftrightarrow> (\<exists>us ws. d_next d = us @ v # ws \<and> v \<notin> set ws
     \<and> (\<forall>t\<in>succ v. mark s t \<or> \<not> go t \<or> t \<in> set ws))"

definition ok :: "dfs_data \<Rightarrow> 's \<Rightarrow> bool" where
  "ok d s \<longleftrightarrow> inv s \<and> d_acyclic d \<and> sorted_wrt (<) (d_visited d) \<and> sorted_wrt (<) (d_stack d)
     \<and> set (d_next d) \<subseteq> V \<and> set (d_visited d) \<subseteq> V \<and> set (d_stack d) \<subseteq> set (d_visited d)
     \<and> (\<forall>v\<in>set (d_visited d). mark s v)
     \<and> (\<forall>v\<in>set (d_stack d). opened d s v)
     \<and> (\<forall>v\<in>set (d_visited d) - set (d_stack d). closed s v)"

text \<open>The edge loop never meets a visited node; it appends the unmarked targets.\<close>

lemma edges_step:
  assumes "dfs_edges g es d s = Inr (stop, d', s')" and "inv s"
    and "sorted_wrt (<) (d_visited d)" and "\<forall>v\<in>set (d_visited d). mark s v"
    and "t_target g s ` set es \<subseteq> V"
  shows "\<not> stop \<and> inv s' \<and> (\<forall>x. mark s' x \<longleftrightarrow> mark s x)
    \<and> (\<exists>ts. d' = d\<lparr>d_next := d_next d @ ts\<rparr> \<and> set ts = {t \<in> t_target g s ` set es. \<not> mark s t \<and> go t})"
  using assms
proof (induction es arbitrary: d s)
  case Nil
  then show ?case by (auto intro!: exI [of _ "[]"])
next
  case (Cons e es)
  from Cons.prems(1) obtain b s1 where s1: "t_filter g e s = Inr (b, s1)" by (auto split: prod.splits)
  have tV: "t_target g s e \<in> V" using Cons.prems(5) by simp
  note f = filter [OF Cons.prems(2) tV s1]
  let ?t = "t_target g s1 e"
  have tgt: "t_target g s1 = t_target g s" using target_const f Cons.prems(2) by blast
  have vis1: "\<forall>v\<in>set (d_visited d). mark s1 v" using Cons.prems(4) f by blast
  have es1: "t_target g s1 ` set es \<subseteq> V" using Cons.prems(5) tgt by auto
  show ?case
  proof (cases b)
    case False
    with Cons.prems(1) s1 have rest: "dfs_edges g es d s1 = Inr (stop, d', s')" by simp
    from Cons.IH [OF rest _ Cons.prems(3) vis1 es1] f False tgt show ?thesis by auto
  next
    case True
    then have unm: "\<not> mark s ?t" and go: "go ?t" using f tgt by auto
    then have nv: "?t \<notin> set (d_visited d)" using Cons.prems(4) by blast
    with Cons.prems(1,3) s1 True
    have rest: "dfs_edges g es (d\<lparr>d_next := d_next d @ [?t]\<rparr>) s1 = Inr (stop, d', s')"
      by (simp add: Let_def lt.fs_contains_iff)
    from Cons.IH [OF rest] Cons.prems(3) vis1 es1 f
    obtain ts where *: "\<not> stop" "inv s'" "\<forall>x. mark s' x \<longleftrightarrow> mark s1 x"
      "d' = d\<lparr>d_next := d_next d @ [?t] @ ts\<rparr>" "set ts = {t \<in> t_target g s1 ` set es. \<not> mark s1 t \<and> go t}"
      by auto
    then have "set ([?t] @ ts) = {t \<in> t_target g s ` set (e # es). \<not> mark s t \<and> go t}"
      using f unm go tgt by auto
    with * f show ?thesis by blast
  qed
qed

lemma openedI:
  "d_next d = us @ v # ws \<Longrightarrow> v \<notin> set ws \<Longrightarrow> \<forall>t\<in>succ v. mark s t \<or> \<not> go t \<or> t \<in> set ws
     \<Longrightarrow> opened d s v"
  unfolding opened_def by blast

lemma opened_last:
  assumes "opened d s v" and "last (d_next d) = v" and "d_next d \<noteq> []"
  shows "closed s v"
proof -
  from assms(1) obtain us ws where *: "d_next d = us @ v # ws" "v \<notin> set ws"
    "\<forall>t\<in>succ v. mark s t \<or> \<not> go t \<or> t \<in> set ws" by (auto simp: opened_def)
  have "ws = []"
  proof (rule ccontr)
    assume "ws \<noteq> []"
    then have "last ws = v" using * assms(2) by simp
    with \<open>ws \<noteq> []\<close> *(2) show False using last_in_set by blast
  qed
  with * show ?thesis by (auto simp: closed_def)
qed

lemma opened_pop:
  assumes "opened d s v" and "last (d_next d) \<noteq> v" and "d_next d \<noteq> []" and "mark s (last (d_next d))"
  shows "opened (d\<lparr>d_stack := q, d_next := butlast (d_next d)\<rparr>) s v"
proof -
  from assms(1) obtain us ws where *: "d_next d = us @ v # ws" "v \<notin> set ws"
    "\<forall>t\<in>succ v. mark s t \<or> \<not> go t \<or> t \<in> set ws" by (auto simp: opened_def)
  have ne: "ws \<noteq> []" using * assms(2) by auto
  then have "butlast (d_next d) = us @ v # butlast ws" by (simp add: * butlast_append)
  moreover have "t \<in> set ws \<Longrightarrow> t \<in> set (butlast ws) \<or> mark s t" for t
    using ne assms(4) * append_butlast_last_id [OF ne]
    by (metis Un_iff empty_iff insert_iff last_ConsR last_appendR list.distinct(1) list.set(1,2) set_append)
  moreover have "v \<notin> set (butlast ws)" using *(2) in_set_butlastD by fastforce
  ultimately show ?thesis using *(3) by (intro openedI [of _ us _ "butlast ws"]) auto
qed

lemma opened_push:
  assumes "opened d s v" and "v \<notin> set ts" and "\<forall>x. mark s x \<longrightarrow> mark s' x"
  shows "opened (d\<lparr>d_visited := vi, d_stack := q, d_next := d_next d @ ts\<rparr>) s' v"
proof -
  from assms(1) obtain us ws where *: "d_next d = us @ v # ws" "v \<notin> set ws"
    "\<forall>t\<in>succ v. mark s t \<or> \<not> go t \<or> t \<in> set ws" by (auto simp: opened_def)
  have "d_next d @ ts = us @ v # (ws @ ts)" "v \<notin> set (ws @ ts)" using * assms(2) by auto
  then show ?thesis using *(3) assms(3) by (intro openedI [of _ us _ "ws @ ts"]) auto
qed

text \<open>
  One round keeps the invariant and decreases, lexicographically, the number of unvisited nodes and
  twice the length of \<open>next\<close> less the size of the path.
\<close>

definition meas :: "dfs_data \<Rightarrow> nat \<times> nat" where
  "meas d = (card (V - set (d_visited d)), 2 * length (d_next d) - card (set (d_stack d)))"

lemma round_pop:
  assumes "ok d s" and "d_next d \<noteq> []" and "last (d_next d) \<in> set (d_stack d)"
  shows "\<exists>d'. dfs_round g d s = Inr (Continue (d', s)) \<and> ok d' s \<and> (meas d', meas d) \<in> less_than <*lex*> less_than
    \<and> last (d_next d) \<in> set (d_visited d') \<and> d_visited d' = d_visited d \<and> d_next d' = butlast (d_next d)"
proof -
  let ?top = "last (d_next d)" and ?st = "snd (fs_erase (<) (last (d_next d)) (d_stack d))"
  let ?d = "d\<lparr>d_stack := ?st, d_next := butlast (d_next d)\<rparr>"
  note o = assms(1) [unfolded ok_def]
  have st: "set ?st = set (d_stack d) - {?top}" "sorted_wrt (<) ?st"
    using o by (simp_all add: lt.fs_erase_set lt.fs_erase_sorted)
  have vis: "?top \<in> set (d_visited d)" using o assms(3) by blast
  have run: "dfs_round g d s = Inr (Continue (?d, s))"
    using o assms(3) vis by (simp add: dfs_round_def Let_def lt.fs_erase_eq lt.fs_contains_iff)
  have mk: "mark s ?top" using o vis by blast
  have "closed s ?top" using o assms(2,3) opened_last by blast
  moreover have "opened ?d s v" if "v \<in> set (d_stack d)" "v \<noteq> ?top" for v
    using opened_pop [of d s v] o that assms(2) mk by blast
  ultimately have "ok ?d s"
    using o st unfolding ok_def by (auto dest: in_set_butlastD)
  moreover have "Suc (card (set ?st)) = card (set (d_stack d))"
    unfolding st(1) using assms(3) by (intro card_Suc_Diff1) auto
  moreover have "card (set (d_stack d)) \<le> length (d_next d)"
  proof -
    have "set (d_stack d) \<subseteq> set (d_next d)" using o unfolding opened_def by fastforce
    then have "card (set (d_stack d)) \<le> card (set (d_next d))" by (simp add: card_mono)
    then show ?thesis using card_length le_trans by blast
  qed
  ultimately have "(meas ?d, meas d) \<in> less_than <*lex*> less_than"
    using assms(2) by (auto simp: meas_def)
  with run \<open>ok ?d s\<close> vis show ?thesis by (intro exI [of _ ?d]) simp
qed

lemma round_open:
  assumes "ok d s" and "d_next d \<noteq> []" and nst: "last (d_next d) \<notin> set (d_stack d)"
    and "dfs_round g d s = Inr r"
  shows "\<exists>d' s'. r = Continue (d', s') \<and> ok d' s' \<and> (meas d', meas d) \<in> less_than <*lex*> less_than
    \<and> (\<forall>x. mark s x \<longrightarrow> mark s' x) \<and> (\<forall>x. mark s' x \<longrightarrow> mark s x \<or> x \<in> set (d_visited d'))
    \<and> set (d_visited d') = insert (last (d_next d)) (set (d_visited d)) \<and> set (d_next d) \<subseteq> set (d_next d')"
proof -
  let ?top = "last (d_next d)"
  let ?vi = "snd (fs_insert (<) ?top (d_visited d))" and ?q = "snd (fs_insert (<) ?top (d_stack d))"
  let ?d = "d\<lparr>d_visited := ?vi, d_stack := ?q\<rparr>"
  note o = assms(1) [unfolded ok_def]
  have top: "?top \<in> V" using o assms(2) last_in_set by blast
  have sets: "set ?vi = insert ?top (set (d_visited d))" "sorted_wrt (<) ?vi"
    "set ?q = insert ?top (set (d_stack d))" "sorted_wrt (<) ?q"
    using o by (simp_all add: lt.fs_insert_set lt.fs_insert_sorted)
  from assms(4) nst o obtain b s1 where v: "t_visit g ?top s = Inr (b, s1)"
    by (auto simp: dfs_round_def Let_def lt.fs_erase_eq lt.fs_contains_iff split: prod.splits)
  have inv: "inv s" using o by simp
  note vs = visit [OF inv top v]
  from assms(4) nst o v vs obtain es stop d2 s2 where
    es: "t_out g s1 ?top = Inr es" "dfs_edges g es ?d s1 = Inr (stop, d2, s2)"
    and r: "r = (if stop then Return (d2, s2) else Continue (d2, s2))"
    by (auto simp: dfs_round_def Let_def lt.fs_erase_eq lt.fs_contains_iff split: prod.splits)
  have mk: "\<forall>x\<in>set (d_visited ?d). mark s1 x" using o vs sets by auto
  have sv: "sorted_wrt (<) (d_visited ?d)" using sets by simp
  have inv1: "inv s1" using vs by simp
  have tgt: "t_target g s1 ` set es = succ ?top" by (rule out_succ [OF inv1 top es(1)])
  then have tV: "t_target g s1 ` set es \<subseteq> V" using succ_V [OF top] by simp
  from edges_step [OF es(2) inv1 sv mk tV] obtain ts where
    e: "\<not> stop" "inv s2" "\<forall>x. mark s2 x \<longleftrightarrow> mark s1 x" "d2 = ?d\<lparr>d_next := d_next ?d @ ts\<rparr>"
    "set ts = {t \<in> t_target g s1 ` set es. \<not> mark s1 t \<and> go t}" by blast
  have ts: "set ts = {t \<in> succ ?top. \<not> mark s1 t \<and> go t}" using e(5) tgt by simp
  have mono: "\<forall>x. mark s x \<longrightarrow> mark s2 x" "mark s2 ?top" using vs e(3) by auto
  have d2: "d2 = d\<lparr>d_visited := ?vi, d_stack := ?q, d_next := d_next d @ ts\<rparr>" using e(4) by simp
  have op: "opened d2 s2 v" if "v \<in> set (d_stack d)" for v
    unfolding d2 by (rule opened_push [of d s]) (use that o ts vs mono in auto)
  have top_op: "opened d2 s2 ?top"
    by (rule openedI [of _ "butlast (d_next d)" _ ts])
      (use assms(2) ts vs e(3) in \<open>auto simp: d2\<close>)
  have cl: "closed s2 v" if "v \<in> set (d_visited d)" "v \<notin> set (d_stack d)" for v
    using that o mono unfolding closed_def by blast
  have ok2: "ok d2 s2"
    unfolding ok_def using o sets e(2) e(3) mk ts succ_V [OF top] top op top_op cl by (auto simp: d2)
  have "(meas d2, meas d) \<in> less_than <*lex*> less_than"
  proof (cases "?top \<in> set (d_visited d)")
    case False
    then have "V - set (d_visited d2) \<subset> V - set (d_visited d)" using top sets by (auto simp: d2)
    then have "card (V - set (d_visited d2)) < card (V - set (d_visited d))"
      using finite_V by (intro psubset_card_mono) auto
    then show ?thesis by (simp add: meas_def)
  next
    case True
    then have "closed s ?top" using o nst by blast
    then have "mark s1 t \<or> \<not> go t" if "t \<in> succ ?top" for t
      using that vs unfolding closed_def by simp
    then have "set ts = {}" unfolding ts by simp
    then have "ts = []" by simp
    moreover have "set (d_visited d2) = set (d_visited d)" using True sets by (auto simp: d2)
    moreover have "card (set ?q) = Suc (card (set (d_stack d)))" using nst sets by simp
    moreover have "card (set (d_stack d)) < length (d_next d)"
    proof -
      have "set (d_stack d) \<subset> set (d_next d)"
        using o nst assms(2) last_in_set unfolding opened_def by fastforce
      then have "card (set (d_stack d)) < card (set (d_next d))" by (simp add: psubset_card_mono)
      then show ?thesis using card_length less_le_trans by blast
    qed
    ultimately show ?thesis by (simp add: meas_def d2)
  qed
  moreover have "\<forall>x. mark s2 x \<longrightarrow> mark s x \<or> x \<in> set (d_visited d2)" using vs e(3) sets by (auto simp: d2)
  ultimately show ?thesis using ok2 r e(1) mono sets by (intro exI [of _ d2] exI [of _ s2]) (simp add: d2)
qed

lemma round_step:
  assumes "ok d s" and "d_next d \<noteq> []" and "dfs_round g d s = Inr r"
  shows "\<exists>d' s'. r = Continue (d', s') \<and> ok d' s' \<and> (meas d', meas d) \<in> less_than <*lex*> less_than
    \<and> (\<forall>x. mark s x \<longrightarrow> mark s' x) \<and> (\<forall>x. mark s' x \<longrightarrow> mark s x \<or> x \<in> set (d_visited d'))
    \<and> insert (last (d_next d)) (set (d_visited d)) \<subseteq> set (d_visited d')
    \<and> set (butlast (d_next d)) \<subseteq> set (d_next d')"
proof (cases "last (d_next d) \<in> set (d_stack d)")
  case True
  from round_pop [OF assms(1,2) True] assms(3) show ?thesis by auto
next
  case False
  have "set (butlast (d_next d)) \<subseteq> set (d_next d)" by (auto dest: in_set_butlastD)
  moreover from round_open [OF assms(1,2) False assms(3)] obtain d' s' where
    "r = Continue (d', s')" "ok d' s'" "(meas d', meas d) \<in> less_than <*lex*> less_than"
    "\<forall>x. mark s x \<longrightarrow> mark s' x" "\<forall>x. mark s' x \<longrightarrow> mark s x \<or> x \<in> set (d_visited d')"
    "set (d_visited d') = insert (last (d_next d)) (set (d_visited d))" "set (d_next d) \<subseteq> set (d_next d')"
    by (elim exE conjE)
  ultimately show ?thesis by (intro exI [of _ d'] exI [of _ s']) simp
qed

text \<open>The traversal ends; if no callback failed, no cycle was met and every visited node is finished.\<close>

definition finished :: "dfs_data \<Rightarrow> 's \<Rightarrow> dfs_data \<Rightarrow> 's \<Rightarrow> bool" where
  "finished d s d' s' \<longleftrightarrow> ok d' s' \<and> d_next d' = [] \<and> (\<forall>x. mark s x \<longrightarrow> mark s' x)
     \<and> (\<forall>x. mark s' x \<longrightarrow> mark s x \<or> x \<in> set (d_visited d'))
     \<and> set (d_visited d) \<union> set (d_next d) \<subseteq> set (d_visited d')"

lemma finished_step:
  assumes "finished d' s' d'' s''" and "d_next d \<noteq> []" and "\<forall>x. mark s x \<longrightarrow> mark s' x"
    and "\<forall>x. mark s' x \<longrightarrow> mark s x \<or> x \<in> set (d_visited d')"
    and "insert (last (d_next d)) (set (d_visited d)) \<subseteq> set (d_visited d')"
    and "set (butlast (d_next d)) \<subseteq> set (d_next d')"
  shows "finished d s d'' s''"
proof -
  have "set (d_next d) = insert (last (d_next d)) (set (butlast (d_next d)))"
    using append_butlast_last_id [OF assms(2)] by (metis Un_insert_right list.simps(15) set_append sup_bot_right empty_set)
  then have "set (d_visited d) \<union> set (d_next d) \<subseteq> set (d_visited d') \<union> set (d_next d')"
    using assms(5,6) by auto
  with assms(1,3,4) show ?thesis unfolding finished_def by blast
qed

lemma loop_ends:
  assumes "ok d s"
  shows "\<exists>r. dfs_loop g d s = Some r \<and> (\<forall>d' s'. r = Inr (d', s') \<longrightarrow> finished d s d' s')"
  using assms
proof (induction "meas d" arbitrary: d s rule: wf_induct_rule [OF wf_lex_prod [OF wf_less_than wf_less_than]])
  case 1
  show ?case
  proof (cases "d_next d = []")
    case True
    then show ?thesis using "1.prems" by (subst dfs_loop.simps) (simp add: finished_def)
  next
    case ne: False
    show ?thesis
    proof (cases "dfs_round g d s")
      case (Inl e)
      then show ?thesis using ne by (subst dfs_loop.simps) auto
    next
      case (Inr r)
      from round_step [OF "1.prems" ne Inr] obtain d' s' where
        *: "r = Continue (d', s')" "ok d' s'" "(meas d', meas d) \<in> less_than <*lex*> less_than"
        "\<forall>x. mark s x \<longrightarrow> mark s' x" "\<forall>x. mark s' x \<longrightarrow> mark s x \<or> x \<in> set (d_visited d')"
        "insert (last (d_next d)) (set (d_visited d)) \<subseteq> set (d_visited d')"
        "set (butlast (d_next d)) \<subseteq> set (d_next d')"
        by (elim exE conjE)
      from "1.hyps" [OF *(3) *(2)] obtain q where
        q: "dfs_loop g d' s' = Some q" "\<forall>d'' s''. q = Inr (d'', s'') \<longrightarrow> finished d' s' d'' s''" by blast
      have "dfs_loop g d s = Some q" using ne Inr * q by (subst dfs_loop.simps) simp
      with q(2) finished_step [OF _ ne *(4-7)] show ?thesis by blast
    qed
  qed
qed

lemma marking_dfs_ends:
  assumes "inv s" and "start \<in> V"
  shows "\<exists>r. dfs g start empty_dfs s = Some r \<and> (\<forall>d' s'. r = Inr (d', s') \<longrightarrow>
     d_acyclic d' \<and> inv s' \<and> mark s' start \<and> (\<forall>x. mark s x \<longrightarrow> mark s' x)
     \<and> (\<forall>v. mark s' v \<longrightarrow> mark s v \<and> v \<noteq> start \<or> v \<in> V \<and> (\<forall>t\<in>succ v. mark s' t \<or> \<not> go t)))"
proof -
  have "ok (empty_dfs\<lparr>d_next := [start]\<rparr>) s"
    using assms by (simp add: ok_def empty_dfs_def)
  from loop_ends [OF this] obtain r where r: "dfs g start empty_dfs s = Some r"
    "\<forall>d' s'. r = Inr (d', s') \<longrightarrow> finished (empty_dfs\<lparr>d_next := [start]\<rparr>) s d' s'"
    by (auto simp: dfs_def empty_dfs_def)
  have st: "set (d_stack d') = {}" if "ok d' s'" "d_next d' = []" for d' s'
    using that by (auto simp: ok_def opened_def)
  have "d_acyclic d' \<and> inv s' \<and> mark s' start \<and> (\<forall>x. mark s x \<longrightarrow> mark s' x)
     \<and> (\<forall>v. mark s' v \<longrightarrow> mark s v \<and> v \<noteq> start \<or> v \<in> V \<and> (\<forall>t\<in>succ v. mark s' t \<or> \<not> go t))"
    if "r = Inr (d', s')" for d' s'
  proof -
    note z = r(2) [rule_format, OF that, unfolded finished_def]
    then have "v \<in> V \<and> (\<forall>t\<in>succ v. mark s' t \<or> \<not> go t)" if "v \<in> set (d_visited d')" for v
    proof -
      have o: "ok d' s'" using z by simp
      moreover have "set (d_stack d') = {}" by (rule st [OF o]) (use z in simp)
      ultimately have "closed s' v" "v \<in> V" using that by (auto simp: ok_def)
      then show ?thesis by (simp add: closed_def)
    qed
    moreover have "start \<in> set (d_visited d')" using z by simp
    ultimately show ?thesis using z unfolding ok_def by blast
  qed
  with r(1) show ?thesis by blast
qed

end

text \<open>If the callbacks succeed while the state keeps \<open>inv\<close>, the traversal succeeds.\<close>

locale total_marking_dfs = marking_dfs +
  assumes visit_ok: "inv s \<Longrightarrow> v \<in> V \<Longrightarrow> \<exists>r. t_visit g v s = Inr r"
    and out_ok: "inv s \<Longrightarrow> v \<in> V \<Longrightarrow> \<exists>es. t_out g s v = Inr es"
    and filter_ok: "inv s \<Longrightarrow> t_target g s e \<in> V \<Longrightarrow> \<exists>r. t_filter g e s = Inr r"
begin

lemma edges_total:
  assumes "inv s" and "sorted_wrt (<) (d_visited d)" and "\<forall>v\<in>set (d_visited d). mark s v"
    and "t_target g s ` set es \<subseteq> V"
  shows "\<exists>r. dfs_edges g es d s = Inr r"
  using assms
proof (induction es arbitrary: d s)
  case (Cons e es)
  have tV: "t_target g s e \<in> V" using Cons.prems(4) by simp
  obtain b s1 where s1: "t_filter g e s = Inr (b, s1)" using filter_ok [OF Cons.prems(1) tV] by auto
  note f = filter [OF Cons.prems(1) tV s1]
  have tgt: "t_target g s1 = t_target g s" using target_const f Cons.prems(1) by blast
  have inv1: "inv s1" using f by simp
  have vis1: "\<forall>v\<in>set (d_visited d). mark s1 v" using Cons.prems(3) f by blast
  have es1: "t_target g s1 ` set es \<subseteq> V" using Cons.prems(4) tgt by auto
  show ?case
  proof (cases b)
    case False
    with s1 Cons.IH [OF inv1 Cons.prems(2) vis1 es1] show ?thesis by simp
  next
    case True
    then have "t_target g s1 e \<notin> set (d_visited d)" using f tgt Cons.prems(3) by auto
    moreover have "\<exists>r. dfs_edges g es (d\<lparr>d_next := d_next d @ [t_target g s1 e]\<rparr>) s1 = Inr r"
      by (rule Cons.IH [OF inv1]) (use Cons.prems(2) vis1 es1 in simp_all)
    ultimately show ?thesis using s1 True Cons.prems(2) by (simp add: Let_def lt.fs_contains_iff)
  qed
next
  case Nil
  show ?case by (rule exI) (rule dfs_edges.simps(1))
qed

lemma round_total:
  assumes "ok d s" and "d_next d \<noteq> []"
  shows "\<exists>r. dfs_round g d s = Inr r"
proof (cases "last (d_next d) \<in> set (d_stack d)")
  case True
  then show ?thesis using round_pop [OF assms] by blast
next
  case nst: False
  let ?top = "last (d_next d)"
  let ?d = "d\<lparr>d_visited := snd (fs_insert (<) ?top (d_visited d)), d_stack := snd (fs_insert (<) ?top (d_stack d))\<rparr>"
  note o = assms(1) [unfolded ok_def]
  have top: "?top \<in> V" using o assms(2) last_in_set by blast
  have inv: "inv s" using o by simp
  obtain b s1 where v: "t_visit g ?top s = Inr (b, s1)" using visit_ok [OF inv top] by auto
  note vs = visit [OF inv top v]
  have inv1: "inv s1" using vs by simp
  obtain es where es: "t_out g s1 ?top = Inr es" using out_ok [OF inv1 top] by blast
  have "\<exists>r. dfs_edges g es ?d s1 = Inr r"
    by (rule edges_total [OF inv1])
      (use o vs out_succ [OF inv1 top es] succ_V [OF top] in \<open>auto simp: lt.fs_insert_set lt.fs_insert_sorted\<close>)
  then show ?thesis
    using nst o v vs es by (auto simp: dfs_round_def Let_def lt.fs_erase_eq lt.fs_contains_iff split: prod.splits)
qed

lemma loop_total:
  assumes "ok d s"
  shows "\<exists>r. dfs_loop g d s = Some (Inr r)"
  using assms
proof (induction "meas d" arbitrary: d s rule: wf_induct_rule [OF wf_lex_prod [OF wf_less_than wf_less_than]])
  case 1
  show ?case
  proof (cases "d_next d = []")
    case True
    then show ?thesis by (subst dfs_loop.simps) simp
  next
    case ne: False
    obtain r where r: "dfs_round g d s = Inr r" using round_total [OF "1.prems" ne] by blast
    from round_step [OF "1.prems" ne r] obtain d' s' where
      *: "r = Continue (d', s')" "ok d' s'" "(meas d', meas d) \<in> less_than <*lex*> less_than"
      by (elim exE conjE)
    with ne r "1.hyps" [OF *(3) *(2)] show ?thesis by (subst dfs_loop.simps) simp
  qed
qed

lemma marking_dfs_succeeds:
  assumes "inv s" and "start \<in> V"
  shows "\<exists>d' s'. dfs g start empty_dfs s = Some (Inr (d', s')) \<and> d_acyclic d' \<and> inv s' \<and> mark s' start
     \<and> (\<forall>x. mark s x \<longrightarrow> mark s' x)
     \<and> (\<forall>v. mark s' v \<longrightarrow> mark s v \<and> v \<noteq> start \<or> v \<in> V \<and> (\<forall>t\<in>succ v. mark s' t \<or> \<not> go t))"
proof -
  have "ok (empty_dfs\<lparr>d_next := [start]\<rparr>) s" using assms by (simp add: ok_def empty_dfs_def)
  from loop_total [OF this] obtain r where "dfs g start empty_dfs s = Some (Inr r)"
    by (auto simp: dfs_def empty_dfs_def)
  then obtain d' s' where "dfs g start empty_dfs s = Some (Inr (d', s'))" by (cases r) auto
  with marking_dfs_ends [OF assms] show ?thesis by auto
qed

end

end
