(* ===== verification/Engine.thy ===== *)
theory Engine
  imports Dep_Graph Graph_DFS
begin

text \<open>
  The state of the running engine and its counters. An engine state is a store extended by the
  scheduling queue (src/lib/idle/core/detail/context/scheduler.hpp), the event loop's queue of posted
  handlers, the strong counts of the services' control blocks and a log of the callbacks
  that were made. The operations are those of src/lib/idle/core/detail/service_impl.cpp and
  scheduler.cpp that change counters, marks and the queue but no phase; they run
  on the event loop thread, which the code asserts throughout.

  An operation maps a state to a state or an error; \<open>run\<close> executes a list of them one after
  the other. Loops over a graph range read the range first: no loop body below changes the
  links that the range is computed from.
\<close>

section \<open>Loops over a graph range\<close>

definition each_in :: "('s \<Rightarrow> 'b list res option) \<Rightarrow> ('b \<Rightarrow> 's \<Rightarrow> 's res) \<Rightarrow> 's \<Rightarrow> 's res" where
  "each_in r f s = lift_range (r s) (\<lambda>xs. fold_res f xs s)"

section \<open>The engine state\<close>

datatype event =
    EvProcess
  | EvCheckStartable sid
  | EvDestroy sid

datatype observation =
    Changed sid phase phase
  | Setup sid
  | OnStart sid
  | OnStop sid
  | ImportLock pid
  | ImportUnlock pid
  | InterfaceLock pid
  | InterfaceUnlock pid
  | UsedStarted uid
  | UsageConnect uid
  | UsageDisconnect uid
  | Resolved cid "nat list"
  | Cancelled cid "nat list"

record engine = store +
  e_down :: "sid list"
  e_up :: "sid list"
  e_processing :: bool
  e_dispatched :: bool
  e_posted :: "event list"
  e_strong :: "sid \<Rightarrow> 32 word option"
  e_log :: "observation list"

type_synonym op = "engine \<Rightarrow> engine res"

definition upd_svc :: "sid \<Rightarrow> (service \<Rightarrow> service) \<Rightarrow> engine \<Rightarrow> engine" where
  "upd_svc s f e = e\<lparr>svc := (svc e)(s := f (svc e s))\<rparr>"

definition upd_prt :: "pid \<Rightarrow> (part \<Rightarrow> part) \<Rightarrow> engine \<Rightarrow> engine" where
  "upd_prt p f e = e\<lparr>prt := (prt e)(p := f (prt e p))\<rparr>"

definition upd_usg :: "uid \<Rightarrow> (usage \<Rightarrow> usage) \<Rightarrow> engine \<Rightarrow> engine" where
  "upd_usg u f e = e\<lparr>usg := (usg e)(u := f (usg e u))\<rparr>"

definition clus :: "'a store_scheme \<Rightarrow> sid \<Rightarrow> cid" where
  "clus e s = (case s_cluster (svc e s) of Some c \<Rightarrow> c | None \<Rightarrow> 0)"

abbreviation cluster_of :: "'a store_scheme \<Rightarrow> sid \<Rightarrow> cluster" where
  "cluster_of e s \<equiv> clu e (clus e s)"

definition upd_clu :: "sid \<Rightarrow> (cluster \<Rightarrow> cluster) \<Rightarrow> engine \<Rightarrow> engine" where
  "upd_clu s f e = e\<lparr>clu := (clu e)(clus e s := f (cluster_of e s))\<rparr>"

definition observe :: "observation \<Rightarrow> op" where
  "observe ob e = Inr (e\<lparr>e_log := e_log e @ [ob]\<rparr>)"

definition post :: "event \<Rightarrow> op" where
  "post ev e = Inr (e\<lparr>e_posted := e_posted e @ [ev]\<rparr>)"

section \<open>Predicates on clusters\<close>

definition is_in_same_cluster :: "'a store_scheme \<Rightarrow> sid \<Rightarrow> sid \<Rightarrow> bool" where
  "is_in_same_cluster e a b \<longleftrightarrow> s_cluster (svc e a) = s_cluster (svc e b)"

definition has_implicit_root_edge :: "'a store_scheme \<Rightarrow> sid \<Rightarrow> bool" where
  "has_implicit_root_edge e s \<longleftrightarrow> \<not> isRoot e s \<and> \<not> isRoot e (owner e (parent e s))"

definition are_imports_satisfied :: "'a store_scheme \<Rightarrow> sid \<Rightarrow> bool" where
  "are_imports_satisfied e s \<longleftrightarrow> (\<forall>p\<in>set (imports_of e s). p_satisfied (prt e p))"

definition isStartable :: "'a store_scheme \<Rightarrow> sid \<Rightarrow> bool" where
  "isStartable e s \<longleftrightarrow> s_inner (svc e s) = 0
     \<and> (phase_of e s = locked \<or> (phase_of e s = stopped \<and> c_outer (cluster_of e s) = 0))"

definition isManual :: "'a store_scheme \<Rightarrow> sid \<Rightarrow> bool" where
  "isManual e s \<longleftrightarrow> c_override (cluster_of e s) = ovr_start"

definition isDefaultCreated :: "'a store_scheme \<Rightarrow> sid \<Rightarrow> bool" where
  "isDefaultCreated e s \<longleftrightarrow> c_auto_created (cluster_of e s)"

definition is_cluster_pushed :: "'a store_scheme \<Rightarrow> sid \<Rightarrow> bool" where
  "is_cluster_pushed e s \<longleftrightarrow> c_pushes (cluster_of e s) \<noteq> 0"

definition is_cluster_pulled :: "'a store_scheme \<Rightarrow> sid \<Rightarrow> bool" where
  "is_cluster_pulled e s \<longleftrightarrow> c_pulls (cluster_of e s) \<noteq> 0"

definition is_cluster_stopped :: "'a store_scheme \<Rightarrow> sid \<Rightarrow> bool" where
  "is_cluster_stopped e s \<longleftrightarrow> c_running (cluster_of e s) = 0"

definition is_cluster_startable :: "'a store_scheme \<Rightarrow> sid \<Rightarrow> bool" where
  "is_cluster_startable e s \<longleftrightarrow>
     c_outer (cluster_of e s) = 0 \<and> c_running (cluster_of e s) = 0 \<and> \<not> isLocked e s"

definition is_cluster_marked_for_start :: "'a store_scheme \<Rightarrow> sid \<Rightarrow> bool" where
  "is_cluster_marked_for_start e s \<longleftrightarrow> c_marked_start (cluster_of e s)"

definition is_cluster_marked_for_stop :: "'a store_scheme \<Rightarrow> sid \<Rightarrow> bool" where
  "is_cluster_marked_for_stop e s \<longleftrightarrow> c_marked_stop (cluster_of e s)"

definition shall_cluster_start :: "'a store_scheme \<Rightarrow> sid \<Rightarrow> bool" where
  "shall_cluster_start e s \<longleftrightarrow> (is_cluster_pushed e s \<and> is_cluster_marked_for_start e s)
     \<and> \<not> is_cluster_marked_for_stop e s \<and> \<not> is_cluster_pulled e s"

definition shall_cluster_stop :: "'a store_scheme \<Rightarrow> sid \<Rightarrow> bool" where
  "shall_cluster_stop e s \<longleftrightarrow> \<not> is_cluster_pushed e s \<or> is_cluster_marked_for_stop e s"

section \<open>The scheduling queue\<close>

text \<open>Two flat sets of service pointers ordered by \<open>std::greater\<close>; \<open>pop\<close> serves stops first.\<close>

definition q_push_down :: "sid \<Rightarrow> op" where
  "q_push_down s = run
    [require (\<lambda>e. \<not> fs_contains (>) (e_up e) s),
     require (\<lambda>e. isStoppable e s),
     (\<lambda>e. let ((pos, new), down) = fs_insert (>) s (e_down e)
          in check (pos \<noteq> length down \<and> pos = fs_find (>) down s) (e\<lparr>e_down := down\<rparr>))]"

definition q_push_up :: "sid \<Rightarrow> op" where
  "q_push_up s = run
    [require (\<lambda>e. \<not> fs_contains (>) (e_down e) s),
     require (\<lambda>e. isStartable e s),
     (\<lambda>e. let ((pos, new), up) = fs_insert (>) s (e_up e)
          in check (pos \<noteq> length up \<and> pos = fs_find (>) up s) (e\<lparr>e_up := up\<rparr>))]"

definition q_erase_one :: "sid \<Rightarrow> sid list \<Rightarrow> sid list res" where
  "q_erase_one s q =
     (let itr = fs_find (>) q s; cont = (itr \<noteq> length q) in
      if cont \<and> q ! itr \<noteq> s then Inl AssertFailed
      else let (count, q') = fs_erase (>) s q in check ((count = 1) = cont) q')"

definition q_erase :: "sid \<Rightarrow> op" where
  "q_erase s e =
     bind (q_erase_one s (e_down e)) (\<lambda>down.
     bind (q_erase_one s (e_up e)) (\<lambda>up. Inr (e\<lparr>e_down := down, e_up := up\<rparr>)))"

definition q_clear :: op where
  "q_clear e = Inr (e\<lparr>e_up := [], e_down := []\<rparr>)"

definition q_empty :: "engine \<Rightarrow> bool" where
  "q_empty e \<longleftrightarrow> e_up e = [] \<and> e_down e = []"

definition q_pop :: "engine \<Rightarrow> sid option \<times> engine" where
  "q_pop e =
     (if e_down e \<noteq> [] then let (s, down) = fs_pop_last (e_down e) in (Some s, e\<lparr>e_down := down\<rparr>)
      else if e_up e \<noteq> [] then let (s, up) = fs_pop_last (e_up e) in (Some s, e\<lparr>e_up := up\<rparr>)
      else (None, e))"

definition iterate :: op where
  "iterate = only_if (\<lambda>e. \<not> e_processing e \<and> \<not> e_dispatched e)
     (run [(\<lambda>e. Inr (e\<lparr>e_dispatched := True\<rparr>)), post EvProcess])"

section \<open>Startable and stoppable services\<close>

text \<open>
  When a service becomes startable while the root is not running the scheduler starts the root
  first. Starting the root itself reports startable services, so the start of the root is the
  argument \<open>sr\<close> here; the theory \<open>Lifecycle\<close> ties the knot.
\<close>

definition on_service_startable :: "op \<Rightarrow> sid \<Rightarrow> op" where
  "on_service_startable sr s = run
    [require (\<lambda>e. isStartable e s),
     require (\<lambda>e. isRoot e s \<or> \<not> isStopped e (root e)),
     require (\<lambda>e. isRoot e s \<or> (isa_export e (parent e s) = isRunning e (owner e (parent e s)))),
     only_if (\<lambda>e. \<not> isRoot e s \<and> \<not> isRunning e (root e)) sr,
     q_push_up s,
     iterate]"

definition on_service_stoppable :: "sid \<Rightarrow> op" where
  "on_service_stoppable s = run [require (\<lambda>e. isStoppable e s), q_push_down s, iterate]"

definition check_stoppable :: "sid \<Rightarrow> op" where
  "check_stoppable s = only_if (\<lambda>e. isStoppable e s \<and> shall_cluster_stop e s) (on_service_stoppable s)"

definition check_inner_startable :: "op \<Rightarrow> sid \<Rightarrow> op" where
  "check_inner_startable sr s =
     only_if (\<lambda>e. isStartable e s \<and> shall_cluster_start e s) (on_service_startable sr s)"

definition has_inner_in_edge :: "'a store_scheme \<Rightarrow> sid \<Rightarrow> bool res" where
  "has_inner_in_edge e s =
     bind (first_outer_edge_of dir_in e s (bs_union cluster_graph service_graph)) (\<lambda>r. Inr (r \<noteq> None))"

definition check_any_in_cluster_startable :: "op \<Rightarrow> sid \<Rightarrow> op" where
  "check_any_in_cluster_startable sr h = run
    [require (\<lambda>e. is_cluster_head e h),
     only_if (\<lambda>e. shall_cluster_start e h)
       (each (\<lambda>e. cluster_members e h) (\<lambda>m e.
          bind (has_inner_in_edge e m) (\<lambda>b.
            if \<not> b \<and> isStartable e m then on_service_startable sr m e else Inr e)))]"

section \<open>Counters\<close>

definition on_outgoing_increment :: "sid \<Rightarrow> op" where
  "on_outgoing_increment s = run
    [require (\<lambda>e. isRunning e s),
     require (\<lambda>e. uses_of e s > 0),
     require (\<lambda>e. uses_of e s < - 1),
     (\<lambda>e. Inr (upd_svc s (\<lambda>x. x\<lparr>s_uses := s_uses x + 1\<rparr>) e))]"

definition on_outgoing_reached_no_external_use :: "sid \<Rightarrow> 32 word \<Rightarrow> op" where
  "on_outgoing_reached_no_external_use s cur = run
    [require (\<lambda>e. isInitializedUnsafe e s \<and> has_no_external_uses e s cur \<and> cur \<noteq> 0),
     (if cur = 1 then check_stoppable s
      else run [require (\<lambda>e. cur = 2 \<and> isa_import e (parent e s)),
                (\<lambda>e. check_stoppable (get_cluster_head_of e s) e)])]"

definition on_outgoing_decrement :: "sid \<Rightarrow> op" where
  "on_outgoing_decrement s e =
     (if \<not> isRunning e s \<or> \<not> uses_of e s > 1 then Inl AssertFailed
      else let cur = uses_of e s - 1; e' = upd_svc s (\<lambda>x. x\<lparr>s_uses := cur\<rparr>) e
        in only_if (\<lambda>e. has_no_external_uses e s cur) (on_outgoing_reached_no_external_use s cur) e')"

definition on_outer_required_increment :: "sid \<Rightarrow> op" where
  "on_outer_required_increment s = run
    [require (\<lambda>e. isInitializedUnsafe e s),
     require (\<lambda>e. c_outer (cluster_of e s) < - 1),
     (\<lambda>e. Inr (upd_clu s (\<lambda>c. c\<lparr>c_outer := c_outer c + 1\<rparr>) e))]"

definition on_outer_required_decrement :: "op \<Rightarrow> sid \<Rightarrow> op" where
  "on_outer_required_decrement sr s = run
    [require (\<lambda>e. isInitializedUnsafe e s),
     require (\<lambda>e. c_outer (cluster_of e s) \<noteq> 0),
     (\<lambda>e. Inr (upd_clu s (\<lambda>c. c\<lparr>c_outer := c_outer c - 1\<rparr>) e)),
     only_if (\<lambda>e. c_outer (cluster_of e s) = 0)
       (\<lambda>e. check_any_in_cluster_startable sr (get_cluster_head_of e s) e)]"

definition on_inner_required_increment :: "sid \<Rightarrow> op" where
  "on_inner_required_increment s = run
    [require (\<lambda>e. isInitializedUnsafe e s),
     require (\<lambda>e. s_inner (svc e s) < 4096),
     (\<lambda>e. Inr (upd_svc s (\<lambda>x. x\<lparr>s_inner := s_inner x + 1\<rparr>) e))]"

definition on_inner_required_decrement :: "op \<Rightarrow> sid \<Rightarrow> op" where
  "on_inner_required_decrement sr s = run
    [require (\<lambda>e. isInitializedUnsafe e s),
     require (\<lambda>e. s_inner (svc e s) > 0),
     (\<lambda>e. Inr (upd_svc s (\<lambda>x. x\<lparr>s_inner := s_inner x - 1\<rparr>) e)),
     only_if (\<lambda>e. s_inner (svc e s) = 0) (check_inner_startable sr s)]"

definition on_cluster_pulls_increment :: "sid \<Rightarrow> op" where
  "on_cluster_pulls_increment h = run
    [require (\<lambda>e. isInitializedUnsafe e h \<and> is_cluster_head e h),
     (\<lambda>e. Inr (upd_clu h (\<lambda>c. c\<lparr>c_pulls := c_pulls c + 1\<rparr>) e))]"

definition on_cluster_pulls_decrement :: "op \<Rightarrow> sid \<Rightarrow> op" where
  "on_cluster_pulls_decrement sr h = run
    [require (\<lambda>e. isInitializedUnsafe e h \<and> is_cluster_head e h),
     require (\<lambda>e. c_pulls (cluster_of e h) \<noteq> 0),
     (\<lambda>e. Inr (upd_clu h (\<lambda>c. c\<lparr>c_pulls := c_pulls c - 1\<rparr>) e)),
     only_if (\<lambda>e. c_pulls (cluster_of e h) = 0) (check_any_in_cluster_startable sr h)]"

definition call_on_cluster_pulls_increment :: "sid \<Rightarrow> op" where
  "call_on_cluster_pulls_increment h = run
    [require (\<lambda>e. isInitializedUnsafe e h \<and> is_cluster_head e h),
     each_in (\<lambda>e. cluster_out_edges e h 0) (\<lambda>ed e. on_cluster_pulls_increment (cluster_target e ed) e)]"

definition call_on_cluster_pulls_decrement :: "op \<Rightarrow> sid \<Rightarrow> op" where
  "call_on_cluster_pulls_decrement sr h = run
    [require (\<lambda>e. isInitializedUnsafe e h \<and> is_cluster_head e h),
     each_in (\<lambda>e. cluster_out_edges e h 0) (\<lambda>ed e. on_cluster_pulls_decrement sr (cluster_target e ed) e)]"

definition do_mark_cluster_for_start :: "sid \<Rightarrow> bool \<Rightarrow> op" where
  "do_mark_cluster_for_start h b e = Inr (upd_clu h (\<lambda>c. c\<lparr>c_marked_start := b\<rparr>) e)"

definition do_mark_cluster_for_stop :: "op \<Rightarrow> sid \<Rightarrow> bool \<Rightarrow> op" where
  "do_mark_cluster_for_stop sr h b = only_if (\<lambda>e. b \<noteq> is_cluster_marked_for_stop e h)
     (run [(\<lambda>e. Inr (upd_clu h (\<lambda>c. c\<lparr>c_marked_stop := b\<rparr>) e)),
           (if b then call_on_cluster_pulls_increment h else call_on_cluster_pulls_decrement sr h)])"

subsection \<open>Pushes\<close>

text \<open>
  Pushes propagate along the reversed cluster graph: a cluster whose count leaves zero pushes
  every cluster it depends on, once per edge.
\<close>

definition reverse_graph :: "(sid \<Rightarrow> engine \<Rightarrow> (bool \<times> engine) res) \<Rightarrow> (edge \<Rightarrow> engine \<Rightarrow> (bool \<times> engine) res)
    \<Rightarrow> bool \<Rightarrow> (edge, engine) traversal" where
  "reverse_graph vis flt fl =
     \<lparr>t_out = (\<lambda>e v. lift_opt (cluster_in_edges e v 0)), t_target = cluster_source,
      t_visit = vis, t_filter = flt, t_all_paths = fl, t_cancel = fl\<rparr>"

definition push_visit :: "sid \<Rightarrow> engine \<Rightarrow> (bool \<times> engine) res" where
  "push_visit h e =
     (if \<not> is_cluster_head e h then Inl AssertFailed
      else let e' = upd_clu h (\<lambda>c. c\<lparr>c_pushes := c_pushes c + 1\<rparr>) e
        in Inr (c_pushes (cluster_of e' h) = 1, e'))"

definition unpush_visit :: "sid \<Rightarrow> engine \<Rightarrow> (bool \<times> engine) res" where
  "unpush_visit h e =
     (if \<not> is_cluster_head e h \<or> c_pushes (cluster_of e h) = 0 then Inl AssertFailed
      else let e' = upd_clu h (\<lambda>c. c\<lparr>c_pushes := c_pushes c - 1\<rparr>) e
        in if c_pushes (cluster_of e' h) = 0 then
             (if isManual e' h then Inl AssertFailed
              else bind (check_stoppable h e') (\<lambda>e''. Inr (True, e'')))
           else Inr (False, e'))"

definition ancestor_data :: "engine \<Rightarrow> sid option \<Rightarrow> dfs_data" where
  "ancestor_data e anc =
     (case anc of None \<Rightarrow> empty_dfs | Some a \<Rightarrow> dfs_ancestors [get_cluster_head_of e a] empty_dfs)"

definition run_dfs :: "(edge, engine) traversal \<Rightarrow> sid \<Rightarrow> dfs_data \<Rightarrow> engine \<Rightarrow> (dfs_data \<times> engine) res" where
  "run_dfs g s d e = lift_opt (dfs g s d e)"

definition call_on_cluster_pushes_increment :: "sid \<Rightarrow> sid option \<Rightarrow> op" where
  "call_on_cluster_pushes_increment s anc = run
    [require (\<lambda>e. isInitializedUnsafe e s \<and> is_cluster_head e s),
     (\<lambda>e. if c_pushes (cluster_of e s) = 0 then
            bind (run_dfs (reverse_graph push_visit (\<lambda>ed e. Inr (True, e)) True) s (ancestor_data e anc) e)
              (\<lambda>(d, e'). Inr e')
          else Inr (upd_clu s (\<lambda>c. c\<lparr>c_pushes := c_pushes c + 1\<rparr>) e))]"

definition call_on_cluster_pushes_decrement :: "sid \<Rightarrow> sid option \<Rightarrow> op" where
  "call_on_cluster_pushes_decrement s anc = run
    [require (\<lambda>e. isInitializedUnsafe e s \<and> is_cluster_head e s),
     require (\<lambda>e. c_pushes (cluster_of e s) \<noteq> 0),
     (\<lambda>e. if c_pushes (cluster_of e s) = 1 then
            bind (run_dfs (reverse_graph unpush_visit (\<lambda>ed e. Inr (True, e)) True) s (ancestor_data e anc) e)
              (\<lambda>(d, e'). check (c_pushes (cluster_of e' s) = 0) e')
          else Inr (upd_clu s (\<lambda>c. c\<lparr>c_pushes := c_pushes c - 1\<rparr>) e))]"

definition set_override :: "sid \<Rightarrow> override_t \<Rightarrow> op" where
  "set_override h mode = run
    [require (\<lambda>e. is_cluster_head e h),
     only_if (\<lambda>e. c_override (cluster_of e h) \<noteq> mode)
       (run [(\<lambda>e. Inr (upd_clu h (\<lambda>c. c\<lparr>c_override := mode\<rparr>) e)),
             (if mode = ovr_start then call_on_cluster_pushes_increment h None
              else call_on_cluster_pushes_decrement h None)])]"

subsection \<open>Transition targets and promises\<close>

definition transition_target_set :: "sid \<Rightarrow> target_t \<Rightarrow> op" where
  "transition_target_set s t e =
     (let cur = c_target (cluster_of e s) in
      if cur = t then Inr e
      else let e' = upd_clu s (\<lambda>c. c\<lparr>c_target := t\<rparr>) e in
        if cur \<noteq> tgt_none \<and> c_promise (cluster_of e' s) \<noteq> [] then
          observe (Cancelled (clus e s) (c_promise (cluster_of e' s))) (upd_clu s (\<lambda>c. c\<lparr>c_promise := []\<rparr>) e')
        else Inr e')"

definition transition_target_complete_if :: "sid \<Rightarrow> target_t \<Rightarrow> op" where
  "transition_target_complete_if s t e =
     (if c_target (cluster_of e s) \<noteq> t then Inr e
      else let e' = upd_clu s (\<lambda>c. c\<lparr>c_target := tgt_none\<rparr>) e in
        if c_promise (cluster_of e' s) \<noteq> [] then
          observe (Resolved (clus e s) (c_promise (cluster_of e' s))) (upd_clu s (\<lambda>c. c\<lparr>c_promise := []\<rparr>) e')
        else Inr e')"

definition chain_promise :: "sid \<Rightarrow> nat \<Rightarrow> op" where
  "chain_promise s tok e = Inr (upd_clu s (\<lambda>c. c\<lparr>c_promise := c_promise c @ [tok]\<rparr>) e)"

end
