(* ===== verification/Requests.thy ===== *)
theory Requests
  imports Engine
begin

text \<open>
  Usages, and the requests to start and to stop a cluster: \<open>Usage\<close> of src/lib/idle/core/service.cpp,
  the usage and request functions of src/lib/idle/core/detail/service_impl.cpp, the traversals of
  src/lib/idle/core/detail/context/scheduler.cpp and the garbage collector's stop of an
  unreferenced service (src/lib/idle/core/detail/context/garbage_collector.cpp).

  A request never starts or stops a service by itself: it marks clusters, queues services
  that can make a step, and posts a scheduling iteration. What the importing part answers to a
  release request is an argument, because it is the part's virtual function.
\<close>

section \<open>Usages\<close>

datatype release_reply = Never | Later | Now

type_synonym replies = "uid \<Rightarrow> release_reply"

abbreviation used_service :: "'a store_scheme \<Rightarrow> uid \<Rightarrow> sid" where
  "used_service e u \<equiv> owner e (u_used (usg e u))"

abbreviation user_service :: "'a store_scheme \<Rightarrow> uid \<Rightarrow> sid" where
  "user_service e u \<equiv> owner e (u_user (usg e u))"

definition on_usage_connected :: "uid \<Rightarrow> op" where
  "on_usage_connected u = run
    [require (\<lambda>e. \<not> is_in_same_cluster e (used_service e u) (user_service e u)),
     only_if (\<lambda>e. isRunning e (used_service e u) \<and> isLocked e (user_service e u))
       (\<lambda>e. on_outgoing_increment (used_service e u) e),
     only_if (\<lambda>e. \<not> isRunning e (used_service e u) \<and> \<not> isWeak e u)
       (\<lambda>e. on_outer_required_increment (user_service e u) e),
     only_if (\<lambda>e. is_cluster_pushed e (user_service e u))
       (\<lambda>e. call_on_cluster_pushes_increment (used_service e u) (Some (user_service e u)) e),
     only_if (\<lambda>e. is_cluster_marked_for_stop e (used_service e u))
       (\<lambda>e. on_cluster_pulls_increment (get_cluster_head_of e (user_service e u)) e)]"

definition on_usage_disconnect :: "op \<Rightarrow> uid \<Rightarrow> op" where
  "on_usage_disconnect sr u = run
    [only_if (\<lambda>e. is_cluster_marked_for_stop e (used_service e u))
       (\<lambda>e. on_cluster_pulls_decrement sr (get_cluster_head_of e (user_service e u)) e),
     only_if (\<lambda>e. is_cluster_pushed e (user_service e u))
       (\<lambda>e. call_on_cluster_pushes_decrement (used_service e u) (Some (user_service e u)) e),
     only_if (\<lambda>e. \<not> isRunning e (used_service e u) \<and> \<not> isWeak e u)
       (\<lambda>e. on_outer_required_decrement sr (user_service e u) e),
     only_if (\<lambda>e. isRunning e (used_service e u) \<and> isLocked e (user_service e u))
       (\<lambda>e. on_outgoing_decrement (used_service e u) e)]"

definition dependent_add :: "pid \<Rightarrow> uid \<Rightarrow> op" where
  "dependent_add p u = run
    [require (\<lambda>e. u \<notin> set (p_users (prt e p))),
     (\<lambda>e. Inr (upd_prt p (\<lambda>x. x\<lparr>p_users := p_users x @ [u]\<rparr>) e))]"

definition dependent_remove :: "pid \<Rightarrow> uid \<Rightarrow> op" where
  "dependent_remove p u = run
    [require (\<lambda>e. u \<in> set (p_users (prt e p))),
     (\<lambda>e. Inr (upd_prt p (\<lambda>x. x\<lparr>p_users := remove1 u (p_users x)\<rparr>) e))]"

definition insert_flag :: "uid \<Rightarrow> nat \<Rightarrow> op" where
  "insert_flag u f e = Inr (upd_usg u (\<lambda>x. x\<lparr>u_flags := snd (bs_insert f (u_flags x))\<rparr>) e)"

definition usage_connect :: "uid \<Rightarrow> bool \<Rightarrow> op" where
  "usage_connect u weak = run
    [require (\<lambda>e. \<not> isConnected e u),
     require (\<lambda>e. u \<notin> set (p_users (prt e (u_used (usg e u))))),
     require (\<lambda>e. bs_empty (u_flags (usg e u))),
     (\<lambda>e. if is_in_same_cluster e (user_service e u) (used_service e u) then Inl Panic else Inr e),
     insert_flag u fl_Connected,
     only_if (\<lambda>e. weak) (insert_flag u fl_Weak),
     (\<lambda>e. dependent_add (u_used (usg e u)) u e),
     on_usage_connected u,
     observe (UsageConnect u)]"

definition usage_disconnect :: "op \<Rightarrow> uid \<Rightarrow> op" where
  "usage_disconnect sr u = run
    [require (\<lambda>e. isConnected e u),
     require (\<lambda>e. u \<in> set (p_users (prt e (u_used (usg e u))))),
     observe (UsageDisconnect u),
     on_usage_disconnect sr u,
     (\<lambda>e. dependent_remove (u_used (usg e u)) u e),
     (\<lambda>e. Inr (upd_usg u (\<lambda>x. x\<lparr>u_flags := empty_mask\<rparr>) e))]"

text \<open>The importing part lists a usage while it holds a reference to what it uses.\<close>

definition import_connect :: "uid \<Rightarrow> bool \<Rightarrow> op" where
  "import_connect u weak = run
    [(\<lambda>e. Inr (upd_prt (u_user (usg e u)) (\<lambda>x. x\<lparr>p_imports := p_imports x @ [u]\<rparr>) e)),
     usage_connect u weak]"

definition import_disconnect :: "op \<Rightarrow> uid \<Rightarrow> op" where
  "import_disconnect sr u = run
    [usage_disconnect sr u,
     (\<lambda>e. Inr (upd_prt (u_user (usg e u)) (\<lambda>x. x\<lparr>p_imports := remove1 u (p_imports x)\<rparr>) e))]"

definition requestRelease :: "op \<Rightarrow> replies \<Rightarrow> uid \<Rightarrow> engine \<Rightarrow> (bool \<times> engine) res" where
  "requestRelease sr rep u e =
     (if \<not> isConnected e u then Inl AssertFailed
      else if contains (u_flags (usg e u)) fl_ReleaseRequested then Inr (True, e)
      else bind (insert_flag u fl_ReleaseRequested e) (\<lambda>e.
        case rep u of
          Now \<Rightarrow> bind (import_disconnect sr u e) (\<lambda>e. Inr (True, e))
        | Later \<Rightarrow> Inr (True, e)
        | Never \<Rightarrow>
            if isWeak e u then Inl AssertFailed
            else Inr (False, upd_usg u (\<lambda>x. x\<lparr>u_flags := snd (bs_erase fl_ReleaseRequested (u_flags x))\<rparr>) e)))"

section \<open>Start requests\<close>

definition start_traversal_progresses_further :: "'a store_scheme \<Rightarrow> sid \<Rightarrow> bool" where
  "start_traversal_progresses_further e h \<longleftrightarrow>
     (if isRunning e h \<and> \<not> is_cluster_marked_for_stop e h then False
      else \<not> is_cluster_marked_for_start e h)"

definition insert_into_queue_if_startable :: "sid \<Rightarrow> op" where
  "insert_into_queue_if_startable h = only_if (\<lambda>e. shall_cluster_start e h)
     (each (\<lambda>e. cluster_members e h) (\<lambda>m. only_if (\<lambda>e. isStartable e m) (q_push_up m)))"

definition start_visit :: "sid \<Rightarrow> engine \<Rightarrow> (bool \<times> engine) res" where
  "start_visit h e =
     (if \<not> is_cluster_head e h then Inl AssertFailed
      else bind (run [do_mark_cluster_for_start h True, insert_into_queue_if_startable h] e) (\<lambda>e. Inr (True, e)))"

definition start_filter :: "edge \<Rightarrow> engine \<Rightarrow> (bool \<times> engine) res" where
  "start_filter ed e =
     (let tar = cluster_source e ed in
      if \<not> start_traversal_progresses_further e tar
      then bind (insert_into_queue_if_startable tar e) (\<lambda>e. Inr (False, e))
      else Inr (True, e))"

definition on_service_start_request :: "sid \<Rightarrow> op" where
  "on_service_start_request h = run
    [require (\<lambda>e. s_cluster (svc e h) \<noteq> None \<and> isInitializedUnsafe e h \<and> is_cluster_head e h),
     (\<lambda>e. bind (run_dfs (reverse_graph start_visit start_filter False) h empty_dfs e)
            (\<lambda>(d, e). check (d_acyclic d) e)),
     iterate]"

section \<open>Stop requests\<close>

definition stop_traversal_progresses_further :: "'a store_scheme \<Rightarrow> sid \<Rightarrow> bool res" where
  "stop_traversal_progresses_further e h =
     check (is_cluster_head e h) (if is_cluster_stopped e h then False else \<not> is_cluster_marked_for_stop e h)"

definition insert_into_queue_if_stoppable :: "sid \<Rightarrow> op" where
  "insert_into_queue_if_stoppable s = only_if (\<lambda>e. isStoppable e s) (q_push_down s)"

definition stop_visit :: "op \<Rightarrow> sid \<Rightarrow> engine \<Rightarrow> (bool \<times> engine) res" where
  "stop_visit sr h e =
     (if \<not> is_cluster_head e h then Inl AssertFailed
      else bind (run [do_mark_cluster_for_stop sr h True, insert_into_queue_if_stoppable h] e) (\<lambda>e. Inr (True, e)))"

definition stop_filter :: "op \<Rightarrow> replies \<Rightarrow> edge \<Rightarrow> engine \<Rightarrow> (bool \<times> engine) res" where
  "stop_filter sr rep ed e =
     bind (stop_traversal_progresses_further e (cluster_target e ed)) (\<lambda>further.
       case snd ed of
         NUsage u \<Rightarrow>
           if further \<or> isWeak e u then
             bind (requestRelease sr rep u e) (\<lambda>(released, e). Inr (if released then False else further, e))
           else Inr (further, e)
       | _ \<Rightarrow> Inr (further, e))"

definition forward_graph :: "(sid \<Rightarrow> engine \<Rightarrow> (bool \<times> engine) res) \<Rightarrow> (edge \<Rightarrow> engine \<Rightarrow> (bool \<times> engine) res)
    \<Rightarrow> (edge, engine) traversal" where
  "forward_graph vis flt =
     \<lparr>t_out = (\<lambda>e v. lift_opt (cluster_out_edges e v 0)), t_target = cluster_target,
      t_visit = vis, t_filter = flt, t_all_paths = False, t_cancel = False\<rparr>"

definition release_weak :: "op \<Rightarrow> replies \<Rightarrow> uid \<Rightarrow> op" where
  "release_weak sr rep u e =
     (if isWeak e u then bind (requestRelease sr rep u e) (\<lambda>(b, e). check b e) else Inr e)"

definition stop_cluster_of_root :: "op \<Rightarrow> replies \<Rightarrow> sid \<Rightarrow> op" where
  "stop_cluster_of_root sr rep h = run
    [only_if (\<lambda>e. isLocked e h)
       (each (\<lambda>e. exports_of e h) (\<lambda>p. each (\<lambda>e. p_users (prt e p)) (release_weak sr rep))),
     set_override h ovr_none,
     transition_target_set h tgt_none,
     do_mark_cluster_for_start h False,
     only_if (\<lambda>e. \<not> is_cluster_stopped e h)
       (run [do_mark_cluster_for_stop sr h True,
             require (\<lambda>e. is_cluster_head e h),
             only_if (\<lambda>e. isStoppable e h) (q_push_down h)])]"

definition stop_root :: "op \<Rightarrow> replies \<Rightarrow> op" where
  "stop_root sr rep = only_if (\<lambda>e. \<not> is_cluster_stopped e (root e) \<and> \<not> is_cluster_marked_for_stop e (root e))
     (run [q_clear, each (\<lambda>e. clusters e (root e)) (stop_cluster_of_root sr rep), iterate])"

definition on_service_stop_request :: "op \<Rightarrow> replies \<Rightarrow> sid \<Rightarrow> op" where
  "on_service_stop_request sr rep h = run
    [require (\<lambda>e. s_cluster (svc e h) \<noteq> None \<and> isInitializedUnsafe e h \<and> is_cluster_head e h),
     (\<lambda>e. if h = root e then stop_root sr rep e
          else run [(\<lambda>e. bind (run_dfs (forward_graph (stop_visit sr) (stop_filter sr rep)) h empty_dfs e)
                           (\<lambda>(d, e). check (d_acyclic d) e)),
                    iterate] e)]"

section \<open>The handlers of the public requests\<close>

datatype reason = Manual | Implicit

definition cancel_token :: "sid \<Rightarrow> nat \<Rightarrow> op" where
  "cancel_token h tok e = observe (Cancelled (clus e h) [tok]) e"

definition resolve_token :: "sid \<Rightarrow> nat \<Rightarrow> op" where
  "resolve_token h tok e = observe (Resolved (clus e h) [tok]) e"

definition request_start :: "sid \<Rightarrow> reason \<Rightarrow> nat \<Rightarrow> op" where
  "request_start h reason tok e =
     (if \<not> isInitializedUnsafe e h then cancel_token h tok e
      else run
       [only_if (\<lambda>e. reason = Manual) (set_override h ovr_start),
        require (\<lambda>e. is_cluster_head e (get_cluster_head_of e h)),
        (\<lambda>e. if isRunning e (get_cluster_head_of e h) then resolve_token h tok e
             else run [on_service_start_request h, transition_target_set h tgt_start, chain_promise h tok] e)] e)"

definition request_stop :: "op \<Rightarrow> replies \<Rightarrow> sid \<Rightarrow> nat \<Rightarrow> op" where
  "request_stop sr rep h tok e =
     (if \<not> isInitializedUnsafe e h then cancel_token h tok e
      else run
       [set_override h ovr_none,
        (\<lambda>e. if is_cluster_stopped e h then resolve_token h tok e
             else run [on_service_stop_request sr rep h, transition_target_set h tgt_stop, chain_promise h tok] e)] e)"

definition request_observe :: "sid \<Rightarrow> nat \<Rightarrow> op" where
  "request_observe h tok e =
     (if \<not> isInitializedUnsafe e h then cancel_token h tok e else chain_promise h tok e)"

section \<open>The garbage collector\<close>

definition immediate_stop :: "op \<Rightarrow> replies \<Rightarrow> sid \<Rightarrow> op" where
  "immediate_stop sr rep s = only_if (\<lambda>e. isStarting e s \<or> isRunning e s)
     (run [set_override s ovr_none, (\<lambda>e. on_service_stop_request sr rep (get_cluster_head_of e s) e)])"

definition on_service_unique :: "op \<Rightarrow> replies \<Rightarrow> sid \<Rightarrow> op" where
  "on_service_unique sr rep s = only_if (\<lambda>e. isInitializedUnsafe e s \<and> e_strong e s \<noteq> None)
     (immediate_stop sr rep s)"

definition gc_on_service_start :: "sid \<Rightarrow> op" where
  "gc_on_service_start s e =
     (case e_strong e s of
        None \<Rightarrow> Inr e
      | Some n \<Rightarrow> check (n \<noteq> 0) (e\<lparr>e_strong := (e_strong e)(s \<mapsto> n + 1)\<rparr>))"

text \<open>The last strong reference posts the destruction, the last but one reports uniqueness.\<close>

definition gc_on_service_stop :: "op \<Rightarrow> replies \<Rightarrow> sid \<Rightarrow> op" where
  "gc_on_service_stop sr rep s e =
     (case e_strong e s of
        None \<Rightarrow> Inr e
      | Some n \<Rightarrow>
          if n = 0 then Inl AssertFailed
          else let e' = e\<lparr>e_strong := (e_strong e)(s \<mapsto> n - 1)\<rparr> in
            if n = 1 then post (EvDestroy s) e'
            else if n = 2 then on_service_unique sr rep s e'
            else Inr e')"

end
