(* ===== verification/Lifecycle.thy ===== *)
theory Lifecycle
  imports Requests
begin

text \<open>
  The life cycle of services: locking, starting, stopping and unlocking the members of a cluster,
  adding and removing a service, and the scheduler's processing loop
  (src/lib/idle/core/detail/service_impl.cpp, src/lib/idle/core/detail/context/scheduler.cpp).

  The hooks \<open>onStart\<close> and \<open>onStop\<close> of a service are user code: a hook either is ready, completes
  later (then the remaining actions run from the event loop as \<open>post_start_actions\<close> and
  \<open>post_stop_actions\<close>) or fails. The other hooks of services, parts and listeners are recorded in the log;
  they do not change the engine from within the callback.
\<close>

section \<open>Phase transitions\<close>

definition do_transition_phase_silent :: "sid \<Rightarrow> phase \<Rightarrow> phase \<Rightarrow> op" where
  "do_transition_phase_silent s from to = run
    [require (\<lambda>e. phase_of e s = from),
     (\<lambda>e. Inr (upd_svc s (\<lambda>x. x\<lparr>s_phase := to\<rparr>) e))]"

definition do_transition_phase :: "sid \<Rightarrow> phase \<Rightarrow> phase \<Rightarrow> op" where
  "do_transition_phase s from to = run
    [observe (Changed s from to), do_transition_phase_silent s from to]"

definition do_increment_epoch :: "sid \<Rightarrow> op" where
  "do_increment_epoch s e = Inr (upd_clu s (\<lambda>c. c\<lparr>c_epoch := c_epoch c + 1\<rparr>) e)"

section \<open>Counting along the edges of a service\<close>

definition strong_external :: mask where
  "strong_external = bs_union external_graph strong_usage_graph"

definition inner_required_decrement_along :: "op \<Rightarrow> sid \<Rightarrow> edge \<Rightarrow> op" where
  "inner_required_decrement_along sr s ed e = run
    [require (\<lambda>e. edge_source e ed = s \<and> is_in_same_cluster e s (edge_target e ed)),
     on_inner_required_decrement sr (edge_target e ed)] e"

definition outer_required_decrement_along :: "op \<Rightarrow> sid \<Rightarrow> edge \<Rightarrow> op" where
  "outer_required_decrement_along sr s ed e = run
    [require (\<lambda>e. edge_source e ed = s \<and> \<not> is_in_same_cluster e s (edge_target e ed)),
     on_outer_required_decrement sr (edge_target e ed)] e"

definition call_on_required_decrement :: "op \<Rightarrow> sid \<Rightarrow> op" where
  "call_on_required_decrement sr s e =
     (if s \<noteq> root e then run
        [each_in (\<lambda>e. service_out_edges e s cluster_graph) (inner_required_decrement_along sr s),
         each_in (\<lambda>e. service_out_edges e s strong_external) (outer_required_decrement_along sr s)] e
      else each (\<lambda>e. tl (transitive_services e (root e))) (on_outer_required_decrement sr) e)"

definition inner_required_increment_along :: "sid \<Rightarrow> edge \<Rightarrow> op" where
  "inner_required_increment_along s ed e = run
    [require (\<lambda>e. edge_source e ed = s), on_inner_required_increment (edge_target e ed)] e"

definition outer_required_increment_along :: "sid \<Rightarrow> edge \<Rightarrow> op" where
  "outer_required_increment_along s ed e = run
    [require (\<lambda>e. edge_source e ed = s), on_outer_required_increment (edge_target e ed)] e"

definition call_on_required_increment :: "sid \<Rightarrow> op" where
  "call_on_required_increment s e =
     (if s \<noteq> root e then run
        [each_in (\<lambda>e. service_out_edges e s cluster_graph) (inner_required_increment_along s),
         each_in (\<lambda>e. service_out_edges e s strong_external) (outer_required_increment_along s)] e
      else each (\<lambda>e. tl (transitive_services e (root e))) on_outer_required_increment e)"

text \<open>A service has an external incoming edge, or it is the root or implicitly uses the root.\<close>

definition require_external_edge :: "sid \<Rightarrow> op" where
  "require_external_edge s e =
     bind (first_outer_edge_of dir_in e s (bs_union external_graph service_graph)) (\<lambda>r.
       check (isRoot e s \<or> r \<noteq> None \<or> has_implicit_root_edge e s) e)"

definition outer_outgoing_increment_along :: "sid \<Rightarrow> edge \<Rightarrow> op" where
  "outer_outgoing_increment_along s ed e =
     (let from = edge_source e ed in run
       [require (\<lambda>e. edge_target e ed = s \<and> s \<noteq> from \<and> \<not> is_in_same_cluster e from s
                     \<and> (edge_isWeak e ed \<or> isRunning e from)),
        only_if (\<lambda>e. \<not> (edge_isWeak e ed \<and> \<not> isRunning e from)) (on_outgoing_increment from)] e)"

definition call_on_outer_outgoing_increment :: "sid \<Rightarrow> op" where
  "call_on_outer_outgoing_increment s = run
    [require_external_edge s,
     each_in (\<lambda>e. service_in_edges e s external_graph) (outer_outgoing_increment_along s),
     only_if (\<lambda>e. has_implicit_root_edge e s) (\<lambda>e. on_outgoing_increment (root e) e)]"

definition outer_delayed_along :: "sid \<Rightarrow> edge \<Rightarrow> op" where
  "outer_delayed_along s ed e =
     (let to = edge_target e ed in run
       [require (\<lambda>e. edge_source e ed = s \<and> s \<noteq> to \<and> \<not> is_in_same_cluster e to s),
        only_if (\<lambda>e. isLocked e to) (on_outgoing_increment s)] e)"

definition call_on_outer_delayed_outgoing_increment :: "sid \<Rightarrow> op" where
  "call_on_outer_delayed_outgoing_increment s = run
    [require (\<lambda>e. isRunning e s),
     each_in (\<lambda>e. service_out_edges e s external_graph) (outer_delayed_along s)]"

definition outer_outgoing_decrement_along :: "sid \<Rightarrow> edge \<Rightarrow> op" where
  "outer_outgoing_decrement_along s ed e =
     (let from = edge_source e ed in run
       [require (\<lambda>e. s \<noteq> from \<and> \<not> is_in_same_cluster e from s),
        only_if (\<lambda>e. isRunning e from) (on_outgoing_decrement from)] e)"

definition call_on_outer_outgoing_decrement :: "sid \<Rightarrow> op" where
  "call_on_outer_outgoing_decrement s = run
    [require_external_edge s,
     each_in (\<lambda>e. service_in_edges e s external_graph) (outer_outgoing_decrement_along s),
     only_if (\<lambda>e. has_implicit_root_edge e s) (\<lambda>e. on_outgoing_decrement (root e) e)]"

definition inner_outgoing_increment_along :: "sid \<Rightarrow> edge \<Rightarrow> op" where
  "inner_outgoing_increment_along s ed e =
     (let from = edge_source e ed in run
       [require (\<lambda>e. s \<noteq> from \<and> is_in_same_cluster e from s), on_outgoing_increment from] e)"

definition call_on_inner_outgoing_increment :: "sid \<Rightarrow> op" where
  "call_on_inner_outgoing_increment s =
     each_in (\<lambda>e. service_in_edges e s cluster_graph) (inner_outgoing_increment_along s)"

definition inner_outgoing_decrement_along :: "sid \<Rightarrow> edge \<Rightarrow> op" where
  "inner_outgoing_decrement_along s ed e =
     (let from = edge_source e ed in run
       [require (\<lambda>e. s \<noteq> from \<and> is_in_same_cluster e from s), on_outgoing_decrement from] e)"

definition call_on_inner_outgoing_decrement :: "sid \<Rightarrow> op" where
  "call_on_inner_outgoing_decrement s =
     each_in (\<lambda>e. service_in_edges e s cluster_graph) (inner_outgoing_decrement_along s)"

section \<open>Locking, finalising and unlocking a cluster\<close>

text \<open>The assertion compares a bit field of 26 bits with the maximum of its declared type.\<close>

definition call_on_cluster_running_increment :: "sid \<Rightarrow> op" where
  "call_on_cluster_running_increment s = run
    [require (\<lambda>e. isInitializedUnsafe e s),
     require (\<lambda>e. uint (c_running (cluster_of e s)) < 2 ^ 32 - 1),
     (\<lambda>e. Inr (upd_clu s (\<lambda>c. c\<lparr>c_running := c_running c + 1\<rparr>) e))]"

definition lock_member :: "sid \<Rightarrow> op" where
  "lock_member m = run
    [gc_on_service_start m,
     do_transition_phase m stopped locked,
     call_on_outer_outgoing_increment m,
     each (\<lambda>e. imports_of e m) (\<lambda>p. observe (ImportLock p))]"

definition setup_member :: "sid \<Rightarrow> op" where
  "setup_member m = run [require (\<lambda>e. isLocked e m), observe (Setup m)]"

definition do_lock_cluster :: "sid \<Rightarrow> op" where
  "do_lock_cluster h = run
    [require (\<lambda>e. is_cluster_head e h),
     each (\<lambda>e. cluster_members e h) lock_member,
     each (\<lambda>e. interfaces_of e h) (\<lambda>p. observe (InterfaceLock p)),
     each (\<lambda>e. cluster_members e h) setup_member,
     each (\<lambda>e. cluster_members e h) call_on_cluster_running_increment]"

definition interface_start :: "pid \<Rightarrow> op" where
  "interface_start p = each (\<lambda>e. p_users (prt e p)) (\<lambda>u. only_if (\<lambda>e. isLocked e (user_service e u)) (observe (UsedStarted u)))"

definition do_finalize_cluster :: "sid \<Rightarrow> op" where
  "do_finalize_cluster h = run
    [require (\<lambda>e. \<not> shall_cluster_stop e h),
     do_mark_cluster_for_start h False,
     each (\<lambda>e. interfaces_of e h) interface_start,
     transition_target_complete_if h tgt_start]"

definition unlock_member :: "sid \<Rightarrow> sid \<Rightarrow> op" where
  "unlock_member h m = run
    [require (\<lambda>e. is_in_same_cluster e m h),
     each (\<lambda>e. imports_of e m) (\<lambda>p. observe (ImportUnlock p)),
     call_on_outer_outgoing_decrement m,
     do_transition_phase m pending stopped]"

definition do_unlock_cluster :: "op \<Rightarrow> replies \<Rightarrow> sid \<Rightarrow> op" where
  "do_unlock_cluster sr rep h = run
    [require (\<lambda>e. is_cluster_head e h \<and> phase_of e h = pending
                  \<and> (isRoot e h \<or> isRunning e (root e)) \<and> c_running (cluster_of e h) = 0),
     each (\<lambda>e. cluster_members e h) (unlock_member h),
     each (\<lambda>e. interfaces_of e h) (\<lambda>p. observe (InterfaceUnlock p)),
     transition_target_complete_if h tgt_stop,
     do_mark_cluster_for_stop sr h False,
     only_if (\<lambda>e. is_cluster_startable e h \<and> shall_cluster_start e h \<and> \<not> isRoot e h)
       (post (EvCheckStartable h)),
     each (\<lambda>e. cluster_members e h) (gc_on_service_stop sr rep)]"

definition call_on_cluster_running_decrement :: "op \<Rightarrow> replies \<Rightarrow> sid \<Rightarrow> op" where
  "call_on_cluster_running_decrement sr rep s = run
    [require (\<lambda>e. isInitializedUnsafe e s),
     require (\<lambda>e. c_running (cluster_of e s) > 0),
     (\<lambda>e. Inr (upd_clu s (\<lambda>c. c\<lparr>c_running := c_running c - 1\<rparr>) e)),
     only_if (\<lambda>e. c_running (cluster_of e s) = 0)
       (\<lambda>e. let h = get_cluster_head_of e s in run [do_increment_epoch h, do_unlock_cluster sr rep h] e)]"

section \<open>Starting and stopping a service\<close>

datatype hook_result = Ready | Async | Thrown

record hooks =
  h_start :: "sid \<Rightarrow> hook_result"
  h_stop :: "sid \<Rightarrow> hook_result"
  h_release :: replies

definition post_start_actions :: "op \<Rightarrow> sid \<Rightarrow> op" where
  "post_start_actions sr s = run
    [do_transition_phase s starting running,
     call_on_outer_delayed_outgoing_increment s,
     call_on_required_decrement sr s,
     (\<lambda>e. if \<not> shall_cluster_stop e s then only_if (\<lambda>e. is_cluster_head e s) (do_finalize_cluster s) e
          else run [require (\<lambda>e. isStoppable e s), on_service_stoppable s] e)]"

definition begin_start :: "sid \<Rightarrow> op" where
  "begin_start s = run
    [require (\<lambda>e. isStopped e s \<or> isLocked e s),
     require (\<lambda>e. isRoot e s \<or> isRunning e (root e)),
     require (\<lambda>e. isRoot e s \<or> \<not> isa_export e (parent e s) \<or> isRunning e (owner e (parent e s))),
     require (\<lambda>e. isStartable e s \<and> are_imports_satisfied e s),
     only_if (\<lambda>e. \<not> isLocked e s) (\<lambda>e. do_lock_cluster (get_cluster_head_of e s) e),
     do_transition_phase s locked starting,
     require (\<lambda>e. uses_of e s = 0),
     (\<lambda>e. Inr (upd_svc s (\<lambda>x. x\<lparr>s_uses := s_uses x + 1\<rparr>) e)),
     call_on_inner_outgoing_increment s,
     observe (OnStart s)]"

definition do_start_eager :: "op \<Rightarrow> hooks \<Rightarrow> sid \<Rightarrow> engine \<Rightarrow> (hook_result \<times> engine) res" where
  "do_start_eager sr hk s e =
     bind (begin_start s e) (\<lambda>e.
       case h_start hk s of
         Ready \<Rightarrow> bind (post_start_actions sr s e) (\<lambda>e. Inr (Ready, e))
       | r \<Rightarrow> Inr (r, e))"

definition post_stop_actions :: "op \<Rightarrow> replies \<Rightarrow> sid \<Rightarrow> op" where
  "post_stop_actions sr rep s = run
    [call_on_inner_outgoing_decrement s,
     do_transition_phase s stopping pending,
     call_on_cluster_running_decrement sr rep s]"

definition begin_stop :: "sid \<Rightarrow> op" where
  "begin_stop s = run
    [require (\<lambda>e. isStopping e s \<and> uses_of e s = 0),
     call_on_required_increment s,
     observe (OnStop s)]"

definition do_stop_eager :: "op \<Rightarrow> hooks \<Rightarrow> sid \<Rightarrow> engine \<Rightarrow> (hook_result \<times> engine) res" where
  "do_stop_eager sr hk s e =
     bind (begin_stop s e) (\<lambda>e.
       case h_stop hk s of
         Ready \<Rightarrow> bind (post_stop_actions sr (h_release hk) s e) (\<lambda>e. Inr (Ready, e))
       | r \<Rightarrow> Inr (r, e))"

definition try_set_service_stopping :: "sid \<Rightarrow> engine \<Rightarrow> (bool \<times> engine) res" where
  "try_set_service_stopping s e =
     (if uses_of e s = 1
      then bind (do_transition_phase s running stopping (upd_svc s (\<lambda>x. x\<lparr>s_uses := 0\<rparr>) e)) (\<lambda>e. Inr (True, e))
      else Inr (False, e))"

text \<open>The root starts once it is asked to; its own start hook has to be ready.\<close>

definition start_root_with :: "op \<Rightarrow> hooks \<Rightarrow> op" where
  "start_root_with sr hk e = run
    [set_override (root e) ovr_start,
     (\<lambda>e. bind (do_start_eager sr hk (root e) e) (\<lambda>(r, e). check (r = Ready) e))] e"

primrec start_root_n :: "nat \<Rightarrow> hooks \<Rightarrow> op" where
  "start_root_n 0 hk = (\<lambda>e. Inl Diverged)"
| "start_root_n (Suc n) hk = start_root_with (start_root_n n hk) hk"

definition start_root :: "hooks \<Rightarrow> op" where
  "start_root hk = start_root_n 2 hk"

section \<open>The public use counter\<close>

definition try_use :: "sid \<Rightarrow> engine \<Rightarrow> (bool \<times> engine) res" where
  "try_use s e =
     (if uses_of e s \<noteq> 0
      then check (isUsable e s) (True, upd_svc s (\<lambda>x. x\<lparr>s_uses := s_uses x + 1\<rparr>) e)
      else Inr (False, e))"

definition inc_use :: "sid \<Rightarrow> op" where
  "inc_use s = run
    [require (\<lambda>e. isUsable e s), require (\<lambda>e. uses_of e s > 0),
     (\<lambda>e. Inr (upd_svc s (\<lambda>x. x\<lparr>s_uses := s_uses x + 1\<rparr>) e))]"

definition dec_use :: "sid \<Rightarrow> op" where
  "dec_use s e =
     (if \<not> isUsable e s \<or> \<not> uses_of e s > 1 then Inl AssertFailed
      else let cur = uses_of e s - 1; e' = upd_svc s (\<lambda>x. x\<lparr>s_uses := cur\<rparr>) e
        in only_if (\<lambda>e. has_no_external_uses e s cur) (on_outgoing_reached_no_external_use s cur) e')"

section \<open>The processing loop\<close>

definition try_start_service_inplace :: "op \<Rightarrow> hooks \<Rightarrow> sid \<Rightarrow> op" where
  "try_start_service_inplace sr hk s e =
     bind (do_start_eager sr hk s e) (\<lambda>(r, e). case r of Thrown \<Rightarrow> Inl Panic | _ \<Rightarrow> Inr e)"

definition try_stop_service_inplace :: "op \<Rightarrow> hooks \<Rightarrow> sid \<Rightarrow> op" where
  "try_stop_service_inplace sr hk s e =
     bind (do_stop_eager sr hk s e) (\<lambda>(r, e). case r of Thrown \<Rightarrow> Inl Unreachable | _ \<Rightarrow> Inr e)"

definition process_one :: "op \<Rightarrow> hooks \<Rightarrow> sid \<Rightarrow> op" where
  "process_one sr hk s e =
     (if shall_cluster_stop e s then
        (if isStoppable e s then
           bind (try_set_service_stopping s e) (\<lambda>(ok, e).
             if ok then try_stop_service_inplace sr hk s e else Inr e)
         else Inr e)
      else if shall_cluster_start e s then
        (if isStartable e s then try_start_service_inplace sr hk s e else Inr e)
      else Inr e)"

partial_function (option) process :: "op \<Rightarrow> hooks \<Rightarrow> engine \<Rightarrow> engine res option" where
  [code]: "process sr hk e =
     (case fst (q_pop e) of
        None \<Rightarrow> Some (check (q_empty e) e)
      | Some s \<Rightarrow>
         (case process_one sr hk s (snd (q_pop e)) of
            Inl er \<Rightarrow> Some (Inl er)
          | Inr e' \<Rightarrow> process sr hk e'))"

definition handle_process :: "op \<Rightarrow> hooks \<Rightarrow> op" where
  "handle_process sr hk = run
    [require (\<lambda>e. \<not> e_processing e \<and> e_dispatched e),
     (\<lambda>e. Inr (e\<lparr>e_dispatched := False, e_processing := True\<rparr>)),
     (\<lambda>e. lift_opt (process sr hk e)),
     (\<lambda>e. Inr (e\<lparr>e_processing := False\<rparr>))]"

section \<open>Adding and removing a service\<close>

definition missing_in_along :: "sid \<Rightarrow> edge \<Rightarrow> op" where
  "missing_in_along s ed e =
     (let from = edge_source e ed in run
       [require (\<lambda>e. edge_target e ed = s),
        only_if (\<lambda>e. \<not> isRunning e from \<and> isInitializedUnsafe e from)
          (run [require (\<lambda>e. from \<noteq> s \<and> \<not> is_in_same_cluster e from s), on_outer_required_increment s])] e)"

definition on_service_add :: "sid \<Rightarrow> op" where
  "on_service_add s = run
    [require (\<lambda>e. isStopped e s \<and> (is_cluster_head e s \<or> isStopped e (owner e (parent e s))) \<and> uses_of e s = 0),
     call_on_required_increment s,
     each_in (\<lambda>e. service_in_edges e s strong_usage_graph) (missing_in_along s),
     only_if (\<lambda>e. has_implicit_root_edge e s \<and> \<not> isRunning e (root e) \<and> isInitializedUnsafe e (root e))
       (on_outer_required_increment s),
     require (\<lambda>e. \<not> is_cluster_pushed e s \<and> \<not> is_cluster_pulled e s \<and> \<not> is_cluster_marked_for_stop e s)]"

definition on_service_del :: "op \<Rightarrow> sid \<Rightarrow> op" where
  "on_service_del sr s = run
    [require (\<lambda>e. isStopped e s \<and> (is_cluster_head e s \<or> isStopped e (owner e (parent e s))) \<and> uses_of e s = 0),
     (\<lambda>e. if is_cluster_head e s then run [set_override s ovr_none, do_mark_cluster_for_stop sr s False] e
          else run
           [only_if (\<lambda>e. is_cluster_pushed e s)
              (each_in (\<lambda>e. service_in_edges e s external_graph)
                 (\<lambda>ed e. call_on_cluster_pushes_decrement (edge_source e ed) (Some s) e)),
            only_if (\<lambda>e. is_cluster_marked_for_stop e s)
              (each_in (\<lambda>e. service_out_edges e s external_graph)
                 (\<lambda>ed e. on_cluster_pulls_decrement sr (edge_target e ed) e))] e),
     call_on_required_decrement sr s]"

end
