(* ===== verification/Lifecycle_Frame.thy ===== *)
theory Lifecycle_Frame
  imports Lifecycle
begin

text \<open>
  What the bookkeeping of the engine leaves alone. The \<open>core\<close> of a state is everything except the
  clusters' counters and marks, the inner counters of the services, the queue and the log: phases,
  use counts and all links. Counting, marking, queueing and every traversal that does not release a
  usage keep the core. The only exception would be the start of the root from within
  \<open>on_service_startable\<close>: it always fails there, because the code asserts that the root is not
  stopped.
\<close>

section \<open>The core\<close>

definition core :: "engine \<Rightarrow> (sid \<Rightarrow> service) \<times> (pid \<Rightarrow> part) \<times> (uid \<Rightarrow> usage) \<times> sid \<times> nat" where
  "core e = ((\<lambda>s. (svc e s)\<lparr>s_inner := 0\<rparr>), prt e, usg e, root e, nsvc e)"

lemma coreD:
  assumes "core e' = core e"
  shows "phase_of e' s = phase_of e s" "uses_of e' s = uses_of e s" "parent e' s = parent e s"
    "s_parts (svc e' s) = s_parts (svc e s)" "s_cluster (svc e' s) = s_cluster (svc e s)"
    "prt e' = prt e" "usg e' = usg e" "root e' = root e" "nsvc e' = nsvc e"
proof -
  have "(svc e' s)\<lparr>s_inner := 0\<rparr> = (svc e s)\<lparr>s_inner := 0\<rparr>" for s
    using assms by (simp add: core_def fun_eq_iff)
  then show "phase_of e' s = phase_of e s" "uses_of e' s = uses_of e s" "parent e' s = parent e s"
    "s_parts (svc e' s) = s_parts (svc e s)" "s_cluster (svc e' s) = s_cluster (svc e s)"
    by (metis service.select_convs service.surjective service.update_convs(2))+
  show "prt e' = prt e" "usg e' = usg e" "root e' = root e" "nsvc e' = nsvc e"
    using assms by (simp_all add: core_def)
qed

lemma core_updates [simp]:
  "core (e\<lparr>e_down := x\<rparr>) = core e" "core (e\<lparr>e_up := x\<rparr>) = core e" "core (e\<lparr>e_processing := b\<rparr>) = core e"
  "core (e\<lparr>e_dispatched := b\<rparr>) = core e" "core (e\<lparr>e_posted := ps\<rparr>) = core e" "core (e\<lparr>e_log := l\<rparr>) = core e"
  "core (e\<lparr>e_strong := q\<rparr>) = core e" "core (upd_clu s f e) = core e" "core (e\<lparr>clu := g\<rparr>) = core e"
  by (simp_all add: core_def upd_clu_def)

lemma core_inner [simp]: "core (upd_svc s (\<lambda>x. x\<lparr>s_inner := n x\<rparr>) e) = core e"
  by (auto simp: core_def upd_svc_def)

abbreviation rootok :: "engine \<Rightarrow> bool" where
  "rootok e \<equiv> phase_of e (root e) \<noteq> locked"

text \<open>\<open>keeps b f\<close>: \<open>f\<close> keeps the core, if \<open>b\<close> then only where the root is not in the phase \<open>locked\<close>.\<close>

definition keeps :: "bool \<Rightarrow> op \<Rightarrow> bool" where
  "keeps b f \<longleftrightarrow> (\<forall>e e'. (b \<longrightarrow> rootok e) \<longrightarrow> f e = Inr e' \<longrightarrow> core e' = core e)"

definition sr_ok :: "op \<Rightarrow> bool" where
  "sr_ok sr \<longleftrightarrow> (\<forall>e. phase_of e (root e) \<noteq> stopped \<and> phase_of e (root e) \<noteq> locked \<longrightarrow> (\<exists>er. sr e = Inl er))"

lemma keepsI: "(\<And>e e'. (b \<Longrightarrow> rootok e) \<Longrightarrow> f e = Inr e' \<Longrightarrow> core e' = core e) \<Longrightarrow> keeps b f"
  unfolding keeps_def by blast

lemma keepsD: "keeps b f \<Longrightarrow> f e = Inr e' \<Longrightarrow> (b \<Longrightarrow> rootok e) \<Longrightarrow> core e' = core e"
  unfolding keeps_def by blast

lemma rootok_core:
  assumes "core e' = core e"
  shows "rootok e' \<longleftrightarrow> rootok e"
  unfolding coreD(1,8) [OF assms] ..

section \<open>Rules\<close>

lemma keeps_Inr [intro]: "keeps b Inr"
  by (rule keepsI) simp

lemma keeps_require [intro]: "keeps b (require P)"
  by (rule keepsI) simp

lemma keeps_seq:
  assumes "keeps b f" and "keeps b g"
  shows "keeps b (\<lambda>e. bind (f e) g)"
proof (rule keepsI)
  fix e e' assume r: "b \<Longrightarrow> rootok e" and "bind (f e) g = Inr e'"
  then obtain x where x: "f e = Inr x" "g x = Inr e'" by auto
  have "core x = core e" using assms(1) x(1) r by (rule keepsD)
  moreover from this have "core e' = core x"
    using rootok_core r by (intro keepsD [OF assms(2) x(2)]) blast
  ultimately show "core e' = core e" by simp
qed

lemma keeps_run [intro]: "(\<And>f. f \<in> set fs \<Longrightarrow> keeps b f) \<Longrightarrow> keeps b (run fs)"
proof (induction fs)
  case Nil
  show ?case by (rule keepsI) simp
next
  case (Cons f fs)
  then have "keeps b (\<lambda>e. bind (f e) (run fs))" by (intro keeps_seq) auto
  moreover have "run (f # fs) = (\<lambda>e. bind (f e) (run fs))" by (rule ext) simp
  ultimately show ?case by simp
qed

lemma keeps_only_if [intro]: "keeps b f \<Longrightarrow> keeps b (only_if P f)"
  unfolding keeps_def only_if_def by auto

lemma keeps_fold: "(\<And>x. x \<in> set xs \<Longrightarrow> keeps b (f x)) \<Longrightarrow> keeps b (fold_res f xs)"
proof (induction xs)
  case Nil
  show ?case by (rule keepsI) simp
next
  case (Cons x xs)
  then have "keeps b (\<lambda>e. bind (f x e) (fold_res f xs))" by (intro keeps_seq) auto
  moreover have "fold_res f (x # xs) = (\<lambda>e. bind (f x e) (fold_res f xs))" by (rule ext) simp
  ultimately show ?case by simp
qed

lemma keeps_at: "(\<And>e0. keeps b (f e0)) \<Longrightarrow> keeps b (\<lambda>e. f e e)"
  unfolding keeps_def by blast

lemma keeps_each [intro]: "(\<And>x. keeps b (f x)) \<Longrightarrow> keeps b (each xs f)"
  unfolding each_def [abs_def] by (rule keeps_at) (rule keeps_fold)

lemma keeps_each_in [intro]:
  assumes "\<And>x. keeps b (f x)"
  shows "keeps b (each_in r f)"
proof (rule keepsI)
  fix e e' assume ok: "b \<Longrightarrow> rootok e" and "each_in r f e = Inr e'"
  then obtain xs where "fold_res f xs e = Inr e'" by (auto simp: each_in_def lift_range_def)
  moreover have "keeps b (fold_res f xs)" by (rule keeps_fold) (rule assms)
  ultimately show "core e' = core e" using ok keepsD by blast
qed

lemma keeps_if: "(P \<Longrightarrow> keeps b f) \<Longrightarrow> (\<not> P \<Longrightarrow> keeps b g) \<Longrightarrow> keeps b (if P then f else g)"
  by simp

lemma keeps_ife: "keeps b f \<Longrightarrow> keeps b g \<Longrightarrow> keeps b (\<lambda>e. if P e then f e else g e)"
  unfolding keeps_def by auto

lemma keeps_pure: "(\<And>e. core (g e) = core e) \<Longrightarrow> keeps b (\<lambda>e. Inr (g e))"
  unfolding keeps_def by auto

lemma keeps_observe [intro]: "keeps b (observe ob)"
  by (rule keepsI) (auto simp: observe_def)

lemma keeps_post [intro]: "keeps b (post ev)"
  by (rule keepsI) (auto simp: post_def)

lemma keeps_mono: "keeps False f \<Longrightarrow> keeps b f"
  unfolding keeps_def by blast

lemma keeps_run_Nil: "keeps b (run [])"
  by (rule keepsI) simp

lemma keeps_run_Cons: "keeps b f \<Longrightarrow> keeps b (run fs) \<Longrightarrow> keeps b (run (f # fs))"
  using keeps_seq [of b f "run fs"] by (simp add: keeps_def)

lemma keeps_arg: "(\<And>x. keeps b (f x)) \<Longrightarrow> keeps b (\<lambda>e. f (g e) e)"
  unfolding keeps_def by blast

lemma keeps_let: "(\<And>x. keeps b (f x)) \<Longrightarrow> keeps b (\<lambda>e. let x = g e in f x e)"
  unfolding keeps_def by auto

lemmas keeps_rules =
  keeps_run_Cons keeps_run_Nil keeps_require keeps_only_if keeps_each keeps_each_in keeps_observe keeps_post
  keeps_if

section \<open>The queue\<close>

lemma keeps_q_push_down [frame]: "keeps b (q_push_down s)"
  unfolding q_push_down_def by (intro keeps_rules keepsI) (auto simp: Let_def split: prod.splits)

lemma keeps_q_push_up [frame]: "keeps b (q_push_up s)"
  unfolding q_push_up_def by (intro keeps_rules keepsI) (auto simp: Let_def split: prod.splits)

lemma keeps_q_clear [frame]: "keeps b q_clear"
  by (rule keepsI) (auto simp: q_clear_def)

lemma core_q_pop [simp]: "core (snd (q_pop e)) = core e"
  by (auto simp: q_pop_def split: prod.splits)

lemma keeps_iterate [frame]: "keeps b iterate"
  unfolding iterate_def by (intro keeps_rules keepsI) auto

section \<open>Startable and stoppable\<close>

lemma keeps_on_service_stoppable [frame]: "keeps b (on_service_stoppable s)"
  unfolding on_service_stoppable_def by (intro keeps_rules frame)

lemma keeps_check_stoppable [frame]: "keeps b (check_stoppable s)"
  unfolding check_stoppable_def by (intro keeps_rules frame)

lemma keeps_on_service_startable [frame]:
  assumes "sr_ok sr"
  shows "keeps True (on_service_startable sr s)"
proof (rule keepsI)
  fix e e' assume "True \<Longrightarrow> rootok e"
  then have rootok: "rootok e" by simp
  assume eq: "on_service_startable sr s e = Inr e'"
  have "isRoot e s \<or> isRunning e (root e)"
  proof (rule ccontr)
    assume n: "\<not> ?thesis"
    then have "phase_of e (root e) \<noteq> stopped" using eq by (auto simp: on_service_startable_def isStopped_def)
    with rootok assms obtain er where "sr e = Inl er" unfolding sr_ok_def by blast
    with n eq show False by (auto simp: on_service_startable_def only_if_def)
  qed
  then have "run [q_push_up s, iterate] e = Inr e'"
    using eq by (auto simp: on_service_startable_def only_if_def)
  then show "core e' = core e"
    by (rule keepsD [of False, rotated]) (simp, intro keeps_rules frame)
qed

lemma keeps_check_inner_startable [frame]: "sr_ok sr \<Longrightarrow> keeps True (check_inner_startable sr s)"
  unfolding check_inner_startable_def by (intro keeps_rules frame)

lemma keeps_check_any [frame]: "sr_ok sr \<Longrightarrow> keeps True (check_any_in_cluster_startable sr h)"
proof -
  assume "sr_ok sr"
  then have *: "keeps True (on_service_startable sr m)" for m by (intro frame)
  have "keeps True (\<lambda>e. bind (has_inner_in_edge e m) (\<lambda>b. if \<not> b \<and> isStartable e m then on_service_startable sr m e else Inr e))" for m
    using * unfolding keeps_def by (auto split: if_splits)
  then show ?thesis unfolding check_any_in_cluster_startable_def by (intro keeps_rules)
qed

section \<open>Counters\<close>

lemma keeps_reached [frame]: "keeps b (on_outgoing_reached_no_external_use s cur)"
proof -
  have "keeps b (\<lambda>e. check_stoppable (get_cluster_head_of e s) e)"
    by (rule keeps_arg [of _ check_stoppable]) (intro frame)
  then show ?thesis
    unfolding on_outgoing_reached_no_external_use_def by (intro keeps_rules frame) assumption
qed

lemma keeps_outer_inc [frame]: "keeps b (on_outer_required_increment s)"
  unfolding on_outer_required_increment_def by (intro keeps_rules keeps_pure) simp

lemma keeps_inner_inc [frame]: "keeps b (on_inner_required_increment s)"
  unfolding on_inner_required_increment_def by (intro keeps_rules keeps_pure) simp

lemma keeps_outer_dec [frame]: "sr_ok sr \<Longrightarrow> keeps True (on_outer_required_decrement sr s)"
proof -
  assume "sr_ok sr"
  then have "keeps True (check_any_in_cluster_startable sr h)" for h by (rule keeps_check_any)
  then have "keeps True (\<lambda>e. check_any_in_cluster_startable sr (get_cluster_head_of e s) e)"
    by (rule keeps_arg)
  then show ?thesis
    unfolding on_outer_required_decrement_def
    by (intro keeps_run_Cons keeps_run_Nil keeps_require keeps_only_if) (rule keeps_pure, simp)
qed

lemma keeps_inner_dec [frame]: "sr_ok sr \<Longrightarrow> keeps True (on_inner_required_decrement sr s)"
  unfolding on_inner_required_decrement_def
  by (intro keeps_rules keeps_pure) (simp, intro frame)

lemma keeps_pulls_inc [frame]: "keeps b (on_cluster_pulls_increment s)"
  unfolding on_cluster_pulls_increment_def by (intro keeps_rules keeps_pure) simp

lemma keeps_pulls_dec [frame]: "sr_ok sr \<Longrightarrow> keeps True (on_cluster_pulls_decrement sr s)"
  unfolding on_cluster_pulls_decrement_def
  by (intro keeps_rules keeps_pure) (simp, intro frame)

lemma keeps_call_pulls_inc [frame]: "keeps b (call_on_cluster_pulls_increment s)"
proof -
  have "keeps b (\<lambda>e. on_cluster_pulls_increment (cluster_target e ed) e)" for ed
    by (rule keeps_arg [of _ on_cluster_pulls_increment]) (intro frame)
  then show ?thesis unfolding call_on_cluster_pulls_increment_def by (intro keeps_rules)
qed

lemma keeps_call_pulls_dec [frame]: "sr_ok sr \<Longrightarrow> keeps True (call_on_cluster_pulls_decrement sr s)"
proof -
  assume "sr_ok sr"
  then have "keeps True (on_cluster_pulls_decrement sr h)" for h by (rule keeps_pulls_dec)
  then have "keeps True (\<lambda>e. on_cluster_pulls_decrement sr (cluster_target e ed) e)" for ed
    by (rule keeps_arg)
  then show ?thesis unfolding call_on_cluster_pulls_decrement_def by (intro keeps_rules)
qed

lemma keeps_mark_start [frame]: "keeps b (do_mark_cluster_for_start h m)"
  by (rule keepsI) (auto simp: do_mark_cluster_for_start_def)

lemma keeps_mark_stop [frame]: "sr_ok sr \<Longrightarrow> keeps True (do_mark_cluster_for_stop sr h m)"
  unfolding do_mark_cluster_for_stop_def
  by (intro keeps_rules keeps_pure frame) simp_all

lemma keeps_target_set [frame]: "keeps b (transition_target_set s t)"
  by (rule keepsI) (auto simp: transition_target_set_def observe_def Let_def split: if_splits)

lemma keeps_target_complete [frame]: "keeps b (transition_target_complete_if s t)"
  by (rule keepsI) (auto simp: transition_target_complete_if_def observe_def Let_def split: if_splits)

lemma keeps_chain_promise [frame]: "keeps b (chain_promise s t)"
  by (rule keepsI) (auto simp: chain_promise_def)

section \<open>Traversals\<close>

text \<open>A traversal whose callbacks keep the core keeps the core.\<close>

lemma run_dfs_core:
  assumes "run_dfs g s d e = Inr (d', e')" and "b \<Longrightarrow> rootok e"
    and flt: "\<And>ed e ok e'. (b \<Longrightarrow> rootok e) \<Longrightarrow> t_filter g ed e = Inr (ok, e') \<Longrightarrow> core e' = core e"
    and vis: "\<And>v e ok e'. (b \<Longrightarrow> rootok e) \<Longrightarrow> t_visit g v e = Inr (ok, e') \<Longrightarrow> core e' = core e"
  shows "core e' = core e"
proof -
  have "dfs_loop g (d\<lparr>d_next := d_next d @ [s]\<rparr>) e = Some (Inr (d', e'))"
    using assms(1) by (simp add: run_dfs_def lift_opt_eq_Inr dfs_def)
  then show ?thesis
  proof (rule dfs_loop_inv [where I = "\<lambda>x. core x = core e"])
    show "core e = core e" ..
  next
    fix ed x ok x' assume *: "core x = core e" "t_filter g ed x = Inr (ok, x')"
    have "core x' = core x" by (rule flt [OF _ *(2)]) (use assms(2) rootok_core [OF *(1)] in blast)
    with * show "core x' = core e" by simp
  next
    fix v x ok x' assume *: "core x = core e" "t_visit g v x = Inr (ok, x')"
    have "core x' = core x" by (rule vis [OF _ *(2)]) (use assms(2) rootok_core [OF *(1)] in blast)
    with * show "core x' = core e" by simp
  qed
qed

lemma push_visit_core: "push_visit h e = Inr (ok, e') \<Longrightarrow> core e' = core e"
  by (auto simp: push_visit_def Let_def split: if_splits)

lemma unpush_visit_core: "unpush_visit h e = Inr (ok, e') \<Longrightarrow> core e' = core e"
proof -
  assume "unpush_visit h e = Inr (ok, e')"
  moreover have "check_stoppable h x = Inr y \<Longrightarrow> core y = core x" for x y
    by (rule keepsD [OF keeps_check_stoppable [of False]]) simp_all
  ultimately show ?thesis by (fastforce simp: unpush_visit_def Let_def split: if_splits)
qed

lemma keeps_pushes_inc [frame]: "keeps b (call_on_cluster_pushes_increment s anc)"
proof -
  have "core e' = core e"
    if "run_dfs (reverse_graph push_visit (\<lambda>ed e. Inr (True, e)) True) s d e = Inr (d', e')" for d d' e e'
    using that by (rule run_dfs_core [of _ _ _ _ _ _ False]) (auto simp: reverse_graph_def push_visit_core)
  then show ?thesis
    unfolding call_on_cluster_pushes_increment_def
    by (intro keeps_rules keepsI) (auto split: if_splits)
qed

lemma keeps_pushes_dec [frame]: "keeps b (call_on_cluster_pushes_decrement s anc)"
proof -
  have "core e' = core e"
    if "run_dfs (reverse_graph unpush_visit (\<lambda>ed e. Inr (True, e)) True) s d e = Inr (d', e')" for d d' e e'
    using that by (rule run_dfs_core [of _ _ _ _ _ _ False]) (auto simp: reverse_graph_def unpush_visit_core)
  then show ?thesis
    unfolding call_on_cluster_pushes_decrement_def
    by (intro keeps_rules keepsI) (auto split: if_splits)
qed

lemma keeps_set_override [frame]: "keeps b (set_override h m)"
  unfolding set_override_def by (intro keeps_rules keeps_pure frame) simp_all

lemma keeps_insert_startable [frame]: "keeps b (insert_into_queue_if_startable h)"
  unfolding insert_into_queue_if_startable_def by (intro keeps_rules frame)

lemma keeps_insert_stoppable [frame]: "keeps b (insert_into_queue_if_stoppable h)"
  unfolding insert_into_queue_if_stoppable_def by (intro keeps_rules frame)

lemma start_visit_core: "start_visit h e = Inr (ok, e') \<Longrightarrow> core e' = core e"
proof -
  assume "start_visit h e = Inr (ok, e')"
  then have "run [do_mark_cluster_for_start h True, insert_into_queue_if_startable h] e = Inr e'"
    by (auto simp: start_visit_def split: if_splits)
  then show ?thesis by (rule keepsD [of False, rotated]) (simp, intro keeps_rules frame)
qed

lemma start_filter_core: "start_filter h e = Inr (ok, e') \<Longrightarrow> core e' = core e"
  using keepsD [OF keeps_insert_startable [of False]]
  by (auto simp: start_filter_def Let_def split: if_splits)

lemma keeps_start_request [frame]: "keeps b (on_service_start_request h)"
proof -
  have "core e' = core e"
    if "run_dfs (reverse_graph start_visit start_filter False) h d e = Inr (d', e')" for d d' e e'
    using that by (rule run_dfs_core [of _ _ _ _ _ _ False])
      (auto simp: reverse_graph_def start_visit_core start_filter_core)
  then show ?thesis
    unfolding on_service_start_request_def by (intro keeps_rules frame keepsI) (auto split: if_splits)
qed

lemma keeps_gc_start [frame]: "keeps b (gc_on_service_start s)"
  by (rule keepsI) (auto simp: gc_on_service_start_def split: option.splits)

lemma keeps_cancel [frame]: "keeps b (cancel_token h tok)"
  by (rule keepsI) (auto simp: cancel_token_def observe_def)

lemma keeps_resolve [frame]: "keeps b (resolve_token h tok)"
  by (rule keepsI) (auto simp: resolve_token_def observe_def)

lemma keeps_request_start [frame]: "keeps b (request_start h r tok)"
proof -
  have *: "keeps b (run [on_service_start_request h, transition_target_set h tgt_start, chain_promise h tok])"
    by (intro keeps_run_Cons keeps_run_Nil keeps_start_request keeps_target_set keeps_chain_promise)
  have "keeps b (\<lambda>e. if isRunning e (get_cluster_head_of e h) then resolve_token h tok e
      else run [on_service_start_request h, transition_target_set h tgt_start, chain_promise h tok] e)"
    by (rule keeps_ife [OF keeps_resolve *])
  then have "keeps b (run
       [only_if (\<lambda>e. r = Manual) (set_override h ovr_start),
        require (\<lambda>e. is_cluster_head e (get_cluster_head_of e h)),
        (\<lambda>e. if isRunning e (get_cluster_head_of e h) then resolve_token h tok e
             else run [on_service_start_request h, transition_target_set h tgt_start, chain_promise h tok] e)])"
    by (intro keeps_run_Cons keeps_run_Nil keeps_require keeps_only_if keeps_set_override)
  then show ?thesis unfolding request_start_def [abs_def] by (rule keeps_ife [OF keeps_cancel])
qed

lemma keeps_request_observe [frame]: "keeps b (request_observe h tok)"
  unfolding request_observe_def [abs_def] by (intro keeps_ife frame)

section \<open>Counting along edges\<close>

lemma keeps_along [frame]:
  "sr_ok sr \<Longrightarrow> keeps True (inner_required_decrement_along sr s ed)"
  "sr_ok sr \<Longrightarrow> keeps True (outer_required_decrement_along sr s ed)"
  "keeps b (inner_required_increment_along s ed)"
  "keeps b (outer_required_increment_along s ed)"
proof -
  assume sr: "sr_ok sr"
  show "keeps True (inner_required_decrement_along sr s ed)"
    using keepsD [OF keeps_inner_dec [OF sr]]
    by (intro keepsI) (auto simp: inner_required_decrement_along_def)
  show "keeps True (outer_required_decrement_along sr s ed)"
    using keepsD [OF keeps_outer_dec [OF sr]]
    by (intro keepsI) (auto simp: outer_required_decrement_along_def)
next
  show "keeps b (inner_required_increment_along s ed)"
    using keepsD [OF keeps_inner_inc [of False]]
    by (intro keepsI) (auto simp: inner_required_increment_along_def)
  show "keeps b (outer_required_increment_along s ed)"
    using keepsD [OF keeps_outer_inc [of False]]
    by (intro keepsI) (auto simp: outer_required_increment_along_def)
qed

lemma keeps_required_dec [frame]: "sr_ok sr \<Longrightarrow> keeps True (call_on_required_decrement sr s)"
  unfolding call_on_required_decrement_def [abs_def]
  by (intro keeps_ife keeps_rules frame)

lemma keeps_required_inc [frame]: "keeps b (call_on_required_increment s)"
  unfolding call_on_required_increment_def [abs_def]
  by (intro keeps_ife keeps_rules frame)

lemma keeps_running_inc [frame]: "keeps b (call_on_cluster_running_increment s)"
  unfolding call_on_cluster_running_increment_def by (intro keeps_rules keeps_pure) simp

lemma keeps_epoch [frame]: "keeps b (do_increment_epoch s)"
  by (rule keepsI) (auto simp: do_increment_epoch_def)

lemma keeps_finalize [frame]: "keeps b (do_finalize_cluster h)"
  unfolding do_finalize_cluster_def interface_start_def by (intro keeps_rules frame)

lemma keeps_setup [frame]: "keeps b (setup_member m)"
  unfolding setup_member_def by (intro keeps_rules)

lemma keeps_external_edge [frame]: "keeps b (require_external_edge s)"
  by (rule keepsI) (auto simp: require_external_edge_def)

end
