(* ===== verification/Links.thy ===== *)
theory Links
  imports Dep_Graph
begin

text \<open>
  The tree and the links of a store. The tree is everything except phases, counters, cluster data and
  usages; all iterators are functions of it. The links are the tree and the usages; all edges
  are functions of the links, so that an operation that changes phases, use
  counts or cluster data leaves every range, every edge and every well-formedness condition as it was.
\<close>

definition tree :: "'a store_scheme \<Rightarrow> (sid \<Rightarrow> service) \<times> (pid \<Rightarrow> part) \<times> sid \<times> nat" where
  "tree st = ((\<lambda>s. (svc st s)\<lparr>s_inner := 0, s_phase := stopped, s_uses := 0\<rparr>),
     (\<lambda>p. (prt st p)\<lparr>p_users := [], p_imports := [], p_satisfied := True\<rparr>), root st, nsvc st)"

definition links :: "'a store_scheme \<Rightarrow> ((sid \<Rightarrow> service) \<times> (pid \<Rightarrow> part) \<times> sid \<times> nat)
    \<times> (pid \<Rightarrow> uid list \<times> uid list) \<times> (uid \<Rightarrow> pid \<times> pid \<times> bool \<times> bool)" where
  "links st = (tree st, (\<lambda>p. (p_users (prt st p), p_imports (prt st p))),
     (\<lambda>u. (u_used (usg st u), u_user (usg st u), isConnected st u, isWeak st u)))"

lemma treeD:
  assumes "tree st' = tree st"
  shows "parent st' s = parent st s" "s_parts (svc st' s) = s_parts (svc st s)"
    "s_cluster (svc st' s) = s_cluster (svc st s)" "s_high_guid (svc st' s) = s_high_guid (svc st s)"
    "p_kind (prt st' p) = p_kind (prt st p)" "owner st' p = owner st p"
    "p_children (prt st' p) = p_children (prt st p)" "root st' = root st" "nsvc st' = nsvc st"
proof -
  have "(svc st' s)\<lparr>s_inner := 0, s_phase := stopped, s_uses := 0\<rparr>
      = (svc st s)\<lparr>s_inner := 0, s_phase := stopped, s_uses := 0\<rparr>"
    using assms by (simp add: tree_def fun_eq_iff)
  then show "parent st' s = parent st s" "s_parts (svc st' s) = s_parts (svc st s)"
    "s_cluster (svc st' s) = s_cluster (svc st s)" "s_high_guid (svc st' s) = s_high_guid (svc st s)"
    by (cases "svc st' s"; cases "svc st s"; simp)+
  have "(prt st' p)\<lparr>p_users := [], p_imports := [], p_satisfied := True\<rparr>
      = (prt st p)\<lparr>p_users := [], p_imports := [], p_satisfied := True\<rparr>"
    using assms by (simp add: tree_def fun_eq_iff)
  then show "p_kind (prt st' p) = p_kind (prt st p)" "owner st' p = owner st p"
    "p_children (prt st' p) = p_children (prt st p)"
    by (cases "prt st' p"; cases "prt st p"; simp)+
  show "root st' = root st" "nsvc st' = nsvc st" using assms by (simp_all add: tree_def)
qed

lemma links_tree: "links st' = links st \<Longrightarrow> tree st' = tree st"
  by (simp add: links_def)

lemma linksD:
  assumes "links st' = links st"
  shows "parent st' s = parent st s" "s_parts (svc st' s) = s_parts (svc st s)"
    "s_cluster (svc st' s) = s_cluster (svc st s)" "s_high_guid (svc st' s) = s_high_guid (svc st s)"
    "p_kind (prt st' p) = p_kind (prt st p)" "owner st' p = owner st p"
    "p_children (prt st' p) = p_children (prt st p)" "p_users (prt st' p) = p_users (prt st p)"
    "p_imports (prt st' p) = p_imports (prt st p)"
    "u_used (usg st' u) = u_used (usg st u)" "u_user (usg st' u) = u_user (usg st u)"
    "isConnected st' u = isConnected st u" "isWeak st' u = isWeak st u"
    "root st' = root st" "nsvc st' = nsvc st"
  using assms treeD [OF links_tree [OF assms]] by (simp_all add: links_def fun_eq_iff)

section \<open>Parts\<close>

lemma tree_parts:
  assumes "tree st' = tree st"
  shows "isa_import st' = isa_import st" "isa_export st' = isa_export st" "isa_interface st' = isa_interface st"
    "imports_of st' = imports_of st" "exports_of st' = exports_of st" "interfaces_of st' = interfaces_of st"
    "isRoot st' = isRoot st" "is_cluster_head st' = is_cluster_head st"
proof -
  note D = treeD [OF assms]
  show i: "isa_import st' = isa_import st" "isa_export st' = isa_export st" "isa_interface st' = isa_interface st"
    by (simp_all add: fun_eq_iff isa_import_def isa_export_def isa_interface_def D)
  show "imports_of st' = imports_of st" "exports_of st' = exports_of st" "interfaces_of st' = interfaces_of st"
    "isRoot st' = isRoot st" "is_cluster_head st' = is_cluster_head st"
    by (simp_all add: fun_eq_iff imports_of_def exports_of_def interfaces_of_def isRoot_def is_cluster_head_def i D)
qed

section \<open>Iterators\<close>

lemma tree_next_child_of_parts:
  assumes "tree st' = tree st"
  shows "next_child_of_parts st' ps fl = next_child_of_parts st ps fl"
  by (induction ps) (simp_all add: steps_into_def tree_parts [OF assms] treeD [OF assms] split: list.split)

lemma tree_next_neighbour:
  assumes "tree st' = tree st"
  shows "next_neighbour_or_child st' s fl = next_neighbour_or_child st s fl"
  by (simp add: next_neighbour_or_child_def tree_next_child_of_parts [OF assms] treeD [OF assms] split: list.split)

lemma tree_climb:
  assumes "tree st' = tree st"
  shows "climb n st' s fl = climb n st s fl"
  by (induction n arbitrary: s)
    (simp_all add: tree_next_neighbour [OF assms] tree_parts [OF assms] treeD [OF assms] split: option.split)

lemma tree_next:
  assumes "tree st' = tree st"
  shows "next_parent_or_neighbour st' = next_parent_or_neighbour st"
    "next_child_or_up st' = next_child_or_up st"
  by (simp_all add: fun_eq_iff next_parent_or_neighbour_def next_child_or_up_def tree_climb [OF assms]
      tree_next_child_of_parts [OF assms] treeD [OF assms] split: option.split)

lemma tree_head_climb:
  assumes "tree st' = tree st"
  shows "head_climb n st' s = head_climb n st s"
  by (induction n arbitrary: s) (simp_all add: tree_parts [OF assms] treeD [OF assms])

lemma tree_cluster_step:
  assumes "tree st' = tree st"
  shows "cluster_step n st' s = cluster_step n st s"
  by (induction n arbitrary: s) (simp_all add: tree_next [OF assms] tree_parts [OF assms] split: option.split)

lemma tree_iterators:
  assumes "tree st' = tree st"
  shows "get_cluster_head_of st' = get_cluster_head_of st" "cluster_members st' = cluster_members st"
    "transitive_services st' = transitive_services st" "clusters st' = clusters st"
proof -
  show h: "get_cluster_head_of st' = get_cluster_head_of st"
    by (simp add: fun_eq_iff get_cluster_head_of_def tree_head_climb [OF assms])
  have c: "cluster_step (nsvc st) st' = cluster_step (nsvc st) st" by (rule ext) (rule tree_cluster_step [OF assms])
  show "cluster_members st' = cluster_members st" "transitive_services st' = transitive_services st"
    "clusters st' = clusters st"
    by (rule ext, simp add: cluster_members_def transitive_services_def clusters_def h c tree_next [OF assms]
        treeD [OF assms])+
qed

lemma links_parts:
  assumes "links st' = links st"
  shows "isa_import st' = isa_import st" "isa_export st' = isa_export st" "isa_interface st' = isa_interface st"
    "imports_of st' = imports_of st" "exports_of st' = exports_of st" "interfaces_of st' = interfaces_of st"
    "isRoot st' = isRoot st" "is_cluster_head st' = is_cluster_head st" "isConnected st' = isConnected st"
    "isWeak st' = isWeak st"
  using tree_parts [OF links_tree [OF assms]] linksD(12,13) [OF assms] by (simp_all add: fun_eq_iff)

lemmas links_iterators = tree_iterators [OF links_tree]

section \<open>Edges\<close>

lemma links_edges:
  assumes "links st' = links st"
  shows "succs d st' fl n = succs d st fl n" "edges_of d st' fl = edges_of d st fl"
    "inner_nodes st' = inner_nodes st" "outer_edges d st' fl = outer_edges d st fl"
    "all_cluster_edges d st' fl = all_cluster_edges d st fl"
    "edge_source st' = edge_source st" "edge_target st' = edge_target st" "edge_isWeak st' = edge_isWeak st"
    "cluster_source st' = cluster_source st" "cluster_target st' = cluster_target st"
proof -
  note D = linksD [OF assms] links_parts [OF assms] links_iterators [OF assms]
  have p: "has_parent_edge d st' s fl = has_parent_edge d st s fl" for d s fl
    by (cases d) (simp_all add: D)
  have u: "usage_selected st' fl = usage_selected st fl" for fl
    by (simp add: fun_eq_iff usage_selected_def D)
  have s: "succs d st' fl n = succs d st fl n" for d fl n
    by (cases d; cases n) (simp_all add: p u D del: has_parent_edge.simps)
  show "succs d st' fl n = succs d st fl n" by (rule s)
  show e: "edges_of d st' fl = edges_of d st fl" for d fl by (simp add: fun_eq_iff edges_of_def s)
  show i: "inner_nodes st' = inner_nodes st" by (simp add: fun_eq_iff inner_nodes_def D)
  show o: "outer_edges d st' fl = outer_edges d st fl" for d fl by (simp add: fun_eq_iff outer_edges_def e i)
  show "all_cluster_edges d st' fl = all_cluster_edges d st fl"
    by (simp add: fun_eq_iff all_cluster_edges_def o D)
  have src: "edge_source st' ed = edge_source st ed" for ed
    by (cases "(st, ed)" rule: edge_source.cases) (simp_all add: D)
  have tgt: "edge_target st' ed = edge_target st ed" for ed
    by (cases "(st, ed)" rule: edge_target.cases) (simp_all add: D)
  have wk: "edge_isWeak st' ed = edge_isWeak st ed" for ed
    by (cases "(st, ed)" rule: edge_isWeak.cases) (simp_all add: D)
  show "edge_source st' = edge_source st" "edge_target st' = edge_target st" "edge_isWeak st' = edge_isWeak st"
    by (simp_all add: fun_eq_iff src tgt wk)
  show "cluster_source st' = cluster_source st" "cluster_target st' = cluster_target st"
    by (simp_all add: fun_eq_iff cluster_source_def cluster_target_def src tgt D)
qed

section \<open>Well-formedness\<close>

lemma tree_wf:
  assumes "tree st' = tree st"
  shows "wf_tree st' = wf_tree st" "wf_heads st' = wf_heads st" "all_attached st' = all_attached st"
  unfolding wf_heads_def wf_tree_def all_attached_def tree_parts [OF assms] treeD [OF assms]
  by (rule refl)+

lemma links_wf:
  assumes "links st' = links st"
  shows "wf_tree st' = wf_tree st" "wf_heads st' = wf_heads st" "wf_usages st' = wf_usages st"
    "all_attached st' = all_attached st"
  unfolding tree_wf [OF links_tree [OF assms]] wf_usages_def links_parts [OF assms] linksD [OF assms]
  by (rule refl)+

lemma links_wf_graph:
  assumes "links st' = links st" and "wf_graph st"
    and "\<And>p c. c \<in> set (p_children (prt st p)) \<Longrightarrow> isInitializedUnsafe st' c"
  shows "wf_graph st'"
  using assms(2,3) unfolding wf_graph_def links_wf [OF assms(1)] links_parts [OF assms(1)] linksD [OF assms(1)]
  by blast

lemmas links_cong = linksD links_parts links_iterators links_edges links_wf

end
