(* ===== verification/Graph_Counts.thy ===== *)
theory Graph_Counts
  imports Dep_Graph
begin

text \<open>
  The whole node graph of src/lib/idle/core/graph.cpp: the node iterator visits every service, part and
  usage once, the edge iterator visits the outgoing edges of every node, and \<open>init_graph\<close> counts
  both and cross-checks the counts in a debug build. The main result is that none of the
  cross-checks can fail, because outgoing and incoming edges are the same pairs; for
  flags that select only one kind of usage they do fail.
\<close>

section \<open>Edges of the graph and their counts\<close>





section \<open>The node iterator\<close>














section \<open>The edge iterator\<close>






section \<open>Outgoing and incoming edges are the same pairs\<close>















section \<open>Properties\<close>

text \<open>
  An example: the services 1 and 2 below the root; part 2 of service 2 imports from part 1 of
  service 1 through the usage 0, which is weak or strong.
\<close>

definition ex_graph :: "bool \<Rightarrow> store" where
  "ex_graph weak =
    \<lparr>svc = (\<lambda>s. (init_service 0)\<lparr>s_phase := stopped, s_parts := (if s \<le> 2 then [s] else [])\<rparr>),
     prt = (\<lambda>p. \<lparr>p_kind = (if p = 2 then kImport else kInterface), p_owner = (if p \<le> 2 then p else 0),
             p_children = (if p = 0 then [1, 2] else []), p_users = (if p = 1 then [0] else []),
             p_imports = (if p = 2 then [0] else []), p_satisfied = False\<rparr>),
     usg = (\<lambda>u. \<lparr>u_used = 1, u_user = 2, u_flags = (if u = 0 then (if weak then 3 else 1) else 0)\<rparr>),
     clu = (\<lambda>c. init_cluster False), root = 0, nsvc = 3\<rparr>"

lemma ex_graph_connected [simp]: "isConnected (ex_graph w) u \<longleftrightarrow> u = 0"
  by (auto simp: isConnected_def ex_graph_def contains_def has_mask_def mask_of_def fl_Connected_def)

lemma ex_graph_weak [simp]: "isWeak (ex_graph w) 0 \<longleftrightarrow> w"
  by (auto simp: isWeak_def ex_graph_def contains_def has_mask_def mask_of_def fl_Weak_def)

lemma ex_graph_wf: "wf_graph (ex_graph w)" "all_attached (ex_graph w)"
proof -
  have "wf_heads (ex_graph w)"
    by (auto simp: wf_heads_def wf_tree_def ex_graph_def init_service_def is_cluster_head_def isa_export_def)
  moreover have "wf_usages (ex_graph w)"
    unfolding wf_usages_def ex_graph_connected
    by (auto simp: ex_graph_def isa_export_def isa_import_def split: if_splits)
  ultimately show "wf_graph (ex_graph w)"
    unfolding wf_graph_def ex_graph_connected
    by (auto simp: ex_graph_def isInitializedUnsafe_def init_service_def split: if_splits)
  show "all_attached (ex_graph w)" by (auto simp: all_attached_def ex_graph_def init_service_def)
qed

lemma flags_0 [simp]:
  "has_usage_weak_edge 0" "has_usage_strong_edge 0" "has_usage_importer_edge 0" "has_all_usage_edge 0"
  by (simp_all add: has_usage_weak_edge_def has_usage_strong_edge_def has_usage_importer_edge_def has_any_iff
      has_all_iff contains_def has_mask_def mask_of_def gf_usage_weak_def gf_usage_strong_def gf_usage_importer_def)



text \<open>
  C28. The lazy edge iterators of a cluster, which search node by node and member by member,
  enumerate exactly the edges of the nodes of all members of the cluster, and the
  degree of the cluster is their number. Every outgoing edge starts in the cluster and every incoming
  edge ends there.
\<close>

theorem cluster_edges_exact:
  assumes "wf_graph st" and "all_attached st" and "h < nsvc st" and "is_cluster_head st h"
    and "has_all_usage_edge fl"
  shows "\<exists>es. (case d of dir_out \<Rightarrow> cluster_out_edges st h fl | dir_in \<Rightarrow> cluster_in_edges st h fl) = Some (Inr es)
    \<and> cluster_degree_of d st h fl = Inr (length es)
    \<and> set es = {make_edge d n m | n m s. s < nsvc st \<and> get_cluster_head_of st s = h
         \<and> n \<in> set (inner_nodes st s) \<and> m \<in> set (succs d st (cluster_flags fl) n)}"
proof -
  let ?fl = "cluster_flags fl" and ?ms = "cluster_members st h"
  note wf = wf_graphD(1) [OF assms(1)]
  have uni: "usages_uniform st ?fl"
    using assms(5) elems_or [of fl]
    by (intro all_usages_uniform) (auto simp: has_all_usage_edge_def contains_any_iff cluster_flags_def bs_union_def
        bs_of_list_elems service_graph_def external_graph_def gf_owner_exporter_def gf_importer_owner_def
        gf_child_importer_def gf_usage_weak_def gf_usage_strong_def bits_def)
  have deg: "sum_degree d st ?fl ns = Inr (length (concat (map (edges_of d st ?fl) ns)))" for ns
    by (induction ns) (auto simp: node_degree_succs edges_of_def)
  have "sum_members d st ?fl ss = Inr (length (concat (map (outer_edges d st ?fl) ss)))" for ss
    by (induction ss) (auto simp: inner_range_service [OF wf] lift_range_def deg outer_edges_def)
  then have "cluster_degree_of d st h fl = Inr (length (concat (map (outer_edges d st ?fl) ?ms)))"
    by (simp add: cluster_degree_of_def)
  moreover have ms: "set ?ms = {x. x < nsvc st \<and> get_cluster_head_of st x = h}"
    using set_preorder_cluster [OF wf_graphD(2) [OF assms(1)] assms(2-4)]
      cluster_members_preorder [OF wf assms(3,4)] by simp
  moreover have "set (concat (map (outer_edges d st ?fl) ?ms)) =
      {make_edge d n m | n m s. s < nsvc st \<and> get_cluster_head_of st s = h
         \<and> n \<in> set (inner_nodes st s) \<and> m \<in> set (succs d st ?fl n)}"
    unfolding set_concat set_map ms outer_edges_def edges_of_def image_image by blast
  moreover have "(case d of dir_out \<Rightarrow> cluster_out_edges st h fl | dir_in \<Rightarrow> cluster_in_edges st h fl)
      = Some (Inr (concat (map (outer_edges d st ?fl) ?ms)))"
    using cluster_edges_collect [OF assms(1) uni assms(2-4), of d]
    by (cases d) (simp_all add: cluster_out_edges_def cluster_in_edges_def)
  ultimately show ?thesis by blast
qed

theorem cluster_edges_exact_witness:
  "\<exists>es. cluster_in_edges (ex_graph True) 2 0 = Some (Inr es)
    \<and> cluster_degree_of dir_in (ex_graph True) 2 0 = Inr (length es)
    \<and> set es = {make_edge dir_in n m | n m s. s < nsvc (ex_graph True) \<and> get_cluster_head_of (ex_graph True) s = 2
         \<and> n \<in> set (inner_nodes (ex_graph True) s) \<and> m \<in> set (succs dir_in (ex_graph True) (cluster_flags 0) n)}"
proof -
  have "2 < nsvc (ex_graph True)" "is_cluster_head (ex_graph True) 2" "has_all_usage_edge 0"
    by (simp_all add: ex_graph_def is_cluster_head_def isa_export_def init_service_def)
  from cluster_edges_exact [OF ex_graph_wf this, of dir_in] show ?thesis by simp
qed

text \<open>
  With flags that select the strong usages only, an import part whose first imported
  usage is weak breaks the iteration over its incoming edges: \<open>begin\<close> yields the weak usage
  although the degree does not count it, and the following increment violates an assertion.
\<close>

theorem weak_first_import_breaks_in_edges:
  assumes "p_imports (prt st p) = u # us" and "isWeak st u" and "p_children (prt st p) = []"
    and "has_usage_importer_edge fl" and "\<not> has_usage_weak_edge fl"
  shows "trait_begin dir_in st (NImport p) fl = Inr (Some (NUsage u))
    \<and> in_degree st (NImport p) fl = Inr (length (filter (\<lambda>v. \<not> isWeak st v) us))
    \<and> in_edges st (NImport p) fl = Some (Inl AssertFailed)"
proof -
  have "usage_selected st fl v \<longleftrightarrow> \<not> isWeak st v" for v
    using assms(4,5) any_usage_edge(1) has_any_iff by (auto simp: usage_selected_def)
  then have "usage_selected st fl = (\<lambda>v. \<not> isWeak st v)" by blast
  moreover have first: "trait_begin dir_in st (NImport p) fl = Inr (Some (NUsage u))"
    using assms by (simp add: first_child_def)
  moreover have "advance_edge dir_in st (NUsage u, NImport p) fl = Inl AssertFailed"
    using assms by (simp add: advance_edge_def usage_selected_def)
  ultimately show ?thesis
    using assms by (simp add: in_degree_def node_degree_succs in_edges_def first_edge_of_def first_child_def)
qed

theorem weak_first_import_breaks_in_edges_witness:
  "trait_begin dir_in (ex_graph True) (NImport 2) strong_usage_graph = Inr (Some (NUsage 0))
    \<and> in_degree (ex_graph True) (NImport 2) strong_usage_graph = Inr (length (filter (\<lambda>v. \<not> isWeak (ex_graph True) v) []))
    \<and> in_edges (ex_graph True) (NImport 2) strong_usage_graph = Some (Inl AssertFailed)"
  by (rule weak_first_import_breaks_in_edges)
    (simp_all add: ex_graph_weak, simp_all add: ex_graph_def has_usage_importer_edge_def has_any_iff
      has_usage_weak_edge_def has_usage_strong_edge_def contains_iff strong_usage_graph_def bs_of_list_elems
      gf_usage_weak_def gf_usage_strong_def gf_usage_importer_def bits_def)

end
