(* ===== verification/External_Edges.thy ===== *)
theory External_Edges
  imports Links Graph_Counts
begin

text \<open>
  The edges that the life cycle works with, in closed form. The external edges of a service go from
  the export part it is a child of and from the usages that its import parts hold to the service, and
  from its export parts to the children and users of these; the inner edges connect an
  import part's children with the importing service. The ranges of the service graph and
  of the cluster graph are these lists on every well-formed store.
\<close>

section \<open>Flags\<close>

abbreviation external_flags :: mask where
  "external_flags \<equiv> bs_union external_graph service_graph"

abbreviation inner_flags :: mask where
  "inner_flags \<equiv> bs_union cluster_graph service_graph"

lemma cluster_flags_0: "cluster_flags 0 = external_flags"
  by (simp add: cluster_flags_def bs_union_def or.commute)

lemmas flag_simps =
  has_child_importer_edge_def has_owner_exporter_edge_def has_exporter_child_edge_def has_exporter_usage_edge_def
  has_importer_owner_edge_def has_usage_importer_edge_def has_usage_weak_edge_def has_usage_strong_edge_def
  gf_child_importer_def gf_owner_exporter_def gf_exporter_child_def gf_exporter_usage_def gf_importer_owner_def
  gf_usage_importer_def gf_usage_strong_def gf_usage_weak_def has_any_iff has_all_iff

lemma external_flags_value: "external_flags = 19"
  by (simp add: bs_union_def external_graph_def service_graph_def bs_of_list_def bs_insert_def set_or_def
      mask_of_def empty_mask_def flag_simps)

lemma inner_flags_value: "inner_flags = 62"
  by (simp add: bs_union_def cluster_graph_def service_graph_def bs_of_list_def bs_insert_def set_or_def
      mask_of_def empty_mask_def flag_simps)

lemma external_flags_sel [simp]:
  "\<not> has_child_importer_edge external_flags" "\<not> has_owner_exporter_edge external_flags"
  "\<not> has_importer_owner_edge external_flags" "has_exporter_child_edge external_flags"
  "has_exporter_usage_edge external_flags" "has_usage_importer_edge external_flags"
  "has_usage_weak_edge external_flags" "has_usage_strong_edge external_flags" "has_all_usage_edge external_flags"
  unfolding external_flags_value by (simp_all add: flag_simps contains_def has_mask_def mask_of_def)

lemma inner_flags_sel [simp]:
  "has_child_importer_edge inner_flags" "\<not> has_owner_exporter_edge inner_flags"
  "\<not> has_importer_owner_edge inner_flags" "\<not> has_exporter_child_edge inner_flags"
  "\<not> has_exporter_usage_edge inner_flags" "\<not> has_usage_importer_edge inner_flags"
  "has_usage_weak_edge inner_flags" "has_usage_strong_edge inner_flags" "has_all_usage_edge inner_flags"
  unfolding inner_flags_value by (simp_all add: flag_simps contains_def has_mask_def mask_of_def)

lemma usage_selected_all [simp]:
  "usage_selected st external_flags u" "usage_selected st inner_flags u"
  by (simp_all add: usage_selected_def)

section \<open>The lists of edges\<close>

definition parent_edge :: "'a store_scheme \<Rightarrow> sid \<Rightarrow> edge list" where
  "parent_edge st s =
     (if isa_export st (parent st s) \<and> \<not> isRoot st s then [(NExport (parent st s), NService s)] else [])"

definition import_edges :: "'a store_scheme \<Rightarrow> sid \<Rightarrow> edge list" where
  "import_edges st s =
     concat (map (\<lambda>p. map (\<lambda>u. (NUsage u, NImport p)) (p_imports (prt st p))) (imports_of st s))"

definition export_edges :: "'a store_scheme \<Rightarrow> sid \<Rightarrow> edge list" where
  "export_edges st s =
     concat (map (\<lambda>p. map (\<lambda>c. (NExport p, NService c)) (p_children (prt st p))
                    @ map (\<lambda>u. (NExport p, NUsage u)) (p_users (prt st p))) (exports_of st s))"

definition member_edges :: "'a store_scheme \<Rightarrow> sid \<Rightarrow> edge list" where
  "member_edges st s =
     concat (map (\<lambda>p. map (\<lambda>c. (NService c, NImport p)) (p_children (prt st p))) (imports_of st s))"

lemma external_in: "outer_edges dir_in st external_flags s = parent_edge st s @ import_edges st s"
  by (simp add: outer_edges_def inner_nodes_def edges_of_def parent_edge_def import_edges_def
      comp_def)

lemma external_out: "outer_edges dir_out st external_flags s = export_edges st s"
  by (simp add: outer_edges_def inner_nodes_def edges_of_def export_edges_def comp_def)

lemma inner_in: "outer_edges dir_in st inner_flags s = member_edges st s"
  by (simp add: outer_edges_def inner_nodes_def edges_of_def member_edges_def comp_def)

section \<open>The ranges\<close>

lemma service_edges_eq:
  assumes "wf_graph st" and "s < nsvc st"
  shows "service_in_edges st s external_graph = Some (Inr (parent_edge st s @ import_edges st s))"
    "service_out_edges st s external_graph = Some (Inr (export_edges st s))"
    "service_in_edges st s cluster_graph = Some (Inr (member_edges st s))"
proof -
  have u: "usages_uniform st external_flags" "usages_uniform st inner_flags"
    by (rule all_usages_uniform, simp)+
  show "service_in_edges st s external_graph = Some (Inr (parent_edge st s @ import_edges st s))"
    "service_out_edges st s external_graph = Some (Inr (export_edges st s))"
    "service_in_edges st s cluster_graph = Some (Inr (member_edges st s))"
    unfolding service_in_edges_def service_out_edges_def Let_def
    by (simp_all add: outer_edges_collect [OF assms(1) u(1) assms(2)] outer_edges_collect [OF assms(1) u(2) assms(2)]
        external_in external_out inner_in)
qed

lemma cluster_range_eq:
  assumes "wf_graph st" and "all_attached st" and "h < nsvc st" and "is_cluster_head st h"
  shows "cluster_in_edges st h 0 = Some (Inr (concat (map (\<lambda>s. parent_edge st s @ import_edges st s) (cluster_members st h))))"
    "cluster_out_edges st h 0 = Some (Inr (concat (map (export_edges st) (cluster_members st h))))"
proof -
  have u: "usages_uniform st external_flags" by (rule all_usages_uniform) simp
  note c = cluster_edges_collect [OF assms(1) u assms(2-4)]
  show "cluster_in_edges st h 0 = Some (Inr (concat (map (\<lambda>s. parent_edge st s @ import_edges st s) (cluster_members st h))))"
    "cluster_out_edges st h 0 = Some (Inr (concat (map (export_edges st) (cluster_members st h))))"
    by (simp_all add: cluster_in_edges_def cluster_out_edges_def cluster_flags_0 c external_in [abs_def]
        external_out [abs_def])
qed

lemma members_of:
  assumes "wf_heads st" and "all_attached st" and "h < nsvc st" and "is_cluster_head st h"
  shows "set (cluster_members st h) = {x. x < nsvc st \<and> get_cluster_head_of st x = h}"
  using set_preorder_cluster [OF assms] cluster_members_preorder [of st h] assms by (simp add: wf_heads_def)

lemma in_edge_source:
  assumes "wf_graph st" and "s < nsvc st" and "ed \<in> set (parent_edge st s @ import_edges st s)"
  shows "edge_source st ed < nsvc st" and "edge_target st ed = s"
proof -
  note wf = wf_graphD(1) [OF assms(1)] and wu = wf_graphD(3) [OF assms(1)]
  consider (par) "ed = (NExport (parent st s), NService s)" "\<not> isRoot st s"
    | (imp) p u where "ed = (NUsage u, NImport p)" "p \<in> set (imports_of st s)" "u \<in> set (p_imports (prt st p))"
    using assms(3) by (auto simp: parent_edge_def import_edges_def split: if_splits)
  then have "edge_source st ed < nsvc st \<and> edge_target st ed = s"
  proof cases
    case par
    then have "owner st (parent st s) < s" using wf by (simp add: isRoot_iff wf_treeD(3))
    with par assms(2) show ?thesis by simp
  next
    case imp
    then have "isConnected st u" using wf_usagesD(4) [OF wu] by blast
    then have "owner st (u_used (usg st u)) < nsvc st" using wf_usagesD(7) [OF wu] wf_graphD(6) [OF assms(1)] by blast
    moreover have "owner st p = s" using imp(2) wf_treeD(5) [OF wf] by (simp add: imports_of_def)
    ultimately show ?thesis using imp by simp
  qed
  then show "edge_source st ed < nsvc st" "edge_target st ed = s" by auto
qed

end
