(* ===== verification/Example_Engine.thy ===== *)
theory Example_Engine
  imports Lifecycle
begin

text \<open>
  A small system for concrete inputs: the services 1 and 2 are children of the root's part 0, and the
  import part 2 of service 2 uses the interface part 1 of service 1 through the strong
  usage 0. Phases, use counts, cluster objects and the queue are arguments.
\<close>

definition ex_engine :: "(sid \<Rightarrow> phase) \<Rightarrow> (sid \<Rightarrow> 32 word) \<Rightarrow> (cid \<Rightarrow> cluster) \<Rightarrow> sid list \<Rightarrow> sid list \<Rightarrow> engine" where
  "ex_engine ph us cl down up =
    \<lparr>svc = (\<lambda>s. \<lparr>s_phase = ph s, s_inner = 0, s_high_guid = 0, s_parent = 0,
             s_parts = (if s \<le> 2 then [s] else []), s_uses = us s, s_cluster = Some s\<rparr>),
     prt = (\<lambda>p. \<lparr>p_kind = (if p = 2 then kImport else kInterface), p_owner = (if p \<le> 2 then p else 0),
             p_children = (if p = 0 then [1, 2] else []), p_users = (if p = 1 then [0] else []),
             p_imports = (if p = 2 then [0] else []), p_satisfied = True\<rparr>),
     usg = (\<lambda>u. \<lparr>u_used = 1, u_user = 2, u_flags = (if u = 0 then 1 else 0)\<rparr>),
     clu = cl, root = 0, nsvc = 3,
     e_down = down, e_up = up, e_processing = False, e_dispatched = False, e_posted = [],
     e_strong = (\<lambda>s. None), e_log = []\<rparr>"

lemma ex_engine_simps [simp]:
  "phase_of (ex_engine ph us cl dn up) s = ph s" "uses_of (ex_engine ph us cl dn up) s = us s"
  "s_inner (svc (ex_engine ph us cl dn up) s) = 0" "parent (ex_engine ph us cl dn up) s = 0"
  "s_parts (svc (ex_engine ph us cl dn up) s) = (if s \<le> 2 then [s] else [])"
  "s_cluster (svc (ex_engine ph us cl dn up) s) = Some s"
  "p_kind (prt (ex_engine ph us cl dn up) p) = (if p = 2 then kImport else kInterface)"
  "owner (ex_engine ph us cl dn up) p = (if p \<le> 2 then p else 0)"
  "p_children (prt (ex_engine ph us cl dn up) p) = (if p = 0 then [1, 2] else [])"
  "p_users (prt (ex_engine ph us cl dn up) p) = (if p = 1 then [0] else [])"
  "p_imports (prt (ex_engine ph us cl dn up) p) = (if p = 2 then [0] else [])"
  "p_satisfied (prt (ex_engine ph us cl dn up) p)"
  "u_used (usg (ex_engine ph us cl dn up) u) = 1" "u_user (usg (ex_engine ph us cl dn up) u) = 2"
  "u_flags (usg (ex_engine ph us cl dn up) u) = (if u = 0 then 1 else 0)"
  "clu (ex_engine ph us cl dn up) = cl" "root (ex_engine ph us cl dn up) = 0" "nsvc (ex_engine ph us cl dn up) = 3"
  "e_down (ex_engine ph us cl dn up) = dn" "e_up (ex_engine ph us cl dn up) = up"
  by (simp_all add: ex_engine_def)

lemma ex_engine_clus [simp]: "clus (ex_engine ph us cl dn up) s = s"
  by (simp add: clus_def)

lemma ex_engine_kinds [simp]:
  "isa_import (ex_engine ph us cl dn up) p \<longleftrightarrow> p = 2" "isa_export (ex_engine ph us cl dn up) p \<longleftrightarrow> p \<noteq> 2"
  "isRoot (ex_engine ph us cl dn up) s \<longleftrightarrow> s = 0" "is_cluster_head (ex_engine ph us cl dn up) s"
  "isConnected (ex_engine ph us cl dn up) u \<longleftrightarrow> u = 0" "\<not> isWeak (ex_engine ph us cl dn up) u"
  by (auto simp: isa_import_def isa_export_def isRoot_def is_cluster_head_def isConnected_def isWeak_def
      contains_def has_mask_def mask_of_def fl_Connected_def fl_Weak_def)

end
