(* ===== verification/Scheduling_Queue.thy ===== *)
theory Scheduling_Queue
  imports Example_Engine
begin

text \<open>
  The scheduling queue of src/lib/idle/core/detail/context/scheduler.cpp as two disjoint finite sets of
  services. The internal assertions of the queue hold whenever both vectors are sorted; a service is
  refused only if it is queued for the opposite direction or cannot make the step.
\<close>

context strict_total
begin

lemma fs_find_at:
  assumes "sorted_wrt prec xs" and "i < length xs"
  shows "fs_find prec xs (xs ! i) = i"
proof -
  let ?v = "xs ! i" and ?l = "lower_bound prec xs (xs ! i)"
  have "?v \<in> set xs" using assms(2) by simp
  then have "is_equal_element prec xs ?l ?v" "xs ! ?l = ?v" "?l < length xs"
    using equal_element_iff [OF assms(1), of ?v] lower_bound_spec(1) [OF assms(1), of ?v]
    by (auto simp: is_equal_element_def)
  then show ?thesis
    using sorted_distinct [OF assms(1)] assms(2)
    by (simp add: fs_find_def find_first_lower_bound_of_def Let_def nth_eq_iff_index_eq)
qed

lemma fs_insert_find:
  assumes "sorted_wrt prec xs" and "fs_insert prec v xs = ((pos, new), ys)"
  shows "pos \<noteq> length ys" and "pos = fs_find prec ys v"
proof -
  have "pos < length ys"
    using assms lower_bound_spec(1) [OF assms(1), of v]
    by (auto simp: fs_insert_def Let_def is_equal_element_def split: if_splits)
  moreover have "ys ! pos = v" and "sorted_wrt prec ys"
    using fs_insert_pos [OF assms(1), of v] fs_insert_sorted [OF assms(1), of v] assms(2) by simp_all
  ultimately show "pos \<noteq> length ys" "pos = fs_find prec ys v" using fs_find_at by auto
qed

lemma fs_find_element:
  assumes "sorted_wrt prec xs"
  shows "fs_find prec xs v \<noteq> length xs \<longleftrightarrow> v \<in> set xs"
    and "v \<in> set xs \<Longrightarrow> xs ! fs_find prec xs v = v"
proof -
  show "fs_find prec xs v \<noteq> length xs \<longleftrightarrow> v \<in> set xs"
    using fs_contains_iff [OF assms] by (simp add: fs_contains_def)
  assume "v \<in> set xs"
  then obtain i where "i < length xs" "xs ! i = v" by (auto simp: in_set_conv_nth)
  then show "xs ! fs_find prec xs v = v" using fs_find_at [OF assms] by auto
qed

end

section \<open>Sorted queues\<close>

definition queue_wf :: "engine \<Rightarrow> bool" where
  "queue_wf e \<longleftrightarrow> sorted_wrt (>) (e_up e) \<and> sorted_wrt (>) (e_down e) \<and> set (e_up e) \<inter> set (e_down e) = {}"

lemma q_push_up_eq:
  assumes "queue_wf e" and "s \<notin> set (e_down e)" and "isStartable e s"
  shows "q_push_up s e = Inr (e\<lparr>e_up := snd (fs_insert (>) s (e_up e))\<rparr>)"
proof -
  obtain pos new ys where i: "fs_insert (>) s (e_up e) = ((pos, new), ys)" by (metis surj_pair)
  have "pos \<noteq> length ys" "pos = fs_find (>) ys s"
    using gt.fs_insert_find [OF _ i] assms(1) by (simp_all add: queue_wf_def)
  with assms i show ?thesis by (simp add: q_push_up_def require_def gt.fs_contains_iff queue_wf_def)
qed

lemma q_push_down_eq:
  assumes "queue_wf e" and "s \<notin> set (e_up e)" and "isStoppable e s"
  shows "q_push_down s e = Inr (e\<lparr>e_down := snd (fs_insert (>) s (e_down e))\<rparr>)"
proof -
  obtain pos new ys where i: "fs_insert (>) s (e_down e) = ((pos, new), ys)" by (metis surj_pair)
  have "pos \<noteq> length ys" "pos = fs_find (>) ys s"
    using gt.fs_insert_find [OF _ i] assms(1) by (simp_all add: queue_wf_def)
  with assms i show ?thesis by (simp add: q_push_down_def require_def gt.fs_contains_iff queue_wf_def)
qed

lemma q_erase_one_eq:
  assumes "sorted_wrt (>) q"
  shows "q_erase_one s q = Inr (snd (fs_erase (>) s q))"
  using gt.fs_find_element [OF assms, of s] gt.fs_erase_count [OF assms, of s]
  by (cases "fs_erase (>) s q") (auto simp: q_erase_one_def Let_def split: if_splits)

lemma q_erase_eq:
  assumes "queue_wf e"
  shows "q_erase s e = Inr (e\<lparr>e_down := snd (fs_erase (>) s (e_down e)), e_up := snd (fs_erase (>) s (e_up e))\<rparr>)"
  using assms by (simp add: q_erase_def q_erase_one_eq queue_wf_def)

lemma last_least:
  assumes "sorted_wrt (>) (xs :: nat list)" and "x \<in> set xs"
  shows "last xs \<le> x"
  using gt.last_greatest [OF assms] by auto

lemma pop_last_set:
  assumes "sorted_wrt (>) (xs :: nat list)" and "xs \<noteq> []"
  shows "set (butlast xs) = set xs - {last xs}" and "sorted_wrt (>) (butlast xs)"
proof -
  have x: "xs = butlast xs @ [last xs]" using assms(2) by simp
  then have "sorted_wrt (>) (butlast xs @ [last xs])" using assms(1) by simp
  then have "sorted_wrt (>) (butlast xs)" "last xs \<notin> set (butlast xs)" by (auto simp: sorted_wrt_append)
  moreover have "set xs = insert (last xs) (set (butlast xs))" by (subst x) auto
  ultimately show "set (butlast xs) = set xs - {last xs}" "sorted_wrt (>) (butlast xs)" by auto
qed

lemma push_up_spec:
  assumes "queue_wf e" and "s \<notin> set (e_down e)" and "isStartable e s"
  shows "\<exists>up. q_push_up s e = Inr (e\<lparr>e_up := up\<rparr>) \<and> set up = insert s (set (e_up e)) \<and> queue_wf (e\<lparr>e_up := up\<rparr>)"
  using assms(1,2) gt.fs_insert_set [of "e_up e" s] gt.fs_insert_sorted [of "e_up e" s]
  unfolding q_push_up_eq [OF assms]
  by (intro exI [of _ "snd (fs_insert (>) s (e_up e))"]) (auto simp: queue_wf_def)

lemma push_down_spec:
  assumes "queue_wf e" and "s \<notin> set (e_up e)" and "isStoppable e s"
  shows "\<exists>down. q_push_down s e = Inr (e\<lparr>e_down := down\<rparr>) \<and> set down = insert s (set (e_down e))
     \<and> queue_wf (e\<lparr>e_down := down\<rparr>)"
  using assms(1,2) gt.fs_insert_set [of "e_down e" s] gt.fs_insert_sorted [of "e_down e" s]
  unfolding q_push_down_eq [OF assms]
  by (intro exI [of _ "snd (fs_insert (>) s (e_down e))"]) (auto simp: queue_wf_def)

lemma pop_spec:
  assumes "queue_wf e"
  shows "case q_pop e of
      (None, e') \<Rightarrow> e' = e \<and> q_empty e
    | (Some x, e') \<Rightarrow> queue_wf e' \<and>
        (if e_down e \<noteq> [] then x \<in> set (e_down e) \<and> (\<forall>y\<in>set (e_down e). x \<le> y)
              \<and> set (e_down e') = set (e_down e) - {x} \<and> e_up e' = e_up e
         else x \<in> set (e_up e) \<and> (\<forall>y\<in>set (e_up e). x \<le> y)
              \<and> set (e_up e') = set (e_up e) - {x} \<and> e_down e' = e_down e)"
  using assms pop_last_set [of "e_up e"] pop_last_set [of "e_down e"] last_least [of "e_up e"] last_least [of "e_down e"]
  by (auto simp: q_pop_def fs_pop_last_eq q_empty_def queue_wf_def)

text \<open>
  C6. The scheduling queue holds a set of services to stop and a disjoint set of services to start.
  Queueing a service that can make the step and is not queued the other way succeeds and adds
  exactly this service, erasing always succeeds and removes it from both sets, and \<open>pop\<close> takes
  a service to stop while there is one, and otherwise one to start; among these the one with the smallest address.
\<close>

theorem scheduling_queue_sets:
  assumes "queue_wf e"
  shows "(isStartable e s \<and> s \<notin> set (e_down e) \<longrightarrow>
      (\<exists>up. q_push_up s e = Inr (e\<lparr>e_up := up\<rparr>) \<and> set up = insert s (set (e_up e)) \<and> queue_wf (e\<lparr>e_up := up\<rparr>)))
    \<and> (isStoppable e s \<and> s \<notin> set (e_up e) \<longrightarrow>
      (\<exists>down. q_push_down s e = Inr (e\<lparr>e_down := down\<rparr>) \<and> set down = insert s (set (e_down e))
         \<and> queue_wf (e\<lparr>e_down := down\<rparr>)))
    \<and> (\<exists>e'. q_erase s e = Inr e' \<and> queue_wf e' \<and> set (e_up e') = set (e_up e) - {s}
         \<and> set (e_down e') = set (e_down e) - {s})
    \<and> (case q_pop e of
        (None, e') \<Rightarrow> e' = e \<and> q_empty e
      | (Some x, e') \<Rightarrow> queue_wf e' \<and>
          (if e_down e \<noteq> [] then x \<in> set (e_down e) \<and> (\<forall>y\<in>set (e_down e). x \<le> y)
                \<and> set (e_down e') = set (e_down e) - {x} \<and> e_up e' = e_up e
           else x \<in> set (e_up e) \<and> (\<forall>y\<in>set (e_up e). x \<le> y)
                \<and> set (e_up e') = set (e_up e) - {x} \<and> e_down e' = e_down e))"
proof (intro conjI)
  have q: "sorted_wrt (>) (e_up e)" "sorted_wrt (>) (e_down e)" "set (e_up e) \<inter> set (e_down e) = {}"
    using assms by (simp_all add: queue_wf_def)
  show "\<exists>e'. q_erase s e = Inr e' \<and> queue_wf e' \<and> set (e_up e') = set (e_up e) - {s}
      \<and> set (e_down e') = set (e_down e) - {s}"
    unfolding q_erase_eq [OF assms] using q gt.fs_erase_set gt.fs_erase_sorted by (auto simp: queue_wf_def)
qed (use push_up_spec [OF assms] push_down_spec [OF assms] pop_spec [OF assms] in blast)+

text \<open>Service 1 runs without users and is queued for its stop, the stopped service 2 is startable.\<close>

definition ex_queue :: engine where
  "ex_queue = ex_engine (\<lambda>s. if s = 2 then stopped else running) (\<lambda>s. 1) (\<lambda>c. init_cluster False) [1] []"

theorem scheduling_queue_sets_witness:
  "(\<exists>up. q_push_up 2 ex_queue = Inr (ex_queue\<lparr>e_up := up\<rparr>) \<and> set up = {2} \<and> queue_wf (ex_queue\<lparr>e_up := up\<rparr>))
    \<and> fst (q_pop ex_queue) = Some 1"
proof -
  have "queue_wf ex_queue" by (simp add: queue_wf_def ex_queue_def)
  note * = scheduling_queue_sets [OF this, of 2]
  have "isStartable ex_queue 2" "2 \<notin> set (e_down ex_queue)" "e_up ex_queue = []" "e_down ex_queue = [1]"
    by (simp_all add: ex_queue_def isStartable_def init_cluster_def)
  with * show ?thesis by (auto simp: q_empty_def split: prod.splits option.splits)
qed

end
