(* ===== verification/Start_Requests.thy ===== *)
theory Start_Requests
  imports Lifecycle_Frame External_Edges Scheduling_Queue
begin

text \<open>
  What a start request does to the system: the traversal of \<open>on_service_start_request\<close>
  is an instance of the marking traversals of \<open>Graph_DFS\<close>, so it ends, never meets
  a cycle and marks a set of clusters that is closed under dependencies, except for
  dependencies that are running and stay so.
\<close>

section \<open>Well-formed engines\<close>

text \<open>Members share their cluster object with their head, and different heads have different objects.\<close>

definition wf_clusters :: "'a store_scheme \<Rightarrow> bool" where
  "wf_clusters st \<longleftrightarrow> (\<forall>x<nsvc st. s_cluster (svc st x) \<noteq> None)
     \<and> (\<forall>x<nsvc st. \<forall>y<nsvc st.
          is_in_same_cluster st x y \<longleftrightarrow> get_cluster_head_of st x = get_cluster_head_of st y)"

definition wf_engine :: "'a store_scheme \<Rightarrow> bool" where
  "wf_engine st \<longleftrightarrow> wf_graph st \<and> all_attached st \<and> wf_clusters st"

lemma wf_engineD:
  assumes "wf_engine st"
  shows "wf_graph st" "all_attached st" "wf_tree st" "wf_heads st" "wf_usages st"
    "x < nsvc st \<Longrightarrow> s_cluster (svc st x) \<noteq> None"
    "x < nsvc st \<Longrightarrow> y < nsvc st \<Longrightarrow>
       is_in_same_cluster st x y \<longleftrightarrow> get_cluster_head_of st x = get_cluster_head_of st y"
  using assms by (auto simp: wf_engine_def wf_clusters_def wf_graph_def wf_heads_def)

definition heads :: "'a store_scheme \<Rightarrow> sid set" where
  "heads st = {x. x < nsvc st \<and> is_cluster_head st x}"

lemma head_in_heads: "wf_heads st \<Longrightarrow> x < nsvc st \<Longrightarrow> get_cluster_head_of st x \<in> heads st"
  using get_cluster_head_of_head [of st x] by (auto simp: heads_def)

lemma clus_heads:
  assumes "wf_engine st" and "x \<in> heads st" and "y \<in> heads st"
  shows "clus st x = clus st y \<longleftrightarrow> x = y"
proof -
  have x: "x < nsvc st" "get_cluster_head_of st x = x" and y: "y < nsvc st" "get_cluster_head_of st y = y"
    using assms(2,3) by (auto simp: heads_def head_of_head)
  then have "is_in_same_cluster st x y \<longleftrightarrow> x = y" using wf_engineD(7) [OF assms(1)] by metis
  moreover have "clus st x = clus st y \<longleftrightarrow> is_in_same_cluster st x y"
    using wf_engineD(6) [OF assms(1) x(1)] wf_engineD(6) [OF assms(1) y(1)]
    by (auto simp: clus_def is_in_same_cluster_def split: option.splits)
  ultimately show ?thesis by blast
qed

lemma core_links: "core e' = core e \<Longrightarrow> links e' = links e"
proof -
  assume "core e' = core e"
  then have *: "(svc e' s)\<lparr>s_inner := 0\<rparr> = (svc e s)\<lparr>s_inner := 0\<rparr>" for s by (simp add: core_def fun_eq_iff)
  have "(svc e' s)\<lparr>s_inner := 0, s_phase := stopped, s_uses := 0\<rparr>
      = (svc e s)\<lparr>s_inner := 0, s_phase := stopped, s_uses := 0\<rparr>" for s
    using * [of s] by simp
  with \<open>core e' = core e\<close> show ?thesis by (simp add: core_def links_def tree_def isConnected_def isWeak_def)
qed

lemma wf_engine_links:
  assumes "links st' = links st" and "wf_engine st"
    and "\<And>p c. c \<in> set (p_children (prt st p)) \<Longrightarrow> isInitializedUnsafe st' c"
  shows "wf_engine st'"
proof -
  have "wf_graph st'" by (rule links_wf_graph [OF assms(1) wf_engineD(1) [OF assms(2)] assms(3)])
  with assms(2) show ?thesis
    unfolding wf_engine_def wf_clusters_def is_in_same_cluster_def links_cong [OF assms(1)] by blast
qed

lemma wf_engine_core:
  assumes "core e' = core e" and "wf_engine e"
  shows "wf_engine e'"
proof (rule wf_engine_links [OF core_links [OF assms(1)] assms(2)])
  fix p c assume "c \<in> set (p_children (prt e p))"
  then have "isInitializedUnsafe e c" using wf_graphD(4) [OF wf_engineD(1) [OF assms(2)]] by blast
  then show "isInitializedUnsafe e' c" by (simp add: isInitializedUnsafe_def coreD(1) [OF assms(1)])
qed

section \<open>The start traversal\<close>

definition same_but_start :: "engine \<Rightarrow> engine \<Rightarrow> bool" where
  "same_but_start e0 e \<longleftrightarrow> core e = core e0
     \<and> (\<forall>c. (clu e c)\<lparr>c_marked_start := True\<rparr> = (clu e0 c)\<lparr>c_marked_start := True\<rparr>)"

definition start_inv :: "engine \<Rightarrow> engine \<Rightarrow> bool" where
  "start_inv e0 e \<longleftrightarrow> wf_engine e0 \<and> same_but_start e0 e"

text \<open>The clusters a cluster depends on.\<close>

definition requires :: "'a store_scheme \<Rightarrow> sid \<Rightarrow> sid set" where
  "requires st h = {x \<in> heads st. \<exists>s<nsvc st. get_cluster_head_of st s = h
     \<and> x \<in> cluster_source st ` set (parent_edge st s @ import_edges st s)}"

text \<open>A cluster that runs and is not marked for stop does not have to be started.\<close>

definition needs_start :: "'a store_scheme \<Rightarrow> sid \<Rightarrow> bool" where
  "needs_start st h \<longleftrightarrow> \<not> (isRunning st h \<and> \<not> is_cluster_marked_for_stop st h)"

definition start_marked :: "engine \<Rightarrow> engine \<Rightarrow> sid \<Rightarrow> bool" where
  "start_marked e0 e x \<longleftrightarrow> x \<in> heads e0 \<and> is_cluster_marked_for_start e x"

lemma q_push_up_only: "q_push_up s e = Inr e' \<Longrightarrow> \<exists>up. e' = e\<lparr>e_up := up\<rparr>"
  by (auto simp: q_push_up_def Let_def split: prod.splits)

lemma insert_startable_only: "insert_into_queue_if_startable h e = Inr e' \<Longrightarrow> \<exists>up. e' = e\<lparr>e_up := up\<rparr>"
proof -
  assume a: "insert_into_queue_if_startable h e = Inr e'"
  have "\<exists>up. x' = x\<lparr>e_up := up\<rparr>"
    if "fold_res (\<lambda>m. only_if (\<lambda>e. isStartable e m) (q_push_up m)) ms x = Inr x'" for ms x x'
    using that
  proof (induction ms arbitrary: x)
    case Nil
    then show ?case by (intro exI [of _ "e_up x"]) simp
  next
    case (Cons m ms)
    then obtain y where y: "only_if (\<lambda>e. isStartable e m) (q_push_up m) x = Inr y"
      "fold_res (\<lambda>m. only_if (\<lambda>e. isStartable e m) (q_push_up m)) ms y = Inr x'" by auto
    from y(1) have "\<exists>up. y = x\<lparr>e_up := up\<rparr>"
      by (auto simp: only_if_def dest: q_push_up_only split: if_splits intro: exI [of _ "e_up x"])
    with Cons.IH [OF y(2)] show ?case by auto
  qed
  with a show ?thesis
    by (auto simp: insert_into_queue_if_startable_def only_if_def each_def split: if_splits intro: exI [of _ "e_up e"])
qed

lemma same_but_startD:
  assumes "same_but_start e0 e"
  shows "links e = links e0" "phase_of e s = phase_of e0 s"
    "is_cluster_marked_for_stop e s = is_cluster_marked_for_stop e0 s" "clus e s = clus e0 s"
proof -
  from assms have c: "core e = core e0" by (simp add: same_but_start_def)
  show l: "links e = links e0" by (rule core_links [OF c])
  show "phase_of e s = phase_of e0 s" by (rule coreD(1) [OF c])
  show cl: "clus e s = clus e0 s" by (simp add: clus_def linksD(3) [OF l])
  have "(clu e (clus e0 s))\<lparr>c_marked_start := True\<rparr> = (clu e0 (clus e0 s))\<lparr>c_marked_start := True\<rparr>"
    using assms by (simp add: same_but_start_def)
  then have "c_marked_stop (clu e (clus e0 s)) = c_marked_stop (clu e0 (clus e0 s))"
    by (cases "clu e (clus e0 s)"; cases "clu e0 (clus e0 s)") simp
  then show "is_cluster_marked_for_stop e s = is_cluster_marked_for_stop e0 s"
    by (simp add: is_cluster_marked_for_stop_def cl)
qed

lemma same_but_start_up: "same_but_start e0 (e\<lparr>e_up := up\<rparr>) = same_but_start e0 e"
  by (simp add: same_but_start_def)

lemma start_visit_marks:
  assumes "start_inv e0 e" and "v \<in> heads e0" and "start_visit v e = Inr (b, e')"
  shows "b \<and> start_inv e0 e' \<and> (\<forall>x. start_marked e0 e' x \<longleftrightarrow> x = v \<or> start_marked e0 e x)"
proof -
  have wf: "wf_engine e0" and sb: "same_but_start e0 e" using assms(1) by (simp_all add: start_inv_def)
  let ?e = "upd_clu v (\<lambda>c. c\<lparr>c_marked_start := True\<rparr>) e"
  from assms(3) obtain up where e': "e' = ?e\<lparr>e_up := up\<rparr>" and b
    by (auto simp: start_visit_def do_mark_cluster_for_start_def dest!: insert_startable_only split: if_splits)
  have s1: "same_but_start e0 ?e" using sb by (auto simp: same_but_start_def upd_clu_def)
  have "start_marked e0 e' x \<longleftrightarrow> x = v \<or> start_marked e0 e x" for x
  proof (cases "x \<in> heads e0")
    case True
    then have "clus e x = clus e v \<longleftrightarrow> x = v"
      using clus_heads [OF wf _ assms(2)] same_but_startD(4) [OF sb] by simp
    with True show ?thesis
      by (auto simp: start_marked_def is_cluster_marked_for_start_def e' upd_clu_def clus_def)
  qed (use assms(2) in \<open>auto simp: start_marked_def\<close>)
  with \<open>b\<close> s1 wf show ?thesis by (simp add: e' start_inv_def same_but_start_up)
qed

lemma start_filter_marks:
  assumes "start_inv e0 e" and "cluster_source e ed \<in> heads e0" and "start_filter ed e = Inr (b, e')"
  shows "start_inv e0 e' \<and> (\<forall>x. start_marked e0 e' x \<longleftrightarrow> start_marked e0 e x)
    \<and> (b \<longleftrightarrow> \<not> start_marked e0 e (cluster_source e ed) \<and> needs_start e0 (cluster_source e ed))"
proof -
  have sb: "same_but_start e0 e" using assms(1) by (simp add: start_inv_def)
  let ?t = "cluster_source e ed"
  from assms(3) obtain up where e': "e' = e\<lparr>e_up := up\<rparr>"
    and b: "b \<longleftrightarrow> start_traversal_progresses_further e ?t"
    by (auto simp: start_filter_def Let_def dest!: insert_startable_only split: if_splits intro: that [of "e_up e"])
  have "b \<longleftrightarrow> \<not> start_marked e0 e ?t \<and> needs_start e0 ?t"
    using assms(2) same_but_startD [OF sb]
    by (auto simp: b start_traversal_progresses_further_def needs_start_def start_marked_def isRunning_def)
  moreover have "start_marked e0 e' x \<longleftrightarrow> start_marked e0 e x" for x
    by (simp add: e' start_marked_def is_cluster_marked_for_start_def clus_def)
  ultimately show ?thesis using assms(1) by (simp add: e' start_inv_def same_but_start_up)
qed

lemma start_out:
  assumes "start_inv e0 e" and "v \<in> heads e0" and "lift_opt (cluster_in_edges e v 0) = Inr es"
  shows "cluster_source e ` set es = requires e0 v"
proof -
  have wf: "wf_engine e0" and sb: "same_but_start e0 e" using assms(1) by (simp_all add: start_inv_def)
  have l: "links e = links e0" by (rule same_but_startD(1) [OF sb])
  have wfe: "wf_engine e" using wf_engine_core wf sb by (auto simp: same_but_start_def)
  have v: "v < nsvc e" "is_cluster_head e v" using assms(2) by (auto simp: heads_def links_cong [OF l])
  note wg = wf_engineD(1) [OF wfe] and wa = wf_engineD(2) [OF wfe] and wh = wf_engineD(4) [OF wfe]
  have es: "es = concat (map (\<lambda>s. parent_edge e s @ import_edges e s) (cluster_members e v))"
    using assms(3) cluster_range_eq(1) [OF wg wa v] by simp
  have "cluster_source e ` set es = {x. \<exists>s<nsvc e. get_cluster_head_of e s = v
     \<and> x \<in> cluster_source e ` set (parent_edge e s @ import_edges e s)}"
    unfolding es set_concat set_map members_of [OF wh wa v] by blast
  also have "\<dots> = requires e v"
    using in_edge_source(1) [OF wg] head_in_heads [OF wh] by (auto simp: requires_def cluster_source_def)
  also have "\<dots> = requires e0 v"
    by (simp add: requires_def heads_def parent_edge_def import_edges_def links_cong [OF l])
  finally show ?thesis .
qed

interpretation start: marking_dfs "reverse_graph start_visit start_filter False" "start_marked e0"
  "needs_start e0" "requires e0" "start_inv e0" "heads e0" for e0
proof
  show "finite (heads e0)" by (simp add: heads_def)
  show "requires e0 v \<subseteq> heads e0" for v by (auto simp: requires_def)
next
  fix s v es assume "start_inv e0 s" "v \<in> heads e0" "t_out (reverse_graph start_visit start_filter False) s v = Inr es"
  then show "t_target (reverse_graph start_visit start_filter False) s ` set es = requires e0 v"
    using start_out by (simp add: reverse_graph_def)
next
  fix s s' assume "start_inv e0 s" "start_inv e0 s'"
  then have "links s = links s'" by (simp add: start_inv_def same_but_startD(1))
  then show "t_target (reverse_graph start_visit start_filter False) s = t_target (reverse_graph start_visit start_filter False) s'"
    by (simp add: reverse_graph_def links_cong [OF \<open>links s = links s'\<close>])
next
  fix s v b s' assume "start_inv e0 s" "v \<in> heads e0"
    "t_visit (reverse_graph start_visit start_filter False) v s = Inr (b, s')"
  then show "b \<and> start_inv e0 s' \<and> (\<forall>x. start_marked e0 s' x \<longleftrightarrow> x = v \<or> start_marked e0 s x)"
    using start_visit_marks [of e0 s v b s'] by (simp add: reverse_graph_def)
next
  fix s ed b s' assume "start_inv e0 s" "t_target (reverse_graph start_visit start_filter False) s ed \<in> heads e0"
    "t_filter (reverse_graph start_visit start_filter False) ed s = Inr (b, s')"
  then show "start_inv e0 s' \<and> (\<forall>x. start_marked e0 s' x \<longleftrightarrow> start_marked e0 s x)
      \<and> (b \<longleftrightarrow> \<not> start_marked e0 s (t_target (reverse_graph start_visit start_filter False) s ed)
           \<and> needs_start e0 (t_target (reverse_graph start_visit start_filter False) s ed))"
    using start_filter_marks [of e0 s ed b s'] by (simp add: reverse_graph_def)
qed

section \<open>The traversal succeeds\<close>

text \<open>No service that is queued for its stop could be started.\<close>

definition queue_ready :: "engine \<Rightarrow> bool" where
  "queue_ready e \<longleftrightarrow> queue_wf e \<and> (\<forall>s\<in>set (e_down e). \<not> isStartable e s)"

definition ready_inv :: "engine \<Rightarrow> engine \<Rightarrow> bool" where
  "ready_inv e0 e \<longleftrightarrow> start_inv e0 e \<and> queue_ready e"

lemma isStartable_up [simp]: "isStartable (e\<lparr>e_up := up\<rparr>) s = isStartable e s"
  by (simp add: isStartable_def clus_def)

lemma isStartable_mark [simp]: "isStartable (upd_clu v (\<lambda>c. c\<lparr>c_marked_start := b\<rparr>) e) s = isStartable e s"
  by (simp add: isStartable_def upd_clu_def clus_def)

lemma queue_ready_mark: "queue_ready (upd_clu v (\<lambda>c. c\<lparr>c_marked_start := b\<rparr>) e) \<longleftrightarrow> queue_ready e"
  by (simp add: queue_ready_def queue_wf_def) (simp add: upd_clu_def)

lemma insert_startable_ok:
  assumes "queue_ready e"
  shows "\<exists>up. insert_into_queue_if_startable h e = Inr (e\<lparr>e_up := up\<rparr>) \<and> queue_ready (e\<lparr>e_up := up\<rparr>)"
proof -
  have "\<exists>up. fold_res (\<lambda>m. only_if (\<lambda>e. isStartable e m) (q_push_up m)) ms x = Inr (x\<lparr>e_up := up\<rparr>)
      \<and> queue_ready (x\<lparr>e_up := up\<rparr>)" if "queue_ready x" for ms x
    using that
  proof (induction ms arbitrary: x)
    case Nil
    then show ?case by (intro exI [of _ "e_up x"]) simp
  next
    case (Cons m ms)
    have "\<exists>up. only_if (\<lambda>e. isStartable e m) (q_push_up m) x = Inr (x\<lparr>e_up := up\<rparr>) \<and> queue_ready (x\<lparr>e_up := up\<rparr>)"
    proof (cases "isStartable x m")
      case True
      then have "m \<notin> set (e_down x)" "queue_wf x" using Cons.prems by (auto simp: queue_ready_def)
      from push_up_spec [OF this(2,1) True] Cons.prems True show ?thesis
        by (auto simp: only_if_def queue_ready_def)
    next
      case False
      then show ?thesis using Cons.prems by (intro exI [of _ "e_up x"]) (simp add: only_if_def)
    qed
    then obtain up where up: "only_if (\<lambda>e. isStartable e m) (q_push_up m) x = Inr (x\<lparr>e_up := up\<rparr>)"
      "queue_ready (x\<lparr>e_up := up\<rparr>)" by blast
    from Cons.IH [OF up(2)] up(1) show ?case by auto
  qed
  from this [OF assms] assms show ?thesis
    by (auto simp: insert_into_queue_if_startable_def only_if_def each_def intro: exI [of _ "e_up e"])
qed

lemma start_visit_ok:
  assumes "ready_inv e0 e" and "v \<in> heads e0"
  shows "\<exists>e'. start_visit v e = Inr (True, e') \<and> ready_inv e0 e'"
proof -
  let ?e = "upd_clu v (\<lambda>c. c\<lparr>c_marked_start := True\<rparr>) e"
  have si: "start_inv e0 e" and q: "queue_ready ?e" using assms(1) by (simp_all add: ready_inv_def queue_ready_mark)
  obtain up where up: "insert_into_queue_if_startable v ?e = Inr (?e\<lparr>e_up := up\<rparr>)" "queue_ready (?e\<lparr>e_up := up\<rparr>)"
    using insert_startable_ok [OF q] by blast
  have "links e = links e0" using si by (simp add: start_inv_def same_but_startD(1))
  then have "is_cluster_head e v" using assms(2) links_parts(8) [of e e0] by (simp add: heads_def)
  then have "start_visit v e = Inr (True, ?e\<lparr>e_up := up\<rparr>)"
    using up(1) by (simp add: start_visit_def do_mark_cluster_for_start_def)
  with up(2) start_visit_marks [OF si assms(2)] show ?thesis by (simp add: ready_inv_def)
qed

lemma start_filter_ok:
  assumes "ready_inv e0 e" and "cluster_source e ed \<in> heads e0"
  shows "\<exists>b e'. start_filter ed e = Inr (b, e') \<and> ready_inv e0 e'"
proof -
  have si: "start_inv e0 e" and q: "queue_ready e" using assms(1) by (simp_all add: ready_inv_def)
  obtain up where up: "insert_into_queue_if_startable (cluster_source e ed) e = Inr (e\<lparr>e_up := up\<rparr>)"
    "queue_ready (e\<lparr>e_up := up\<rparr>)" using insert_startable_ok [OF q] by blast
  show ?thesis
  proof (cases "start_traversal_progresses_further e (cluster_source e ed)")
    case True
    then have "start_filter ed e = Inr (True, e)" by (simp add: start_filter_def)
    then show ?thesis using assms(1) by blast
  next
    case False
    then have "start_filter ed e = Inr (False, e\<lparr>e_up := up\<rparr>)" using up(1) by (simp add: start_filter_def)
    with up(2) start_filter_marks [OF si assms(2)] show ?thesis by (auto simp: ready_inv_def)
  qed
qed

interpretation ready: total_marking_dfs "reverse_graph start_visit start_filter False" "start_marked e0"
  "needs_start e0" "requires e0" "ready_inv e0" "heads e0" for e0
proof
  show "finite (heads e0)" by (rule start.finite_V)
  show "v \<in> heads e0 \<Longrightarrow> requires e0 v \<subseteq> heads e0" for v by (rule start.succ_V)
next
  fix s v es assume "ready_inv e0 s" "v \<in> heads e0" "t_out (reverse_graph start_visit start_filter False) s v = Inr es"
  then show "t_target (reverse_graph start_visit start_filter False) s ` set es = requires e0 v"
    by (intro start.out_succ) (simp_all add: ready_inv_def)
next
  fix s s' assume "ready_inv e0 s" "ready_inv e0 s'"
  then show "t_target (reverse_graph start_visit start_filter False) s = t_target (reverse_graph start_visit start_filter False) s'"
    by (intro start.target_const [of e0]) (simp_all add: ready_inv_def)
next
  fix s v assume a: "ready_inv e0 s" "v \<in> heads e0"
  note ok = start_visit_ok [OF a]
  show "\<exists>r. t_visit (reverse_graph start_visit start_filter False) v s = Inr r"
    using ok by (auto simp: reverse_graph_def)
  show "b \<and> ready_inv e0 s' \<and> (\<forall>x. start_marked e0 s' x \<longleftrightarrow> x = v \<or> start_marked e0 s x)"
    if "t_visit (reverse_graph start_visit start_filter False) v s = Inr (b, s')" for b s'
    using that ok start_visit_marks [of e0 s v b s'] a by (auto simp: reverse_graph_def ready_inv_def)
  have i: "start_inv e0 s" using a by (simp add: ready_inv_def)
  then have wf: "wf_engine s" using wf_engine_core by (auto simp: start_inv_def same_but_start_def)
  have l: "links s = links e0" using i by (simp add: start_inv_def same_but_startD(1))
  have "v < nsvc s" "is_cluster_head s v" using a(2) by (simp_all add: heads_def links_cong [OF l])
  then show "\<exists>es. t_out (reverse_graph start_visit start_filter False) s v = Inr es"
    using cluster_range_eq(1) [OF wf_engineD(1,2) [OF wf]] by (simp add: reverse_graph_def)
next
  fix s ed assume a: "ready_inv e0 s" "t_target (reverse_graph start_visit start_filter False) s ed \<in> heads e0"
  then have t: "cluster_source s ed \<in> heads e0" by (simp add: reverse_graph_def)
  note ok = start_filter_ok [OF a(1) t]
  show "\<exists>r. t_filter (reverse_graph start_visit start_filter False) ed s = Inr r"
    using ok by (auto simp: reverse_graph_def)
  show "ready_inv e0 s' \<and> (\<forall>x. start_marked e0 s' x \<longleftrightarrow> start_marked e0 s x)
      \<and> (b \<longleftrightarrow> \<not> start_marked e0 s (t_target (reverse_graph start_visit start_filter False) s ed)
           \<and> needs_start e0 (t_target (reverse_graph start_visit start_filter False) s ed))"
    if "t_filter (reverse_graph start_visit start_filter False) ed s = Inr (b, s')" for b s'
    using that ok start_filter_marks [OF _ t, of b s'] a by (auto simp: reverse_graph_def ready_inv_def)
qed

text \<open>
  C5. A start request always succeeds on a well-formed system in which no service that waits for its
  stop is startable: its traversal ends although the dependency graph may have
  cycles, and none of its assertions fails, the one about cycles included. Afterwards the requested cluster is marked for start, no mark is
  lost, and the marks are closed under dependencies: what a newly marked cluster depends on is marked
  as well, unless it runs and is not about to stop. Phases, use counts and links are as before.
\<close>

theorem start_request_marks_dependencies:
  assumes "wf_engine e" and "queue_ready e" and "h < nsvc e" and "is_cluster_head e h" and "isInitializedUnsafe e h"
  shows "\<exists>e'. on_service_start_request h e = Inr e' \<and> core e' = core e \<and> queue_ready e'
    \<and> is_cluster_marked_for_start e' h
    \<and> (\<forall>x\<in>heads e. is_cluster_marked_for_start e x \<longrightarrow> is_cluster_marked_for_start e' x)
    \<and> (\<forall>v\<in>heads e. is_cluster_marked_for_start e' v \<and> (v = h \<or> \<not> is_cluster_marked_for_start e v) \<longrightarrow>
         (\<forall>t\<in>requires e v. is_cluster_marked_for_start e' t \<or> isRunning e t \<and> \<not> is_cluster_marked_for_stop e t))"
proof -
  have inv: "ready_inv e e" using assms(1,2) by (simp add: ready_inv_def start_inv_def same_but_start_def)
  have h: "h \<in> heads e" using assms(3,4) by (simp add: heads_def)
  from ready.marking_dfs_succeeds [OF inv h] obtain d' e1 where
    d: "dfs (reverse_graph start_visit start_filter False) h empty_dfs e = Some (Inr (d', e1))" "d_acyclic d'"
    and e1: "ready_inv e e1" "start_marked e e1 h" "\<forall>x. start_marked e e x \<longrightarrow> start_marked e e1 x"
    "\<forall>v. start_marked e e1 v \<longrightarrow> start_marked e e v \<and> v \<noteq> h
       \<or> v \<in> heads e \<and> (\<forall>t\<in>requires e v. start_marked e e1 t \<or> \<not> needs_start e t)"
    by blast
  define e2 where "e2 = (if \<not> e_processing e1 \<and> \<not> e_dispatched e1
    then e1\<lparr>e_dispatched := True, e_posted := e_posted e1 @ [EvProcess]\<rparr> else e1)"
  have it: "iterate e1 = Inr e2" by (simp add: iterate_def only_if_def post_def e2_def)
  have mk: "is_cluster_marked_for_start e2 x = is_cluster_marked_for_start e1 x" for x
    by (simp add: e2_def is_cluster_marked_for_start_def clus_def)
  have "queue_ready e2 = queue_ready e1"
    by (simp add: e2_def queue_ready_def queue_wf_def isStartable_def clus_def)
  then have q: "queue_ready e2" using e1(1) by (simp add: ready_inv_def)
  have c: "core e2 = core e" using e1(1) by (simp add: e2_def ready_inv_def start_inv_def same_but_start_def)
  have run: "on_service_start_request h e = Inr e2"
    using d it wf_engineD(6) [OF assms(1,3)] assms(4,5)
    by (simp add: on_service_start_request_def require_def run_dfs_def)
  have cl: "is_cluster_marked_for_start e2 t \<or> isRunning e t \<and> \<not> is_cluster_marked_for_stop e t"
    if "v \<in> heads e" "is_cluster_marked_for_start e2 v" "v = h \<or> \<not> is_cluster_marked_for_start e v" "t \<in> requires e v" for v t
    using that e1(4) by (auto simp: mk start_marked_def needs_start_def)
  show ?thesis
    by (intro exI [of _ e2] conjI run c q) (use e1(2,3) cl in \<open>auto simp: mk start_marked_def\<close>)
qed

lemma ex_engine_wf:
  assumes "\<And>s. s \<le> 2 \<Longrightarrow> ph s \<in> {stopped, locked, starting, running, stopping, pending}"
  shows "wf_engine (ex_engine ph us cl dn up)"
proof -
  let ?e = "ex_engine ph us cl dn up"
  have h: "wf_heads ?e" by (auto simp: wf_heads_def wf_tree_def)
  moreover have "wf_usages ?e" unfolding wf_usages_def by auto
  moreover have "isInitializedUnsafe ?e c" if "c \<le> 2" for c
    using assms [OF that] by (auto simp: isInitializedUnsafe_def)
  ultimately have "wf_graph ?e" by (auto simp: wf_graph_def)
  moreover have "all_attached ?e" by (auto simp: all_attached_def)
  moreover have "wf_clusters ?e" by (auto simp: wf_clusters_def is_in_same_cluster_def head_of_head)
  ultimately show ?thesis by (simp add: wf_engine_def)
qed

text \<open>Everything is stopped and a start of service 2 is requested: service 1 and the root are marked as well.\<close>

definition ex_stopped :: engine where
  "ex_stopped = ex_engine (\<lambda>s. stopped) (\<lambda>s. 0) (\<lambda>c. init_cluster False) [] []"

theorem start_request_marks_dependencies_witness:
  "\<exists>e'. on_service_start_request 2 ex_stopped = Inr e' \<and> is_cluster_marked_for_start e' 2
     \<and> is_cluster_marked_for_start e' 1 \<and> is_cluster_marked_for_start e' 0"
proof -
  have "wf_engine ex_stopped" unfolding ex_stopped_def by (rule ex_engine_wf) simp
  moreover have "queue_ready ex_stopped" "2 < nsvc ex_stopped" "is_cluster_head ex_stopped 2" "isInitializedUnsafe ex_stopped 2"
    by (simp_all add: ex_stopped_def queue_ready_def queue_wf_def isInitializedUnsafe_def)
  ultimately obtain e' where e': "on_service_start_request 2 ex_stopped = Inr e'" "is_cluster_marked_for_start e' 2"
    and cl: "\<forall>v\<in>heads ex_stopped. is_cluster_marked_for_start e' v \<and> (v = 2 \<or> \<not> is_cluster_marked_for_start ex_stopped v) \<longrightarrow>
      (\<forall>t\<in>requires ex_stopped v. is_cluster_marked_for_start e' t \<or> isRunning ex_stopped t \<and> \<not> is_cluster_marked_for_stop ex_stopped t)"
    using start_request_marks_dependencies by blast
  have hd: "heads ex_stopped = {0, 1, 2}" by (auto simp: heads_def ex_stopped_def)
  have edges: "parent_edge ex_stopped 2 @ import_edges ex_stopped 2 = [(NExport 0, NService 2), (NUsage 0, NImport 2)]"
    by (simp add: parent_edge_def import_edges_def imports_of_def ex_stopped_def)
  have "cluster_source ex_stopped (NUsage 0, NImport 2) = 1" "cluster_source ex_stopped (NExport 0, NService 2) = 0"
    by (simp_all add: cluster_source_def ex_stopped_def head_of_head)
  then have img: "cluster_source ex_stopped ` set (parent_edge ex_stopped 2 @ import_edges ex_stopped 2) = {0, 1}"
    unfolding edges by simp
  have "2 < nsvc ex_stopped" "get_cluster_head_of ex_stopped 2 = 2" by (simp_all add: ex_stopped_def head_of_head)
  then have "{0, 1} \<subseteq> requires ex_stopped 2" unfolding requires_def hd using img by blast
  moreover have "\<not> isRunning ex_stopped t" for t by (simp add: ex_stopped_def isRunning_def)
  ultimately have "is_cluster_marked_for_start e' 1 \<and> is_cluster_marked_for_start e' 0"
    using e'(2) cl [unfolded hd] by blast
  with e' show ?thesis by blast
qed

end
