(* ===== verification/Use_Counts.thy ===== *)
theory Use_Counts
  imports Start_Requests
begin

text \<open>
  What the use counter of a service counts. The counter of a running service is one for the service itself,
  one for every external edge to a locked service, one while the importing service it belongs
  to is up, for the root one for every locked service that uses the root implicitly, and one for
  every handle a client holds. The handles are a ghost \<open>h\<close>, since the code keeps no record of them.
\<close>

section \<open>Dependents\<close>

definition parent_dep :: "'a store_scheme \<Rightarrow> sid \<Rightarrow> sid \<Rightarrow> bool" where
  "parent_dep st x m \<longleftrightarrow> m < nsvc st \<and> m \<noteq> root st \<and> isa_export st (parent st m) \<and> owner st (parent st m) = x"

definition usage_dep :: "'a store_scheme \<Rightarrow> sid \<Rightarrow> sid \<Rightarrow> uid \<Rightarrow> bool" where
  "usage_dep st x m u \<longleftrightarrow> isConnected st u \<and> used_service st u = x \<and> user_service st u = m"

text \<open>The number of external edges from \<open>x\<close> to \<open>m\<close>.\<close>

definition dep :: "'a store_scheme \<Rightarrow> sid \<Rightarrow> sid \<Rightarrow> nat" where
  "dep st x m = (if parent_dep st x m then 1 else 0) + card {u. usage_dep st x m u}"

definition locked_out :: "'a store_scheme \<Rightarrow> sid \<Rightarrow> nat" where
  "locked_out st x = card {m. parent_dep st x m \<and> isLocked st m}
     + card {u. usage_dep st x (user_service st u) u \<and> isLocked st (user_service st u)}"

definition up_phase :: "phase \<Rightarrow> bool" where
  "up_phase p \<longleftrightarrow> p = starting \<or> p = running \<or> p = stopping"

definition inner_use :: "'a store_scheme \<Rightarrow> sid \<Rightarrow> nat" where
  "inner_use st x = (if isa_import st (parent st x) \<and> up_phase (phase_of st (owner st (parent st x))) then 1 else 0)"

definition root_use :: "'a store_scheme \<Rightarrow> sid \<Rightarrow> nat" where
  "root_use st x = (if x = root st then card {m. m < nsvc st \<and> has_implicit_root_edge st m \<and> isLocked st m} else 0)"

definition all_uses :: "'a store_scheme \<Rightarrow> (sid \<Rightarrow> nat) \<Rightarrow> sid \<Rightarrow> nat" where
  "all_uses st h x = 1 + locked_out st x + inner_use st x + root_use st x + h x"

section \<open>The invariant\<close>

definition live_phase :: "phase \<Rightarrow> bool" where
  "live_phase p \<longleftrightarrow> p \<in> {stopped, locked, starting, running, stopping, pending}"

definition uses_ok :: "'a store_scheme \<Rightarrow> (sid \<Rightarrow> nat) \<Rightarrow> sid \<Rightarrow> bool" where
  "uses_ok st h x \<longleftrightarrow>
     (case phase_of st x of
        running \<Rightarrow> unat (uses_of st x) = all_uses st h x
      | starting \<Rightarrow> unat (uses_of st x) = 1 + h x
      | _ \<Rightarrow> uses_of st x = 0 \<and> h x = 0)"

text \<open>
  \<open>deps_up\<close>: what a locked service depends on runs, weak usages excepted; the members an importing
  service starts from run while it is up; and the root runs while a service uses it implicitly.
\<close>

definition deps_up :: "'a store_scheme \<Rightarrow> bool" where
  "deps_up st \<longleftrightarrow>
     (\<forall>x m. parent_dep st x m \<and> isLocked st m \<longrightarrow> isRunning st x)
     \<and> (\<forall>x m u. usage_dep st x m u \<and> isLocked st m \<and> \<not> isWeak st u \<longrightarrow> isRunning st x)
     \<and> (\<forall>c<nsvc st. isa_import st (parent st c) \<and> up_phase (phase_of st (owner st (parent st c))) \<longrightarrow> isRunning st c)
     \<and> (\<forall>m<nsvc st. has_implicit_root_edge st m \<and> isLocked st m \<longrightarrow> isRunning st (root st))"

definition life_inv :: "'a store_scheme \<Rightarrow> (sid \<Rightarrow> nat) \<Rightarrow> bool" where
  "life_inv st h \<longleftrightarrow> wf_engine st \<and> (\<forall>s<nsvc st. live_phase (phase_of st s)) \<and> (\<forall>s\<ge>nsvc st. phase_of st s = uninitialized)
     \<and> (\<forall>s. uses_ok st h s) \<and> deps_up st"

lemma life_invD:
  assumes "life_inv st h"
  shows "wf_engine st" "s < nsvc st \<Longrightarrow> live_phase (phase_of st s)" "\<not> s < nsvc st \<Longrightarrow> phase_of st s = uninitialized"
    "uses_ok st h s" "deps_up st"
  using assms by (auto simp: life_inv_def)

lemma deps_upD:
  assumes "deps_up st"
  shows "parent_dep st x m \<Longrightarrow> isLocked st m \<Longrightarrow> isRunning st x"
    "usage_dep st x m u \<Longrightarrow> isLocked st m \<Longrightarrow> \<not> isWeak st u \<Longrightarrow> isRunning st x"
    "c < nsvc st \<Longrightarrow> isa_import st (parent st c) \<Longrightarrow> up_phase (phase_of st (owner st (parent st c))) \<Longrightarrow> isRunning st c"
    "m < nsvc st \<Longrightarrow> has_implicit_root_edge st m \<Longrightarrow> isLocked st m \<Longrightarrow> isRunning st (root st)"
  using assms unfolding deps_up_def by blast+

lemma live_lt: "life_inv st h \<Longrightarrow> phase_of st s \<noteq> uninitialized \<Longrightarrow> s < nsvc st"
  using life_invD(3) by blast

section \<open>Only links, phases and use counts matter\<close>

lemma links_implicit:
  assumes "links st' = links st"
  shows "has_implicit_root_edge st' = has_implicit_root_edge st"
  by (simp add: fun_eq_iff has_implicit_root_edge_def linksD [OF assms] links_parts [OF assms])

lemma links_deps:
  assumes "links st' = links st"
  shows "parent_dep st' = parent_dep st" "usage_dep st' = usage_dep st" "dep st' = dep st"
proof -
  show p: "parent_dep st' = parent_dep st" and u: "usage_dep st' = usage_dep st"
    by (simp_all add: fun_eq_iff parent_dep_def usage_dep_def links_cong [OF assms])
  show "dep st' = dep st" by (simp add: fun_eq_iff dep_def p u)
qed

lemma same_phases:
  assumes "\<And>s. phase_of st' s = phase_of st s"
  shows "isLocked st' = isLocked st" "isRunning st' = isRunning st" "isInitializedUnsafe st' = isInitializedUnsafe st"
    "isStopped st' = isStopped st" "isStopping st' = isStopping st" "isUsable st' = isUsable st"
  by (simp_all add: fun_eq_iff state_defs assms)

lemma wf_engine_live:
  assumes "links st' = links st" and "wf_engine st" and "\<And>s. s < nsvc st \<Longrightarrow> live_phase (phase_of st' s)"
  shows "wf_engine st'"
proof (rule wf_engine_links [OF assms(1,2)])
  fix p c assume "c \<in> set (p_children (prt st p))"
  then have "c < nsvc st" using wf_treeD(9) [OF wf_engineD(3) [OF assms(2)]] by blast
  from assms(3) [OF this] show "isInitializedUnsafe st' c" by (auto simp: live_phase_def isInitializedUnsafe_def)
qed

lemma life_inv_cong:
  assumes "links st' = links st" and "\<And>s. phase_of st' s = phase_of st s" and "\<And>s. uses_of st' s = uses_of st s"
    and "life_inv st h"
  shows "life_inv st' h"
proof -
  note D = linksD [OF assms(1)] links_parts [OF assms(1)] links_deps [OF assms(1)] links_implicit [OF assms(1)]
    same_phases [OF assms(2)] assms(2,3)
  have "wf_engine st'" by (rule wf_engine_live [OF assms(1) life_invD(1) [OF assms(4)]])
      (use life_invD(2) [OF assms(4)] assms(2) in simp)
  with assms(4) show ?thesis
    unfolding life_inv_def uses_ok_def deps_up_def all_uses_def locked_out_def inner_use_def root_use_def D by blast
qed

lemma life_inv_core:
  assumes "core e' = core e" and "life_inv e h"
  shows "life_inv e' h"
  by (rule life_inv_cong [OF core_links [OF assms(1)] coreD(1) [OF assms(1)] coreD(2) [OF assms(1)] assms(2)])

section \<open>Counting edges\<close>

lemma distinct_concat_key:
  assumes "distinct ps" and "\<And>p. p \<in> set ps \<Longrightarrow> distinct (f p)" and "\<And>p x. p \<in> set ps \<Longrightarrow> x \<in> set (f p) \<Longrightarrow> key x = p"
  shows "distinct (concat (map f ps))"
  using assms
proof (induction ps)
  case (Cons p ps)
  have "set (f p) \<inter> set (concat (map f ps)) = {}"
  proof (rule ccontr)
    assume "\<not> ?thesis"
    then obtain x q where "x \<in> set (f p)" "q \<in> set ps" "x \<in> set (f q)" by auto
    then show False using Cons.prems(1,3) by (metis distinct.simps(2) list.set_intros)
  qed
  with Cons show ?case by auto
qed simp

lemma length_filter_card: "distinct xs \<Longrightarrow> length (filter P xs) = card {x \<in> set xs. P x}"
  by (metis distinct_card distinct_filter set_filter)

lemma parts_of:
  assumes "wf_tree st"
  shows "distinct (imports_of st s)" "distinct (exports_of st s)"
    "p \<in> set (imports_of st s) \<longleftrightarrow> isa_import st p \<and> p \<in> set (s_parts (svc st s))"
    "p \<in> set (exports_of st s) \<longleftrightarrow> isa_export st p \<and> p \<in> set (s_parts (svc st s))"
    "p \<in> set (imports_of st s) \<Longrightarrow> owner st p = s" "p \<in> set (exports_of st s) \<Longrightarrow> owner st p = s"
  using wf_treeD(4,5) [OF assms] by (auto simp: imports_of_def exports_of_def)

definition imported :: "'a store_scheme \<Rightarrow> sid \<Rightarrow> uid list" where
  "imported st m = concat (map (\<lambda>p. p_imports (prt st p)) (imports_of st m))"

definition users :: "'a store_scheme \<Rightarrow> sid \<Rightarrow> uid list" where
  "users st x = concat (map (\<lambda>p. p_users (prt st p)) (exports_of st x))"

definition export_children :: "'a store_scheme \<Rightarrow> sid \<Rightarrow> sid list" where
  "export_children st x = concat (map (\<lambda>p. p_children (prt st p)) (exports_of st x))"

definition import_children :: "'a store_scheme \<Rightarrow> sid \<Rightarrow> sid list" where
  "import_children st x = concat (map (\<lambda>p. p_children (prt st p)) (imports_of st x))"

lemma imported_spec:
  assumes "wf_engine st"
  shows "distinct (imported st m)" "set (imported st m) = {u. isConnected st u \<and> user_service st u = m}"
proof -
  note wt = wf_engineD(3) [OF assms] and wu = wf_engineD(5) [OF assms]
  note u = wf_usagesD(4) [OF wu] wf_usagesD(6,8) [OF wu]
  show "distinct (imported st m)" unfolding imported_def
    by (rule distinct_concat_key [where key = "\<lambda>u. u_user (usg st u)"])
      (simp_all add: parts_of(1) [OF wt] wf_usagesD(2) [OF wu] u(1))
  show "set (imported st m) = {u. isConnected st u \<and> user_service st u = m}"
    using u parts_of(3,5) [OF wt] by (auto simp: imported_def)
qed

lemma users_spec:
  assumes "wf_engine st"
  shows "distinct (users st x)" "set (users st x) = {u. isConnected st u \<and> used_service st u = x}"
proof -
  note wt = wf_engineD(3) [OF assms] and wu = wf_engineD(5) [OF assms]
  note u = wf_usagesD(3) [OF wu] wf_usagesD(5,7) [OF wu]
  show "distinct (users st x)" unfolding users_def
    by (rule distinct_concat_key [where key = "\<lambda>u. u_used (usg st u)"])
      (simp_all add: parts_of(2) [OF wt] wf_usagesD(1) [OF wu] u(1))
  show "set (users st x) = {u. isConnected st u \<and> used_service st u = x}"
    using u parts_of(4,6) [OF wt] by (auto simp: users_def)
qed

lemma attached_iff:
  assumes "wf_engine st"
  shows "c \<in> set (p_children (prt st p)) \<longleftrightarrow> c < nsvc st \<and> c \<noteq> root st \<and> parent st c = p"
    and "c < nsvc st \<Longrightarrow> c \<noteq> root st \<Longrightarrow> parent st c \<in> set (s_parts (svc st (owner st (parent st c))))"
proof -
  note wt = wf_engineD(3) [OF assms] and at = wf_engineD(2) [OF assms]
  show "c \<in> set (p_children (prt st p)) \<longleftrightarrow> c < nsvc st \<and> c \<noteq> root st \<and> parent st c = p"
    using wf_treeD(7-9) [OF wt] at by (auto simp: all_attached_def)
  assume "c < nsvc st" "c \<noteq> root st"
  then show "parent st c \<in> set (s_parts (svc st (owner st (parent st c))))"
    using wf_treeD(10) [OF wt] at by (auto simp: all_attached_def)
qed

lemma export_children_spec:
  assumes "wf_engine st"
  shows "distinct (export_children st x)" "set (export_children st x) = {m. parent_dep st x m}"
proof -
  note wt = wf_engineD(3) [OF assms] and at = attached_iff [OF assms]
  show "distinct (export_children st x)" unfolding export_children_def
    by (rule distinct_concat_key [where key = "parent st"])
      (simp_all add: parts_of(2) [OF wt] wf_treeD(6) [OF wt] at)
  show "set (export_children st x) = {m. parent_dep st x m}"
    using at parts_of(4,6) [OF wt] by (auto simp: export_children_def parent_dep_def)
qed

lemma import_children_spec:
  assumes "wf_engine st"
  shows "distinct (import_children st x)"
    "set (import_children st x) = {c. c < nsvc st \<and> isa_import st (parent st c) \<and> owner st (parent st c) = x}"
proof -
  note wt = wf_engineD(3) [OF assms] and at = attached_iff [OF assms]
  show "distinct (import_children st x)" unfolding import_children_def
    by (rule distinct_concat_key [where key = "parent st"])
      (simp_all add: parts_of(1) [OF wt] wf_treeD(6) [OF wt] at)
  have "isa_import st (parent st c) \<Longrightarrow> c \<noteq> root st" for c
    using head_lt(1) [OF wf_engineD(4) [OF assms]] by blast
  then show "set (import_children st x) = {c. c < nsvc st \<and> isa_import st (parent st c) \<and> owner st (parent st c) = x}"
    using at parts_of(3,5) [OF wt] by (auto simp: import_children_def)
qed

lemma filter_import_edges:
  assumes "wf_engine st"
  shows "length (filter (\<lambda>ed. edge_source st ed = x) (import_edges st m)) = card {u. usage_dep st x m u}"
proof -
  have "length (filter (\<lambda>ed. edge_source st ed = x) (import_edges st m))
      = length (filter (\<lambda>u. used_service st u = x) (imported st m))"
    by (simp add: import_edges_def imported_def length_concat filter_concat comp_def filter_map)
  also have "\<dots> = card {u. usage_dep st x m u}"
    unfolding length_filter_card [OF imported_spec(1) [OF assms]] imported_spec(2) [OF assms]
    by (rule arg_cong [where f = card]) (auto simp: usage_dep_def)
  finally show ?thesis .
qed

lemma in_edges_from:
  assumes "wf_engine st" and "m < nsvc st"
  shows "length (filter (\<lambda>ed. edge_source st ed = x) (parent_edge st m @ import_edges st m)) = dep st x m"
  using assms(2) filter_import_edges [OF assms(1), of x m]
  by (auto simp: dep_def parent_edge_def parent_dep_def isRoot_iff [OF wf_engineD(3) [OF assms(1)]])

lemma out_edges_to:
  assumes "wf_engine st"
  shows "length (filter (\<lambda>ed. P (edge_target st ed)) (export_edges st x))
    = card {m. parent_dep st x m \<and> P m} + card {u. usage_dep st x (user_service st u) u \<and> P (user_service st u)}"
proof -
  have "length (filter (\<lambda>ed. P (edge_target st ed)) (concat (map (\<lambda>p. map (\<lambda>c. (NExport p, NService c)) (p_children (prt st p))
                    @ map (\<lambda>u. (NExport p, NUsage u)) (p_users (prt st p))) ps)))
     = length (filter P (concat (map (\<lambda>p. p_children (prt st p)) ps)))
       + length (filter (\<lambda>u. P (user_service st u)) (concat (map (\<lambda>p. p_users (prt st p)) ps)))" for ps
    by (induction ps) (simp_all add: filter_map comp_def)
  then have "length (filter (\<lambda>ed. P (edge_target st ed)) (export_edges st x))
     = length (filter P (export_children st x)) + length (filter (\<lambda>u. P (user_service st u)) (users st x))"
    by (simp add: export_edges_def export_children_def users_def)
  also have "\<dots> = card {m. parent_dep st x m \<and> P m} + card {u. usage_dep st x (user_service st u) u \<and> P (user_service st u)}"
    unfolding length_filter_card [OF export_children_spec(1) [OF assms]] length_filter_card [OF users_spec(1) [OF assms]]
      export_children_spec(2) [OF assms] users_spec(2) [OF assms]
    by (simp add: usage_dep_def)
  finally show ?thesis .
qed

lemma member_edges_sources: "map (edge_source st) (member_edges st s) = import_children st s"
  by (simp add: member_edges_def import_children_def map_concat comp_def)

lemma finite_deps:
  assumes "wf_engine st"
  shows "finite {m. parent_dep st x m \<and> P m}" "finite {u. usage_dep st x (user_service st u) u \<and> Q u}"
    "finite {u. usage_dep st x m u}"
proof -
  have f: "finite {u. isConnected st u \<and> used_service st u = x}" by (metis List.finite_set users_spec(2) [OF assms])
  show "finite {u. usage_dep st x (user_service st u) u \<and> Q u}" "finite {u. usage_dep st x m u}"
    by (rule finite_subset [OF _ f]; auto simp: usage_dep_def)+
  show "finite {m. parent_dep st x m \<and> P m}" by (rule finite_subset [of _ "{..<nsvc st}"]) (auto simp: parent_dep_def)
qed

section \<open>Phase changes\<close>

text \<open>One service changes its phase; the links stay.\<close>

definition moves :: "engine \<Rightarrow> engine \<Rightarrow> sid \<Rightarrow> phase \<Rightarrow> bool" where
  "moves e e' s p \<longleftrightarrow> links e' = links e \<and> (\<forall>x. phase_of e' x = (if x = s then p else phase_of e x))"

lemma movesD:
  assumes "moves e e' s p"
  shows "links e' = links e" "phase_of e' x = (if x = s then p else phase_of e x)"
  using assms by (simp_all add: moves_def)

lemma locked_out_cong:
  assumes "links e' = links e" and "\<And>x. isLocked e' x = isLocked e x"
  shows "locked_out e' x = locked_out e x" "root_use e' x = root_use e x"
  by (simp_all add: locked_out_def root_use_def links_deps [OF assms(1)] links_implicit [OF assms(1)]
      linksD [OF assms(1)] assms(2))

text \<open>A service that becomes locked adds its edges to the counts of what it depends on.\<close>

lemma locked_out_insert:
  assumes "wf_engine e" and "links e' = links e" and "\<not> isLocked e m" and "\<And>x. isLocked e' x \<longleftrightarrow> x = m \<or> isLocked e x"
  shows "locked_out e' x = locked_out e x + dep e x m"
proof -
  let ?U = "\<lambda>u. usage_dep e x (user_service e u) u"
  have "{k. parent_dep e x k \<and> (k = m \<or> isLocked e k)} =
      (if parent_dep e x m then insert m {k. parent_dep e x k \<and> isLocked e k} else {k. parent_dep e x k \<and> isLocked e k})"
    by auto
  then have c1: "card {k. parent_dep e x k \<and> (k = m \<or> isLocked e k)} =
      card {k. parent_dep e x k \<and> isLocked e k} + (if parent_dep e x m then 1 else 0)"
    using assms(3) finite_deps(1) [OF assms(1), of x "isLocked e"] by (auto simp: card_insert_if)
  have "{u. ?U u \<and> (user_service e u = m \<or> isLocked e (user_service e u))} =
      {u. ?U u \<and> isLocked e (user_service e u)} \<union> {u. usage_dep e x m u}"
    by (auto simp: usage_dep_def)
  moreover have "{u. ?U u \<and> isLocked e (user_service e u)} \<inter> {u. usage_dep e x m u} = {}"
    using assms(3) by (auto simp: usage_dep_def)
  ultimately have "card {u. ?U u \<and> (user_service e u = m \<or> isLocked e (user_service e u))} =
      card {u. ?U u \<and> isLocked e (user_service e u)} + card {u. usage_dep e x m u}"
    using finite_deps(2,3) [OF assms(1)] by (simp add: card_Un_disjoint)
  with c1 show ?thesis
    by (simp add: locked_out_def dep_def links_deps [OF assms(2)] linksD [OF assms(2)] assms(4))
qed

lemma root_use_insert:
  assumes "links e' = links e" and "m < nsvc e" and "\<not> isLocked e m" and "\<And>x. isLocked e' x \<longleftrightarrow> x = m \<or> isLocked e x"
  shows "root_use e' x = root_use e x + (if x = root e \<and> has_implicit_root_edge e m then 1 else 0)"
proof -
  let ?S = "{k. k < nsvc e \<and> has_implicit_root_edge e k \<and> isLocked e k}"
  have "{k. k < nsvc e \<and> has_implicit_root_edge e k \<and> (k = m \<or> isLocked e k)} =
      (if has_implicit_root_edge e m then insert m ?S else ?S)" using assms(2) by auto
  moreover have "finite ?S" "m \<notin> ?S" using assms(3) by auto
  ultimately show ?thesis
    by (simp add: root_use_def links_implicit [OF assms(1)] linksD [OF assms(1)] assms(4))
qed

lemma inner_use_cong:
  assumes "links e' = links e" and "\<And>x. up_phase (phase_of e' x) = up_phase (phase_of e x)"
  shows "inner_use e' x = inner_use e x"
  by (simp add: inner_use_def links_parts [OF assms(1)] linksD [OF assms(1)] assms(2))

text \<open>The life cycle invariant after a move, from its parts.\<close>

lemma life_inv_move:
  assumes "life_inv e h" and "moves e e' s p" and "s < nsvc e" and "live_phase p"
    and "\<And>x. uses_ok e' h' x" and "deps_up e'"
  shows "life_inv e' h'"
proof -
  note D = movesD [OF assms(2)]
  have "live_phase (phase_of e' x)" if "x < nsvc e" for x
    using that assms(4) life_invD(2) [OF assms(1)] by (simp add: D(2))
  moreover from this have "wf_engine e'" by (rule wf_engine_live [OF D(1) life_invD(1) [OF assms(1)]])
  moreover have "phase_of e' x = uninitialized" if "\<not> x < nsvc e" for x
    using that assms(3) life_invD(3) [OF assms(1)] by (simp add: D(2))
  ultimately show ?thesis using assms(5,6) by (simp add: life_inv_def linksD [OF D(1)])
qed

end
