(* ===== verification/Life_Units.thy ===== *)
theory Life_Units
  imports Use_Counts
begin

text \<open>
  The six moves of the life cycle as state changes: locking, entering the start, running,
  stopping, leaving the stop and unlocking. Each keeps the life cycle invariant, provided the use counts
  change as the move requires.
\<close>

definition links_running :: "'a store_scheme \<Rightarrow> sid \<Rightarrow> bool" where
  "links_running st m \<longleftrightarrow> (\<forall>x. parent_dep st x m \<longrightarrow> isRunning st x)
     \<and> (\<forall>x u. usage_dep st x m u \<and> \<not> isWeak st u \<longrightarrow> isRunning st x)
     \<and> (has_implicit_root_edge st m \<longrightarrow> isRunning st (root st))"

definition use_of :: "'a store_scheme \<Rightarrow> sid \<Rightarrow> sid \<Rightarrow> nat" where
  "use_of st m x = (if isRunning st x then dep st x m + (if has_implicit_root_edge st m \<and> x = root st then 1 else 0) else 0)"

lemma not_running_uses:
  assumes "uses_ok st h x" and "\<not> isRunning st x" and "phase_of st x \<noteq> starting"
  shows "uses_of st x = 0 \<and> h x = 0"
  using assms by (auto simp: uses_ok_def isRunning_def split: phase.splits)

lemma idle_uses_ok:
  assumes "phase_of st x \<noteq> running" and "phase_of st x \<noteq> starting" and "uses_of st x = 0" and "h x = 0"
  shows "uses_ok st h x"
  using assms by (simp add: uses_ok_def split: phase.split)

text \<open>A service that stays in its phase.\<close>

lemma uses_ok_step:
  assumes "uses_ok e h x" and "phase_of e' x = phase_of e x"
    and "isRunning e x \<Longrightarrow> unat (uses_of e' x) = all_uses e' h x"
    and "\<not> isRunning e x \<Longrightarrow> uses_of e' x = uses_of e x"
  shows "uses_ok e' h x"
  using assms by (cases "phase_of e x") (simp_all add: uses_ok_def isRunning_def)

lemma running_uses: "uses_ok e h x \<Longrightarrow> isRunning e x \<Longrightarrow> unat (uses_of e x) = all_uses e h x"
  by (simp add: uses_ok_def isRunning_def)

section \<open>Locking\<close>

lemma lock_life:
  assumes inv: "life_inv e h" and mv: "moves e e' m locked" and m: "m < nsvc e" and st: "phase_of e m = stopped"
    and us: "\<And>x. unat (uses_of e' x) = unat (uses_of e x) + use_of e m x" and run: "links_running e m"
  shows "life_inv e' h"
proof (rule life_inv_move [OF inv mv m])
  note D = movesD [OF mv] and wf = life_invD(1) [OF inv] and up = life_invD(5) [OF inv]
  have nl: "\<not> isLocked e m" using st by (simp add: isLocked_def is_between_def)
  have lk: "isLocked e' x \<longleftrightarrow> x = m \<or> isLocked e x" for x by (simp add: D(2) isLocked_def is_between_def)
  have rn: "isRunning e' x = isRunning e x" for x using st by (simp add: D(2) isRunning_def)
  have ph: "up_phase (phase_of e' x) = up_phase (phase_of e x)" for x using st by (simp add: D(2) up_phase_def)
  show "live_phase locked" by (simp add: live_phase_def)
  show "uses_ok e' h x" for x
  proof (cases "x = m")
    case True
    have "uses_of e m = 0 \<and> h m = 0" using life_invD(4) [OF inv, of m] st by (simp add: uses_ok_def)
    moreover have "use_of e m m = 0" using st by (simp add: use_of_def isRunning_def)
    ultimately show ?thesis using us [of m] True D(2) by (intro idle_uses_ok) (auto simp: unat_eq_0)
  next
    case False
    show ?thesis
    proof (rule uses_ok_step [OF life_invD(4) [OF inv]])
      show "phase_of e' x = phase_of e x" using False by (simp add: D(2))
      show "uses_of e' x = uses_of e x" if "\<not> isRunning e x"
        using us [of x] that by (simp add: use_of_def word_unat_eq_iff)
      show "unat (uses_of e' x) = all_uses e' h x" if r: "isRunning e x"
        using running_uses [OF life_invD(4) [OF inv] r] us [of x] r
        by (simp add: all_uses_def use_of_def locked_out_insert [OF wf D(1) nl lk] root_use_insert [OF D(1) m nl lk]
            inner_use_cong [OF D(1) ph])
    qed
  qed
  show "deps_up e'"
    using up run unfolding deps_up_def links_running_def links_deps [OF D(1)] links_implicit [OF D(1)] links_parts [OF D(1)]
      linksD [OF D(1)] lk rn ph by blast
qed

section \<open>Unlocking\<close>

lemma unlock_life:
  assumes inv: "life_inv e h" and mv: "moves e e' m stopped" and m: "m < nsvc e" and pe: "phase_of e m = pending"
    and us: "\<And>x. unat (uses_of e' x) + use_of e m x = unat (uses_of e x)"
  shows "life_inv e' h"
proof (rule life_inv_move [OF inv mv m])
  note D = movesD [OF mv] and wf = life_invD(1) [OF inv] and up = life_invD(5) [OF inv]
  have nl: "\<not> isLocked e' m" using D(2) by (simp add: isLocked_def is_between_def)
  have lk: "isLocked e x \<longleftrightarrow> x = m \<or> isLocked e' x" for x using pe by (auto simp: D(2) isLocked_def is_between_def)
  have rn: "isRunning e' x = isRunning e x" for x using pe by (simp add: D(2) isRunning_def)
  have ph: "up_phase (phase_of e' x) = up_phase (phase_of e x)" for x using pe by (simp add: D(2) up_phase_def)
  have wf': "wf_engine e'"
    using life_invD(2) [OF inv] by (intro wf_engine_live [OF D(1) wf]) (auto simp: D(2) live_phase_def)
  have m': "m < nsvc e'" using m by (simp add: linksD [OF D(1)])
  show "live_phase stopped" by (simp add: live_phase_def)
  show "uses_ok e' h x" for x
  proof (cases "x = m")
    case True
    have "uses_of e m = 0 \<and> h m = 0" using life_invD(4) [OF inv, of m] pe by (simp add: uses_ok_def)
    then show ?thesis using us [of m] True D(2) by (intro idle_uses_ok) (auto simp: unat_eq_0)
  next
    case False
    show ?thesis
    proof (rule uses_ok_step [OF life_invD(4) [OF inv]])
      show "phase_of e' x = phase_of e x" using False by (simp add: D(2))
      show "uses_of e' x = uses_of e x" if "\<not> isRunning e x"
        using us [of x] that by (simp add: use_of_def word_unat_eq_iff)
      show "unat (uses_of e' x) = all_uses e' h x" if r: "isRunning e x"
        using running_uses [OF life_invD(4) [OF inv] r] us [of x] r
        by (simp add: all_uses_def use_of_def locked_out_insert [OF wf' D(1) [symmetric] nl lk]
            root_use_insert [OF D(1) [symmetric] m' nl lk] inner_use_cong [OF D(1) ph] links_deps [OF D(1)]
            links_implicit [OF D(1)] linksD [OF D(1)] conj_commute split: if_splits)
    qed
  qed
  show "deps_up e'"
    using up unfolding deps_up_def links_deps [OF D(1)] links_implicit [OF D(1)] links_parts [OF D(1)]
      linksD [OF D(1)] lk rn ph by blast
qed

section \<open>Starting\<close>

text \<open>A change of phase within the locked phases; \<open>c\<close> is the change of the counts of the members below.\<close>

lemma inner_use_move:
  assumes "wf_engine e" and "moves e e' s p" and "x < nsvc e"
  shows "inner_use e' x = (if x \<in> set (import_children e s) then (if up_phase p then 1 else 0) else inner_use e x)"
  using assms(3) movesD [OF assms(2)] import_children_spec(2) [OF assms(1), of s]
  by (auto simp: inner_use_def linksD [OF movesD(1) [OF assms(2)]] links_parts [OF movesD(1) [OF assms(2)]])

lemma start_life:
  assumes inv: "life_inv e h" and mv: "moves e e' s starting" and s: "s < nsvc e" and lo: "phase_of e s = locked"
    and us: "\<And>x. unat (uses_of e' x) = unat (uses_of e x) + (if x = s then 1 else 0) + (if x \<in> set (import_children e s) then 1 else 0)"
    and run: "\<And>c. c \<in> set (import_children e s) \<Longrightarrow> isRunning e c"
  shows "life_inv e' h"
proof (rule life_inv_move [OF inv mv s])
  note D = movesD [OF mv] and wf = life_invD(1) [OF inv] and up = life_invD(5) [OF inv]
  have lk: "isLocked e' x = isLocked e x" for x using lo by (simp add: D(2) isLocked_def is_between_def)
  have rn: "isRunning e' x = isRunning e x" for x using lo by (simp add: D(2) isRunning_def)
  have nc: "s \<notin> set (import_children e s)" using run [of s] lo by (auto simp: isRunning_def)
  show "live_phase starting" by (simp add: live_phase_def)
  show "uses_ok e' h x" for x
  proof (cases "x = s")
    case True
    have "uses_of e s = 0 \<and> h s = 0" using life_invD(4) [OF inv, of s] lo by (simp add: uses_ok_def)
    then show ?thesis using us [of s] nc True D(2) by (simp add: uses_ok_def)
  next
    case False
    show ?thesis
    proof (rule uses_ok_step [OF life_invD(4) [OF inv]])
      show "phase_of e' x = phase_of e x" using False by (simp add: D(2))
      show "uses_of e' x = uses_of e x" if "\<not> isRunning e x"
        using us [of x] that False run by (auto simp: word_unat_eq_iff)
      assume r: "isRunning e x"
      have x: "x < nsvc e" using live_lt [OF inv, of x] r by (simp add: isRunning_def)
      have "inner_use e x = 0" if "x \<in> set (import_children e s)"
        using that lo import_children_spec(2) [OF wf, of s] by (auto simp: inner_use_def up_phase_def)
      then show "unat (uses_of e' x) = all_uses e' h x"
        using running_uses [OF life_invD(4) [OF inv] r] us [of x] False inner_use_move [OF wf mv x]
        by (auto simp: all_uses_def locked_out_cong [OF D(1) lk] up_phase_def)
    qed
  qed
  have "isRunning e c" if "c < nsvc e" "isa_import e (parent e c)" "up_phase (phase_of e' (owner e (parent e c)))" for c
  proof (cases "owner e (parent e c) = s")
    case True
    then show ?thesis using that import_children_spec(2) [OF wf, of s] run by blast
  next
    case False
    then show ?thesis using that deps_upD(3) [OF up] by (simp add: D(2))
  qed
  then show "deps_up e'"
    using up unfolding deps_up_def links_deps [OF D(1)] links_implicit [OF D(1)] links_parts [OF D(1)]
      linksD [OF D(1)] lk rn by blast
qed

lemma run_life:
  assumes inv: "life_inv e h" and mv: "moves e e' s running" and s: "s < nsvc e" and sg: "phase_of e s = starting"
    and us: "\<And>x. unat (uses_of e' x) = unat (uses_of e x) + (if x = s then locked_out e s else 0)"
  shows "life_inv e' h"
proof (rule life_inv_move [OF inv mv s])
  note D = movesD [OF mv] and wf = life_invD(1) [OF inv] and up = life_invD(5) [OF inv]
  have lk: "isLocked e' x = isLocked e x" for x using sg by (simp add: D(2) isLocked_def is_between_def)
  have rn: "isRunning e' x \<longleftrightarrow> x = s \<or> isRunning e x" for x using sg by (simp add: D(2) isRunning_def)
  have ph: "up_phase (phase_of e' x) = up_phase (phase_of e x)" for x using sg by (simp add: D(2) up_phase_def)
  have nr: "\<not> isRunning e s" using sg by (simp add: isRunning_def)
  show "live_phase running" by (simp add: live_phase_def)
  show "uses_ok e' h x" for x
  proof (cases "x = s")
    case True
    have "inner_use e s = 0" using deps_upD(3) [OF up s] nr by (auto simp: inner_use_def)
    moreover have "root_use e s = 0"
    proof (cases "s = root e")
      case True
      then have "{m. m < nsvc e \<and> has_implicit_root_edge e m \<and> isLocked e m} = {}" using deps_upD(4) [OF up] nr by blast
      then show ?thesis by (simp only: root_use_def card.empty) simp
    qed (simp add: root_use_def)
    moreover have "unat (uses_of e s) = 1 + h s" using life_invD(4) [OF inv, of s] sg by (simp add: uses_ok_def)
    ultimately show ?thesis
      using us [of s] True D(2)
      by (simp add: uses_ok_def all_uses_def locked_out_cong [OF D(1) lk] inner_use_cong [OF D(1) ph])
  next
    case False
    show ?thesis
    proof (rule uses_ok_step [OF life_invD(4) [OF inv]])
      show "phase_of e' x = phase_of e x" using False by (simp add: D(2))
      show "uses_of e' x = uses_of e x" using us [of x] False by (simp add: word_unat_eq_iff)
      show "unat (uses_of e' x) = all_uses e' h x" if r: "isRunning e x"
        using running_uses [OF life_invD(4) [OF inv] r] us [of x] False
        by (simp add: all_uses_def locked_out_cong [OF D(1) lk] inner_use_cong [OF D(1) ph])
    qed
  qed
  show "deps_up e'"
    using up unfolding deps_up_def links_deps [OF D(1)] links_implicit [OF D(1)] links_parts [OF D(1)]
      linksD [OF D(1)] lk rn ph by blast
qed

section \<open>Stopping\<close>

text \<open>The last use is the service's own: nothing depends on it.\<close>

lemma last_use:
  assumes "life_inv e h" and "isRunning e s" and "uses_of e s = 1"
  shows "locked_out e s = 0" "inner_use e s = 0" "root_use e s = 0" "h s = 0"
  using running_uses [OF life_invD(4) [OF assms(1)] assms(2)] assms(3) by (simp_all add: all_uses_def)

lemma no_locked_dependents:
  assumes "wf_engine e" and "locked_out e s = 0"
  shows "parent_dep e s m \<Longrightarrow> \<not> isLocked e m" "usage_dep e s m u \<Longrightarrow> \<not> isLocked e m"
proof -
  have "{m. parent_dep e s m \<and> isLocked e m} = {}"
    "{u. usage_dep e s (user_service e u) u \<and> isLocked e (user_service e u)} = {}"
    using assms(2) finite_deps(1,2) [OF assms(1)] by (simp_all add: locked_out_def)
  then show "parent_dep e s m \<Longrightarrow> \<not> isLocked e m" "usage_dep e s m u \<Longrightarrow> \<not> isLocked e m"
    by (auto simp: usage_dep_def)
qed

lemma no_root_dependents:
  assumes "root_use e (root e) = 0"
  shows "m < nsvc e \<Longrightarrow> has_implicit_root_edge e m \<Longrightarrow> \<not> isLocked e m"
proof -
  have "finite {m. m < nsvc e \<and> has_implicit_root_edge e m \<and> isLocked e m}" by simp
  with assms have "{m. m < nsvc e \<and> has_implicit_root_edge e m \<and> isLocked e m} = {}" by (simp add: root_use_def)
  then show "m < nsvc e \<Longrightarrow> has_implicit_root_edge e m \<Longrightarrow> \<not> isLocked e m" by blast
qed

lemma stop_life:
  assumes inv: "life_inv e h" and mv: "moves e e' s stopping" and r: "isRunning e s" and one: "uses_of e s = 1"
    and us: "\<And>x. uses_of e' x = (if x = s then 0 else uses_of e x)"
  shows "life_inv e' h"
proof (rule life_inv_move [OF inv mv])
  note D = movesD [OF mv] and wf = life_invD(1) [OF inv] and up = life_invD(5) [OF inv]
    and last = last_use [OF inv r one]
  have lk: "isLocked e' x = isLocked e x" for x using r by (simp add: D(2) isLocked_def is_between_def isRunning_def)
  have rn: "isRunning e' x \<longleftrightarrow> x \<noteq> s \<and> isRunning e x" for x by (simp add: D(2) isRunning_def)
  have ph: "up_phase (phase_of e' x) = up_phase (phase_of e x)" for x using r by (simp add: D(2) up_phase_def isRunning_def)
  show "s < nsvc e" using live_lt [OF inv, of s] r by (simp add: isRunning_def)
  show "live_phase stopping" by (simp add: live_phase_def)
  show "uses_ok e' h x" for x
  proof (cases "x = s")
    case True
    then show ?thesis using last(4) us by (intro idle_uses_ok) (simp_all add: D(2))
  next
    case False
    show ?thesis
    proof (rule uses_ok_step [OF life_invD(4) [OF inv]])
      show "phase_of e' x = phase_of e x" using False by (simp add: D(2))
      show "uses_of e' x = uses_of e x" using us False by simp
      show "unat (uses_of e' x) = all_uses e' h x" if r: "isRunning e x"
        using running_uses [OF life_invD(4) [OF inv] r] us False
        by (simp add: all_uses_def locked_out_cong [OF D(1) lk] inner_use_cong [OF D(1) ph])
    qed
  qed
  note nd = no_locked_dependents [OF wf last(1)]
  have "isa_import e (parent e s) \<Longrightarrow> \<not> up_phase (phase_of e (owner e (parent e s)))"
    using last(2) by (simp add: inner_use_def split: if_splits)
  moreover have "s = root e \<Longrightarrow> m < nsvc e \<Longrightarrow> has_implicit_root_edge e m \<Longrightarrow> \<not> isLocked e m" for m
    using no_root_dependents last(3) by blast
  ultimately show "deps_up e'"
    using up nd unfolding deps_up_def links_deps [OF D(1)] links_implicit [OF D(1)] links_parts [OF D(1)]
      linksD [OF D(1)] lk rn ph by blast
qed

lemma pend_life:
  assumes inv: "life_inv e h" and mv: "moves e e' s pending" and s: "s < nsvc e" and sg: "phase_of e s = stopping"
    and us: "\<And>x. unat (uses_of e' x) + (if x \<in> set (import_children e s) then 1 else 0) = unat (uses_of e x)"
  shows "life_inv e' h"
proof (rule life_inv_move [OF inv mv s])
  note D = movesD [OF mv] and wf = life_invD(1) [OF inv] and up = life_invD(5) [OF inv]
  have lk: "isLocked e' x = isLocked e x" for x using sg by (simp add: D(2) isLocked_def is_between_def)
  have rn: "isRunning e' x = isRunning e x" for x using sg by (simp add: D(2) isRunning_def)
  have ch: "isRunning e c" if "c \<in> set (import_children e s)" for c
    using that import_children_spec(2) [OF wf, of s] deps_upD(3) [OF up, of c] sg by (auto simp: up_phase_def)
  show "live_phase pending" by (simp add: live_phase_def)
  show "uses_ok e' h x" for x
  proof (cases "x = s")
    case True
    have "uses_of e s = 0 \<and> h s = 0" using life_invD(4) [OF inv, of s] sg by (simp add: uses_ok_def)
    then show ?thesis using us [of s] True D(2) by (intro idle_uses_ok) (auto simp: unat_eq_0)
  next
    case False
    show ?thesis
    proof (rule uses_ok_step [OF life_invD(4) [OF inv]])
      show "phase_of e' x = phase_of e x" using False by (simp add: D(2))
      show "uses_of e' x = uses_of e x" if "\<not> isRunning e x"
        using us [of x] that ch [of x] by (cases "x \<in> set (import_children e s)") (auto simp: word_unat_eq_iff)
      assume r: "isRunning e x"
      have x: "x < nsvc e" using live_lt [OF inv, of x] r by (simp add: isRunning_def)
      have "inner_use e x = 1" if "x \<in> set (import_children e s)"
        using that sg import_children_spec(2) [OF wf, of s] by (auto simp: inner_use_def up_phase_def)
      then show "unat (uses_of e' x) = all_uses e' h x"
        using running_uses [OF life_invD(4) [OF inv] r] us [of x] False inner_use_move [OF wf mv x]
        by (auto simp: all_uses_def locked_out_cong [OF D(1) lk] up_phase_def)
    qed
  qed
  have "up_phase (phase_of e' x) \<Longrightarrow> up_phase (phase_of e x)" for x by (simp add: D(2) up_phase_def split: if_splits)
  then show "deps_up e'"
    using up unfolding deps_up_def links_deps [OF D(1)] links_implicit [OF D(1)] links_parts [OF D(1)]
      linksD [OF D(1)] lk rn by blast
qed

end
