(* ===== verification/Lifecycle_Safety.thy ===== *)
theory Lifecycle_Safety
  imports Life_Units
begin

text \<open>
  The operations of the life cycle keep the life cycle invariant. Operations that keep the core keep it
  trivially; the others are composed of the moves of \<open>Life_Units\<close>, whose changes of the
  use counts are computed here from the loops over the edges.
\<close>

section \<open>Changes of the use counts\<close>

definition bumps :: "engine \<Rightarrow> engine \<Rightarrow> (sid \<Rightarrow> int) \<Rightarrow> bool" where
  "bumps e e' d \<longleftrightarrow> links e' = links e \<and> (\<forall>x. phase_of e' x = phase_of e x)
     \<and> (\<forall>x. uint (uses_of e' x) = uint (uses_of e x) + d x)"

lemma bumps_core:
  assumes "core e' = core e"
  shows "bumps e e' (\<lambda>x. 0)"
  by (simp add: bumps_def core_links [OF assms] coreD [OF assms])

lemma bumps_trans: "bumps e e1 d1 \<Longrightarrow> bumps e1 e2 d2 \<Longrightarrow> bumps e e2 (\<lambda>x. d1 x + d2 x)"
  by (simp add: bumps_def)

lemma bumps_eq: "bumps e e' d \<Longrightarrow> (\<And>x. d x = d' x) \<Longrightarrow> bumps e e' d'"
  by (simp add: bumps_def)

lemma bumpsD:
  assumes "bumps e e' d"
  shows "links e' = links e" "phase_of e' x = phase_of e x" "isRunning e' x = isRunning e x" "isLocked e' x = isLocked e x"
    "uint (uses_of e' x) = uint (uses_of e x) + d x"
  using assms by (simp_all add: bumps_def isRunning_def isLocked_def)

lemma links_upd_svc:
  "links (upd_svc s (\<lambda>x. x\<lparr>s_uses := f x\<rparr>) e) = links e" "links (upd_svc s (\<lambda>x. x\<lparr>s_phase := p\<rparr>) e) = links e"
  by (auto simp: links_def tree_def upd_svc_def isConnected_def isWeak_def)

lemma upd_svc_simps [simp]:
  "phase_of (upd_svc s (\<lambda>x. x\<lparr>s_uses := f x\<rparr>) e) x = phase_of e x"
  "uses_of (upd_svc s (\<lambda>x. x\<lparr>s_uses := f x\<rparr>) e) x = (if x = s then f (svc e s) else uses_of e x)"
  "phase_of (upd_svc s (\<lambda>x. x\<lparr>s_phase := p\<rparr>) e) x = (if x = s then p else phase_of e x)"
  "uses_of (upd_svc s (\<lambda>x. x\<lparr>s_phase := p\<rparr>) e) x = uses_of e x"
  by (simp_all add: upd_svc_def)

lemma inc_bumps:
  assumes "on_outgoing_increment s e = Inr e'"
  shows "isRunning e s \<and> bumps e e' (\<lambda>x. if x = s then 1 else 0)"
proof -
  from assms have r: "isRunning e s" and lt: "uses_of e s < - 1"
    and e': "e' = upd_svc s (\<lambda>x. x\<lparr>s_uses := s_uses x + 1\<rparr>) e"
    by (auto simp: on_outgoing_increment_def)
  have "uint (uses_of e s + 1) = uint (uses_of e s) + 1"
    using lt by (simp add: uint_plus_if' word_less_def unsigned_minus_1_eq_mask mask_eq_exp_minus_1)
  then show ?thesis using r by (simp add: e' bumps_def links_upd_svc)
qed

lemma dec_bumps:
  assumes "on_outgoing_decrement s e = Inr e'"
  shows "isRunning e s \<and> bumps e e' (\<lambda>x. if x = s then - 1 else 0)"
proof -
  let ?e = "upd_svc s (\<lambda>x. x\<lparr>s_uses := uses_of e s - 1\<rparr>) e"
  have r: "isRunning e s" and gt: "1 < uses_of e s"
    and e': "only_if (\<lambda>x. has_no_external_uses x s (uses_of e s - 1))
        (on_outgoing_reached_no_external_use s (uses_of e s - 1)) ?e = Inr e'"
    using assms unfolding on_outgoing_decrement_def Let_def by (simp_all split: if_splits)
  have "keeps False (only_if (\<lambda>x. has_no_external_uses x s c) (on_outgoing_reached_no_external_use s c))" for c
    by (intro keeps_rules frame)
  then have "core e' = core ?e" using e' by (rule keepsD) simp
  note c = this core_links [OF this] coreD [OF this]
  have "uint (uses_of e s - 1) = uint (uses_of e s) - 1"
    using gt by (simp add: uint_sub_if' word_less_def)
  then show ?thesis using r by (simp add: bumps_def c links_upd_svc)
qed

text \<open>A loop whose body changes use counts only, by an amount that depends on links and phases only.\<close>

lemma fold_bumps:
  assumes step: "\<And>ed x x'. ed \<in> set es \<Longrightarrow> links x = links e \<Longrightarrow> (\<And>s. phase_of x s = phase_of e s) \<Longrightarrow>
      f ed x = Inr x' \<Longrightarrow> bumps x x' (w ed) \<and> Q ed"
    and "fold_res f es x = Inr x'" and "links x = links e" and "\<And>s. phase_of x s = phase_of e s"
  shows "bumps x x' (\<lambda>s. \<Sum>ed\<leftarrow>es. w ed s) \<and> (\<forall>ed\<in>set es. Q ed)"
  using assms
proof (induction es arbitrary: x)
  case Nil
  then show ?case by (simp add: bumps_def)
next
  case (Cons ed es)
  from Cons.prems(2) obtain y where y: "f ed x = Inr y" "fold_res f es y = Inr x'" by auto
  have b: "bumps x y (w ed)" "Q ed" using Cons.prems(1) [OF _ Cons.prems(3,4) y(1)] by auto
  have "bumps y x' (\<lambda>s. \<Sum>ed\<leftarrow>es. w ed s) \<and> (\<forall>ed\<in>set es. Q ed)"
    by (rule Cons.IH [OF _ y(2)]) (use Cons.prems(1,3,4) bumpsD(1,2) [OF b(1)] in auto)
  with b show ?case using bumps_trans by fastforce
qed

lemma sum_list_count: "(\<Sum>ed\<leftarrow>es. if P ed then (k :: int) else 0) = k * int (length (filter P es))"
  by (induction es) (simp_all add: algebra_simps)

lemma same_links_phases:
  assumes "links x = links e" and "\<And>s. phase_of x s = phase_of e s"
  shows "isRunning x = isRunning e" "isLocked x = isLocked e" "edge_source x = edge_source e" "edge_target x = edge_target e"
    "edge_isWeak x = edge_isWeak e"
  using same_phases [OF assms(2)] links_edges [OF assms(1)] by auto

lemma bump_source:
  "(\<Sum>ed\<leftarrow>es. if s = edge_source e ed \<and> isRunning e s then (k :: int) else 0)
     = (if isRunning e s then k * int (length (filter (\<lambda>ed. edge_source e ed = s) es)) else 0)"
proof (cases "isRunning e s")
  case True
  have "(\<lambda>ed. s = edge_source e ed) = (\<lambda>ed. edge_source e ed = s)" by auto
  with True show ?thesis by (simp add: sum_list_count)
qed simp

lemma fold_outer_inc:
  assumes "fold_res (outer_outgoing_increment_along m) es e = Inr e'"
  shows "bumps e e' (\<lambda>x. if isRunning e x then int (length (filter (\<lambda>ed. edge_source e ed = x) es)) else 0)
    \<and> (\<forall>ed\<in>set es. edge_isWeak e ed \<or> isRunning e (edge_source e ed))"
proof -
  have "bumps x x' (\<lambda>s. if s = edge_source e ed \<and> isRunning e s then 1 else 0)
      \<and> (edge_isWeak e ed \<or> isRunning e (edge_source e ed))"
    if "links x = links e" "\<And>s. phase_of x s = phase_of e s" "outer_outgoing_increment_along m ed x = Inr x'" for ed x x'
  proof -
    note S = same_links_phases [OF that(1,2)]
    let ?f = "edge_source e ed"
    from that(3) have w: "edge_isWeak e ed \<or> isRunning e ?f"
      and r: "only_if (\<lambda>y. \<not> (edge_isWeak y ed \<and> \<not> isRunning y ?f)) (on_outgoing_increment ?f) x = Inr x'"
      by (auto simp: outer_outgoing_increment_along_def Let_def S)
    show ?thesis
    proof (cases "isRunning e ?f")
      case True
      then have "on_outgoing_increment ?f x = Inr x'" using r by (simp add: only_if_def S)
      then have "bumps x x' (\<lambda>s. if s = ?f then 1 else 0)" using inc_bumps by blast
      then have "bumps x x' (\<lambda>s. if s = ?f \<and> isRunning e s then 1 else 0)" by (rule bumps_eq) (use True in auto)
      with w show ?thesis by blast
    next
      case False
      then have "x' = x" using r w by (simp add: only_if_def S)
      moreover have "bumps x x (\<lambda>s. if s = ?f \<and> isRunning e s then 1 else 0)" using False by (simp add: bumps_def)
      ultimately show ?thesis using w by simp
    qed
  qed
  then have "bumps e e' (\<lambda>s. \<Sum>ed\<leftarrow>es. if s = edge_source e ed \<and> isRunning e s then 1 else 0)
      \<and> (\<forall>ed\<in>set es. edge_isWeak e ed \<or> isRunning e (edge_source e ed))"
    using assms by (intro fold_bumps) auto
  then show ?thesis by (simp add: bump_source cong: if_cong)
qed

lemma fold_outer_dec:
  assumes "fold_res (outer_outgoing_decrement_along m) es e = Inr e'"
  shows "bumps e e' (\<lambda>x. if isRunning e x then - int (length (filter (\<lambda>ed. edge_source e ed = x) es)) else 0)"
proof -
  have "bumps x x' (\<lambda>s. if s = edge_source e ed \<and> isRunning e s then - 1 else 0) \<and> True"
    if "links x = links e" "\<And>s. phase_of x s = phase_of e s" "outer_outgoing_decrement_along m ed x = Inr x'" for ed x x'
  proof -
    note S = same_links_phases [OF that(1,2)]
    let ?f = "edge_source e ed"
    from that(3) have r: "only_if (\<lambda>y. isRunning y ?f) (on_outgoing_decrement ?f) x = Inr x'"
      by (auto simp: outer_outgoing_decrement_along_def Let_def S)
    show ?thesis
    proof (cases "isRunning e ?f")
      case True
      then have "on_outgoing_decrement ?f x = Inr x'" using r by (simp add: only_if_def S)
      then have "bumps x x' (\<lambda>s. if s = ?f then - 1 else 0)" using dec_bumps by blast
      then have "bumps x x' (\<lambda>s. if s = ?f \<and> isRunning e s then - 1 else 0)" by (rule bumps_eq) (use True in auto)
      then show ?thesis by blast
    next
      case False
      then have "x' = x" using r by (simp add: only_if_def S)
      moreover have "bumps x x (\<lambda>s. if s = ?f \<and> isRunning e s then - 1 else 0)" using False by (simp add: bumps_def)
      ultimately show ?thesis by simp
    qed
  qed
  then have "bumps e e' (\<lambda>s. \<Sum>ed\<leftarrow>es. if s = edge_source e ed \<and> isRunning e s then - 1 else 0) \<and> (\<forall>ed\<in>set es. True)"
    using assms by (intro fold_bumps) auto
  then show ?thesis by (simp add: bump_source cong: if_cong)
qed

lemma fold_delayed:
  assumes "fold_res (outer_delayed_along s) es e = Inr e'"
  shows "bumps e e' (\<lambda>x. if x = s then int (length (filter (\<lambda>ed. isLocked e (edge_target e ed)) es)) else 0)"
proof -
  have "bumps x x' (\<lambda>y. if y = s \<and> isLocked e (edge_target e ed) then 1 else 0) \<and> True"
    if "links x = links e" "\<And>s. phase_of x s = phase_of e s" "outer_delayed_along s ed x = Inr x'" for ed x x'
  proof -
    note S = same_links_phases [OF that(1,2)]
    from that(3) have r: "only_if (\<lambda>y. isLocked y (edge_target e ed)) (on_outgoing_increment s) x = Inr x'"
      by (auto simp: outer_delayed_along_def Let_def S)
    show ?thesis
    proof (cases "isLocked e (edge_target e ed)")
      case True
      then have "on_outgoing_increment s x = Inr x'" using r by (simp add: only_if_def S)
      then have "bumps x x' (\<lambda>y. if y = s then 1 else 0)" using inc_bumps by blast
      with True show ?thesis by simp
    next
      case False
      then have "x' = x" using r by (simp add: only_if_def S)
      with False show ?thesis by (simp add: bumps_def)
    qed
  qed
  then have "bumps e e' (\<lambda>y. \<Sum>ed\<leftarrow>es. if y = s \<and> isLocked e (edge_target e ed) then 1 else 0) \<and> (\<forall>ed\<in>set es. True)"
    using assms by (intro fold_bumps) auto
  then have "bumps e e' (\<lambda>y. \<Sum>ed\<leftarrow>es. if y = s \<and> isLocked e (edge_target e ed) then 1 else 0)" by blast
  then show ?thesis by (rule bumps_eq) (simp add: sum_list_count)
qed

lemma sum_member: "distinct xs \<Longrightarrow> (\<Sum>x\<leftarrow>xs. if y = x then (k :: int) else 0) = (if y \<in> set xs then k else 0)"
  by (induction xs) auto

lemma fold_inner:
  assumes "fold_res (inner_outgoing_increment_along s) es e = Inr e'" and "distinct (map (edge_source e) es)"
  shows "bumps e e' (\<lambda>x. if x \<in> edge_source e ` set es then 1 else 0) \<and> (\<forall>ed\<in>set es. isRunning e (edge_source e ed))"
proof -
  have "bumps x x' (\<lambda>y. if y = edge_source e ed then 1 else 0) \<and> isRunning e (edge_source e ed)"
    if "links x = links e" "\<And>s. phase_of x s = phase_of e s" "inner_outgoing_increment_along s ed x = Inr x'" for ed x x'
  proof -
    note S = same_links_phases [OF that(1,2)]
    from that(3) have "on_outgoing_increment (edge_source e ed) x = Inr x'"
      by (auto simp: inner_outgoing_increment_along_def Let_def S)
    from inc_bumps [OF this] show ?thesis by (simp add: S)
  qed
  then have "bumps e e' (\<lambda>y. \<Sum>ed\<leftarrow>es. if y = edge_source e ed then 1 else 0) \<and> (\<forall>ed\<in>set es. isRunning e (edge_source e ed))"
    using assms(1) by (intro fold_bumps) auto
  moreover have "(\<Sum>ed\<leftarrow>es. if y = edge_source e ed then 1 else 0) = (if y \<in> edge_source e ` set es then 1 else (0 :: int))" for y
    using sum_member [OF assms(2), of y 1] by (simp add: comp_def)
  ultimately show ?thesis by simp
qed

lemma fold_inner_dec_sum:
  assumes "fold_res (inner_outgoing_decrement_along s) es e = Inr e'"
  shows "bumps e e' (\<lambda>y. \<Sum>ed\<leftarrow>es. if y = edge_source e ed then - 1 else 0)"
proof -
  have "bumps x x' (\<lambda>y. if y = edge_source e ed then - 1 else 0) \<and> True"
    if "links x = links e" "\<And>s. phase_of x s = phase_of e s" "inner_outgoing_decrement_along s ed x = Inr x'" for ed x x'
  proof -
    note S = same_links_phases [OF that(1,2)]
    from that(3) have "on_outgoing_decrement (edge_source e ed) x = Inr x'"
      by (auto simp: inner_outgoing_decrement_along_def Let_def S)
    from dec_bumps [OF this] show ?thesis by simp
  qed
  then have "bumps e e' (\<lambda>y. \<Sum>ed\<leftarrow>es. if y = edge_source e ed then - 1 else 0) \<and> (\<forall>ed\<in>set es. True)"
    using assms(1) by (intro fold_bumps) auto
  then show ?thesis by blast
qed

lemma fold_inner_dec:
  assumes "fold_res (inner_outgoing_decrement_along s) es e = Inr e'" and "distinct (map (edge_source e) es)"
  shows "bumps e e' (\<lambda>x. if x \<in> edge_source e ` set es then - 1 else 0)"
proof -
  have "(\<Sum>ed\<leftarrow>es. if y = edge_source e ed then - 1 else 0) = (if y \<in> edge_source e ` set es then - 1 else (0 :: int))" for y
    using sum_member [OF assms(2), of y "- 1"] by (simp add: comp_def)
  with fold_inner_dec_sum [OF assms(1)] show ?thesis by simp
qed

section \<open>Moves made by operations\<close>

lemma transition_moves:
  assumes "do_transition_phase s p q e = Inr e'"
  shows "phase_of e s = p" "moves e e' s q" "uses_of e' x = uses_of e x"
  using assms
  by (auto simp: do_transition_phase_def do_transition_phase_silent_def observe_def moves_def upd_svc_def links_def tree_def
      isConnected_def isWeak_def)

lemma moves_core: "moves e e1 s p \<Longrightarrow> core e2 = core e1 \<Longrightarrow> moves e e2 s p"
  using core_links [of e2 e1] coreD(1) [of e2 e1] by (simp add: moves_def)

lemma core_moves: "core e1 = core e \<Longrightarrow> moves e1 e2 s p \<Longrightarrow> moves e e2 s p"
  using core_links [of e1 e] coreD(1) [of e1 e] by (simp add: moves_def)

lemma moves_bumps: "moves e e1 s p \<Longrightarrow> bumps e1 e2 d \<Longrightarrow> moves e e2 s p"
  by (simp add: moves_def bumps_def)

lemma bumps_moves: "bumps e e1 d \<Longrightarrow> moves e1 e2 s p \<Longrightarrow> moves e e2 s p"
  by (simp add: moves_def bumps_def)

lemma moves_root: "moves e e' s p \<Longrightarrow> root e' = root e"
  by (rule linksD(14)) (rule movesD(1))

lemma wf_engine_moves:
  assumes "life_inv e h" and "moves e e' s p" and "live_phase p"
  shows "wf_engine e'"
  using life_invD(1,2) [OF assms(1)] movesD [OF assms(2)] assms(3) by (intro wf_engine_live [of e' e]) auto

lemma uint_unat_eq:
  assumes "uint (a :: 32 word) = uint b + int k"
  shows "unat a = unat b + k"
proof -
  have "int (unat a) = int (unat b + k)" using assms by simp
  then show ?thesis by (simp only: of_nat_eq_iff)
qed

lemma uint_unat_diff:
  assumes "uint (a :: 32 word) = uint b - int k"
  shows "unat a + k = unat b"
proof -
  have "int (unat a + k) = int (unat b)" using assms by simp
  then show ?thesis by (simp only: of_nat_eq_iff)
qed

subsection \<open>Lock and unlock\<close>

lemma keeps_observe_each: "keeps b (each xs (\<lambda>p. observe (f p)))"
  by (intro keeps_rules)

lemma outer_increment_bumps:
  assumes "wf_engine e" and "m < nsvc e" and "call_on_outer_outgoing_increment m e = Inr e'"
  shows "bumps e e' (\<lambda>x. int (use_of e m x)) \<and> links_running e m"
proof -
  from assms(3) obtain e1 e2 where
    1: "require_external_edge m e = Inr e1" and
    2: "each_in (\<lambda>e. service_in_edges e m external_graph) (outer_outgoing_increment_along m) e1 = Inr e2" and
    3: "only_if (\<lambda>e. has_implicit_root_edge e m) (\<lambda>e. on_outgoing_increment (root e) e) e2 = Inr e'"
    by (auto simp: call_on_outer_outgoing_increment_def)
  have "e1 = e" using 1 by (auto simp: require_external_edge_def)
  then have "fold_res (outer_outgoing_increment_along m) (parent_edge e m @ import_edges e m) e = Inr e2"
    using 2 service_edges_eq(1) [OF wf_engineD(1) [OF assms(1)] assms(2)] by (simp add: each_in_def lift_range_def)
  note f = fold_outer_inc [OF this]
  have b2: "bumps e e2 (\<lambda>x. if isRunning e x then int (dep e x m) else 0)"
    using f unfolding in_edges_from [OF assms(1,2)] by blast
  note S = bumpsD [OF b2]
  have b3: "bumps e2 e' (\<lambda>x. if has_implicit_root_edge e m \<and> x = root e then 1 else 0)
      \<and> (has_implicit_root_edge e m \<longrightarrow> isRunning e (root e))"
  proof (cases "has_implicit_root_edge e m")
    case True
    then have "on_outgoing_increment (root e) e2 = Inr e'"
      using 3 by (simp add: only_if_def links_implicit [OF S(1)] linksD [OF S(1)])
    from inc_bumps [OF this] True S(3) show ?thesis by simp
  next
    case False
    then have "e' = e2" using 3 by (simp add: only_if_def links_implicit [OF S(1)])
    with False show ?thesis by (simp add: bumps_def)
  qed
  have "bumps e e' (\<lambda>x. int (use_of e m x))"
    by (rule bumps_eq [OF bumps_trans [OF b2 conjunct1 [OF b3]]]) (use b3 in \<open>auto simp: use_of_def\<close>)
  moreover have q: "edge_isWeak e ed \<or> isRunning e (edge_source e ed)" if "ed \<in> set (parent_edge e m) \<union> set (import_edges e m)" for ed
    using conjunct2 [OF f] that by (simp only: set_append)
  moreover have "isRunning e x" if "parent_dep e x m" for x
  proof -
    have "(NExport (parent e m), NService m) \<in> set (parent_edge e m)"
      using that by (simp add: parent_dep_def parent_edge_def isRoot_iff [OF wf_engineD(3) [OF assms(1)]])
    then have "edge_isWeak e (NExport (parent e m), NService m) \<or> isRunning e (edge_source e (NExport (parent e m), NService m))"
      using q by blast
    then show ?thesis using that by (simp add: parent_dep_def)
  qed
  moreover have "isRunning e x" if "usage_dep e x m u" "\<not> isWeak e u" for x u
  proof -
    have u: "u \<in> set (imported e m)" using that imported_spec(2) [OF assms(1)] by (simp add: usage_dep_def)
    then obtain p where "p \<in> set (imports_of e m)" "u \<in> set (p_imports (prt e p))" by (auto simp: imported_def)
    then have "(NUsage u, NImport p) \<in> set (import_edges e m)" by (auto simp: import_edges_def)
    then have "edge_isWeak e (NUsage u, NImport p) \<or> isRunning e (edge_source e (NUsage u, NImport p))" using q by blast
    then show ?thesis using that by (simp add: usage_dep_def)
  qed
  ultimately show ?thesis using b3 unfolding links_running_def by blast
qed

lemma outer_decrement_bumps:
  assumes "wf_engine e" and "m < nsvc e" and "call_on_outer_outgoing_decrement m e = Inr e'"
  shows "bumps e e' (\<lambda>x. - int (use_of e m x))"
proof -
  from assms(3) obtain e1 e2 where
    1: "require_external_edge m e = Inr e1" and
    2: "each_in (\<lambda>e. service_in_edges e m external_graph) (outer_outgoing_decrement_along m) e1 = Inr e2" and
    3: "only_if (\<lambda>e. has_implicit_root_edge e m) (\<lambda>e. on_outgoing_decrement (root e) e) e2 = Inr e'"
    by (auto simp: call_on_outer_outgoing_decrement_def)
  have "e1 = e" using 1 by (auto simp: require_external_edge_def)
  then have "fold_res (outer_outgoing_decrement_along m) (parent_edge e m @ import_edges e m) e = Inr e2"
    using 2 service_edges_eq(1) [OF wf_engineD(1) [OF assms(1)] assms(2)] by (simp add: each_in_def lift_range_def)
  note f = fold_outer_dec [OF this]
  have b2: "bumps e e2 (\<lambda>x. if isRunning e x then - int (dep e x m) else 0)"
    using f unfolding in_edges_from [OF assms(1,2)] by blast
  note S = bumpsD [OF b2]
  have b3: "bumps e2 e' (\<lambda>x. if has_implicit_root_edge e m \<and> x = root e then - 1 else 0)
      \<and> (has_implicit_root_edge e m \<longrightarrow> isRunning e (root e))"
  proof (cases "has_implicit_root_edge e m")
    case True
    then have "on_outgoing_decrement (root e) e2 = Inr e'"
      using 3 by (simp add: only_if_def links_implicit [OF S(1)] linksD [OF S(1)])
    from dec_bumps [OF this] True S(3) show ?thesis by simp
  next
    case False
    then have "e' = e2" using 3 by (simp add: only_if_def links_implicit [OF S(1)])
    with False show ?thesis by (simp add: bumps_def)
  qed
  show ?thesis by (rule bumps_eq [OF bumps_trans [OF b2 conjunct1 [OF b3]]]) (use b3 in \<open>auto simp: use_of_def\<close>)
qed

lemma use_of_cong:
  assumes "links e' = links e" and "\<And>x. isRunning e' x = isRunning e x"
  shows "use_of e' m x = use_of e m x" "links_running e' m = links_running e m"
  by (simp_all add: use_of_def links_running_def links_deps [OF assms(1)] links_implicit [OF assms(1)] linksD [OF assms(1)] assms(2))

lemma lock_member_life:
  assumes inv: "life_inv e h" and "lock_member m e = Inr e'"
  shows "life_inv e' h" "phase_of e m = stopped" "moves e e' m locked"
proof -
  from assms(2) obtain e1 e2 e3 where
    1: "gc_on_service_start m e = Inr e1" and 2: "do_transition_phase m stopped locked e1 = Inr e2" and
    3: "call_on_outer_outgoing_increment m e2 = Inr e3" and
    4: "each (\<lambda>e. imports_of e m) (\<lambda>p. observe (ImportLock p)) e3 = Inr e'"
    by (auto simp: lock_member_def)
  have c1: "core e1 = core e" by (rule keepsD [OF keeps_gc_start [of False] 1]) simp
  have c4: "core e' = core e3" by (rule keepsD [OF keeps_observe_each [of False] 4]) simp
  note t = transition_moves [OF 2]
  show st: "phase_of e m = stopped" using t(1) coreD(1) [OF c1] by simp
  have m: "m < nsvc e" using live_lt [OF inv, of m] st by simp
  have mv2: "moves e e2 m locked" by (rule core_moves [OF c1 t(2)])
  have wf2: "wf_engine e2" by (rule wf_engine_moves [OF inv mv2]) (simp add: live_phase_def)
  have m2: "m < nsvc e2" using m linksD(15) [OF movesD(1) [OF mv2]] by simp
  note b = outer_increment_bumps [OF wf2 m2 3]
  show mv: "moves e e' m locked" by (rule moves_core [OF moves_bumps [OF mv2] c4]) (use b in blast)
  have rn: "isRunning e2 x = isRunning e x" for x using movesD(2) [OF mv2] st by (simp add: isRunning_def)
  note u = use_of_cong [OF movesD(1) [OF mv2] rn]
  show "life_inv e' h"
  proof (rule lock_life [OF inv mv m st])
    show "links_running e m" using b u(2) by simp
    have "uint (uses_of e3 x) = uint (uses_of e2 x) + int (use_of e2 m x)" for x using b bumpsD(5) by blast
    then show "unat (uses_of e' x) = unat (uses_of e x) + use_of e m x" for x
      using t(3) coreD(2) [OF c1] coreD(2) [OF c4] u(1) by (intro uint_unat_eq) simp
  qed
qed

lemma unlock_member_life:
  assumes inv: "life_inv e h" and m: "m < nsvc e" and "unlock_member g m e = Inr e'"
  shows "life_inv e' h" "phase_of e m = pending" "moves e e' m stopped"
proof -
  from assms(3) obtain e1 e2 where
    1: "each (\<lambda>e. imports_of e m) (\<lambda>p. observe (ImportUnlock p)) e = Inr e1" and
    2: "call_on_outer_outgoing_decrement m e1 = Inr e2" and 3: "do_transition_phase m pending stopped e2 = Inr e'"
    by (auto simp: unlock_member_def)
  have c1: "core e1 = core e" by (rule keepsD [OF keeps_observe_each [of False] 1]) simp
  note t = transition_moves [OF 3]
  have m1: "m < nsvc e1" using m coreD(9) [OF c1] by simp
  have b: "bumps e1 e2 (\<lambda>x. - int (use_of e1 m x))"
    by (rule outer_decrement_bumps [OF wf_engine_core [OF c1 life_invD(1) [OF inv]] m1 2])
  show pe: "phase_of e m = pending" using t(1) bumpsD(2) [OF b] coreD(1) [OF c1] by simp
  show mv: "moves e e' m stopped" by (rule core_moves [OF c1 bumps_moves [OF b t(2)]])
  have rn: "isRunning e1 x = isRunning e x" for x using coreD(1) [OF c1] by (simp add: isRunning_def)
  note u = use_of_cong [OF core_links [OF c1] rn]
  show "life_inv e' h"
  proof (rule unlock_life [OF inv mv m pe])
    show "unat (uses_of e' x) + use_of e m x = unat (uses_of e x)" for x
      using bumpsD(5) [OF b, of x] t(3) [of x] coreD(2) [OF c1] u(1) by (intro uint_unat_diff) simp
  qed
qed

section \<open>Operations that keep the invariant\<close>

definition pres :: "op \<Rightarrow> bool" where
  "pres f \<longleftrightarrow> (\<forall>e e' h. life_inv e h \<longrightarrow> rootok e \<longrightarrow> f e = Inr e' \<longrightarrow> life_inv e' h \<and> rootok e')"

lemma presI: "(\<And>e e' h. life_inv e h \<Longrightarrow> rootok e \<Longrightarrow> f e = Inr e' \<Longrightarrow> life_inv e' h \<and> rootok e') \<Longrightarrow> pres f"
  unfolding pres_def by blast

lemma presD: "pres f \<Longrightarrow> life_inv e h \<Longrightarrow> rootok e \<Longrightarrow> f e = Inr e' \<Longrightarrow> life_inv e' h \<and> rootok e'"
  unfolding pres_def by blast

lemma keeps_pres:
  assumes "keeps True f"
  shows "pres f"
proof (rule presI)
  fix e e' h assume "life_inv e h" "rootok e" "f e = Inr e'"
  then have "core e' = core e" using assms keepsD by blast
  from life_inv_core [OF this \<open>life_inv e h\<close>] rootok_core [OF this] \<open>rootok e\<close>
  show "life_inv e' h \<and> rootok e'" by blast
qed

lemma pres_two:
  assumes "pres f" and "pres g" and "life_inv e h" and "rootok e" and "f e = Inr x" and "g x = Inr e'"
  shows "life_inv e' h \<and> rootok e'"
proof -
  have "life_inv x h \<and> rootok x" by (rule presD [OF assms(1,3,4,5)])
  then show ?thesis using presD [OF assms(2), of x h e'] assms(6) by blast
qed

lemma pres_run_Nil: "pres (run [])"
  by (rule presI) simp

lemma pres_run_Cons:
  assumes "pres f" and "pres (run fs)"
  shows "pres (run (f # fs))"
proof (rule presI)
  fix e e' h assume *: "life_inv e h" "rootok e" "run (f # fs) e = Inr e'"
  then obtain x where x: "f e = Inr x" "run fs x = Inr e'" by auto
  show "life_inv e' h \<and> rootok e'" using pres_two [OF assms *(1,2), of x e'] x by blast
qed

lemma pres_ife:
  assumes "pres f" and "pres g"
  shows "pres (\<lambda>e. if P e then f e else g e)"
proof (rule presI)
  fix e e' h assume *: "life_inv e h" "rootok e" "(if P e then f e else g e) = Inr e'"
  show "life_inv e' h \<and> rootok e'"
    using presD [OF assms(1) *(1,2), of e'] presD [OF assms(2) *(1,2), of e'] *(3) by (cases "P e") simp_all
qed

lemma pres_only_if:
  assumes "pres f"
  shows "pres (only_if P f)"
proof -
  have "pres Inr" by (rule presI) simp
  from pres_ife [OF assms this] show ?thesis by (simp add: only_if_def [abs_def])
qed

lemma pres_fold:
  assumes "\<And>x. x \<in> set xs \<Longrightarrow> pres (f x)"
  shows "pres (fold_res f xs)"
  using assms
proof (induction xs)
  case Nil
  show ?case by (rule presI) simp
next
  case (Cons x xs)
  show ?case
  proof (rule presI)
    fix e e' h assume *: "life_inv e h" "rootok e" "fold_res f (x # xs) e = Inr e'"
    then obtain y where y: "f x e = Inr y" "fold_res f xs y = Inr e'" by auto
    have "pres (f x)" "pres (fold_res f xs)" using Cons by auto
    from pres_two [OF this *(1,2), of y e'] y show "life_inv e' h \<and> rootok e'" by blast
  qed
qed

lemma pres_each: "(\<And>x. pres (f x)) \<Longrightarrow> pres (each xs f)"
  using pres_fold [of _ f] unfolding pres_def each_def by blast

lemma pres_if: "(P \<Longrightarrow> pres f) \<Longrightarrow> (\<not> P \<Longrightarrow> pres g) \<Longrightarrow> pres (if P then f else g)"
  by simp

lemma pres_require: "pres (require P)"
  by (rule presI) simp

lemmas pres_rules = pres_run_Cons pres_run_Nil pres_only_if pres_require pres_if

subsection \<open>Starting\<close>

lemma lock_members:
  assumes "life_inv e h" and "fold_res lock_member ms e = Inr e'"
  shows "life_inv e' h \<and> links e' = links e \<and> (\<forall>x. phase_of e' x = (if x \<in> set ms then locked else phase_of e x))
    \<and> (\<forall>x\<in>set ms. phase_of e x = stopped)"
  using assms
proof (induction ms arbitrary: e)
  case (Cons m ms)
  then obtain y where y: "lock_member m e = Inr y" "fold_res lock_member ms y = Inr e'" by auto
  note l = lock_member_life [OF Cons.prems(1) y(1)]
  note D = movesD [OF l(3)]
  from Cons.IH [OF l(1) y(2)] l(2) D show ?case by (auto split: if_splits)
qed simp

lemma lock_cluster_life:
  assumes "life_inv e h" and "do_lock_cluster g e = Inr e'"
  shows "life_inv e' h \<and> links e' = links e \<and> (\<exists>ms. (\<forall>x. phase_of e' x = (if x \<in> set ms then locked else phase_of e x))
    \<and> (\<forall>x\<in>set ms. phase_of e x = stopped))"
proof -
  from assms(2) obtain e1 where 1: "fold_res lock_member (cluster_members e g) e = Inr e1"
    and 2: "run [each (\<lambda>e. interfaces_of e g) (\<lambda>p. observe (InterfaceLock p)),
     each (\<lambda>e. cluster_members e g) setup_member, each (\<lambda>e. cluster_members e g) call_on_cluster_running_increment] e1 = Inr e'"
    by (auto simp: do_lock_cluster_def each_def)
  have "keeps False (run [each (\<lambda>e. interfaces_of e g) (\<lambda>p. observe (InterfaceLock p)),
     each (\<lambda>e. cluster_members e g) setup_member, each (\<lambda>e. cluster_members e g) call_on_cluster_running_increment])"
    by (intro keeps_rules frame)
  then have "core e' = core e1" using 2 by (rule keepsD) simp
  note c = life_inv_core [OF this] core_links [OF this] coreD [OF this]
  note l = lock_members [OF assms(1) 1]
  show ?thesis
    using l c(1) by (intro conjI exI [of _ "cluster_members e g"]) (simp_all add: c(2-))
qed

lemma member_sources: "edge_source e ` set (member_edges e s) = set (import_children e s)"
  by (metis member_edges_sources set_map)

lemma inner_increment_bumps:
  assumes "wf_engine e" and "s < nsvc e" and "call_on_inner_outgoing_increment s e = Inr e'"
  shows "bumps e e' (\<lambda>x. if x \<in> set (import_children e s) then 1 else 0) \<and> (\<forall>c\<in>set (import_children e s). isRunning e c)"
proof -
  have "fold_res (inner_outgoing_increment_along s) (member_edges e s) e = Inr e'"
    using assms(3) service_edges_eq(3) [OF wf_engineD(1) [OF assms(1)] assms(2)]
    by (simp add: call_on_inner_outgoing_increment_def each_in_def lift_range_def)
  from fold_inner [OF this] have f: "bumps e e' (\<lambda>x. if x \<in> set (import_children e s) then 1 else 0)"
    "\<forall>ed\<in>set (member_edges e s). isRunning e (edge_source e ed)"
    by (simp_all add: member_edges_sources import_children_spec(1) [OF assms(1)] member_sources)
  have "\<forall>c\<in>set (import_children e s). isRunning e c"
    using f(2) by (simp flip: member_sources)
  with f(1) show ?thesis by blast
qed

lemma inner_decrement_bumps:
  assumes "wf_engine e" and "s < nsvc e" and "call_on_inner_outgoing_decrement s e = Inr e'"
  shows "bumps e e' (\<lambda>x. if x \<in> set (import_children e s) then - 1 else 0)"
proof -
  have "fold_res (inner_outgoing_decrement_along s) (member_edges e s) e = Inr e'"
    using assms(3) service_edges_eq(3) [OF wf_engineD(1) [OF assms(1)] assms(2)]
    by (simp add: call_on_inner_outgoing_decrement_def each_in_def lift_range_def)
  from fold_inner_dec [OF this] show ?thesis
    by (simp add: member_edges_sources import_children_spec(1) [OF assms(1)] member_sources)
qed

lemma enter_start_life:
  assumes inv: "life_inv e h" and "run [do_transition_phase s locked starting, require (\<lambda>e. uses_of e s = 0),
     (\<lambda>e. Inr (upd_svc s (\<lambda>x. x\<lparr>s_uses := s_uses x + 1\<rparr>) e)), call_on_inner_outgoing_increment s, observe (OnStart s)] e = Inr e'"
  shows "life_inv e' h \<and> moves e e' s starting \<and> phase_of e s = locked"
proof -
  from assms(2) obtain e1 e2 where 1: "do_transition_phase s locked starting e = Inr e1" and u: "uses_of e1 s = 0"
    and 2: "call_on_inner_outgoing_increment s (upd_svc s (\<lambda>x. x\<lparr>s_uses := s_uses x + 1\<rparr>) e1) = Inr e2"
    and 3: "observe (OnStart s) e2 = Inr e'"
    by auto
  let ?e = "upd_svc s (\<lambda>x. x\<lparr>s_uses := s_uses x + 1\<rparr>) e1"
  note t = transition_moves [OF 1]
  have s: "s < nsvc e" using live_lt [OF inv, of s] t(1) by simp
  have mv1: "moves e ?e s starting" using t(2) by (simp add: moves_def links_upd_svc)
  have wf: "wf_engine ?e" by (rule wf_engine_moves [OF inv mv1]) (simp add: live_phase_def)
  have s1: "s < nsvc ?e" using s linksD(15) [OF movesD(1) [OF mv1]] by simp
  note b = inner_increment_bumps [OF wf s1 2]
  have ch: "import_children ?e s = import_children e s"
    by (simp add: import_children_def linksD [OF movesD(1) [OF mv1]] links_parts [OF movesD(1) [OF mv1]])
  have c3: "core e' = core e2" by (rule keepsD [OF keeps_observe [of False] 3]) simp
  have mv: "moves e e' s starting" by (rule moves_core [OF moves_bumps [OF mv1] c3]) (use b in blast)
  have rn: "isRunning ?e c = isRunning e c" for c using movesD(2) [OF mv1] t(1) by (simp add: isRunning_def)
  have "life_inv e' h"
  proof (rule start_life [OF inv mv s t(1)])
    show "isRunning e c" if "c \<in> set (import_children e s)" for c using b that ch rn by simp
    then have ns: "s \<notin> set (import_children e s)" using t(1) by (auto simp: isRunning_def)
    have "uint (uses_of e' x) = uint (uses_of ?e x) + (if x \<in> set (import_children e s) then 1 else 0)" for x
      using bumpsD(5) [OF conjunct1 [OF b], of x] coreD(2) [OF c3] ch by simp
    then have "unat (uses_of e' x) = unat (uses_of ?e x) + (if x \<in> set (import_children e s) then 1 else 0)" for x
      by (intro uint_unat_eq) simp
    then show "unat (uses_of e' x) = unat (uses_of e x) + (if x = s then 1 else 0) + (if x \<in> set (import_children e s) then 1 else 0)" for x
      using u t(3) ns by auto
  qed
  with mv t(1) show ?thesis by blast
qed

lemma pres_begin_start: "pres (begin_start s)"
proof (rule presI)
  fix e e' h assume inv: "life_inv e h" and ro: "rootok e" and "begin_start s e = Inr e'"
  then obtain e1 where rt: "isRoot e s \<or> isRunning e (root e)"
    and 1: "only_if (\<lambda>e. \<not> isLocked e s) (\<lambda>e. do_lock_cluster (get_cluster_head_of e s) e) e = Inr e1"
    and 2: "run [do_transition_phase s locked starting, require (\<lambda>e. uses_of e s = 0),
     (\<lambda>e. Inr (upd_svc s (\<lambda>x. x\<lparr>s_uses := s_uses x + 1\<rparr>) e)), call_on_inner_outgoing_increment s, observe (OnStart s)] e1 = Inr e'"
    by (auto simp: begin_start_def)
  have l: "life_inv e1 h \<and> links e1 = links e \<and> (\<exists>ms. (\<forall>x. phase_of e1 x = (if x \<in> set ms then locked else phase_of e x))
      \<and> (\<forall>x\<in>set ms. phase_of e x = stopped))"
  proof (cases "isLocked e s")
    case True
    with 1 inv show ?thesis by (auto simp: only_if_def intro: exI [of _ "[]"])
  next
    case False
    then have "do_lock_cluster (get_cluster_head_of e s) e = Inr e1" using 1 by (simp add: only_if_def)
    then show ?thesis by (rule lock_cluster_life [OF inv])
  qed
  then have inv1: "life_inv e1 h" by simp
  note s = enter_start_life [OF inv1 2]
  have r: "root e1 = root e" "root e' = root e1"
    using linksD(14) [of e1 e] l moves_root [of e1 e' s starting] s by simp_all
  have "rootok e'"
  proof (cases "s = root e")
    case True
    then show ?thesis using s r movesD(2) [of e1 e' s starting "root e"] by simp
  next
    case False
    then have "isRunning e (root e)" using rt isRoot_iff [OF wf_engineD(3) [OF life_invD(1) [OF inv]]] by simp
    then have "phase_of e1 (root e) = running" using l by (auto simp: isRunning_def)
    then show ?thesis using False s r movesD(2) [of e1 e' s starting "root e"] by simp
  qed
  with s show "life_inv e' h \<and> rootok e'" by blast
qed

lemma run_service_life:
  assumes inv: "life_inv e h" and "run [do_transition_phase s starting running, call_on_outer_delayed_outgoing_increment s] e = Inr e'"
  shows "life_inv e' h \<and> moves e e' s running"
proof -
  from assms(2) obtain e1 where 1: "do_transition_phase s starting running e = Inr e1"
    and 2: "each_in (\<lambda>e. service_out_edges e s external_graph) (outer_delayed_along s) e1 = Inr e'"
    by (auto simp: call_on_outer_delayed_outgoing_increment_def)
  note t = transition_moves [OF 1]
  have s: "s < nsvc e" using live_lt [OF inv, of s] t(1) by simp
  have wf: "wf_engine e1" by (rule wf_engine_moves [OF inv t(2)]) (simp add: live_phase_def)
  have s1: "s < nsvc e1" using s linksD(15) [OF movesD(1) [OF t(2)]] by simp
  have "fold_res (outer_delayed_along s) (export_edges e1 s) e1 = Inr e'"
    using 2 service_edges_eq(2) [OF wf_engineD(1) [OF wf] s1] by (simp add: each_in_def lift_range_def)
  note b = fold_delayed [OF this]
  have mv: "moves e e' s running" by (rule moves_bumps [OF t(2) b])
  have lk: "isLocked e1 x = isLocked e x" for x using movesD(2) [OF t(2)] t(1) by (simp add: isLocked_def is_between_def)
  have lo: "length (filter (\<lambda>ed. isLocked e1 (edge_target e1 ed)) (export_edges e1 s)) = locked_out e s"
    unfolding out_edges_to [OF wf] using locked_out_cong(1) [OF movesD(1) [OF t(2)] lk, of s] by (simp add: locked_out_def)
  have "life_inv e' h"
  proof (rule run_life [OF inv mv s t(1)])
    show "unat (uses_of e' x) = unat (uses_of e x) + (if x = s then locked_out e s else 0)" for x
      using bumpsD(5) [OF b, of x] t(3) [of x] lo by (intro uint_unat_eq) simp
  qed
  with mv show ?thesis by blast
qed

lemma pres_run_service:
  "pres (run [do_transition_phase s starting running, call_on_outer_delayed_outgoing_increment s])"
proof (rule presI)
  fix e e' h assume *: "life_inv e h" "rootok e"
    "run [do_transition_phase s starting running, call_on_outer_delayed_outgoing_increment s] e = Inr e'"
  note r = run_service_life [OF *(1,3)]
  then have "root e' = root e" using moves_root by blast
  with r *(2) movesD(2) [of e e' s running] show "life_inv e' h \<and> rootok e'" by auto
qed

end
