(* ===== verification/Usage_Life.thy ===== *)
theory Usage_Life
  imports Lifecycle_Safety
begin

text \<open>
  Connecting and disconnecting usages as state changes, and the operation that disconnects: a usage of a
  running service by a locked one is counted while it is connected.
\<close>

section \<open>One usage more or less\<close>

definition one_more :: "engine \<Rightarrow> engine \<Rightarrow> uid \<Rightarrow> bool" where
  "one_more a b u \<longleftrightarrow> tree b = tree a \<and> (\<forall>s. phase_of b s = phase_of a s) \<and> \<not> isConnected a u
     \<and> (\<forall>v. u_used (usg b v) = u_used (usg a v) \<and> u_user (usg b v) = u_user (usg a v))
     \<and> (\<forall>v. isConnected b v \<longleftrightarrow> isConnected a v \<or> v = u) \<and> (\<forall>v. v \<noteq> u \<longrightarrow> isWeak b v = isWeak a v)"

lemma one_moreD:
  assumes "one_more a b u"
  shows "tree b = tree a" "phase_of b s = phase_of a s" "\<not> isConnected a u"
    "u_used (usg b v) = u_used (usg a v)" "u_user (usg b v) = u_user (usg a v)"
    "isConnected b v \<longleftrightarrow> isConnected a v \<or> v = u" "v \<noteq> u \<Longrightarrow> isWeak b v = isWeak a v"
  using assms unfolding one_more_def by blast+

lemma one_more_deps:
  assumes "one_more a b u"
  shows "parent_dep b = parent_dep a" "has_implicit_root_edge b = has_implicit_root_edge a"
    "usage_dep b x m v \<longleftrightarrow> usage_dep a x m v \<or> v = u \<and> x = used_service a u \<and> m = user_service a u"
    "inner_use b x = inner_use a x" "root_use b x = root_use a x"
proof -
  note D = one_moreD [OF assms] and T = treeD [OF one_moreD(1) [OF assms]] tree_parts [OF one_moreD(1) [OF assms]]
  have lk: "isLocked b = isLocked a" by (simp add: fun_eq_iff isLocked_def D(2))
  show i: "has_implicit_root_edge b = has_implicit_root_edge a" by (simp add: fun_eq_iff has_implicit_root_edge_def T)
  show "parent_dep b = parent_dep a" by (simp add: fun_eq_iff parent_dep_def T)
  show "usage_dep b x m v \<longleftrightarrow> usage_dep a x m v \<or> v = u \<and> x = used_service a u \<and> m = user_service a u"
    using D(3) by (auto simp: usage_dep_def D(4-6) T)
  show "inner_use b x = inner_use a x" "root_use b x = root_use a x" by (simp_all add: inner_use_def root_use_def T D(2) i lk)
qed

lemma one_more_locked_out:
  assumes "one_more a b u" and "wf_engine a"
  shows "locked_out b x = locked_out a x + (if x = used_service a u \<and> isLocked a (user_service a u) then 1 else 0)"
proof -
  note D = one_moreD [OF assms(1)] and E = one_more_deps [OF assms(1)] and T = treeD [OF one_moreD(1) [OF assms(1)]]
  have lk: "isLocked b = isLocked a" by (simp add: fun_eq_iff isLocked_def D(2))
  define U where "U = {v. usage_dep a x (user_service a v) v \<and> isLocked a (user_service a v)}"
  define B where "B = {v. usage_dep b x (user_service b v) v \<and> isLocked b (user_service b v)}"
  define P where "P \<longleftrightarrow> x = used_service a u \<and> isLocked a (user_service a u)"
  have "B = (if P then insert u U else U)" by (auto simp: B_def U_def P_def E(3) D(4,5) T lk)
  moreover have "finite U" unfolding U_def by (rule finite_deps(2) [OF assms(2)])
  moreover have "u \<notin> U" using D(3) by (simp add: U_def usage_dep_def)
  ultimately have "card B = card U + (if P then 1 else 0)" by simp
  then show ?thesis by (simp only: locked_out_def E(1) lk add.assoc U_def B_def P_def)
qed

lemma wf_engine_tree:
  assumes "tree st' = tree st" and "wf_engine st" and "\<And>s. s < nsvc st \<Longrightarrow> live_phase (phase_of st' s)"
    and "wf_usages st'" and "\<And>v. isConnected st' v \<Longrightarrow> user_service st' v \<noteq> used_service st' v"
  shows "wf_engine st'"
proof -
  note T = treeD [OF assms(1)] tree_parts [OF assms(1)] tree_iterators [OF assms(1)] tree_wf [OF assms(1)]
  have "isInitializedUnsafe st' c" if "c \<in> set (p_children (prt st p))" for c p
    using assms(3) [of c] that wf_treeD(9) [OF wf_engineD(3) [OF assms(2)]]
    by (fastforce simp: live_phase_def isInitializedUnsafe_def)
  moreover have "s < nsvc st" if "s_parts (svc st s) \<noteq> []" for s
    using that wf_engineD(1) [OF assms(2)] by (simp add: wf_graph_def)
  ultimately have "wf_graph st'" using assms(4,5) wf_engineD(4) [OF assms(2)] by (simp add: wf_graph_def T)
  moreover have "wf_clusters st'" "all_attached st'"
    using assms(2) by (simp_all add: wf_engine_def wf_clusters_def is_in_same_cluster_def T)
  ultimately show ?thesis by (simp add: wf_engine_def)
qed

lemma disconnect_life:
  assumes inv: "life_inv b h" and om: "one_more a b u" and wu: "wf_usages a"
    and us: "\<And>x. unat (uses_of a x) + (if x = used_service b u \<and> isRunning b x \<and> isLocked b (user_service b u) then 1 else 0)
       = unat (uses_of b x)"
  shows "life_inv a h"
proof -
  note D = one_moreD [OF om] and E = one_more_deps [OF om] and T = treeD [OF one_moreD(1) [OF om]]
    tree_parts [OF one_moreD(1) [OF om]] and up = life_invD(5) [OF inv]
  have wf: "wf_engine a"
  proof (rule wf_engine_tree [OF D(1) [symmetric] life_invD(1) [OF inv] _ wu])
    show "live_phase (phase_of a s)" if "s < nsvc b" for s using life_invD(2) [OF inv that] by (simp add: D(2))
    show "user_service a v \<noteq> used_service a v" if "isConnected a v" for v
      using wf_graphD(5) [OF wf_engineD(1) [OF life_invD(1) [OF inv]], of v] that by (simp add: D(4-6) T)
  qed
  note lo = one_more_locked_out [OF om wf]
  have lk: "isLocked b = isLocked a" and rn: "isRunning b = isRunning a"
    by (simp_all add: fun_eq_iff isLocked_def isRunning_def D(2))
  have "uses_ok a h x" for x
  proof (rule uses_ok_step [OF life_invD(4) [OF inv]])
    show "phase_of a x = phase_of b x" by (simp add: D(2))
    show "uses_of a x = uses_of b x" if "\<not> isRunning b x" using us [of x] that by (simp add: word_unat_eq_iff)
    show "unat (uses_of a x) = all_uses a h x" if r: "isRunning b x"
      using running_uses [OF life_invD(4) [OF inv] r] us [of x] r
      by (simp add: all_uses_def lo E(4,5) lk D(4,5) T split: if_splits)
  qed
  moreover have "deps_up a" unfolding deps_up_def
  proof (intro conjI allI impI)
    show "isRunning a x" if "parent_dep a x m \<and> isLocked a m" for x m
      using that deps_upD(1) [OF up, of x m] by (simp add: E lk rn)
    show "isRunning a x" if "usage_dep a x m v \<and> isLocked a m \<and> \<not> isWeak a v" for x m v
    proof -
      have "v \<noteq> u" using that D(3) by (auto simp: usage_dep_def)
      then show ?thesis using that deps_upD(2) [OF up, of x m v] by (simp add: E(3) lk rn D(7))
    qed
    show "isRunning a c" if "c < nsvc a" "isa_import a (parent a c) \<and> up_phase (phase_of a (owner a (parent a c)))" for c
      using that deps_upD(3) [OF up, of c] by (simp add: T rn D(2))
    show "isRunning a (root a)" if "m < nsvc a" "has_implicit_root_edge a m \<and> isLocked a m" for m
      using that deps_upD(4) [OF up, of m] by (simp add: T rn lk E(2))
  qed
  ultimately show ?thesis
    using wf life_invD(2,3) [OF inv] by (auto simp: life_inv_def T D(2))
qed

lemma connect_life:
  assumes inv: "life_inv a h" and om: "one_more a b u" and wu: "wf_usages b"
    and ne: "user_service a u \<noteq> used_service a u"
    and strong: "isWeak b u \<or> isRunning a (used_service a u) \<or> \<not> isLocked a (user_service a u)"
    and us: "\<And>x. unat (uses_of b x)
       = unat (uses_of a x) + (if x = used_service a u \<and> isRunning a x \<and> isLocked a (user_service a u) then 1 else 0)"
  shows "life_inv b h"
proof -
  note D = one_moreD [OF om] and E = one_more_deps [OF om] and T = treeD [OF one_moreD(1) [OF om]]
    tree_parts [OF one_moreD(1) [OF om]] and up = life_invD(5) [OF inv]
  have wf: "wf_engine b"
  proof (rule wf_engine_tree [OF D(1) life_invD(1) [OF inv] _ wu])
    show "live_phase (phase_of b s)" if "s < nsvc a" for s using life_invD(2) [OF inv that] by (simp add: D(2))
    show "user_service b v \<noteq> used_service b v" if "isConnected b v" for v
      using wf_graphD(5) [OF wf_engineD(1) [OF life_invD(1) [OF inv]], of v] that ne by (auto simp: D(4-6) T)
  qed
  note lo = one_more_locked_out [OF om life_invD(1) [OF inv]]
  have lk: "isLocked b = isLocked a" and rn: "isRunning b = isRunning a"
    by (simp_all add: fun_eq_iff isLocked_def isRunning_def D(2))
  have "uses_ok b h x" for x
  proof (rule uses_ok_step [OF life_invD(4) [OF inv]])
    show "phase_of b x = phase_of a x" by (simp add: D(2))
    show "uses_of b x = uses_of a x" if "\<not> isRunning a x" using us [of x] that by (simp add: word_unat_eq_iff)
    show "unat (uses_of b x) = all_uses b h x" if r: "isRunning a x"
      using running_uses [OF life_invD(4) [OF inv] r] us [of x] r by (simp add: all_uses_def lo E(4,5))
  qed
  moreover have "deps_up b" unfolding deps_up_def
  proof (intro conjI allI impI)
    show "isRunning b x" if "parent_dep b x m \<and> isLocked b m" for x m
      using that deps_upD(1) [OF up, of x m] by (simp add: E lk rn)
    show "isRunning b x" if "usage_dep b x m v \<and> isLocked b m \<and> \<not> isWeak b v" for x m v
    proof (cases "v = u")
      case True
      then have "x = used_service a u" "m = user_service a u" using that E(3) D(3) by (auto simp: usage_dep_def)
      then show ?thesis using that strong True by (simp add: lk rn)
    next
      case False
      then show ?thesis using that deps_upD(2) [OF up, of x m v] by (simp add: E(3) lk rn D(7))
    qed
    show "isRunning b c" if "c < nsvc b" "isa_import b (parent b c) \<and> up_phase (phase_of b (owner b (parent b c)))" for c
      using that deps_upD(3) [OF up, of c] by (simp add: T rn D(2))
    show "isRunning b (root b)" if "m < nsvc b" "has_implicit_root_edge b m \<and> isLocked b m" for m
      using that deps_upD(4) [OF up, of m] by (simp add: T rn lk E(2))
  qed
  ultimately show ?thesis
    using wf life_invD(2,3) [OF inv] by (auto simp: life_inv_def T D(2))
qed

section \<open>Disconnecting\<close>

text \<open>What is left after a usage is taken off its two parts.\<close>

definition unlisted :: "uid \<Rightarrow> engine \<Rightarrow> engine" where
  "unlisted u e = upd_prt (u_user (usg e u)) (\<lambda>x. x\<lparr>p_imports := remove1 u (p_imports x)\<rparr>)
     (upd_usg u (\<lambda>x. x\<lparr>u_flags := empty_mask\<rparr>) (upd_prt (u_used (usg e u)) (\<lambda>x. x\<lparr>p_users := remove1 u (p_users x)\<rparr>) e))"

lemma contains_empty [simp]: "f < bits \<Longrightarrow> \<not> contains empty_mask f"
  by (simp add: bs.cont_elems empty_mask_def)

lemma flag_bits [simp]: "fl_Connected < bits" "fl_Weak < bits" "fl_ReleaseRequested < bits"
  "fl_Connected \<noteq> fl_Weak" "fl_Connected \<noteq> fl_ReleaseRequested" "fl_Weak \<noteq> fl_ReleaseRequested"
  by (simp_all add: bits_def fl_Connected_def fl_Weak_def fl_ReleaseRequested_def)

lemma unlisted_simps [simp]:
  "tree (unlisted u e) = tree e" "phase_of (unlisted u e) s = phase_of e s" "uses_of (unlisted u e) s = uses_of e s"
  "u_used (usg (unlisted u e) v) = u_used (usg e v)" "u_user (usg (unlisted u e) v) = u_user (usg e v)"
  "p_users (prt (unlisted u e) p) = (if p = u_used (usg e u) then remove1 u (p_users (prt e p)) else p_users (prt e p))"
  "p_imports (prt (unlisted u e) p) = (if p = u_user (usg e u) then remove1 u (p_imports (prt e p)) else p_imports (prt e p))"
  "isConnected (unlisted u e) v \<longleftrightarrow> isConnected e v \<and> v \<noteq> u" "v \<noteq> u \<Longrightarrow> isWeak (unlisted u e) v = isWeak e v"
  by (auto simp: unlisted_def tree_def upd_prt_def upd_usg_def isConnected_def isWeak_def fun_eq_iff)

lemma unlisted_wf:
  assumes "wf_usages e" and "isConnected e u"
  shows "wf_usages (unlisted u e)"
proof -
  note D = treeD [of "unlisted u e" e] tree_parts [of "unlisted u e" e]
  show ?thesis using assms unfolding wf_usages_def by (auto simp: D)
qed

lemma keeps_before_disconnect:
  assumes "sr_ok sr"
  shows "keeps True (run
    [only_if (\<lambda>e. is_cluster_marked_for_stop e (used_service e u))
       (\<lambda>e. on_cluster_pulls_decrement sr (get_cluster_head_of e (user_service e u)) e),
     only_if (\<lambda>e. is_cluster_pushed e (user_service e u))
       (\<lambda>e. call_on_cluster_pushes_decrement (used_service e u) (Some (user_service e u)) e),
     only_if (\<lambda>e. \<not> isRunning e (used_service e u) \<and> \<not> isWeak e u)
       (\<lambda>e. on_outer_required_decrement sr (user_service e u) e)])"
proof -
  have 1: "keeps True (\<lambda>e. on_cluster_pulls_decrement sr (get_cluster_head_of e (user_service e u)) e)"
    by (rule keeps_arg [of _ "on_cluster_pulls_decrement sr"]) (rule keeps_pulls_dec [OF assms])
  have 2: "keeps True (\<lambda>e. call_on_cluster_pushes_decrement (used_service e u) (Some (user_service e u)) e)"
    by (rule keeps_at) (rule keeps_pushes_dec)
  have 3: "keeps True (\<lambda>e. on_outer_required_decrement sr (user_service e u) e)"
    by (rule keeps_arg [of _ "on_outer_required_decrement sr"]) (rule keeps_outer_dec [OF assms])
  show ?thesis by (intro keeps_run_Cons keeps_run_Nil keeps_only_if 1 2 3)
qed

lemma run_lastE:
  assumes "run [f1, f2, f3, f4] e = Inr e'"
  obtains x where "run [f1, f2, f3] e = Inr x" "f4 x = Inr e'"
  using assms by auto

lemma on_usage_disconnect_bumps:
  assumes "sr_ok sr" and "rootok e" and "on_usage_disconnect sr u e = Inr e'"
  shows "bumps e e' (\<lambda>x. if x = used_service e u \<and> isRunning e x \<and> isLocked e (user_service e u) then - 1 else 0)"
proof -
  let ?last = "only_if (\<lambda>e. isRunning e (used_service e u) \<and> isLocked e (user_service e u))
       (\<lambda>e. on_outgoing_decrement (used_service e u) e)"
  from assms(3) obtain e1 where 1: "run
    [only_if (\<lambda>e. is_cluster_marked_for_stop e (used_service e u))
       (\<lambda>e. on_cluster_pulls_decrement sr (get_cluster_head_of e (user_service e u)) e),
     only_if (\<lambda>e. is_cluster_pushed e (user_service e u))
       (\<lambda>e. call_on_cluster_pushes_decrement (used_service e u) (Some (user_service e u)) e),
     only_if (\<lambda>e. \<not> isRunning e (used_service e u) \<and> \<not> isWeak e u)
       (\<lambda>e. on_outer_required_decrement sr (user_service e u) e)] e = Inr e1" and 2: "?last e1 = Inr e'"
    unfolding on_usage_disconnect_def by (rule run_lastE)
  have c: "core e1 = core e" by (rule keepsD [OF keeps_before_disconnect [OF assms(1)], OF 1]) (rule assms(2))
  note C = coreD(6,7) [OF c]
  have S: "isRunning e1 x = isRunning e x" "isLocked e1 x = isLocked e x" for x by (simp_all add: isRunning_def isLocked_def coreD(1) [OF c])
  show ?thesis
  proof (cases "isRunning e (used_service e u) \<and> isLocked e (user_service e u)")
    case True
    then have "on_outgoing_decrement (used_service e u) e1 = Inr e'" using 2 by (simp add: only_if_def S C)
    then have "bumps e1 e' (\<lambda>x. if x = used_service e u then - 1 else 0)" using dec_bumps by blast
    from bumps_trans [OF bumps_core [OF c] this] show ?thesis by (rule bumps_eq) (use True in auto)
  next
    case False
    then have "e' = e1" using 2 by (auto simp: only_if_def S C)
    with bumps_core [OF c] have "bumps e e' (\<lambda>x. 0)" by simp
    then show ?thesis by (rule bumps_eq) (use False in auto)
  qed
qed

lemma import_disconnect_cases:
  assumes "sr_ok sr" and "rootok e" and "import_disconnect sr u e = Inr e'"
  obtains e1 where "isConnected e u" "e' = unlisted u e1"
    "bumps e e1 (\<lambda>x. if x = used_service e u \<and> isRunning e x \<and> isLocked e (user_service e u) then - 1 else 0)"
proof -
  let ?e = "e\<lparr>e_log := e_log e @ [UsageDisconnect u]\<rparr>"
  from assms(3) obtain e1 where con: "isConnected e u" and 1: "on_usage_disconnect sr u ?e = Inr e1" and e': "e' = unlisted u e1"
    by (auto simp: import_disconnect_def usage_disconnect_def observe_def dependent_remove_def unlisted_def upd_prt_def upd_usg_def)
  have c: "core ?e = core e" by simp
  have "bumps ?e e1 (\<lambda>x. if x = used_service ?e u \<and> isRunning ?e x \<and> isLocked ?e (user_service ?e u) then - 1 else 0)"
    by (rule on_usage_disconnect_bumps [OF assms(1) _ 1]) (use assms(2) in simp)
  from bumps_trans [OF bumps_core [OF c] this]
  have "bumps e e1 (\<lambda>x. if x = used_service e u \<and> isRunning e x \<and> isLocked e (user_service e u) then - 1 else 0)"
    by (rule bumps_eq) (simp add: isRunning_def isLocked_def)
  with con e' that show thesis by blast
qed

lemma pres_import_disconnect:
  assumes "sr_ok sr"
  shows "pres (import_disconnect sr u)"
proof (rule presI)
  fix e e' h assume inv: "life_inv e h" and ro: "rootok e" and "import_disconnect sr u e = Inr e'"
  then obtain e1 where con: "isConnected e u" and e': "e' = unlisted u e1"
    and b: "bumps e e1 (\<lambda>x. if x = used_service e u \<and> isRunning e x \<and> isLocked e (user_service e u) then - 1 else 0)"
    using import_disconnect_cases [OF assms] by blast
  note L = linksD [OF bumpsD(1) [OF b]] and B = bumpsD(2-5) [OF b]
  have wu: "wf_usages e1" using wf_engineD(5) [OF life_invD(1) [OF inv]] by (simp add: links_wf [OF bumpsD(1) [OF b]])
  have om: "one_more e' e u" using con links_tree [OF bumpsD(1) [OF b]]
    unfolding one_more_def e' by (auto simp: L B)
  have "life_inv e' h"
  proof (rule disconnect_life [OF inv om])
    show "wf_usages e'" unfolding e' by (rule unlisted_wf [OF wu]) (simp add: L con)
    show "unat (uses_of e' x) + (if x = used_service e u \<and> isRunning e x \<and> isLocked e (user_service e u) then 1 else 0)
       = unat (uses_of e x)" for x
      using B(4) [of x] unfolding e' by (intro uint_unat_diff) (auto split: if_splits)
  qed
  moreover have "root e' = root e" by (rule treeD(8) [OF one_moreD(1) [OF om, symmetric]])
  ultimately show "life_inv e' h \<and> rootok e'" using ro by (simp add: e' B(1))
qed

end
