(* ===== verification/Stop_Life.thy ===== *)
theory Stop_Life
  imports Usage_Life
begin

text \<open>
  Stop requests keep the life cycle invariant: releasing usages, the traversal that marks the dependents
  of a cluster, the stop of the root and the garbage collector's requests.
\<close>

section \<open>Operations with a result\<close>

definition pres_res :: "(engine \<Rightarrow> ('a \<times> engine) res) \<Rightarrow> bool" where
  "pres_res f \<longleftrightarrow> (\<forall>e r e' h. life_inv e h \<longrightarrow> rootok e \<longrightarrow> f e = Inr (r, e') \<longrightarrow> life_inv e' h \<and> rootok e')"

lemma pres_resI: "(\<And>e r e' h. life_inv e h \<Longrightarrow> rootok e \<Longrightarrow> f e = Inr (r, e') \<Longrightarrow> life_inv e' h \<and> rootok e') \<Longrightarrow> pres_res f"
  unfolding pres_res_def by blast

lemma pres_resD: "pres_res f \<Longrightarrow> life_inv e h \<Longrightarrow> rootok e \<Longrightarrow> f e = Inr (r, e') \<Longrightarrow> life_inv e' h \<and> rootok e'"
  unfolding pres_res_def by blast

lemma pres_arg: "(\<And>x. pres (f x)) \<Longrightarrow> pres (\<lambda>e. f (g e) e)"
  unfolding pres_def by blast

lemma pres_then:
  assumes "pres_res f" and "\<And>r. pres (g r)"
  shows "pres (\<lambda>e. bind (f e) (\<lambda>(r, e). g r e))"
proof (rule presI)
  fix e e' h assume *: "life_inv e h" "rootok e" "bind (f e) (\<lambda>(r, e). g r e) = Inr e'"
  then obtain r x where x: "f e = Inr (r, x)" "g r x = Inr e'" by auto
  have "life_inv x h \<and> rootok x" by (rule pres_resD [OF assms(1) *(1,2) x(1)])
  then show "life_inv e' h \<and> rootok e'" using presD [OF assms(2), of x h r e'] x(2) by blast
qed

lemma pres_check: "pres (\<lambda>e. check (P e) e)"
  by (rule presI) (simp add: check_def split: if_splits)

lemma run_dfs_pres:
  assumes "\<And>ed. pres_res (t_filter g ed)" and "\<And>v. pres_res (t_visit g v)"
  shows "pres_res (run_dfs g s d)"
proof (rule pres_resI)
  fix e d' e' h assume *: "life_inv e h" "rootok e" "run_dfs g s d e = Inr (d', e')"
  have "dfs_loop g (d\<lparr>d_next := d_next d @ [s]\<rparr>) e = Some (Inr (d', e'))"
    using *(3) by (simp add: run_dfs_def lift_opt_eq_Inr dfs_def)
  then show "life_inv e' h \<and> rootok e'"
  proof (rule dfs_loop_inv [where I = "\<lambda>x. life_inv x h \<and> rootok x"])
    show "life_inv e h \<and> rootok e" using * by blast
  qed (use pres_resD [OF assms(1)] pres_resD [OF assms(2)] in blast)+
qed

section \<open>Releasing usages\<close>

lemma flag_change_life:
  assumes "life_inv e h" and "rootok e" and "\<And>x. contains (f x) fl_Connected = contains x fl_Connected"
    and "\<And>x. contains (f x) fl_Weak = contains x fl_Weak"
  shows "life_inv (upd_usg u (\<lambda>x. x\<lparr>u_flags := f (u_flags x)\<rparr>) e) h \<and> rootok (upd_usg u (\<lambda>x. x\<lparr>u_flags := f (u_flags x)\<rparr>) e)"
proof -
  let ?e = "upd_usg u (\<lambda>x. x\<lparr>u_flags := f (u_flags x)\<rparr>) e"
  have "links ?e = links e" by (auto simp: links_def tree_def upd_usg_def isConnected_def isWeak_def fun_eq_iff assms(3,4))
  then have "life_inv ?e h" by (rule life_inv_cong) (simp_all add: upd_usg_def assms(1))
  with assms(2) show ?thesis by (simp add: upd_usg_def)
qed

lemma pres_release_flag: "pres (insert_flag u fl_ReleaseRequested)"
proof (rule presI)
  fix e e' h assume *: "life_inv e h" "rootok e" "insert_flag u fl_ReleaseRequested e = Inr e'"
  have "e' = upd_usg u (\<lambda>x. x\<lparr>u_flags := snd (bs_insert fl_ReleaseRequested (u_flags x))\<rparr>) e"
    using *(3) by (simp add: insert_flag_def)
  with flag_change_life [OF *(1,2), of "\<lambda>x. snd (bs_insert fl_ReleaseRequested x)" u]
  show "life_inv e' h \<and> rootok e'" by (simp add: bs.cont_ins)
qed

lemma pres_res_request:
  assumes "sr_ok sr"
  shows "pres_res (requestRelease sr rep u)"
proof (rule pres_resI)
  fix e r e' h assume inv: "life_inv e h" and ro: "rootok e" and eq: "requestRelease sr rep u e = Inr (r, e')"
  show "life_inv e' h \<and> rootok e'"
  proof (cases "contains (u_flags (usg e u)) fl_ReleaseRequested")
    case True
    then show ?thesis using eq inv ro by (simp add: requestRelease_def split: if_splits)
  next
    case False
    then obtain x where x: "insert_flag u fl_ReleaseRequested e = Inr x"
      and r: "(case rep u of Now \<Rightarrow> bind (import_disconnect sr u x) (\<lambda>e. Inr (True, e)) | Later \<Rightarrow> Inr (True, x)
        | Never \<Rightarrow> if isWeak x u then Inl AssertFailed
            else Inr (False, upd_usg u (\<lambda>y. y\<lparr>u_flags := snd (bs_erase fl_ReleaseRequested (u_flags y))\<rparr>) x)) = Inr (r, e')"
      using eq by (auto simp: requestRelease_def split: if_splits)
    have i: "life_inv x h \<and> rootok x" by (rule presD [OF pres_release_flag inv ro x])
    show ?thesis
    proof (cases "rep u")
      case Never
      then have "e' = upd_usg u (\<lambda>y. y\<lparr>u_flags := snd (bs_erase fl_ReleaseRequested (u_flags y))\<rparr>) x"
        using r by (simp split: if_splits)
      with i flag_change_life [of x h "\<lambda>y. snd (bs_erase fl_ReleaseRequested y)" u] show ?thesis
        by (simp add: bs.cont_del)
    next
      case Now
      then have "import_disconnect sr u x = Inr e'" using r by auto
      with i show ?thesis using presD [OF pres_import_disconnect [OF assms]] by blast
    qed (use r i in simp)
  qed
qed

lemma pres_release_weak:
  assumes "sr_ok sr"
  shows "pres (release_weak sr rep u)"
proof -
  have "pres (\<lambda>e. bind (requestRelease sr rep u e) (\<lambda>(b, e). check b e))"
    by (rule pres_then [OF pres_res_request [OF assms]]) (rule pres_check)
  moreover have "pres Inr" by (rule presI) simp
  ultimately show ?thesis unfolding release_weak_def [abs_def] by (rule pres_ife)
qed

section \<open>The stop traversal\<close>

lemma pres_res_visit:
  assumes "sr_ok sr"
  shows "pres_res (stop_visit sr h)"
proof (rule pres_resI)
  fix e r e' hs assume *: "life_inv e hs" "rootok e" "stop_visit sr h e = Inr (r, e')"
  have "keeps True (run [do_mark_cluster_for_stop sr h True, insert_into_queue_if_stoppable h])"
    using assms by (intro keeps_run_Cons keeps_run_Nil keeps_mark_stop keeps_insert_stoppable)
  moreover have "run [do_mark_cluster_for_stop sr h True, insert_into_queue_if_stoppable h] e = Inr e'"
    using *(3) by (auto simp: stop_visit_def split: if_splits)
  ultimately show "life_inv e' hs \<and> rootok e'" using presD [OF keeps_pres *(1,2)] by blast
qed

lemma pres_res_filter:
  assumes "sr_ok sr"
  shows "pres_res (stop_filter sr rep ed)"
proof (rule pres_resI)
  fix e r e' h assume *: "life_inv e h" "rootok e" "stop_filter sr rep ed e = Inr (r, e')"
  then consider "e' = e" | u b where "requestRelease sr rep u e = Inr (b, e')"
    by (cases "snd ed") (auto simp: stop_filter_def split: if_splits)
  then show "life_inv e' h \<and> rootok e'"
    using * pres_resD [OF pres_res_request [OF assms]] by cases blast+
qed

lemma pres_stop_traversal:
  assumes "sr_ok sr"
  shows "pres (\<lambda>e. bind (run_dfs (forward_graph (stop_visit sr) (stop_filter sr rep)) h d e) (\<lambda>(d, e). check (P d) e))"
  by (rule pres_then [OF run_dfs_pres]) (simp_all add: forward_graph_def pres_res_filter pres_res_visit assms pres_check)

section \<open>Stop requests\<close>

lemma pres_stop_cluster_of_root:
  assumes "sr_ok sr"
  shows "pres (stop_cluster_of_root sr rep h)"
proof -
  have "keeps True (run [set_override h ovr_none, transition_target_set h tgt_none, do_mark_cluster_for_start h False,
     only_if (\<lambda>e. \<not> is_cluster_stopped e h)
       (run [do_mark_cluster_for_stop sr h True, require (\<lambda>e. is_cluster_head e h),
             only_if (\<lambda>e. isStoppable e h) (q_push_down h)])])"
    using assms by (intro keeps_rules keeps_set_override keeps_target_set keeps_mark_start keeps_mark_stop keeps_q_push_down)
  from keeps_pres [OF this] show ?thesis unfolding stop_cluster_of_root_def
    by (rule pres_run_Cons [rotated]) (intro pres_only_if pres_each pres_release_weak assms)
qed

lemma pres_stop_root: "sr_ok sr \<Longrightarrow> pres (stop_root sr rep)"
  unfolding stop_root_def
  by (intro pres_rules pres_each pres_stop_cluster_of_root keeps_pres keeps_q_clear keeps_iterate)

lemma pres_stop_request:
  assumes "sr_ok sr"
  shows "pres (on_service_stop_request sr rep h)"
proof -
  have "pres (run [(\<lambda>e. bind (run_dfs (forward_graph (stop_visit sr) (stop_filter sr rep)) h empty_dfs e)
      (\<lambda>(d, e). check (d_acyclic d) e)), iterate])"
    by (intro pres_run_Cons pres_run_Nil pres_stop_traversal assms keeps_pres keeps_iterate)
  from pres_ife [OF pres_stop_root [OF assms] this] show ?thesis
    unfolding on_service_stop_request_def by (intro pres_run_Cons pres_run_Nil pres_require)
qed

lemma pres_request_stop:
  assumes "sr_ok sr"
  shows "pres (request_stop sr rep h tok)"
  unfolding request_stop_def [abs_def]
  by (intro pres_ife pres_run_Cons pres_run_Nil pres_stop_request assms keeps_pres [OF keeps_cancel] keeps_pres [OF keeps_resolve]
      keeps_pres [OF keeps_set_override] keeps_pres [OF keeps_target_set] keeps_pres [OF keeps_chain_promise])

lemma pres_immediate_stop:
  assumes "sr_ok sr"
  shows "pres (immediate_stop sr rep s)"
proof -
  have "pres (\<lambda>e. on_service_stop_request sr rep (get_cluster_head_of e s) e)"
    by (rule pres_arg [of "on_service_stop_request sr rep"]) (rule pres_stop_request [OF assms])
  then show ?thesis unfolding immediate_stop_def
    by (intro pres_only_if pres_run_Cons pres_run_Nil keeps_pres [OF keeps_set_override])
qed

lemma pres_on_service_unique: "sr_ok sr \<Longrightarrow> pres (on_service_unique sr rep s)"
  unfolding on_service_unique_def by (intro pres_only_if pres_immediate_stop)

lemma pres_gc_stop:
  assumes "sr_ok sr"
  shows "pres (gc_on_service_stop sr rep s)"
proof (rule presI)
  fix e e' h assume *: "life_inv e h" "rootok e" "gc_on_service_stop sr rep s e = Inr e'"
  then obtain q where e': "e' = e\<lparr>e_strong := q\<rparr> \<or> post (EvDestroy s) (e\<lparr>e_strong := q\<rparr>) = Inr e'
      \<or> on_service_unique sr rep s (e\<lparr>e_strong := q\<rparr>) = Inr e' \<or> e' = e"
    by (auto simp: gc_on_service_stop_def Let_def split: option.splits if_splits)
  have c: "core (e\<lparr>e_strong := q\<rparr>) = core e" by simp
  have i: "life_inv (e\<lparr>e_strong := q\<rparr>) h" "rootok (e\<lparr>e_strong := q\<rparr>)"
    using life_inv_core [OF c *(1)] rootok_core [OF c] *(2) by blast+
  have "pres (post (EvDestroy s))" by (intro keeps_pres keeps_post)
  with e' show "life_inv e' h \<and> rootok e'"
    using i *(1,2) presD [OF pres_on_service_unique [OF assms] i] presD [OF _ i, of "post (EvDestroy s)"] by blast
qed

end
