(* ===== verification/Life_Steps.thy ===== *)
theory Life_Steps
  imports Stop_Life
begin

text \<open>
  The steps of the scheduler keep the life cycle invariant: the end of a stop, the end of a start, a round of
  the processing loop and the whole loop.
\<close>

section \<open>Leaving a stop\<close>

lemma inner_decrement_phase:
  assumes "call_on_inner_outgoing_decrement s e = Inr e'"
  shows "phase_of e' x = phase_of e x"
proof -
  from assms obtain es where "fold_res (inner_outgoing_decrement_along s) es e = Inr e'"
    by (auto simp: call_on_inner_outgoing_decrement_def each_in_def lift_range_def)
  from bumpsD(2) [OF fold_inner_dec_sum [OF this]] show ?thesis .
qed

lemma leave_stop_life:
  assumes inv: "life_inv e h" and "run [call_on_inner_outgoing_decrement s, do_transition_phase s stopping pending] e = Inr e'"
  shows "life_inv e' h \<and> moves e e' s pending \<and> phase_of e s = stopping"
proof -
  from assms(2) obtain e1 where 1: "call_on_inner_outgoing_decrement s e = Inr e1"
    and 2: "do_transition_phase s stopping pending e1 = Inr e'" by auto
  note t = transition_moves [OF 2]
  have sg: "phase_of e s = stopping" using t(1) inner_decrement_phase [OF 1] by simp
  then have s: "s < nsvc e" using live_lt [OF inv, of s] by simp
  have b: "bumps e e1 (\<lambda>x. if x \<in> set (import_children e s) then - 1 else 0)"
    by (rule inner_decrement_bumps [OF life_invD(1) [OF inv] s 1])
  have mv: "moves e e' s pending" by (rule bumps_moves [OF b t(2)])
  have "life_inv e' h"
  proof (rule pend_life [OF inv mv s sg])
    show "unat (uses_of e' x) + (if x \<in> set (import_children e s) then 1 else 0) = unat (uses_of e x)" for x
      using bumpsD(5) [OF b, of x] t(3) [of x] by (intro uint_unat_diff) auto
  qed
  with mv sg show ?thesis by blast
qed

lemma moves_rootok: "moves e e' s p \<Longrightarrow> p \<noteq> locked \<Longrightarrow> rootok e \<Longrightarrow> rootok e'"
  using moves_root [of e e' s p] movesD(2) [of e e' s p] by simp

lemma pres_leave_stop: "pres (run [call_on_inner_outgoing_decrement s, do_transition_phase s stopping pending])"
proof (rule presI)
  fix e e' h assume *: "life_inv e h" "rootok e"
    "run [call_on_inner_outgoing_decrement s, do_transition_phase s stopping pending] e = Inr e'"
  from leave_stop_life [OF *(1,3)] show "life_inv e' h \<and> rootok e'" using moves_rootok [of e e' s pending] *(2) by simp
qed

section \<open>Unlocking a cluster\<close>

lemma unlock_members:
  assumes "life_inv e h" and "rootok e" and "\<And>m. m \<in> set ms \<Longrightarrow> m < nsvc e" and "fold_res (unlock_member g) ms e = Inr e'"
  shows "life_inv e' h \<and> rootok e'"
  using assms
proof (induction ms arbitrary: e)
  case (Cons m ms)
  then obtain y where y: "unlock_member g m e = Inr y" "fold_res (unlock_member g) ms y = Inr e'" by auto
  have m: "m < nsvc e" using Cons.prems(3) by simp
  note l = unlock_member_life [OF Cons.prems(1) m y(1)]
  have "nsvc y = nsvc e" by (rule linksD(15) [OF movesD(1) [OF l(3)]])
  then show ?case using moves_rootok [OF l(3) _ Cons.prems(2)] Cons.prems(3) by (intro Cons.IH [OF l(1) _ _ y(2)]) auto
qed simp

lemma run_requireE:
  assumes "run (require P # each xs f # fs) e = Inr e'"
  obtains x where "P e" "fold_res f (xs e) e = Inr x" "run fs x = Inr e'"
  using assms by (auto simp: each_def)

lemma pres_unlock_cluster:
  assumes "sr_ok sr"
  shows "pres (do_unlock_cluster sr rep g)"
proof (rule presI)
  let ?rest = "run [each (\<lambda>e. interfaces_of e g) (\<lambda>p. observe (InterfaceUnlock p)), transition_target_complete_if g tgt_stop,
     do_mark_cluster_for_stop sr g False,
     only_if (\<lambda>e. is_cluster_startable e g \<and> shall_cluster_start e g \<and> \<not> isRoot e g) (post (EvCheckStartable g)),
     each (\<lambda>e. cluster_members e g) (gc_on_service_stop sr rep)]"
  fix e e' h assume inv: "life_inv e h" and ro: "rootok e" and "do_unlock_cluster sr rep g e = Inr e'"
  then obtain e1 where g: "is_cluster_head e g" "phase_of e g = pending"
    and 1: "fold_res (unlock_member g) (cluster_members e g) e = Inr e1" and 2: "?rest e1 = Inr e'"
    unfolding do_unlock_cluster_def by (elim run_requireE conjE) blast
  have "g < nsvc e" using live_lt [OF inv, of g] g(2) by simp
  then have ms: "m < nsvc e" if "m \<in> set (cluster_members e g)" for m
    using that members_of [OF wf_engineD(4) [OF life_invD(1) [OF inv]] wf_engineD(2) [OF life_invD(1) [OF inv]] _ g(1)] by simp
  have "pres ?rest" using assms
    by (intro pres_run_Cons pres_run_Nil pres_each pres_only_if pres_gc_stop keeps_pres keeps_each keeps_observe keeps_post
        keeps_target_complete keeps_mark_stop)
  from presD [OF this _ _ 2] unlock_members [OF inv ro ms 1] show "life_inv e' h \<and> rootok e'" by blast
qed

lemma pres_running_decrement:
  assumes "sr_ok sr"
  shows "pres (call_on_cluster_running_decrement sr rep s)"
proof -
  have c: "keeps True (\<lambda>e. Inr (upd_clu s (\<lambda>c. c\<lparr>c_running := c_running c - 1\<rparr>) e))" by (rule keeps_pure) simp
  have "pres (run [do_increment_epoch g, do_unlock_cluster sr rep g])" for g
    using assms by (intro pres_run_Cons pres_run_Nil pres_unlock_cluster keeps_pres keeps_epoch)
  then have "pres (\<lambda>e. let g = get_cluster_head_of e s in run [do_increment_epoch g, do_unlock_cluster sr rep g] e)"
    unfolding Let_def by (rule pres_arg)
  then show ?thesis unfolding call_on_cluster_running_decrement_def
    by (intro pres_run_Cons pres_run_Nil pres_require pres_only_if keeps_pres [OF c])
qed

section \<open>Starting and stopping a service\<close>

lemma pres_post_stop:
  assumes "sr_ok sr"
  shows "pres (post_stop_actions sr rep s)"
proof (rule presI)
  fix e e' h assume *: "life_inv e h" "rootok e" "post_stop_actions sr rep s e = Inr e'"
  then obtain x where "run [call_on_inner_outgoing_decrement s, do_transition_phase s stopping pending] e = Inr x"
    "call_on_cluster_running_decrement sr rep s x = Inr e'"
    by (auto simp: post_stop_actions_def)
  from pres_two [OF pres_leave_stop pres_running_decrement [OF assms] *(1,2) this] show "life_inv e' h \<and> rootok e'" .
qed

lemma pres_post_start:
  assumes "sr_ok sr"
  shows "pres (post_start_actions sr s)"
proof (rule presI)
  let ?rest = "run [call_on_required_decrement sr s,
     (\<lambda>e. if \<not> shall_cluster_stop e s then only_if (\<lambda>e. is_cluster_head e s) (do_finalize_cluster s) e
          else run [require (\<lambda>e. isStoppable e s), on_service_stoppable s] e)]"
  fix e e' h assume *: "life_inv e h" "rootok e" "post_start_actions sr s e = Inr e'"
  then obtain x where x: "run [do_transition_phase s starting running, call_on_outer_delayed_outgoing_increment s] e = Inr x"
    "?rest x = Inr e'"
    unfolding post_start_actions_def by (auto simp del: only_if_def)
  have "keeps True ?rest" using assms
    by (intro keeps_run_Cons keeps_run_Nil keeps_ife keeps_only_if keeps_require keeps_required_dec keeps_finalize
        keeps_on_service_stoppable)
  from pres_two [OF pres_run_service keeps_pres [OF this] *(1,2) x] show "life_inv e' h \<and> rootok e'" .
qed

lemma stopping_moves:
  assumes "try_set_service_stopping s e = Inr (True, e')"
  shows "uses_of e s = 1" "isRunning e s" "moves e e' s stopping" "uses_of e' x = (if x = s then 0 else uses_of e x)"
proof -
  from assms have u: "uses_of e s = 1"
    and t: "do_transition_phase s running stopping (upd_svc s (\<lambda>x. x\<lparr>s_uses := 0\<rparr>) e) = Inr e'"
    by (auto simp: try_set_service_stopping_def split: if_splits)
  note t = transition_moves [OF t]
  show "uses_of e s = 1" by (rule u)
  show "isRunning e s" using t(1) by (simp add: isRunning_def)
  show "moves e e' s stopping" using t(2) by (simp add: moves_def links_upd_svc)
  show "uses_of e' x = (if x = s then 0 else uses_of e x)" using t(3) by simp
qed

lemma pres_set_stopping: "pres_res (try_set_service_stopping s)"
proof (rule pres_resI)
  fix e r e' h assume *: "life_inv e h" "rootok e" "try_set_service_stopping s e = Inr (r, e')"
  show "life_inv e' h \<and> rootok e'"
  proof (cases r)
    case True
    then have "try_set_service_stopping s e = Inr (True, e')" using *(3) by simp
    note m = stopping_moves [OF this]
    show ?thesis using stop_life [OF *(1) m(3,2,1,4)] moves_rootok [OF m(3) _ *(2)] by simp
  next
    case False
    with * show ?thesis by (auto simp: try_set_service_stopping_def split: if_splits)
  qed
qed

lemma pres_begin_stop: "pres (begin_stop s)"
  unfolding begin_stop_def by (intro keeps_pres keeps_run_Cons keeps_run_Nil keeps_require keeps_required_inc keeps_observe)

lemma pres_start_eager:
  assumes "sr_ok sr"
  shows "pres_res (do_start_eager sr hk s)"
proof (rule pres_resI)
  fix e r e' h assume *: "life_inv e h" "rootok e" "do_start_eager sr hk s e = Inr (r, e')"
  then obtain x where x: "begin_start s e = Inr x" "x = e' \<or> post_start_actions sr s x = Inr e'"
    by (cases "h_start hk s") (auto simp: do_start_eager_def)
  have "life_inv x h \<and> rootok x" by (rule presD [OF pres_begin_start *(1,2) x(1)])
  then show "life_inv e' h \<and> rootok e'" using x(2) presD [OF pres_post_start [OF assms], of x h s e'] by blast
qed

lemma pres_stop_eager:
  assumes "sr_ok sr"
  shows "pres_res (do_stop_eager sr hk s)"
proof (rule pres_resI)
  fix e r e' h assume *: "life_inv e h" "rootok e" "do_stop_eager sr hk s e = Inr (r, e')"
  then obtain x where x: "begin_stop s e = Inr x" "x = e' \<or> post_stop_actions sr (h_release hk) s x = Inr e'"
    by (cases "h_stop hk s") (auto simp: do_stop_eager_def)
  have "life_inv x h \<and> rootok x" by (rule presD [OF pres_begin_stop *(1,2) x(1)])
  then show "life_inv e' h \<and> rootok e'"
    using x(2) presD [OF pres_post_stop [OF assms], of x h "h_release hk" s e'] by blast
qed

section \<open>The processing loop\<close>

lemma pres_start_inplace:
  assumes "sr_ok sr"
  shows "pres (try_start_service_inplace sr hk s)"
proof -
  have "pres (\<lambda>e. case r of Thrown \<Rightarrow> Inl Panic | _ \<Rightarrow> Inr e)" for r
    by (cases r) (auto intro!: presI)
  then show ?thesis unfolding try_start_service_inplace_def [abs_def] by (intro pres_then pres_start_eager assms)
qed

lemma pres_stop_inplace:
  assumes "sr_ok sr"
  shows "pres (try_stop_service_inplace sr hk s)"
proof -
  have "pres (\<lambda>e. case r of Thrown \<Rightarrow> Inl Unreachable | _ \<Rightarrow> Inr e)" for r
    by (cases r) (auto intro!: presI)
  then show ?thesis unfolding try_stop_service_inplace_def [abs_def] by (intro pres_then pres_stop_eager assms)
qed

lemma pres_Inr: "pres Inr"
  by (rule presI) simp

lemma pres_process_one:
  assumes "sr_ok sr"
  shows "pres (process_one sr hk s)"
proof -
  have "pres (\<lambda>e. if ok then try_stop_service_inplace sr hk s e else Inr e)" for ok
    by (intro pres_ife pres_stop_inplace pres_Inr assms)
  then have "pres (\<lambda>e. bind (try_set_service_stopping s e) (\<lambda>(ok, e). if ok then try_stop_service_inplace sr hk s e else Inr e))"
    by (intro pres_then pres_set_stopping)
  then show ?thesis unfolding process_one_def [abs_def] by (intro pres_ife pres_start_inplace pres_Inr assms)
qed

lemma process_life:
  assumes "sr_ok sr" and "process sr hk e = Some (Inr e')" and "life_inv e h" and "rootok e"
  shows "life_inv e' h \<and> rootok e'"
proof -
  have "\<forall>e'. r = Inr e' \<longrightarrow> sr_ok s \<longrightarrow> life_inv x h \<longrightarrow> rootok x \<longrightarrow> life_inv e' h \<and> rootok e'"
    if "process s k x = Some r" for s k x r
  proof (rule process.raw_induct [OF _ that])
    fix rec s k x r
    assume IH: "\<And>s k x r. rec s k x = Some r \<Longrightarrow>
        \<forall>e'. r = Inr e' \<longrightarrow> sr_ok s \<longrightarrow> life_inv x h \<longrightarrow> rootok x \<longrightarrow> life_inv e' h \<and> rootok e'"
      and eq: "(case fst (q_pop x) of None \<Rightarrow> Some (check (q_empty x) x)
        | Some v \<Rightarrow> (case process_one s k v (snd (q_pop x)) of Inl er \<Rightarrow> Some (Inl er) | Inr e' \<Rightarrow> rec s k e')) = Some r"
    show "\<forall>e'. r = Inr e' \<longrightarrow> sr_ok s \<longrightarrow> life_inv x h \<longrightarrow> rootok x \<longrightarrow> life_inv e' h \<and> rootok e'"
    proof (intro allI impI)
      fix e' assume r: "r = Inr e'" and sr: "sr_ok s" and i: "life_inv x h" "rootok x"
      have c: "core (snd (q_pop x)) = core x" by simp
      have j: "life_inv (snd (q_pop x)) h" "rootok (snd (q_pop x))"
        using life_inv_core [OF c i(1)] rootok_core [OF c] i(2) by blast+
      show "life_inv e' h \<and> rootok e'"
      proof (cases "fst (q_pop x)")
        case None
        with eq r i show ?thesis by (auto simp: check_def split: if_splits)
      next
        case (Some v)
        with eq r obtain y where y: "process_one s k v (snd (q_pop x)) = Inr y" "rec s k y = Some (Inr e')"
          by (auto split: sum.splits)
        have "life_inv y h \<and> rootok y" by (rule presD [OF pres_process_one [OF sr] j y(1)])
        with IH [OF y(2)] sr show ?thesis by blast
      qed
    qed
  qed
  with assms show ?thesis by blast
qed

lemma pres_handle_process:
  assumes "sr_ok sr"
  shows "pres (handle_process sr hk)"
proof -
  have "pres (\<lambda>e. lift_opt (process sr hk e))"
    using process_life [OF assms] by (intro presI) (simp add: lift_opt_eq_Inr)
  moreover have "pres (\<lambda>e. Inr (e\<lparr>e_dispatched := False, e_processing := True\<rparr>))" "pres (\<lambda>e. Inr (e\<lparr>e_processing := False\<rparr>))"
    by (intro keeps_pres keeps_pure, simp)+
  ultimately show ?thesis unfolding handle_process_def by (intro pres_run_Cons pres_run_Nil pres_require)
qed

section \<open>The start of the root\<close>

lemma begin_start_phase:
  assumes "begin_start s e = Inr e'"
  shows "phase_of e s = stopped \<or> phase_of e s = locked"
proof (rule ccontr)
  assume n: "\<not> ?thesis"
  with assms have l: "isLocked e s" by (auto simp: begin_start_def isStopped_def)
  with assms obtain x where "do_transition_phase s locked starting e = Inr x" by (auto simp: begin_start_def only_if_def)
  from transition_moves(1) [OF this] n show False by simp
qed

lemma sr_ok_start_root_n: "sr_ok (start_root_n n hk)"
proof (cases n)
  case 0
  then show ?thesis by (simp add: sr_ok_def)
next
  case (Suc k)
  have "\<exists>er. start_root_with sr hk e = Inl er" if ph: "phase_of e (root e) \<noteq> stopped" "phase_of e (root e) \<noteq> locked" for sr e
  proof (rule ccontr)
    assume "\<not> ?thesis"
    then obtain e' where "start_root_with sr hk e = Inr e'" by (metis sum.exhaust)
    then obtain x y where 1: "set_override (root e) ovr_start e = Inr x" and 2: "begin_start (root x) x = Inr y"
      by (auto simp: start_root_with_def do_start_eager_def)
    have c: "core x = core e" by (rule keepsD [OF keeps_set_override [of False] 1]) simp
    from begin_start_phase [OF 2] ph show False by (simp add: coreD(1,8) [OF c])
  qed
  with Suc show ?thesis by (simp add: sr_ok_def)
qed

lemma sr_ok_start_root: "sr_ok (start_root hk)"
  by (simp add: start_root_def sr_ok_start_root_n)

lemma pres_start_root: "pres (start_root hk)"
proof -
  have "pres (\<lambda>e. start_root_with sr hk e)" if "sr_ok sr" for sr
  proof -
    have "pres (\<lambda>e. bind (do_start_eager sr hk s e) (\<lambda>(r, e). check (r = Ready) e))" for s
      by (intro pres_then pres_start_eager that pres_check)
    then have "pres (\<lambda>e. bind (do_start_eager sr hk (root e) e) (\<lambda>(r, e). check (r = Ready) e))"
      by (rule pres_arg [of "\<lambda>s e. bind (do_start_eager sr hk s e) (\<lambda>(r, e). check (r = Ready) e)"])
    then have "pres (run [set_override r ovr_start,
       (\<lambda>e. bind (do_start_eager sr hk (root e) e) (\<lambda>(r, e). check (r = Ready) e))])" for r
      by (intro pres_run_Cons pres_run_Nil keeps_pres [OF keeps_set_override])
    then show ?thesis unfolding start_root_with_def
      by (rule pres_arg [of "\<lambda>r. run [set_override r ovr_start,
       (\<lambda>e. bind (do_start_eager sr hk (root e) e) (\<lambda>(r, e). check (r = Ready) e))]"])
  qed
  then have "pres (start_root_n (Suc n) hk)" for n using sr_ok_start_root_n by simp
  then show ?thesis unfolding start_root_def numeral_2_eq_2 by blast
qed

end
