(* ===== verification/Connect_Life.thy ===== *)
theory Connect_Life
  imports Life_Steps
begin

text \<open>
  Connecting a usage, and the public use counter, keep the life cycle invariant. The requirement on
  connecting is that a strong usage of a service that does not run is not added to a locked service;
  the parts that connect usages see to it.
\<close>

section \<open>Connecting\<close>

definition listed :: "uid \<Rightarrow> bool \<Rightarrow> engine \<Rightarrow> engine" where
  "listed u weak e = upd_prt (u_used (usg e u)) (\<lambda>x. x\<lparr>p_users := p_users x @ [u]\<rparr>)
     (upd_usg u (\<lambda>x. x\<lparr>u_flags := (if weak then \<lambda>f. snd (bs_insert fl_Weak f) else id) (snd (bs_insert fl_Connected (u_flags x)))\<rparr>)
       (upd_prt (u_user (usg e u)) (\<lambda>x. x\<lparr>p_imports := p_imports x @ [u]\<rparr>) e))"

lemma listed_simps [simp]:
  "tree (listed u weak e) = tree e" "phase_of (listed u weak e) s = phase_of e s" "uses_of (listed u weak e) s = uses_of e s"
  "u_used (usg (listed u weak e) v) = u_used (usg e v)" "u_user (usg (listed u weak e) v) = u_user (usg e v)"
  "p_users (prt (listed u weak e) p) = (if p = u_used (usg e u) then p_users (prt e p) @ [u] else p_users (prt e p))"
  "p_imports (prt (listed u weak e) p) = (if p = u_user (usg e u) then p_imports (prt e p) @ [u] else p_imports (prt e p))"
  "isConnected (listed u weak e) v \<longleftrightarrow> isConnected e v \<or> v = u" "v \<noteq> u \<Longrightarrow> isWeak (listed u weak e) v = isWeak e v"
  "isWeak (listed u weak e) u \<longleftrightarrow> weak \<or> isWeak e u"
  by (auto simp: listed_def tree_def upd_prt_def upd_usg_def isConnected_def isWeak_def fun_eq_iff bs.cont_ins flag_bits(4) [symmetric])

text \<open>A usage may be connected from an import to an export of services of different clusters.\<close>

definition usage_ends :: "'a store_scheme \<Rightarrow> uid \<Rightarrow> bool" where
  "usage_ends st u \<longleftrightarrow> isa_export st (u_used (usg st u)) \<and> isa_import st (u_user (usg st u))
     \<and> u_used (usg st u) \<in> set (s_parts (svc st (used_service st u)))
     \<and> u_user (usg st u) \<in> set (s_parts (svc st (user_service st u)))"

lemma listed_wf:
  assumes "wf_usages e" and "\<not> isConnected e u" and "usage_ends e u"
  shows "wf_usages (listed u weak e)"
proof -
  note D = treeD [of "listed u weak e" e] tree_parts [of "listed u weak e" e]
  show ?thesis using assms unfolding wf_usages_def usage_ends_def by (auto simp: D)
qed

lemma on_usage_connected_bumps:
  assumes "on_usage_connected u e = Inr e'"
  shows "bumps e e' (\<lambda>x. if x = used_service e u \<and> isRunning e x \<and> isLocked e (user_service e u) then 1 else 0)"
proof -
  let ?rest = "run [only_if (\<lambda>e. \<not> isRunning e (used_service e u) \<and> \<not> isWeak e u)
       (\<lambda>e. on_outer_required_increment (user_service e u) e),
     only_if (\<lambda>e. is_cluster_pushed e (user_service e u))
       (\<lambda>e. call_on_cluster_pushes_increment (used_service e u) (Some (user_service e u)) e),
     only_if (\<lambda>e. is_cluster_marked_for_stop e (used_service e u))
       (\<lambda>e. on_cluster_pulls_increment (get_cluster_head_of e (user_service e u)) e)]"
  obtain e1 where 1: "only_if (\<lambda>e. isRunning e (used_service e u) \<and> isLocked e (user_service e u))
       (\<lambda>e. on_outgoing_increment (used_service e u) e) e = Inr e1" and 2: "?rest e1 = Inr e'"
    using assms unfolding on_usage_connected_def run.simps(2) [of "require P" for P]
      run.simps(2) [of "only_if P (\<lambda>e. on_outgoing_increment (f e) e)" for P f] by auto
  have "keeps False (\<lambda>e. on_outer_required_increment (user_service e u) e)"
    by (rule keeps_arg [of _ on_outer_required_increment]) (rule keeps_outer_inc)
  moreover have "keeps False (\<lambda>e. call_on_cluster_pushes_increment (used_service e u) (Some (user_service e u)) e)"
    by (rule keeps_at) (rule keeps_pushes_inc)
  moreover have "keeps False (\<lambda>e. on_cluster_pulls_increment (get_cluster_head_of e (user_service e u)) e)"
    by (rule keeps_arg [of _ on_cluster_pulls_increment]) (rule keeps_pulls_inc)
  ultimately have "keeps False ?rest" by (intro keeps_run_Cons keeps_run_Nil keeps_only_if)
  then have c: "core e' = core e1" using 2 by (rule keepsD) simp
  have "bumps e e1 (\<lambda>x. if x = used_service e u \<and> isRunning e x \<and> isLocked e (user_service e u) then 1 else 0)"
  proof (cases "isRunning e (used_service e u) \<and> isLocked e (user_service e u)")
    case True
    then have "bumps e e1 (\<lambda>x. if x = used_service e u then 1 else 0)" using 1 inc_bumps by (simp add: only_if_def)
    then show ?thesis by (rule bumps_eq) (use True in auto)
  next
    case False
    then have "e1 = e" using 1 by (auto simp: only_if_def)
    then have "bumps e e1 (\<lambda>x. 0)" by (simp add: bumps_def)
    then show ?thesis by (rule bumps_eq) (use False in auto)
  qed
  from bumps_trans [OF this bumps_core [OF c]] show ?thesis by simp
qed

lemma import_connect_cases:
  assumes "import_connect u weak e = Inr e'"
  obtains e1 where "\<not> isConnected e u" "bs_empty (u_flags (usg e u))" "\<not> is_in_same_cluster e (user_service e u) (used_service e u)"
    "bumps (listed u weak e) e1
      (\<lambda>x. if x = used_service e u \<and> isRunning e x \<and> isLocked e (user_service e u) then 1 else 0)"
    "core e' = core e1"
proof -
  from assms obtain e1 where n: "\<not> isConnected e u" "bs_empty (u_flags (usg e u))"
    and s: "\<not> is_in_same_cluster e (user_service e u) (used_service e u)"
    and 1: "on_usage_connected u (listed u weak e) = Inr e1" and 2: "observe (UsageConnect u) e1 = Inr e'"
    by (cases weak) (auto simp: import_connect_def usage_connect_def insert_flag_def dependent_add_def listed_def
        upd_prt_def upd_usg_def only_if_def isConnected_def is_in_same_cluster_def split: if_splits)
  have c: "core e' = core e1" by (rule keepsD [OF keeps_observe [of False] 2]) simp
  have "bumps (listed u weak e) e1 (\<lambda>x. if x = used_service e u \<and> isRunning e x \<and> isLocked e (user_service e u) then 1 else 0)"
    using on_usage_connected_bumps [OF 1] treeD(6) [of "listed u weak e" e] by (simp add: isRunning_def isLocked_def)
  with n s c that show thesis by blast
qed

lemma import_connect_life:
  assumes inv: "life_inv e h" and ro: "rootok e" and ends: "usage_ends e u"
    and strong: "weak \<or> isRunning e (used_service e u) \<or> \<not> isLocked e (user_service e u)"
    and "import_connect u weak e = Inr e'"
  shows "life_inv e' h \<and> rootok e'"
proof -
  from import_connect_cases [OF assms(5)] obtain e1 where n: "\<not> isConnected e u"
    and s: "\<not> is_in_same_cluster e (user_service e u) (used_service e u)"
    and b: "bumps (listed u weak e) e1 (\<lambda>x. if x = used_service e u \<and> isRunning e x \<and> isLocked e (user_service e u) then 1 else 0)"
    and c: "core e' = core e1" by blast
  note L = linksD [OF bumpsD(1) [OF b]] and B = bumpsD(2-5) [OF b]
  have om: "one_more e e1 u" using n links_tree [OF bumpsD(1) [OF b]] unfolding one_more_def by (auto simp: L B)
  have "life_inv e1 h"
  proof (rule connect_life [OF inv om])
    show "wf_usages e1" unfolding links_wf [OF bumpsD(1) [OF b]]
      by (rule listed_wf [OF wf_engineD(5) [OF life_invD(1) [OF inv]] n ends])
    show "user_service e u \<noteq> used_service e u" using s by (auto simp: is_in_same_cluster_def)
    show "isWeak e1 u \<or> isRunning e (used_service e u) \<or> \<not> isLocked e (user_service e u)" using strong by (auto simp: L)
    show "unat (uses_of e1 x)
       = unat (uses_of e x) + (if x = used_service e u \<and> isRunning e x \<and> isLocked e (user_service e u) then 1 else 0)" for x
      using B(4) [of x] by (intro uint_unat_eq) (auto split: if_splits)
  qed
  moreover have "root e1 = root e" by (rule treeD(8) [OF one_moreD(1) [OF om]])
  ultimately show ?thesis using ro life_inv_core [OF c] coreD(1,8) [OF c] by (simp add: B(1))
qed

section \<open>The public use counter\<close>

lemma handle_life:
  assumes inv: "life_inv e h" and lk: "links e' = links e" and ph: "\<And>x. phase_of e' x = phase_of e x"
    and us: "\<And>x. unat (uses_of e' x) + h x = unat (uses_of e x) + h' x"
    and same: "\<And>x. uses_of e x = 0 \<Longrightarrow> h' x = h x"
  shows "life_inv e' h'"
proof -
  note P = same_phases [OF ph]
  have u: "all_uses e' h' x + h x = all_uses e h x + h' x" for x
    by (simp add: all_uses_def locked_out_cong [OF lk] inner_use_cong [OF lk] P ph)
  have "uses_ok e' h' x" for x
    using life_invD(4) [OF inv, of x] us [of x] same [of x] u [of x]
    by (auto simp: uses_ok_def ph word_unat_eq_iff split: phase.splits)
  moreover have "wf_engine e'"
    by (rule wf_engine_live [OF lk life_invD(1) [OF inv]]) (simp add: ph life_invD(2) [OF inv])
  moreover have "deps_up e'" using life_invD(5) [OF inv]
    unfolding deps_up_def links_deps [OF lk] links_implicit [OF lk] links_parts [OF lk] linksD [OF lk] P ph .
  ultimately show ?thesis using life_invD(2,3) [OF inv] unfolding life_inv_def linksD [OF lk] ph by auto
qed

lemma more_use_life:
  assumes "life_inv e h" and "uses_of e s \<noteq> 0" and "uses_of e s \<noteq> - 1"
  shows "life_inv (upd_svc s (\<lambda>x. x\<lparr>s_uses := s_uses x + 1\<rparr>) e) (h(s := h s + 1))"
proof (rule handle_life [OF assms(1)])
  have "unat (uses_of e s + 1) = unat (uses_of e s) + 1"
    using assms(3) unatSuc [of "uses_of e s"] by (metis Suc_eq_plus1 add.commute add_eq_0_iff)
  then show "unat (uses_of (upd_svc s (\<lambda>x. x\<lparr>s_uses := s_uses x + 1\<rparr>) e) x) + h x = unat (uses_of e x) + (h(s := h s + 1)) x" for x
    by simp
qed (use assms(2) in \<open>auto simp: links_upd_svc\<close>)

lemma dec_use_life:
  assumes inv: "life_inv e h" and ro: "rootok e" and held: "0 < h s" and "dec_use s e = Inr e'"
  shows "life_inv e' (h(s := h s - 1)) \<and> rootok e'"
proof -
  let ?e = "upd_svc s (\<lambda>x. x\<lparr>s_uses := uses_of e s - 1\<rparr>) e"
  have gt: "1 < uses_of e s"
    and e': "only_if (\<lambda>x. has_no_external_uses x s (uses_of e s - 1))
        (on_outgoing_reached_no_external_use s (uses_of e s - 1)) ?e = Inr e'"
    using assms(4) unfolding dec_use_def Let_def by (simp_all split: if_splits)
  have "keeps False (only_if (\<lambda>x. has_no_external_uses x s c) (on_outgoing_reached_no_external_use s c))" for c
    by (intro keeps_rules frame)
  then have c: "core e' = core ?e" using e' by (rule keepsD) simp
  have "life_inv ?e (h(s := h s - 1))"
  proof (rule handle_life [OF inv])
    have "unat (uses_of e s - 1) = unat (uses_of e s) - 1" "1 < unat (uses_of e s)"
      using gt by (auto simp: word_less_nat_alt unat_sub word_le_nat_alt)
    then show "unat (uses_of ?e x) + h x = unat (uses_of e x) + (h(s := h s - 1)) x" for x using held by simp
    show "(h(s := h s - 1)) x = h x" if "uses_of e x = 0" for x using that gt by auto
  qed (simp_all add: links_upd_svc)
  from life_inv_core [OF c this] ro show ?thesis by (auto simp: coreD(1,8) [OF c] upd_svc_def)
qed

end
