(* ===== verification/Engine_Steps.thy ===== *)
theory Engine_Steps
  imports Connect_Life Example_Engine
begin

text \<open>
  The engine as a state machine. A step is a handler that runs to its end on the event loop: a posted event is
  delivered, a client's request is handled, an asynchronous hook completes, a usage is connected or
  disconnected, or a client takes or returns a handle on a service. Every state that can be
  reached from a stopped engine satisfies the life cycle invariant.
\<close>

inductive engine_step :: "hooks \<Rightarrow> engine \<times> (sid \<Rightarrow> nat) \<Rightarrow> engine \<times> (sid \<Rightarrow> nat) \<Rightarrow> bool" for hk where
  iteration: "e_posted e = EvProcess # evs \<Longrightarrow> handle_process (start_root hk) hk (e\<lparr>e_posted := evs\<rparr>) = Inr e'
    \<Longrightarrow> engine_step hk (e, h) (e', h)"
| restart: "e_posted e = EvCheckStartable g # evs \<Longrightarrow> check_any_in_cluster_startable (start_root hk) g (e\<lparr>e_posted := evs\<rparr>) = Inr e'
    \<Longrightarrow> engine_step hk (e, h) (e', h)"
| root_start: "start_root hk e = Inr e' \<Longrightarrow> engine_step hk (e, h) (e', h)"
| start: "request_start g r tok e = Inr e' \<Longrightarrow> engine_step hk (e, h) (e', h)"
| stop: "request_stop (start_root hk) (h_release hk) g tok e = Inr e' \<Longrightarrow> engine_step hk (e, h) (e', h)"
| watch: "request_observe g tok e = Inr e' \<Longrightarrow> engine_step hk (e, h) (e', h)"
| started: "post_start_actions (start_root hk) s e = Inr e' \<Longrightarrow> engine_step hk (e, h) (e', h)"
| stopped: "post_stop_actions (start_root hk) (h_release hk) s e = Inr e' \<Longrightarrow> engine_step hk (e, h) (e', h)"
| unique: "on_service_unique (start_root hk) (h_release hk) s e = Inr e' \<Longrightarrow> engine_step hk (e, h) (e', h)"
| connect: "usage_ends e u \<Longrightarrow> weak \<or> isRunning e (used_service e u) \<or> \<not> isLocked e (user_service e u)
    \<Longrightarrow> import_connect u weak e = Inr e' \<Longrightarrow> engine_step hk (e, h) (e', h)"
| disconnect: "import_disconnect (start_root hk) u e = Inr e' \<Longrightarrow> engine_step hk (e, h) (e', h)"
| acquire: "uses_of e s \<noteq> - 1 \<Longrightarrow> try_use s e = Inr (True, e') \<Longrightarrow> engine_step hk (e, h) (e', h(s := h s + 1))"
| copy: "uses_of e s \<noteq> - 1 \<Longrightarrow> inc_use s e = Inr e' \<Longrightarrow> engine_step hk (e, h) (e', h(s := h s + 1))"
| release: "0 < h s \<Longrightarrow> dec_use s e = Inr e' \<Longrightarrow> engine_step hk (e, h) (e', h(s := h s - 1))"

definition stopped_engine :: "engine \<Rightarrow> bool" where
  "stopped_engine e \<longleftrightarrow> wf_engine e \<and> (\<forall>s. phase_of e s = (if s < nsvc e then phase.stopped else uninitialized)) \<and> (\<forall>s. uses_of e s = 0)"

lemma stopped_life: "stopped_engine e \<Longrightarrow> life_inv e (\<lambda>s. 0) \<and> rootok e"
proof -
  assume s: "stopped_engine e"
  then have p: "phase_of e x \<noteq> locked" "phase_of e x \<noteq> running" "\<not> isLocked e x" "\<not> up_phase (phase_of e x)" for x
    by (auto simp: stopped_engine_def isLocked_def is_between_def up_phase_def)
  then have "deps_up e" by (simp add: deps_up_def)
  moreover have "uses_ok e (\<lambda>s. 0) x" for x using s by (intro idle_uses_ok) (auto simp: stopped_engine_def)
  ultimately show ?thesis using s p by (auto simp: life_inv_def stopped_engine_def live_phase_def)
qed

lemma try_use_life:
  assumes "life_inv e h" and "rootok e" and "uses_of e s \<noteq> - 1" and "try_use s e = Inr (True, e')"
  shows "life_inv e' (h(s := h s + 1)) \<and> rootok e'"
proof -
  from assms(4) have u: "uses_of e s \<noteq> 0" and e': "e' = upd_svc s (\<lambda>x. x\<lparr>s_uses := s_uses x + 1\<rparr>) e"
    by (auto simp: try_use_def check_def split: if_splits)
  from more_use_life [OF assms(1) u assms(3)] assms(2) show ?thesis unfolding e' by (auto simp: upd_svc_def)
qed

lemma inc_use_life:
  assumes "life_inv e h" and "rootok e" and "uses_of e s \<noteq> - 1" and "inc_use s e = Inr e'"
  shows "life_inv e' (h(s := h s + 1)) \<and> rootok e'"
proof -
  from assms(4) have u: "uses_of e s \<noteq> 0" and e': "e' = upd_svc s (\<lambda>x. x\<lparr>s_uses := s_uses x + 1\<rparr>) e"
    by (auto simp: inc_use_def)
  from more_use_life [OF assms(1) u assms(3)] assms(2) show ?thesis unfolding e' by (auto simp: upd_svc_def)
qed

lemmas engine_pres = pres_handle_process [OF sr_ok_start_root] keeps_pres [OF keeps_check_any [OF sr_ok_start_root]] pres_start_root pres_request_stop [OF sr_ok_start_root] pres_post_start [OF sr_ok_start_root]
  pres_post_stop [OF sr_ok_start_root] pres_on_service_unique [OF sr_ok_start_root] pres_import_disconnect [OF sr_ok_start_root]
  keeps_pres [OF keeps_request_start] keeps_pres [OF keeps_request_observe]

lemma posted_life: "life_inv e h \<Longrightarrow> rootok e \<Longrightarrow> life_inv (e\<lparr>e_posted := evs\<rparr>) h \<and> rootok (e\<lparr>e_posted := evs\<rparr>)"
  using life_inv_core [of "e\<lparr>e_posted := evs\<rparr>" e h] by simp

lemma step_life:
  assumes "engine_step hk c c'" and "life_inv (fst c) (snd c)" and "rootok (fst c)"
  shows "life_inv (fst c') (snd c') \<and> rootok (fst c')"
  using assms
proof (induction rule: engine_step.induct)
  case (iteration e evs e' h)
  from iteration posted_life [of e h evs] show ?case using presD [OF engine_pres(1) _ _ iteration(2)] by simp
next
  case (restart e g evs e' h)
  from restart posted_life [of e h evs] show ?case using presD [OF engine_pres(2) _ _ restart(2)] by simp
next
  case (root_start e e' h)
  then show ?case using presD [OF engine_pres(3) _ _ root_start(1)] by simp
next
  case (start g r tok e e' h)
  then show ?case using presD [OF engine_pres(9) _ _ start(1)] by simp
next
  case (stop g tok e e' h)
  then show ?case using presD [OF engine_pres(4) _ _ stop(1)] by simp
next
  case (watch g tok e e' h)
  then show ?case using presD [OF engine_pres(10) _ _ watch(1)] by simp
next
  case (started s e e' h)
  then show ?case using presD [OF engine_pres(5) _ _ started(1)] by simp
next
  case (stopped s e e' h)
  then show ?case using presD [OF engine_pres(6) _ _ stopped(1)] by simp
next
  case (unique s e e' h)
  then show ?case using presD [OF engine_pres(7) _ _ unique(1)] by simp
next
  case (disconnect u e e' h)
  then show ?case using presD [OF engine_pres(8) _ _ disconnect(1)] by simp
next
  case (connect e u weak e' h)
  then show ?case using import_connect_life [of e h u weak e'] by simp
next
  case (acquire e s e' h)
  then show ?case using try_use_life [of e h s e'] by (simp add: fun_upd_def)
next
  case (copy e s e' h)
  then show ?case using inc_use_life [of e h s e'] by (simp add: fun_upd_def)
next
  case (release h s e e')
  then show ?case using dec_use_life [of e h s e'] by (simp add: fun_upd_def)
qed

lemma steps_life:
  assumes "(engine_step hk)\<^sup>*\<^sup>* c c'" and "life_inv (fst c) (snd c)" and "rootok (fst c)"
  shows "life_inv (fst c') (snd c') \<and> rootok (fst c')"
  using assms by (induction rule: rtranclp_induct) (blast dest: step_life)+

section \<open>Properties of reachable states\<close>

definition reachable :: "hooks \<Rightarrow> engine \<Rightarrow> (sid \<Rightarrow> nat) \<Rightarrow> bool" where
  "reachable hk e h \<longleftrightarrow> (\<exists>e0. stopped_engine e0 \<and> (engine_step hk)\<^sup>*\<^sup>* (e0, \<lambda>s. 0) (e, h))"

lemma reachable_life:
  assumes "reachable hk e h"
  shows "life_inv e h" "rootok e"
proof -
  from assms obtain e0 where "stopped_engine e0" and steps: "(engine_step hk)\<^sup>*\<^sup>* (e0, \<lambda>s. 0) (e, h)"
    by (auto simp: reachable_def)
  with steps_life [OF steps] stopped_life show "life_inv e h" "rootok e" by auto
qed

text \<open>An engine whose only service is the root, and what its start gives.\<close>

definition ready_hooks :: hooks where
  "ready_hooks = \<lparr>h_start = (\<lambda>s. Ready), h_stop = (\<lambda>s. Ready), h_release = (\<lambda>u. Never)\<rparr>"

definition ex_root :: engine where
  "ex_root =
    \<lparr>svc = (\<lambda>s. \<lparr>s_phase = (if s = 0 then phase.stopped else uninitialized), s_inner = 0, s_high_guid = 0, s_parent = 0,
             s_parts = (if s = 0 then [0] else []), s_uses = 0, s_cluster = Some 0\<rparr>),
     prt = (\<lambda>p. \<lparr>p_kind = kInterface, p_owner = 0, p_children = [], p_users = [], p_imports = [], p_satisfied = True\<rparr>),
     usg = (\<lambda>u. \<lparr>u_used = 0, u_user = 0, u_flags = 0\<rparr>),
     clu = (\<lambda>c. init_cluster False), root = 0, nsvc = 1,
     e_down = [], e_up = [], e_processing = False, e_dispatched = False, e_posted = [],
     e_strong = (\<lambda>s. None), e_log = []\<rparr>"

lemma ex_root_simps [simp]:
  "phase_of ex_root s = (if s = 0 then phase.stopped else uninitialized)" "uses_of ex_root s = 0" "parent ex_root s = 0"
  "s_parts (svc ex_root s) = (if s = 0 then [0] else [])" "s_cluster (svc ex_root s) = Some 0"
  "owner ex_root p = 0" "p_kind (prt ex_root p) = kInterface" "p_children (prt ex_root p) = []" "p_users (prt ex_root p) = []"
  "p_imports (prt ex_root p) = []" "nsvc ex_root = 1" "root ex_root = 0" "\<not> isConnected ex_root u"
  by (simp_all add: ex_root_def isConnected_def contains_def has_mask_def mask_of_def fl_Connected_def)

lemma ex_root_kinds [simp]:
  "\<not> isa_import ex_root p" "isa_export ex_root p" "isRoot ex_root s \<longleftrightarrow> s = 0" "is_cluster_head ex_root s"
  by (auto simp: isa_import_def isa_export_def isRoot_def is_cluster_head_def)

lemma ex_root_stopped: "stopped_engine ex_root"
proof -
  have "wf_heads ex_root" by (auto simp: wf_heads_def wf_tree_def)
  moreover have "wf_usages ex_root" unfolding wf_usages_def by auto
  ultimately have "wf_graph ex_root" by (auto simp: wf_graph_def)
  moreover have "all_attached ex_root" by (auto simp: all_attached_def)
  moreover have "wf_clusters ex_root" by (auto simp: wf_clusters_def is_in_same_cluster_def head_of_head)
  ultimately show ?thesis by (auto simp: stopped_engine_def wf_engine_def)
qed

definition root_runs :: "engine res \<Rightarrow> bool" where
  "root_runs r \<longleftrightarrow> (case r of Inl er \<Rightarrow> False | Inr e \<Rightarrow> phase_of e 0 = running \<and> uses_of e 0 = 1 \<and> root e = 0)"

lemma ex_root_starts: "root_runs (start_root ready_hooks ex_root)"
  by code_simp

lemma ex_root_runs:
  obtains e where "reachable ready_hooks e (\<lambda>s. 0)" "phase_of e 0 = running" "uses_of e 0 = 1" "root e = 0"
proof -
  from ex_root_starts obtain e where e: "start_root ready_hooks ex_root = Inr e" "phase_of e 0 = running" "uses_of e 0 = 1" "root e = 0"
    by (auto simp: root_runs_def split: sum.splits)
  from engine_step.root_start [OF e(1)] ex_root_stopped have "reachable ready_hooks e (\<lambda>s. 0)"
    unfolding reachable_def by blast
  with e that show thesis by blast
qed

text \<open>
  C1. What the use counter counts. In every reachable state the counter of a running service is one plus the number of its
  connected usages and exported children that are locked, plus one while the importing service it
  belongs to is up, plus for the root the locked services that use it implicitly, plus
  the handles held by clients; the counter of a starting service is one plus its handles; in every other phase the
  counter is zero and no handle is held.
\<close>

theorem use_counter_counts:
  assumes "reachable hk e h"
  shows "unat (uses_of e s) =
    (if isRunning e s then 1 + card {m. parent_dep e s m \<and> isLocked e m}
         + card {u. usage_dep e s (user_service e u) u \<and> isLocked e (user_service e u)} + inner_use e s + root_use e s + h s
     else if phase_of e s = starting then 1 + h s else 0) \<and> (\<not> isUsable e s \<longrightarrow> h s = 0)"
proof -
  have u: "uses_ok e h s" by (rule life_invD(4) [OF reachable_life(1) [OF assms]])
  consider "phase_of e s = running" | "phase_of e s = starting" | "phase_of e s \<noteq> running" "phase_of e s \<noteq> starting" by blast
  then show ?thesis
  proof cases
    case 1
    with u have "unat (uses_of e s) = all_uses e h s" by (simp add: uses_ok_def)
    with 1 show ?thesis by (simp add: isRunning_def isUsable_def is_between_def all_uses_def locked_out_def)
  next
    case 2
    with u have "unat (uses_of e s) = 1 + h s" by (simp add: uses_ok_def)
    with 2 show ?thesis by (simp add: isRunning_def isUsable_def is_between_def)
  next
    case 3
    with u show ?thesis using not_running_uses [OF u] by (simp add: isRunning_def)
  qed
qed

theorem use_counter_counts_witness:
  "\<exists>e h. reachable ready_hooks e h \<and> uses_of e 0 = 2 \<and> h 0 = 1
     \<and> unat (uses_of e 0) = 1 + card {m. parent_dep e 0 m \<and> isLocked e m}
         + card {u. usage_dep e 0 (user_service e u) u \<and> isLocked e (user_service e u)} + inner_use e 0 + root_use e 0 + h 0"
proof -
  obtain e where e: "reachable ready_hooks e (\<lambda>s. 0)" "phase_of e 0 = running" "uses_of e 0 = 1" by (rule ex_root_runs)
  let ?e = "upd_svc 0 (\<lambda>x. x\<lparr>s_uses := s_uses x + 1\<rparr>) e" and ?h = "(\<lambda>s. 0)(0 := 0 + 1 :: nat)"
  have "try_use 0 e = Inr (True, ?e)" using e by (simp add: try_use_def check_def isUsable_def is_between_def)
  moreover have "uses_of e 0 \<noteq> - 1" by (simp add: e(3))
  ultimately have "engine_step ready_hooks (e, \<lambda>s. 0) (?e, ?h)" by (rule engine_step.acquire [rotated])
  with e(1) have r: "reachable ready_hooks ?e ?h" unfolding reachable_def by (blast intro: rtranclp.rtrancl_into_rtrancl)
  have "isRunning ?e 0" "uses_of ?e 0 = 2" "?h 0 = 1" using e by (simp_all add: isRunning_def)
  with use_counter_counts [OF r, of 0] r show ?thesis by (intro exI [of _ ?e] exI [of _ ?h] conjI) simp_all
qed



text \<open>
  C3. A service is stopped only when nothing uses it: when the scheduler moves a service of a reachable state from running to
  stopping, no locked service uses it or is its exported child, the importing service it is a member of is not up, no
  client holds a handle on it, and as the root it is used by no locked service. The move itself
  changes that one phase and that one counter.
\<close>

theorem stops_only_unused:
  assumes "reachable hk e h" and "try_set_service_stopping s e = Inr (True, e')"
  shows "isRunning e s \<and> phase_of e' s = stopping \<and> h s = 0
    \<and> (\<forall>u. isConnected e u \<and> used_service e u = s \<longrightarrow> \<not> isLocked e (user_service e u))
    \<and> (\<forall>m<nsvc e. m \<noteq> root e \<and> isa_export e (parent e m) \<and> owner e (parent e m) = s \<longrightarrow> \<not> isLocked e m)
    \<and> (isa_import e (parent e s) \<longrightarrow> phase_of e (owner e (parent e s)) \<notin> {starting, running, stopping})
    \<and> (s = root e \<longrightarrow> (\<forall>m<nsvc e. has_implicit_root_edge e m \<longrightarrow> \<not> isLocked e m))"
proof -
  note inv = reachable_life(1) [OF assms(1)] and m = stopping_moves [OF assms(2)]
  note l = last_use [OF inv m(2,1)]
  note n = no_locked_dependents [OF life_invD(1) [OF inv] l(1)]
  have "s = root e \<Longrightarrow> root_use e (root e) = 0" using l(3) by simp
  then show ?thesis
    using m(2) movesD(2) [OF m(3), of s] l(2,4) n no_root_dependents [of e]
    by (auto simp: parent_dep_def usage_dep_def inner_use_def up_phase_def split: if_splits)
qed

theorem stops_only_unused_witness:
  "\<exists>e e'. reachable ready_hooks e (\<lambda>s. 0) \<and> try_set_service_stopping 0 e = Inr (True, e') \<and> phase_of e' 0 = stopping
     \<and> (\<nexists>u. isConnected e u \<and> used_service e u = 0 \<and> isLocked e (user_service e u))"
proof -
  obtain e where e: "reachable ready_hooks e (\<lambda>s. 0)" "phase_of e 0 = running" "uses_of e 0 = 1" by (rule ex_root_runs)
  then obtain e' where "try_set_service_stopping 0 e = Inr (True, e')"
    by (auto simp: try_set_service_stopping_def do_transition_phase_def do_transition_phase_silent_def observe_def upd_svc_def
        require_def check_def)
  with stops_only_unused [OF e(1) this] e(1) show ?thesis by blast
qed

text \<open>
  The scheduler never starts the root on behalf of another service: reporting a startable service fails unless
  the service is the root or the root is running already, because the code asserts that the root is not stopped before
  it starts it, and the start of a root that is neither stopped nor locked fails.
\<close>

theorem startable_needs_running_root:
  assumes "reachable hk e h" and "on_service_startable (start_root hk) s e = Inr e'"
  shows "isRoot e s \<or> isRunning e (root e)"
proof (rule ccontr)
  assume n: "\<not> ?thesis"
  then have "phase_of e (root e) \<noteq> phase.stopped" using assms(2) by (auto simp: on_service_startable_def isStopped_def)
  with reachable_life(2) [OF assms(1)] sr_ok_start_root [of hk] obtain er where "start_root hk e = Inl er"
    unfolding sr_ok_def by blast
  with n assms(2) show False by (auto simp: on_service_startable_def only_if_def)
qed

theorem startable_needs_running_root_witness:
  "\<exists>e. reachable ready_hooks e (\<lambda>s. 0) \<and> (\<nexists>e'. on_service_startable (start_root ready_hooks) 1 e = Inr e')"
proof -
  have "(engine_step ready_hooks)\<^sup>*\<^sup>* (ex_root, \<lambda>s. 0) (ex_root, \<lambda>s. 0)" by simp
  then have r: "reachable ready_hooks ex_root (\<lambda>s. 0)" using ex_root_stopped unfolding reachable_def by blast
  have "\<not> (isRoot ex_root 1 \<or> isRunning ex_root (root ex_root))" by (simp add: isRunning_def)
  with startable_needs_running_root [OF r, of 1] r show ?thesis by blast
qed

text \<open>
  C33. The public use counter is not protected against overflow: with 2 ^ 32 - 1 uses the next successful \<open>try_use\<close>
  of a usable service wraps the counter to zero, after which no further use succeeds and returning a handle fails.
\<close>

theorem try_use_overflows:
  assumes "isUsable e s" and "uses_of e s = - 1"
  shows "\<exists>e'. try_use s e = Inr (True, e') \<and> uses_of e' s = 0 \<and> try_use s e' = Inr (False, e') \<and> dec_use s e' = Inl AssertFailed"
proof -
  let ?e = "upd_svc s (\<lambda>x. x\<lparr>s_uses := s_uses x + 1\<rparr>) e"
  have "uses_of ?e s = 0" using assms(2) by simp
  moreover from this have "try_use s ?e = Inr (False, ?e)" "dec_use s ?e = Inl AssertFailed"
    by (simp_all add: try_use_def dec_use_def)
  moreover have "try_use s e = Inr (True, ?e)" using assms by (simp add: try_use_def check_def)
  ultimately show ?thesis by blast
qed

theorem try_use_overflows_witness:
  "\<exists>e'. try_use 1 (ex_engine (\<lambda>s. running) (\<lambda>s. - 1) (\<lambda>c. init_cluster False) [] []) = Inr (True, e') \<and> uses_of e' 1 = 0"
  using try_use_overflows [of "ex_engine (\<lambda>s. running) (\<lambda>s. - 1) (\<lambda>c. init_cluster False) [] []" 1]
  by (auto simp: isUsable_def is_between_def)

end
