(* ===== verification/Intrusive_Lists.thy ===== *)
theory Intrusive_Lists
  imports Idle_Prelude
begin

text \<open>
  The intrusive doubly linked lists (src/include/idle/core/util/intrusive_list.hpp and
  intrusive_list_node.hpp) that hold the parts of a service, the children and the users of a part and the
  nodes of the listeners. The heap of nodes is explicit: \<open>nxt\<close> and \<open>prv\<close> are the pointers of a
  node, the null pointer is \<open>None\<close>. A node that is not in any list has two null pointers, and so has
  the only node of a list, which is why the code compares with \<open>first_\<close> as well.
\<close>

section \<open>Lists in the heap\<close>

record ilist =
  nxt :: "nat \<Rightarrow> nat option"
  prv :: "nat \<Rightarrow> nat option"
  il_first :: "nat option"
  il_last :: "nat option"
  il_size :: "64 word"

type_synonym lop = "ilist \<Rightarrow> ilist res"

definition set_next :: "nat \<Rightarrow> nat option \<Rightarrow> ilist \<Rightarrow> ilist" where
  "set_next v p l = l\<lparr>nxt := (nxt l)(v := p)\<rparr>"

definition set_previous :: "nat \<Rightarrow> nat option \<Rightarrow> ilist \<Rightarrow> ilist" where
  "set_previous v p l = l\<lparr>prv := (prv l)(v := p)\<rparr>"

definition is_inserted_in_any_unsafe :: "ilist \<Rightarrow> nat \<Rightarrow> bool" where
  "is_inserted_in_any_unsafe l v \<longleftrightarrow> nxt l v \<noteq> None \<or> prv l v \<noteq> None"

definition is_first :: "ilist \<Rightarrow> nat \<Rightarrow> bool" where
  "is_first l v \<longleftrightarrow> il_first l = Some v"

definition is_last :: "ilist \<Rightarrow> nat \<Rightarrow> bool" where
  "is_last l v \<longleftrightarrow> il_last l = Some v"

definition il_empty :: "ilist \<Rightarrow> bool res" where
  "il_empty l = check (il_first l = None \<or> il_last l \<noteq> None) (il_first l = None)"

definition contains_unsafe :: "ilist \<Rightarrow> nat \<Rightarrow> bool res" where
  "contains_unsafe l v =
     check (is_inserted_in_any_unsafe l v \<or> \<not> is_first l v \<or> il_first l = il_last l)
       (is_inserted_in_any_unsafe l v \<or> is_first l v)"

partial_function (option) contains_linear :: "ilist \<Rightarrow> nat option \<Rightarrow> nat \<Rightarrow> bool option" where
  [code]: "contains_linear l cur v =
     (case cur of
        None \<Rightarrow> Some False
      | Some c \<Rightarrow> if c = v then Some True else contains_linear l (nxt l c) v)"

definition il_contains :: "ilist \<Rightarrow> nat \<Rightarrow> bool res" where
  "il_contains l v = lift_opt (map_option Inr (contains_linear l (il_first l) v))"

definition il_find :: "ilist \<Rightarrow> nat \<Rightarrow> nat option res" where
  "il_find l v = bind (contains_unsafe l v) (\<lambda>b. Inr (if b then Some v else None))"

definition il_front :: "ilist \<Rightarrow> nat res" where
  "il_front l = bind (il_empty l) (\<lambda>b. case il_first l of Some v \<Rightarrow> check (\<not> b) v | None \<Rightarrow> Inl AssertFailed)"

definition il_back :: "ilist \<Rightarrow> nat res" where
  "il_back l = bind (il_empty l) (\<lambda>b. if b then Inl AssertFailed
     else case il_last l of Some v \<Rightarrow> Inr v | None \<Rightarrow> Inl AssertFailed)"

text \<open>The elements an iterator visits, forwards from the first and backwards from the last node.\<close>

partial_function (option) il_walk :: "(nat \<Rightarrow> nat option) \<Rightarrow> nat option \<Rightarrow> nat list option" where
  [code]: "il_walk step cur =
     (case cur of
        None \<Rightarrow> Some []
      | Some c \<Rightarrow> Option.bind (il_walk step (step c)) (\<lambda>xs. Some (c # xs)))"

definition il_range :: "ilist \<Rightarrow> nat list option" where
  "il_range l = il_walk (nxt l) (il_first l)"

section \<open>Insertion\<close>

definition node_insert_between :: "nat \<Rightarrow> nat option \<Rightarrow> nat option \<Rightarrow> lop" where
  "node_insert_between v left right = run
    [require (\<lambda>l. \<not> is_inserted_in_any_unsafe l v),
     require (\<lambda>l. left \<noteq> right \<or> left = None),
     require (\<lambda>l. case (left, right) of (Some a, Some b) \<Rightarrow> nxt l a = right \<and> prv l b = left | _ \<Rightarrow> True),
     (\<lambda>l. case left of None \<Rightarrow> Inr l
          | Some a \<Rightarrow> check (nxt l a = right) (set_next a (Some v) (set_previous v left l))),
     (\<lambda>l. case right of None \<Rightarrow> Inr l
          | Some b \<Rightarrow> check (prv l b = left) (set_previous b (Some v) (set_next v right l)))]"

definition insert_ends :: "nat \<Rightarrow> nat option \<Rightarrow> nat option \<Rightarrow> lop" where
  "insert_ends v left right l =
     bind (il_empty l) (\<lambda>b.
       if b then Inr (l\<lparr>il_first := Some v, il_last := Some v\<rparr>)
       else run
        [only_if (\<lambda>l. case right of None \<Rightarrow> False | Some x \<Rightarrow> is_first l x)
           (\<lambda>l. check (left = None) (l\<lparr>il_first := Some v\<rparr>)),
         only_if (\<lambda>l. case left of None \<Rightarrow> False | Some x \<Rightarrow> is_last l x)
           (\<lambda>l. check (right = None) (l\<lparr>il_last := Some v\<rparr>))] l)"

definition insert_between :: "nat \<Rightarrow> nat option \<Rightarrow> nat option \<Rightarrow> lop" where
  "insert_between v left right = run
    [require (\<lambda>l. \<not> is_inserted_in_any_unsafe l v),
     (\<lambda>l. bind (il_contains l v) (\<lambda>b. check (\<not> b) l)),
     insert_ends v left right,
     (\<lambda>l. Inr (l\<lparr>il_size := il_size l + 1\<rparr>)),
     node_insert_between v left right,
     (\<lambda>l. bind (contains_unsafe l v) (\<lambda>b. check b l)),
     require (\<lambda>l. prv l v \<noteq> None \<or> is_first l v),
     require (\<lambda>l. nxt l v \<noteq> None \<or> is_last l v)]"

definition push_front :: "nat \<Rightarrow> lop" where
  "push_front v l = insert_between v None (il_first l) l"

definition push_back :: "nat \<Rightarrow> lop" where
  "push_back v l = insert_between v (il_last l) None l"

definition il_insert :: "nat option \<Rightarrow> nat \<Rightarrow> lop" where
  "il_insert pos v l =
     (case pos of
        None \<Rightarrow> push_back v l
      | Some p \<Rightarrow> bind (contains_unsafe l p) (\<lambda>b. if b then insert_between v (prv l p) (Some p) l else Inl AssertFailed))"

section \<open>Removal\<close>

definition disconnect :: "nat \<Rightarrow> lop" where
  "disconnect v l =
     (let next = nxt l v; previous = prv l v in run
      [require (\<lambda>l. is_inserted_in_any_unsafe l v),
       (\<lambda>l. case previous of None \<Rightarrow> Inr l | Some a \<Rightarrow> Inr (set_next a next l)),
       (\<lambda>l. case next of None \<Rightarrow> Inr l | Some b \<Rightarrow> Inr (set_previous b previous l)),
       (\<lambda>l. Inr (set_next v None (set_previous v None l))),
       require (\<lambda>l. \<not> is_inserted_in_any_unsafe l v)] l)"

definition il_erase :: "nat \<Rightarrow> ilist \<Rightarrow> (bool \<times> ilist) res" where
  "il_erase v l =
     (if is_inserted_in_any_unsafe l v then
        (if (prv l v = None \<and> \<not> is_first l v) \<or> (nxt l v = None \<and> \<not> is_last l v) then Inl AssertFailed
         else bind (run
          [(\<lambda>l. Inr (l\<lparr>il_size := il_size l - 1\<rparr>)),
           only_if (\<lambda>l. is_first l v) (\<lambda>l. Inr (l\<lparr>il_first := nxt l v\<rparr>)),
           only_if (\<lambda>l. is_last l v) (\<lambda>l. Inr (l\<lparr>il_last := prv l v\<rparr>)),
           disconnect v] l) (\<lambda>l. Inr (True, l)))
      else if is_first l v \<noteq> is_last l v then Inl AssertFailed
      else if is_first l v then Inr (True, l\<lparr>il_first := None, il_last := None, il_size := il_size l - 1\<rparr>)
      else bind (contains_unsafe l v) (\<lambda>b.
        check (\<not> b \<and> prv l v = None \<and> \<not> is_first l v \<and> nxt l v = None \<and> \<not> is_last l v) (False, l)))"

partial_function (option) erase_range :: "nat option \<Rightarrow> nat option \<Rightarrow> ilist \<Rightarrow> ilist res option" where
  [code]: "erase_range cur stop l =
     (if cur = stop then Some (Inr l)
      else case cur of
        None \<Rightarrow> Some (Inl AssertFailed)
      | Some c \<Rightarrow>
          let next = nxt l c in
          (case il_erase c l of
             Inl er \<Rightarrow> Some (Inl er)
           | Inr (ok, l') \<Rightarrow> if ok then erase_range next stop l' else Some (Inl AssertFailed)))"

definition il_clear :: lop where
  "il_clear l = bind (lift_opt (erase_range (il_first l) None l)) (\<lambda>l. bind (il_empty l) (\<lambda>b. check b l))"

section \<open>The forward list\<close>

definition fl_push :: "nat \<Rightarrow> lop" where
  "fl_push v = run
    [require (\<lambda>l. nxt l v = None),
     (\<lambda>l. Inr (set_next v (il_first l) l)),
     (\<lambda>l. Inr (l\<lparr>il_first := Some v\<rparr>))]"

section \<open>The list a heap represents\<close>

definition last_of :: "nat list \<Rightarrow> nat option" where
  "last_of xs = (if xs = [] then None else Some (last xs))"

lemma last_of_simps [simp]: "last_of [] = None" "last_of (xs @ [x]) = Some x" "last_of [x] = Some x"
  "last_of (xs @ y # ys) = Some (last (y # ys))" "last_of (x # y # ys) = last_of (y # ys)"
  by (simp_all add: last_of_def)

lemma last_of_eq_None [simp]: "last_of xs = None \<longleftrightarrow> xs = []"
  by (simp add: last_of_def)

text \<open>A segment between the neighbours \<open>p\<close> and \<open>q\<close>.\<close>

fun seg :: "ilist \<Rightarrow> nat option \<Rightarrow> nat list \<Rightarrow> nat option \<Rightarrow> bool" where
  "seg l p [] q \<longleftrightarrow> True"
| "seg l p (x # xs) q \<longleftrightarrow> prv l x = p \<and> nxt l x = (case xs of [] \<Rightarrow> q | y # _ \<Rightarrow> Some y) \<and> seg l (Some x) xs q"

definition first_or :: "nat list \<Rightarrow> nat option \<Rightarrow> nat option" where
  "first_or ys q = (case ys of [] \<Rightarrow> q | y # _ \<Rightarrow> Some y)"

definition last_or :: "nat list \<Rightarrow> nat option \<Rightarrow> nat option" where
  "last_or xs p = (if xs = [] then p else Some (last xs))"

lemma seg_Cons: "seg l p (x # xs) q \<longleftrightarrow> prv l x = p \<and> nxt l x = first_or xs q \<and> seg l (Some x) xs q"
  by (simp add: first_or_def)

lemma ends_simps [simp]:
  "first_or [] q = q" "first_or (x # xs) q = Some x" "last_or [] p = p" "last_or (x # xs) p = last_or xs (Some x)"
  "last_or (xs @ [x]) p = Some x" "first_or (xs @ x # ys) q = first_or xs (Some x)"
  "last_or xs None = last_of xs" "first_or xs None = first_of xs"
  by (simp_all add: first_or_def last_or_def last_of_def first_of_def split: list.split)

lemma seg_append: "seg l p (xs @ ys) q \<longleftrightarrow> seg l p xs (first_or ys q) \<and> seg l (last_or xs p) ys q"
  by (induction xs arbitrary: p) (auto simp: seg_Cons first_or_def simp del: seg.simps(2) split: list.splits)

lemma seg_cong:
  assumes "\<And>x. x \<in> set xs \<Longrightarrow> nxt l' x = nxt l x \<and> prv l' x = prv l x"
  shows "seg l' p xs q = seg l p xs q"
  using assms by (induction xs arbitrary: p) auto

definition is_list :: "ilist \<Rightarrow> nat list \<Rightarrow> bool" where
  "is_list l xs \<longleftrightarrow> distinct xs \<and> seg l None xs None \<and> il_first l = first_of xs \<and> il_last l = last_of xs
     \<and> il_size l = of_nat (length xs)"

definition is_free :: "ilist \<Rightarrow> nat list \<Rightarrow> nat \<Rightarrow> bool" where
  "is_free l xs v \<longleftrightarrow> v \<notin> set xs \<and> nxt l v = None \<and> prv l v = None"

text \<open>The operations on a list change the nodes of the list and the given node only.\<close>

definition untouched :: "ilist \<Rightarrow> ilist \<Rightarrow> nat set \<Rightarrow> bool" where
  "untouched l l' A \<longleftrightarrow> (\<forall>x. x \<notin> A \<longrightarrow> nxt l' x = nxt l x \<and> prv l' x = prv l x)"

lemma is_listD:
  assumes "is_list l xs"
  shows "distinct xs" "seg l None xs None" "il_first l = first_of xs" "il_last l = last_of xs" "il_size l = of_nat (length xs)"
  using assms by (auto simp: is_list_def)

lemma il_empty_list: "is_list l xs \<Longrightarrow> il_empty l = Inr (xs = [])"
  by (simp add: il_empty_def is_list_def)

lemma seg_links:
  assumes "seg l p (us @ v # vs) q"
  shows "nxt l v = first_or vs q" "prv l v = last_or us p"
  using assms unfolding seg_append seg_Cons by simp_all

lemma is_list_links:
  assumes "is_list l (us @ v # vs)"
  shows "nxt l v = first_of vs" "prv l v = last_of us" "is_first l v \<longleftrightarrow> us = []" "is_last l v \<longleftrightarrow> vs = []"
proof -
  note D = is_listD [OF assms]
  show "nxt l v = first_of vs" "prv l v = last_of us" using seg_links [OF D(2)] by simp_all
  show "is_first l v \<longleftrightarrow> us = []" using D(1,3) by (cases us) (auto simp: is_first_def)
  show "is_last l v \<longleftrightarrow> vs = []"
    using D(1,4) last_in_set [of vs] by (cases "vs = []") (auto simp: is_last_def)
qed

lemma free_ends:
  assumes "is_list l xs" and "v \<notin> set xs"
  shows "\<not> is_first l v" "\<not> is_last l v"
  using is_listD(3,4) [OF assms(1)] assms(2) last_in_set [of xs] first_of_in [of xs v]
  by (auto simp: is_first_def is_last_def last_of_def split: if_splits)

lemma contains_unsafe_list:
  assumes "is_list l xs"
  shows "v \<in> set xs \<Longrightarrow> contains_unsafe l v = Inr True" "is_free l xs v \<Longrightarrow> contains_unsafe l v = Inr False"
proof -
  assume "v \<in> set xs"
  then obtain us vs where xs: "xs = us @ v # vs" by (auto dest: split_list)
  note L = is_list_links [OF assms [unfolded xs]] and D = is_listD(3,4) [OF assms]
  show "contains_unsafe l v = Inr True"
    using L D unfolding xs by (cases us; cases vs) (auto simp: contains_unsafe_def is_inserted_in_any_unsafe_def)
next
  assume "is_free l xs v"
  then show "contains_unsafe l v = Inr False"
    using free_ends [OF assms] by (simp add: contains_unsafe_def is_free_def is_inserted_in_any_unsafe_def)
qed

section \<open>Iteration\<close>

lemma contains_linear_seg: "seg l p xs None \<Longrightarrow> contains_linear l (first_of xs) v = Some (v \<in> set xs)"
proof (induction xs arbitrary: p)
  case Nil
  then show ?case by (subst contains_linear.simps) simp
next
  case (Cons x xs)
  then have "nxt l x = first_of xs" "contains_linear l (first_of xs) v = Some (v \<in> set xs)"
    by (auto simp: seg_Cons simp del: seg.simps)
  then show ?case by (subst contains_linear.simps) auto
qed

lemma il_contains_list: "is_list l xs \<Longrightarrow> il_contains l v = Inr (v \<in> set xs)"
  using contains_linear_seg [of l None xs v] by (simp add: il_contains_def is_list_def)

lemma il_walk_forward: "seg l p xs None \<Longrightarrow> il_walk (nxt l) (first_of xs) = Some xs"
proof (induction xs arbitrary: p)
  case Nil
  then show ?case by (subst il_walk.simps) simp
next
  case (Cons x xs)
  then have "nxt l x = first_of xs" "il_walk (nxt l) (first_of xs) = Some xs" by (auto simp: seg_Cons simp del: seg.simps)
  then show ?case by (subst il_walk.simps) simp
qed

lemma il_walk_backward: "seg l None xs q \<Longrightarrow> il_walk (prv l) (last_of xs) = Some (rev xs)"
proof (induction xs arbitrary: q rule: rev_induct)
  case Nil
  then show ?case by (subst il_walk.simps) simp
next
  case (snoc x xs)
  then have "prv l x = last_of xs" "il_walk (prv l) (last_of xs) = Some (rev xs)"
    by (auto simp: seg_append simp del: seg.simps) (simp add: seg_Cons)
  then show ?case by (subst il_walk.simps) simp
qed

section \<open>Insertion refines insertion into a list\<close>

definition inserted :: "nat list \<Rightarrow> nat \<Rightarrow> nat list \<Rightarrow> ilist \<Rightarrow> ilist" where
  "inserted us v vs l = l\<lparr>
     nxt := \<lambda>x. if x = v then first_of vs else if last_of us = Some x then Some v else nxt l x,
     prv := \<lambda>x. if x = v then last_of us else if first_of vs = Some x then Some v else prv l x,
     il_first := (if us = [] then Some v else il_first l), il_last := (if vs = [] then Some v else il_last l),
     il_size := il_size l + 1\<rparr>"

lemma insert_ends_list:
  assumes "is_list l (us @ vs)"
  shows "insert_ends v (last_of us) (first_of vs) l
    = Inr (l\<lparr>il_first := (if us = [] then Some v else il_first l), il_last := (if vs = [] then Some v else il_last l)\<rparr>)"
proof -
  note D = is_listD [OF assms]
  have r: "(case first_of vs of None \<Rightarrow> False | Some x \<Rightarrow> is_first l x) \<longleftrightarrow> us = [] \<and> vs \<noteq> []"
    using assms is_list_links(3) [of l us "hd vs" "tl vs"] by (cases vs) auto
  have a: "(case last_of us of None \<Rightarrow> False | Some x \<Rightarrow> is_last l x) \<longleftrightarrow> us \<noteq> [] \<and> vs = []"
    using assms is_list_links(4) [of l "butlast us" "last us" vs] by (cases us rule: rev_cases) auto
  have l: "(case last_of us of None \<Rightarrow> False | Some x \<Rightarrow> is_last (l\<lparr>il_first := w\<rparr>) x) \<longleftrightarrow> us \<noteq> [] \<and> vs = []" for w
    using a unfolding is_last_def by (simp cong: option.case_cong)
  show ?thesis
    using r a l il_empty_list [OF assms] D(3,4)
    by (cases "us = []"; cases "vs = []") (auto simp: insert_ends_def only_if_def)
qed

lemma node_insert_list:
  assumes d: "distinct (us @ vs)" "v \<notin> set (us @ vs)" and free: "nxt l v = None" "prv l v = None"
    and s: "seg l None (us @ vs) None"
  shows "node_insert_between v (last_of us) (first_of vs) l = Inr (l\<lparr>
     nxt := \<lambda>x. if x = v then first_of vs else if last_of us = Some x then Some v else nxt l x,
     prv := \<lambda>x. if x = v then last_of us else if first_of vs = Some x then Some v else prv l x\<rparr>)"
proof -
  have n: "nxt l a = first_of vs" if "us = us' @ [a]" for us' a using seg_links(1) [of l None us' a vs None] s that by simp
  have p: "prv l b = last_of us" if "vs = b # vs'" for vs' b using seg_links(2) [of l None us b vs' None] s that by simp
  show ?thesis
    using d free n p
    by (cases us rule: rev_cases; cases vs)
      (auto simp: node_insert_between_def is_inserted_in_any_unsafe_def set_next_def set_previous_def check_def fun_eq_iff
        intro!: ilist.equality)
qed

lemma inserted_list:
  assumes "is_list l (us @ vs)" and "v \<notin> set (us @ vs)"
  shows "is_list (inserted us v vs l) (us @ v # vs)"
proof -
  note D = is_listD [OF assms(1)]
  let ?l = "inserted us v vs l"
  have su: "seg l None us (first_of vs)" and sv: "seg l (last_of us) vs None" using D(2) by (simp_all add: seg_append)
  have "seg ?l None us (Some v)"
  proof (cases us rule: rev_cases)
    case (snoc us' a)
    have "seg ?l None us' (Some a) = seg l None us' (Some a)"
      by (rule seg_cong) (use snoc D(1) assms(2) in \<open>auto simp: inserted_def dest: first_of_in\<close>)
    moreover have "first_of vs \<noteq> Some a" using snoc D(1) first_of_in [of vs a] by auto
    ultimately show ?thesis using su snoc assms(2) by (auto simp: seg_append inserted_def)
  qed simp
  moreover have "seg ?l (Some v) vs None"
  proof (cases vs)
    case (Cons b vs')
    have "seg ?l (Some b) vs' None = seg l (Some b) vs' None"
      by (rule seg_cong) (use Cons D(1) assms(2) last_in_set [of us] in \<open>auto simp: inserted_def last_of_def disjoint_iff split: if_splits\<close>)
    moreover have "last_of us \<noteq> Some b" using Cons D(1) last_in_set [of us] by (auto simp: last_of_def split: if_splits)
    ultimately show ?thesis using sv Cons assms(2) by (auto simp: inserted_def)
  qed simp
  moreover have "nxt ?l v = first_of vs" "prv ?l v = last_of us" by (simp_all add: inserted_def)
  ultimately have "seg ?l None (us @ v # vs) None" by (simp add: seg_append seg_Cons del: seg.simps)
  moreover have "il_first ?l = first_of (us @ v # vs)" using D(3) by (cases us) (simp_all add: inserted_def)
  moreover have "il_last ?l = last_of (us @ v # vs)" using D(4) by (cases vs) (simp_all add: inserted_def)
  ultimately show ?thesis using D(1,5) assms(2) by (auto simp: is_list_def inserted_def)
qed

lemma insert_between_list:
  assumes "is_list l (us @ vs)" and "is_free l (us @ vs) v"
  shows "insert_between v (last_of us) (first_of vs) l = Inr (inserted us v vs l)"
proof -
  note D = is_listD [OF assms(1)]
  have v: "v \<notin> set (us @ vs)" "nxt l v = None" "prv l v = None" using assms(2) by (auto simp: is_free_def)
  let ?l = "inserted us v vs l"
  note L = is_list_links [OF inserted_list [OF assms(1) v(1)]]
  have "node_insert_between v (last_of us) (first_of vs) (l\<lparr>il_first := f, il_last := t, il_size := n\<rparr>)
      = Inr (l\<lparr>nxt := \<lambda>x. if x = v then first_of vs else if last_of us = Some x then Some v else nxt l x,
               prv := \<lambda>x. if x = v then last_of us else if first_of vs = Some x then Some v else prv l x,
               il_first := f, il_last := t, il_size := n\<rparr>)" for f t n
    using node_insert_list [OF D(1) v(1), of "l\<lparr>il_first := f, il_last := t, il_size := n\<rparr>"] v(2,3) D(2)
      seg_cong [of "us @ vs" "l\<lparr>il_first := f, il_last := t, il_size := n\<rparr>" l None None]
    by (simp cong: if_cong)
  moreover have "contains_unsafe ?l v = Inr True"
    using contains_unsafe_list(1) [OF inserted_list [OF assms(1) v(1)]] by simp
  moreover have "prv ?l v \<noteq> None \<or> is_first ?l v" "nxt ?l v \<noteq> None \<or> is_last ?l v" using L by auto
  ultimately show ?thesis
    using insert_ends_list [OF assms(1), of v] il_contains_list [OF assms(1), of v] v
    by (simp add: insert_between_def is_inserted_in_any_unsafe_def inserted_def require_def is_first_def is_last_def
        del: not_None_eq)
qed

section \<open>Removal refines removal from a list\<close>

definition removed :: "nat list \<Rightarrow> nat \<Rightarrow> nat list \<Rightarrow> ilist \<Rightarrow> ilist" where
  "removed us v vs l = l\<lparr>
     nxt := \<lambda>x. if x = v then None else if last_of us = Some x then first_of vs else nxt l x,
     prv := \<lambda>x. if x = v then None else if first_of vs = Some x then last_of us else prv l x,
     il_first := first_of (us @ vs), il_last := last_of (us @ vs), il_size := il_size l - 1\<rparr>"

lemma removed_list:
  assumes "is_list l (us @ v # vs)"
  shows "is_list (removed us v vs l) (us @ vs)"
proof -
  note D = is_listD [OF assms]
  let ?l = "removed us v vs l"
  have su: "seg l None us (Some v)" and sv: "seg l (Some v) vs None" using D(2) by (simp_all add: seg_append seg_Cons del: seg.simps)
  have "seg ?l None us (first_of vs)"
  proof (cases us rule: rev_cases)
    case (snoc us' a)
    have "seg ?l None us' (Some a) = seg l None us' (Some a)"
      by (rule seg_cong) (use snoc D(1) in \<open>auto simp: removed_def dest: first_of_in\<close>)
    moreover have "first_of vs \<noteq> Some a" using snoc D(1) first_of_in [of vs a] by auto
    ultimately show ?thesis using su snoc D(1) by (auto simp: seg_append removed_def)
  qed simp
  moreover have "seg ?l (last_of us) vs None"
  proof (cases vs)
    case (Cons b vs')
    have "seg ?l (Some b) vs' None = seg l (Some b) vs' None"
      by (rule seg_cong) (use Cons D(1) last_in_set [of us] in \<open>auto simp: removed_def last_of_def disjoint_iff split: if_splits\<close>)
    moreover have "last_of us \<noteq> Some b" using Cons D(1) last_in_set [of us] by (auto simp: last_of_def split: if_splits)
    ultimately show ?thesis using sv Cons D(1) by (auto simp: removed_def)
  qed simp
  ultimately have "seg ?l None (us @ vs) None" by (simp add: seg_append)
  moreover have "il_size l - 1 = of_nat (length (us @ vs))" using D(5) by simp
  ultimately show ?thesis using D(1) by (auto simp: is_list_def removed_def)
qed

lemma disconnect_list:
  assumes n: "nxt l v = first_of vs" and p: "prv l v = last_of us" and d: "distinct (us @ v # vs)" and ne: "us \<noteq> [] \<or> vs \<noteq> []"
  shows "disconnect v l = Inr (l\<lparr>
     nxt := \<lambda>x. if x = v then None else if last_of us = Some x then first_of vs else nxt l x,
     prv := \<lambda>x. if x = v then None else if first_of vs = Some x then last_of us else prv l x\<rparr>)"
  using assms
  by (cases us rule: rev_cases; cases vs)
    (auto simp: disconnect_def is_inserted_in_any_unsafe_def set_next_def set_previous_def Let_def require_def fun_eq_iff
      intro!: ilist.equality)

lemma il_erase_list:
  assumes "is_list l (us @ v # vs)"
  shows "il_erase v l = Inr (True, removed us v vs l)"
proof (cases "us = [] \<and> vs = []")
  case True
  with assms show ?thesis
    by (auto simp: il_erase_def is_list_def is_inserted_in_any_unsafe_def is_first_def is_last_def removed_def fun_eq_iff
        intro!: ilist.equality)
next
  case False
  note L = is_list_links [OF assms] and D = is_listD [OF assms]
  have "disconnect v (l\<lparr>il_first := f, il_last := t, il_size := n\<rparr>) = Inr (l\<lparr>
     nxt := \<lambda>x. if x = v then None else if last_of us = Some x then first_of vs else nxt l x,
     prv := \<lambda>x. if x = v then None else if first_of vs = Some x then last_of us else prv l x,
     il_first := f, il_last := t, il_size := n\<rparr>)" for f t n
    using disconnect_list [of "l\<lparr>il_first := f, il_last := t, il_size := n\<rparr>" v vs us] L(1,2) D(1) False
    by (simp cong: if_cong)
  moreover have "is_inserted_in_any_unsafe l v" using L(1,2) False by (auto simp: is_inserted_in_any_unsafe_def)
  moreover have "run [(\<lambda>l. Inr (l\<lparr>il_size := il_size l - 1\<rparr>)),
      only_if (\<lambda>l. is_first l v) (\<lambda>l. Inr (l\<lparr>il_first := nxt l v\<rparr>)),
      only_if (\<lambda>l. is_last l v) (\<lambda>l. Inr (l\<lparr>il_last := prv l v\<rparr>)), disconnect v] l
    = disconnect v (l\<lparr>il_first := first_of (us @ vs), il_last := last_of (us @ vs), il_size := il_size l - 1\<rparr>)"
  proof -
    have "(if us = [] then nxt l v else il_first l) = first_of (us @ vs)" using L(1) D(3) by (cases us) simp_all
    moreover have "(if vs = [] then prv l v else il_last l) = last_of (us @ vs)" using L(2) D(4) by (cases vs) simp_all
    moreover have "only_if (\<lambda>l. is_first l v) (\<lambda>l. Inr (l\<lparr>il_first := nxt l v\<rparr>)) (l\<lparr>il_size := n\<rparr>)
        = Inr (l\<lparr>il_first := (if us = [] then nxt l v else il_first l), il_size := n\<rparr>)" for n
      using L(3) by (cases l) (simp add: only_if_def is_first_def)
    moreover have "only_if (\<lambda>l. is_last l v) (\<lambda>l. Inr (l\<lparr>il_last := prv l v\<rparr>)) (l\<lparr>il_first := f, il_size := n\<rparr>)
        = Inr (l\<lparr>il_first := f, il_last := (if vs = [] then prv l v else il_last l), il_size := n\<rparr>)" for n f
      using L(4) by (cases l) (simp add: only_if_def is_last_def)
    ultimately show ?thesis by simp
  qed
  moreover have "\<not> ((prv l v = None \<and> \<not> is_first l v) \<or> (nxt l v = None \<and> \<not> is_last l v))" using L by auto
  ultimately show ?thesis by (simp add: il_erase_def removed_def)
qed

lemma freed: "is_list l (us @ v # vs) \<Longrightarrow> is_free (removed us v vs l) (us @ vs) v"
  by (auto simp: is_list_def is_free_def removed_def)

lemma untouched_refl [simp]: "untouched l l A"
  by (simp add: untouched_def)

lemma untouched_inserted: "untouched l (inserted us v vs l) (insert v (set (us @ vs)))"
  by (auto simp: untouched_def inserted_def last_of_def dest: first_of_in split: if_splits)

lemma untouched_removed: "untouched l (removed us v vs l) (set (us @ v # vs))"
  by (auto simp: untouched_def removed_def last_of_def dest: first_of_in split: if_splits)

lemma absent_erase: "is_list l xs \<Longrightarrow> is_free l xs v \<Longrightarrow> il_erase v l = Inr (False, l)"
  using free_ends [of l xs v] contains_unsafe_list(2) [of l xs v]
  by (simp add: il_erase_def is_free_def is_inserted_in_any_unsafe_def)

lemma push_back_list: "is_list l xs \<Longrightarrow> is_free l xs v \<Longrightarrow> push_back v l = Inr (inserted xs v [] l)"
  using insert_between_list [of l xs "[]" v] by (simp add: push_back_def is_list_def)

lemma push_front_list: "is_list l xs \<Longrightarrow> is_free l xs v \<Longrightarrow> push_front v l = Inr (inserted [] v xs l)"
  using insert_between_list [of l "[]" xs v] by (simp add: push_front_def is_list_def)

lemma il_insert_list:
  assumes "is_list l (us @ p # vs)" and "is_free l (us @ p # vs) v"
  shows "il_insert (Some p) v l = Inr (inserted us v (p # vs) l)"
  using insert_between_list [OF assms] contains_unsafe_list(1) [OF assms(1), of p] is_list_links(2) [OF assms(1)]
  by (simp add: il_insert_def)

lemma erase_range_list:
  assumes "is_list l xs"
  shows "\<exists>l'. erase_range (first_of xs) None l = Some (Inr l') \<and> is_list l' [] \<and> untouched l l' (set xs)
    \<and> (\<forall>x\<in>set xs. is_free l' [] x)"
  using assms
proof (induction xs arbitrary: l)
  case Nil
  then show ?case by (subst erase_range.simps) simp
next
  case (Cons x xs)
  have l: "is_list l ([] @ x # xs)" using Cons.prems by simp
  let ?l = "removed [] x xs l"
  have r: "is_list ?l xs" using removed_list [OF l] by simp
  from Cons.IH [OF r] obtain l' where l': "erase_range (first_of xs) None ?l = Some (Inr l')" "is_list l' []"
    "untouched ?l l' (set xs)" "\<forall>x\<in>set xs. is_free l' [] x" by blast
  have "erase_range (first_of (x # xs)) None l = Some (Inr l')"
    using il_erase_list [OF l] is_list_links(1) [OF l] l'(1) by (subst erase_range.simps) (simp add: Let_def)
  moreover have "untouched l l' (set (x # xs))" using untouched_removed [of l "[]" x xs] l'(3) by (auto simp: untouched_def)
  moreover have "is_free l' [] x"
    using freed [OF l] l'(3) is_listD(1) [OF Cons.prems] by (auto simp: is_free_def untouched_def)
  ultimately show ?case using l' by auto
qed

section \<open>The interface\<close>

text \<open>
  What the owners of a list rely on: a free node can be added at the end, a node of the list can be
  removed and is free afterwards, and removing a free node changes nothing.
\<close>

locale node_sequence =
  fixes repr :: "'s \<Rightarrow> 'a list \<Rightarrow> bool"
    and free :: "'s \<Rightarrow> 'a list \<Rightarrow> 'a \<Rightarrow> bool"
    and add :: "'a \<Rightarrow> 's \<Rightarrow> 's res"
    and del :: "'a \<Rightarrow> 's \<Rightarrow> (bool \<times> 's) res"
  assumes repr_distinct: "repr s xs \<Longrightarrow> distinct xs"
    and free_notin: "free s xs v \<Longrightarrow> v \<notin> set xs"
    and add_repr: "repr s xs \<Longrightarrow> free s xs v \<Longrightarrow> \<exists>s'. add v s = Inr s' \<and> repr s' (xs @ [v])
      \<and> (\<forall>w. free s xs w \<and> w \<noteq> v \<longrightarrow> free s' (xs @ [v]) w)"
    and del_repr: "repr s xs \<Longrightarrow> v \<in> set xs \<Longrightarrow> \<exists>s'. del v s = Inr (True, s') \<and> repr s' (remove1 v xs) \<and> free s' (remove1 v xs) v"
    and del_free: "repr s xs \<Longrightarrow> free s xs v \<Longrightarrow> del v s = Inr (False, s)"
begin

lemma add_del:
  assumes "repr s xs" and "free s xs v"
  shows "\<exists>s' s''. add v s = Inr s' \<and> del v s' = Inr (True, s'') \<and> repr s'' xs"
proof -
  from add_repr [OF assms] obtain s' where s': "add v s = Inr s'" "repr s' (xs @ [v])" by blast
  from del_repr [OF s'(2), of v] free_notin [OF assms(2)] s'(1) show ?thesis by (auto simp: remove1_append)
qed

lemma del_twice:
  assumes "repr s xs" and "v \<in> set xs"
  shows "\<exists>s'. del v s = Inr (True, s') \<and> del v s' = Inr (False, s')"
  using del_repr [OF assms] del_free by blast

lemma add_all:
  assumes "repr s xs" and "distinct vs" and "\<And>v. v \<in> set vs \<Longrightarrow> free s xs v"
  shows "\<exists>s'. fold_res add vs s = Inr s' \<and> repr s' (xs @ vs)"
  using assms
proof (induction vs arbitrary: s xs)
  case (Cons v vs)
  from add_repr [OF Cons.prems(1), of v] Cons.prems(3) obtain s' where s': "add v s = Inr s'" "repr s' (xs @ [v])"
    "\<And>w. free s xs w \<Longrightarrow> w \<noteq> v \<Longrightarrow> free s' (xs @ [v]) w" by auto
  have "\<exists>t. fold_res add vs s' = Inr t \<and> repr t ((xs @ [v]) @ vs)"
    by (rule Cons.IH [OF s'(2)]) (use Cons.prems s'(3) in auto)
  with s'(1) show ?case by simp
qed simp

end

interpretation il: node_sequence is_list is_free push_back il_erase
proof
  fix l xs v assume l: "is_list l xs" "is_free l xs v"
  have "is_free (inserted xs v [] l) (xs @ [v]) w" if "is_free l xs w" "w \<noteq> v" for w
    using that last_in_set [of xs] by (auto simp: is_free_def inserted_def last_of_def split: if_splits)
  with push_back_list [OF l] inserted_list [of l xs "[]" v] l show "\<exists>s'. push_back v l = Inr s' \<and> is_list s' (xs @ [v])
      \<and> (\<forall>w. is_free l xs w \<and> w \<noteq> v \<longrightarrow> is_free s' (xs @ [v]) w)" by (auto simp: is_free_def)
  show "il_erase v l = Inr (False, l)" by (rule absent_erase [OF l])
next
  fix l xs v assume l: "is_list l xs" "v \<in> set xs"
  then obtain us vs where xs: "xs = us @ v # vs" and u: "v \<notin> set us" by (metis split_list_first)
  show "\<exists>s'. il_erase v l = Inr (True, s') \<and> is_list s' (remove1 v xs) \<and> is_free s' (remove1 v xs) v"
    using l(1) il_erase_list [of l us v vs] removed_list [of l us v vs] freed [of l us v vs] u
    by (simp add: xs remove1_append)
qed (auto simp: is_list_def is_free_def)

section \<open>Properties\<close>

text \<open>
  C8. The intrusive list implements a list without duplicates: iterating forwards and backwards visits its elements in order
  and in reverse order; inserting a free node before any position, or at the end, succeeds without violating an
  assertion and inserts it there; erasing it again succeeds and gives back the old list and a free node. Nodes outside
  the list are not touched.
\<close>

theorem intrusive_list_refines_list:
  assumes "is_list l (us @ vs)" and "is_free l (us @ vs) v"
  shows "il_range l = Some (us @ vs) \<and> il_walk (prv l) (il_last l) = Some (rev (us @ vs))
    \<and> (\<exists>l' l''. il_insert (first_of vs) v l = Inr l' \<and> is_list l' (us @ v # vs) \<and> untouched l l' (insert v (set (us @ vs)))
        \<and> il_erase v l' = Inr (True, l'') \<and> is_list l'' (us @ vs) \<and> is_free l'' (us @ vs) v \<and> untouched l' l'' (set (us @ v # vs)))"
proof -
  note D = is_listD [OF assms(1)]
  have "il_insert (first_of vs) v l = Inr (inserted us v vs l)"
    using assms push_back_list [of l us v] il_insert_list [of l us "hd vs" "tl vs" v] by (cases vs) (simp_all add: il_insert_def)
  moreover have "is_list (inserted us v vs l) (us @ v # vs)"
    using inserted_list [OF assms(1)] assms(2) by (simp add: is_free_def)
  ultimately show ?thesis
    using il_walk_forward [OF D(2)] il_walk_backward [OF D(2)] D(3,4) untouched_inserted untouched_removed
      il_erase_list removed_list freed by (fastforce simp: il_range_def)
qed

definition ex_ilist :: ilist where
  "ex_ilist = \<lparr>nxt = \<lambda>x. if x = 1 then Some 2 else None, prv = \<lambda>x. if x = 2 then Some 1 else None,
     il_first = Some 1, il_last = Some 2, il_size = 2\<rparr>"

theorem intrusive_list_refines_list_witness:
  "il_range ex_ilist = Some [1, 2]
    \<and> (\<exists>l' l''. il_insert (Some 2) 7 ex_ilist = Inr l' \<and> is_list l' [1, 7, 2] \<and> il_erase 7 l' = Inr (True, l'') \<and> is_list l'' [1, 2])"
proof -
  have "is_list ex_ilist ([1] @ [2])" "is_free ex_ilist ([1] @ [2]) 7"
    by (simp_all add: is_list_def is_free_def ex_ilist_def last_of_def)
  from intrusive_list_refines_list [OF this] show ?thesis by fastforce
qed

text \<open>
  Clearing a list terminates without violating an assertion: afterwards the list is empty and every node that was in it
  is free to be inserted anywhere. Other nodes are not touched.
\<close>

theorem intrusive_list_clear:
  assumes "is_list l xs"
  shows "\<exists>l'. il_clear l = Inr l' \<and> is_list l' [] \<and> il_range l' = Some [] \<and> (\<forall>x\<in>set xs. is_free l' [] x) \<and> untouched l l' (set xs)"
proof -
  from erase_range_list [OF assms] obtain l' where l': "erase_range (first_of xs) None l = Some (Inr l')" "is_list l' []"
    "untouched l l' (set xs)" "\<forall>x\<in>set xs. is_free l' [] x" by blast
  moreover have "il_clear l = Inr l'"
    using l'(1) il_empty_list [OF l'(2)] is_listD(3) [OF assms] by (simp add: il_clear_def)
  moreover have "il_range l' = Some []" using il_walk_forward [of l' None "[]"] l'(2) by (simp add: il_range_def is_list_def)
  ultimately show ?thesis by blast
qed

theorem intrusive_list_clear_witness:
  "\<exists>l'. il_clear ex_ilist = Inr l' \<and> is_list l' [] \<and> il_range l' = Some [] \<and> is_free l' [] 1 \<and> is_free l' [] 2"
proof -
  have "is_list ex_ilist [1, 2]" by (simp add: is_list_def ex_ilist_def last_of_def)
  from intrusive_list_clear [OF this] show ?thesis by auto
qed

end
