(* ===== verification/Ref_Counts.thy ===== *)
theory Ref_Counts
  imports Idle_Prelude
begin

text \<open>
  Reference counting: the control block \<open>atomic_cb\<close>, the counters, strong and weak references of
  src/include/idle/core/detail/ref_base.hpp and the allocation of src/include/idle/core/ref.hpp.

  A state holds the two counters of every control block, the variables of the program that are counters
  (\<open>hblk\<close>: the block a strong or weak counter points to) or references (\<open>hptr\<close>: the object a reference
  points to), and the log of the callbacks of the blocks. The atomic read-modify-write operations of a block are single steps;
  an operation of a counter is a sequence of them. The compare-exchange loop of \<open>try_increase\<close>
  is the step of its last, successful iteration.
\<close>

section \<open>Control blocks\<close>

datatype rkind = Strong | Weak

datatype cb_event =
    OnUnique nat
  | OnDestruct nat
  | OnDeallocate nat

record refs =
  cstrong :: "nat \<Rightarrow> 32 word"
  cweak :: "nat \<Rightarrow> 32 word"
  hblk :: "rkind \<Rightarrow> nat \<Rightarrow> nat option"
  hptr :: "rkind \<Rightarrow> nat \<Rightarrow> nat option"
  rlog :: "cb_event list"

type_synonym rop = "refs \<Rightarrow> refs res"

definition callback :: "cb_event \<Rightarrow> rop" where
  "callback ev r = Inr (r\<lparr>rlog := rlog r @ [ev]\<rparr>)"

definition count_unsafe :: "rkind \<Rightarrow> nat \<Rightarrow> refs \<Rightarrow> 32 word" where
  "count_unsafe k b r = (case k of Strong \<Rightarrow> cstrong r b | Weak \<Rightarrow> cweak r b)"

definition increase :: "rkind \<Rightarrow> nat \<Rightarrow> rop" where
  "increase k b r =
     (case k of
        Strong \<Rightarrow> check (cstrong r b \<noteq> 0) (r\<lparr>cstrong := (cstrong r)(b := cstrong r b + 1)\<rparr>)
      | Weak \<Rightarrow> Inr (r\<lparr>cweak := (cweak r)(b := cweak r b + 1)\<rparr>))"

definition try_increase :: "nat \<Rightarrow> refs \<Rightarrow> bool \<times> refs" where
  "try_increase b r =
     (if cstrong r b \<noteq> 0 then (True, r\<lparr>cstrong := (cstrong r)(b := cstrong r b + 1)\<rparr>) else (False, r))"

definition cb_expired :: "nat \<Rightarrow> refs \<Rightarrow> bool" where
  "cb_expired b r \<longleftrightarrow> cstrong r b = 0"

definition decrease_weak :: "nat \<Rightarrow> rop" where
  "decrease_weak b r =
     (let previous = cweak r b; r' = r\<lparr>cweak := (cweak r)(b := previous - 1)\<rparr> in
      if previous = 0 then Inl AssertFailed
      else if previous = 1 then (if cstrong r' b = 0 then callback (OnDeallocate b) r' else Inl AssertFailed)
      else Inr r')"

definition decrease_strong :: "nat \<Rightarrow> rop" where
  "decrease_strong b r =
     (let previous = cstrong r b; r' = r\<lparr>cstrong := (cstrong r)(b := previous - 1)\<rparr> in
      if previous = 0 then Inl AssertFailed
      else if previous = 1 then bind (callback (OnDestruct b) r') (decrease_weak b)
      else if previous = 2 then callback (OnUnique b) r'
      else Inr r')"

definition decrease :: "rkind \<Rightarrow> nat \<Rightarrow> rop" where
  "decrease k = (case k of Strong \<Rightarrow> decrease_strong | Weak \<Rightarrow> decrease_weak)"

section \<open>Counters\<close>

text \<open>The argument \<open>h\<close> is the variable the operation is called on, \<open>g\<close> the variable it reads.\<close>

definition set_blk :: "rkind \<Rightarrow> nat \<Rightarrow> nat option \<Rightarrow> refs \<Rightarrow> refs" where
  "set_blk k h b r = r\<lparr>hblk := (hblk r)(k := (hblk r k)(h := b))\<rparr>"

definition with_block :: "nat option \<Rightarrow> (nat \<Rightarrow> rop) \<Rightarrow> rop" where
  "with_block b f r = (case b of None \<Rightarrow> Inr r | Some c \<Rightarrow> f c r)"

definition counter_from_block :: "rkind \<Rightarrow> nat \<Rightarrow> nat option \<Rightarrow> bool \<Rightarrow> rop" where
  "counter_from_block k h b add_ref r =
     (if add_ref then with_block b (increase k) (set_blk k h b r) else Inr (set_blk k h b r))"

definition counter_copy :: "rkind \<Rightarrow> nat \<Rightarrow> nat \<Rightarrow> rop" where
  "counter_copy k h g r = counter_from_block k h (hblk r k g) True r"

definition counter_move :: "rkind \<Rightarrow> nat \<Rightarrow> nat \<Rightarrow> rop" where
  "counter_move k h g r = Inr (set_blk k h (hblk r k g) (set_blk k g None r))"

definition counter_destroy :: "rkind \<Rightarrow> nat \<Rightarrow> rop" where
  "counter_destroy k h r = bind (with_block (hblk r k h) (decrease k) r) (\<lambda>r. Inr (set_blk k h None r))"

definition counter_assign_block :: "rkind \<Rightarrow> nat \<Rightarrow> nat option \<Rightarrow> rop" where
  "counter_assign_block k h b r =
     (let old = hblk r k h in
      bind (with_block old (decrease k) (set_blk k h b r)) (\<lambda>r. with_block (hblk r k h) (increase k) r))"

definition counter_assign :: "rkind \<Rightarrow> nat \<Rightarrow> nat \<Rightarrow> rop" where
  "counter_assign k h g r = counter_assign_block k h (hblk r k g) r"

definition counter_move_assign :: "rkind \<Rightarrow> nat \<Rightarrow> nat \<Rightarrow> rop" where
  "counter_move_assign k h g r =
     (let old = hblk r k h in
      bind (with_block old (decrease k) (set_blk k h (hblk r k g) r)) (\<lambda>r. Inr (set_blk k g None r)))"

definition counter_reset :: "rkind \<Rightarrow> nat \<Rightarrow> rop" where
  "counter_reset k h r = (let old = hblk r k h in with_block old (decrease k) (set_blk k h None r))"

definition counter_release :: "rkind \<Rightarrow> nat \<Rightarrow> rop" where
  "counter_release k h r = Inr (set_blk k h None r)"

definition counter_increment :: "rkind \<Rightarrow> nat \<Rightarrow> rop" where
  "counter_increment k h r = with_block (hblk r k h) (increase k) r"

definition counter_decrement :: "rkind \<Rightarrow> nat \<Rightarrow> rop" where
  "counter_decrement k h r = with_block (hblk r k h) (decrease k) r"

text \<open>\<open>swap\<close> moves through a temporary \<open>cache\<close>, which holds nothing in the end and is then destroyed.\<close>

definition counter_swap :: "rkind \<Rightarrow> nat \<Rightarrow> nat \<Rightarrow> nat \<Rightarrow> rop" where
  "counter_swap k cache left right =
     (if left \<noteq> right then run
       [counter_move k cache left, counter_move_assign k left right, counter_move_assign k right cache, counter_destroy k cache]
      else Inr)"

definition counter_lock :: "nat \<Rightarrow> nat \<Rightarrow> rop" where
  "counter_lock h g r =
     (case hblk r Weak g of
        None \<Rightarrow> counter_from_block Strong h None True r
      | Some b \<Rightarrow>
          (case try_increase b r of
             (True, r) \<Rightarrow> counter_from_block Strong h (Some b) False r
           | (False, r) \<Rightarrow> counter_from_block Strong h None True r))"

definition counter_expired :: "nat \<Rightarrow> refs \<Rightarrow> bool" where
  "counter_expired g r \<longleftrightarrow> (case hblk r Weak g of None \<Rightarrow> False | Some b \<Rightarrow> cb_expired b r)"

section \<open>References\<close>

definition set_ptr :: "rkind \<Rightarrow> nat \<Rightarrow> nat option \<Rightarrow> refs \<Rightarrow> refs" where
  "set_ptr k h p r = r\<lparr>hptr := (hptr r)(k := (hptr r k)(h := p))\<rparr>"

definition ref_copy :: "rkind \<Rightarrow> nat \<Rightarrow> nat \<Rightarrow> rop" where
  "ref_copy k h g r = bind (counter_copy k h g r) (\<lambda>r. Inr (set_ptr k h (hptr r k g) r))"

definition ref_move :: "rkind \<Rightarrow> nat \<Rightarrow> nat \<Rightarrow> rop" where
  "ref_move k h g r =
     bind (counter_move k h g r) (\<lambda>r. Inr (set_ptr k h (hptr r k g) (set_ptr k g None r)))"

definition ref_assign :: "rkind \<Rightarrow> nat \<Rightarrow> nat \<Rightarrow> rop" where
  "ref_assign k h g r = counter_assign k h g (set_ptr k h (hptr r k g) r)"

text \<open>\<open>std::exchange\<close> clears the right pointer before the left one is written.\<close>

definition ref_move_assign :: "rkind \<Rightarrow> nat \<Rightarrow> nat \<Rightarrow> rop" where
  "ref_move_assign k h g r = counter_move_assign k h g (set_ptr k h (hptr r k g) (set_ptr k g None r))"

definition ref_reset :: "rkind \<Rightarrow> nat \<Rightarrow> rop" where
  "ref_reset k h r = counter_reset k h (set_ptr k h None r)"

definition ref_release :: "rkind \<Rightarrow> nat \<Rightarrow> refs \<Rightarrow> (nat option \<times> refs) res" where
  "ref_release k h r = bind (counter_release k h (set_ptr k h None r)) (\<lambda>r'. Inr (hptr r k h, r'))"

definition ref_disown :: "nat \<Rightarrow> rop" where
  "ref_disown h = counter_reset Strong h"

definition is_acquired :: "nat \<Rightarrow> refs \<Rightarrow> bool" where
  "is_acquired h r \<longleftrightarrow> hblk r Strong h \<noteq> None"

definition ref_weak :: "nat \<Rightarrow> nat \<Rightarrow> rop" where
  "ref_weak h g r = bind (counter_from_block Weak h (hblk r Strong g) True r) (\<lambda>r.
     check (\<not> (hblk r Weak h \<noteq> None \<and> hptr r Strong g = None)) (set_ptr Weak h (hptr r Strong g) r))"

definition weak_lock :: "nat \<Rightarrow> nat \<Rightarrow> rop" where
  "weak_lock h g r =
     (case (hptr r Weak g, hblk r Weak g) of
        (None, _) \<Rightarrow> Inr (set_ptr Strong h None (set_blk Strong h None r))
      | (Some p, None) \<Rightarrow> Inr (set_ptr Strong h (Some p) (set_blk Strong h None r))
      | (Some p, Some b) \<Rightarrow>
          bind (counter_lock h g r) (\<lambda>r. Inr (set_ptr Strong h (if hblk r Strong h = None then None else Some p) r)))"

definition weak_expired :: "nat \<Rightarrow> refs \<Rightarrow> bool" where
  "weak_expired g r \<longleftrightarrow>
     (if hptr r Weak g \<noteq> None \<and> hblk r Weak g = None then False else hptr r Weak g = None \<or> counter_expired g r)"

text \<open>\<open>allocate\<close>: a new block starts with the counts one and one, and the first reference takes them over.\<close>

definition allocate :: "nat \<Rightarrow> nat \<Rightarrow> nat \<Rightarrow> rop" where
  "allocate b p h r = bind (counter_from_block Strong h (Some b) False (r\<lparr>cstrong := (cstrong r)(b := 1), cweak := (cweak r)(b := 1)\<rparr>))
     (\<lambda>r. Inr (set_ptr Strong h (Some p) r))"

section \<open>What the counters count\<close>

text \<open>
  \<open>counted r M S W\<close>: of the blocks \<open>M\<close> that were allocated the counters stand for \<open>S b\<close> strong and
  \<open>W b\<close> weak references, and the callbacks of a block were made once each, when the references ran out.
\<close>

definition counted_at :: "refs \<Rightarrow> nat set \<Rightarrow> nat \<Rightarrow> nat \<Rightarrow> nat \<Rightarrow> bool" where
  "counted_at r M b n m \<longleftrightarrow> unat (cstrong r b) = n \<and> unat (cweak r b) = m + (if n = 0 then 0 else 1) \<and> (b \<notin> M \<longrightarrow> n = 0 \<and> m = 0)
     \<and> count_list (rlog r) (OnDestruct b) = (if b \<in> M \<and> n = 0 then 1 else 0)
     \<and> count_list (rlog r) (OnDeallocate b) = (if b \<in> M \<and> n = 0 \<and> m = 0 then 1 else 0)"

definition counted :: "refs \<Rightarrow> nat set \<Rightarrow> (nat \<Rightarrow> nat) \<Rightarrow> (nat \<Rightarrow> nat) \<Rightarrow> bool" where
  "counted r M S W \<longleftrightarrow> (\<forall>b. counted_at r M b (S b) (W b))"

definition same_vars :: "refs \<Rightarrow> refs \<Rightarrow> bool" where
  "same_vars r r' \<longleftrightarrow> hblk r' = hblk r \<and> hptr r' = hptr r"

text \<open>An operation on one block leaves the others alone.\<close>

definition other_blocks :: "nat \<Rightarrow> refs \<Rightarrow> refs \<Rightarrow> bool" where
  "other_blocks b r r' \<longleftrightarrow> (\<forall>c. c \<noteq> b \<longrightarrow> cstrong r' c = cstrong r c \<and> cweak r' c = cweak r c
     \<and> count_list (rlog r') (OnDestruct c) = count_list (rlog r) (OnDestruct c)
     \<and> count_list (rlog r') (OnDeallocate c) = count_list (rlog r) (OnDeallocate c))"

lemma counted_change:
  assumes "counted r M S W" and "other_blocks b r r'" and "counted_at r' M b n m"
  shows "counted r' M (S(b := n)) (W(b := m))"
  using assms unfolding counted_def other_blocks_def by (auto simp: counted_at_def)

lemma unat_inc: "unat (w :: 32 word) < 2 ^ 32 - 1 \<Longrightarrow> unat (w + 1) = unat w + 1"
proof -
  assume "unat w < 2 ^ 32 - 1"
  then have "1 + w \<noteq> 0" by (auto simp: add_eq_0_iff unsigned_minus_1_eq_mask mask_eq_exp_minus_1)
  from unatSuc [OF this] show ?thesis by (simp add: add.commute)
qed

lemma unat_dec: "(w :: 32 word) \<noteq> 0 \<Longrightarrow> unat (w - 1) = unat w - 1"
  using unat_minus_one [of w] by simp

lemma counted_atD: "counted r M S W \<Longrightarrow> counted_at r M b (S b) (W b)"
  by (simp add: counted_def)

lemma increase_strong_counted:
  assumes "counted r M S W" and "0 < S b" and "S b < 2 ^ 32 - 1"
  shows "\<exists>r'. increase Strong b r = Inr r' \<and> counted r' M (S(b := S b + 1)) W \<and> same_vars r r'"
proof -
  note D = counted_atD [OF assms(1), of b, unfolded counted_at_def]
  let ?r = "r\<lparr>cstrong := (cstrong r)(b := cstrong r b + 1)\<rparr>"
  have "cstrong r b \<noteq> 0" "b \<in> M" "unat (cstrong r b + 1) = S b + 1" using D assms(2,3) unat_inc [of "cstrong r b"] by auto
  moreover from this have "counted_at ?r M b (S b + 1) (W b)" using D assms(2) by (simp add: counted_at_def)
  from counted_change [OF assms(1) _ this] have "counted ?r M (S(b := S b + 1)) W" by (simp add: other_blocks_def)
  ultimately show ?thesis by (simp add: increase_def same_vars_def)
qed

lemma increase_weak_counted:
  assumes "counted r M S W" and "0 < S b \<or> 0 < W b" and "W b + 1 < 2 ^ 32 - 1"
  shows "\<exists>r'. increase Weak b r = Inr r' \<and> counted r' M S (W(b := W b + 1)) \<and> same_vars r r'"
proof -
  note D = counted_atD [OF assms(1), of b, unfolded counted_at_def]
  let ?r = "r\<lparr>cweak := (cweak r)(b := cweak r b + 1)\<rparr>"
  have "b \<in> M" "unat (cweak r b) < 2 ^ 32 - 1" using D assms(2,3) by (auto split: if_splits)
  then have "counted_at ?r M b (S b) (W b + 1)"
    using D assms(2) unat_inc [of "cweak r b"] by (auto simp: counted_at_def split: if_splits)
  from counted_change [OF assms(1) _ this] have "counted ?r M S (W(b := W b + 1))" by (simp add: other_blocks_def)
  then show ?thesis by (simp add: increase_def same_vars_def)
qed

text \<open>Taking one from the weak counter: \<open>w\<close> is what it counts before.\<close>

lemma decrease_weak_at:
  assumes "unat (cweak r b) = Suc w" and "w = 0 \<Longrightarrow> cstrong r b = 0"
  shows "\<exists>r'. decrease_weak b r = Inr r' \<and> unat (cweak r' b) = w \<and> cstrong r' = cstrong r \<and> same_vars r r' \<and> other_blocks b r r'
    \<and> count_list (rlog r') (OnDestruct b) = count_list (rlog r) (OnDestruct b)
    \<and> count_list (rlog r') (OnDeallocate b) = count_list (rlog r) (OnDeallocate b) + (if w = 0 then 1 else 0)"
proof -
  have nz: "cweak r b \<noteq> 0" and one: "cweak r b = 1 \<longleftrightarrow> w = 0" using assms(1) by (auto simp: word_unat_eq_iff)
  from unat_dec [OF nz] show ?thesis
    using nz one assms by (cases "w = 0") (auto simp: decrease_weak_def callback_def Let_def same_vars_def other_blocks_def)
qed

lemma decrease_weak_counted:
  assumes "counted r M S W" and "0 < W b"
  shows "\<exists>r'. decrease Weak b r = Inr r' \<and> counted r' M S (W(b := W b - 1)) \<and> same_vars r r'"
proof -
  note D = counted_atD [OF assms(1), of b, unfolded counted_at_def]
  define w where "w = W b - 1 + (if S b = 0 then 0 else 1)"
  have "unat (cweak r b) = Suc w" "w = 0 \<Longrightarrow> cstrong r b = 0" using D assms(2) by (auto simp: w_def unat_eq_0 split: if_splits)
  from decrease_weak_at [OF this] obtain r' where r': "decrease_weak b r = Inr r'" "unat (cweak r' b) = w" "cstrong r' = cstrong r"
    "same_vars r r'" "other_blocks b r r'" "count_list (rlog r') (OnDestruct b) = count_list (rlog r) (OnDestruct b)"
    "count_list (rlog r') (OnDeallocate b) = count_list (rlog r) (OnDeallocate b) + (if w = 0 then 1 else 0)" by blast
  have "b \<in> M" using D assms(2) by auto
  then have "counted_at r' M b (S b) (W b - 1)" using r' D assms(2) by (auto simp: counted_at_def w_def split: if_splits)
  from counted_change [OF assms(1) r'(5) this] r'(1,4) show ?thesis by (auto simp: decrease_def)
qed

lemma decrease_strong_counted:
  assumes "counted r M S W" and "0 < S b"
  shows "\<exists>r'. decrease Strong b r = Inr r' \<and> counted r' M (S(b := S b - 1)) W \<and> same_vars r r'"
proof -
  note D = counted_atD [OF assms(1), of b, unfolded counted_at_def]
  let ?r = "r\<lparr>cstrong := (cstrong r)(b := cstrong r b - 1)\<rparr>"
  have nz: "cstrong r b \<noteq> 0" and one: "cstrong r b = 1 \<longleftrightarrow> S b = 1" and two: "cstrong r b = 2 \<longleftrightarrow> S b = 2" and b: "b \<in> M"
    using D assms(2) by (auto simp: word_unat_eq_iff)
  note d = unat_dec [OF nz]
  show ?thesis
  proof (cases "S b = 1")
    case True
    let ?q = "?r\<lparr>rlog := rlog r @ [OnDestruct b]\<rparr>"
    have "unat (cweak ?q b) = Suc (W b)" "W b = 0 \<Longrightarrow> cstrong ?q b = 0" using D True one by auto
    from decrease_weak_at [OF this] obtain r' where r': "decrease_weak b ?q = Inr r'" "unat (cweak r' b) = W b" "cstrong r' = cstrong ?q"
      "same_vars ?q r'" "other_blocks b ?q r'" "count_list (rlog r') (OnDestruct b) = count_list (rlog ?q) (OnDestruct b)"
      "count_list (rlog r') (OnDeallocate b) = count_list (rlog ?q) (OnDeallocate b) + (if W b = 0 then 1 else 0)" by blast
    have "counted_at r' M b 0 (W b)" using r' D True one b by (auto simp: counted_at_def)
    moreover have "other_blocks b r r'" using r'(5) by (simp add: other_blocks_def)
    ultimately have "counted r' M (S(b := 0)) W" using counted_change [OF assms(1)] by fastforce
    then show ?thesis using r'(1,4) nz one True by (auto simp: decrease_def decrease_strong_def callback_def Let_def same_vars_def)
  next
    case False
    let ?q = "if S b = 2 then ?r\<lparr>rlog := rlog r @ [OnUnique b]\<rparr> else ?r"
    have "counted_at ?q M b (S b - 1) (W b)" using D d False b assms(2) by (auto simp: counted_at_def)
    moreover have "other_blocks b r ?q" by (simp add: other_blocks_def)
    ultimately have "counted ?q M (S(b := S b - 1)) W" using counted_change [OF assms(1)] by fastforce
    moreover have "decrease Strong b r = Inr ?q"
      using nz one two False by (auto simp: decrease_def decrease_strong_def callback_def Let_def)
    ultimately show ?thesis by (auto simp: same_vars_def)
  qed
qed

section \<open>Counters count the variables\<close>

type_synonym tallies = "rkind \<Rightarrow> nat \<Rightarrow> nat"

definition drop_one :: "rkind \<Rightarrow> nat option \<Rightarrow> tallies \<Rightarrow> tallies" where
  "drop_one k v T = (case v of None \<Rightarrow> T | Some b \<Rightarrow> T(k := (T k)(b := T k b - 1)))"

definition add_one :: "rkind \<Rightarrow> nat option \<Rightarrow> tallies \<Rightarrow> tallies" where
  "add_one k v T = (case v of None \<Rightarrow> T | Some b \<Rightarrow> T(k := (T k)(b := T k b + 1)))"

text \<open>A block may be referenced once more: it is not deallocated, for a strong reference not destroyed, and the counter has room.\<close>

definition open_for :: "rkind \<Rightarrow> nat option \<Rightarrow> tallies \<Rightarrow> bool" where
  "open_for k v T \<longleftrightarrow> (case v of None \<Rightarrow> True
     | Some b \<Rightarrow> T k b + 1 < 2 ^ 32 - 1 \<and> (0 < T Strong b \<or> k = Weak \<and> 0 < T Weak b))"

abbreviation counts :: "refs \<Rightarrow> nat set \<Rightarrow> tallies \<Rightarrow> bool" where
  "counts r M T \<equiv> counted r M (T Strong) (T Weak)"

lemma release_block:
  assumes "counts r M T" and "\<And>b. v = Some b \<Longrightarrow> 0 < T k b"
  shows "\<exists>r'. with_block v (decrease k) r = Inr r' \<and> counts r' M (drop_one k v T) \<and> same_vars r r'"
proof (cases v)
  case (Some b)
  with assms decrease_strong_counted [OF assms(1), of b] decrease_weak_counted [OF assms(1), of b] show ?thesis
    by (cases k) (auto simp: with_block_def drop_one_def)
qed (use assms in \<open>simp add: with_block_def drop_one_def same_vars_def\<close>)

lemma acquire_block:
  assumes "counts r M T" and "open_for k v T"
  shows "\<exists>r'. with_block v (increase k) r = Inr r' \<and> counts r' M (add_one k v T) \<and> same_vars r r'"
proof (cases v)
  case (Some b)
  with assms increase_strong_counted [OF assms(1), of b] increase_weak_counted [OF assms(1), of b] show ?thesis
    by (cases k) (auto simp: with_block_def add_one_def open_for_def)
qed (use assms in \<open>simp add: with_block_def add_one_def same_vars_def\<close>)

definition tally :: "refs \<Rightarrow> tallies" where
  "tally r k b = card {h. hblk r k h = Some b}"

definition balanced :: "refs \<Rightarrow> nat set \<Rightarrow> bool" where
  "balanced r M \<longleftrightarrow> (\<forall>k. finite {h. hblk r k h \<noteq> None}) \<and> counts r M (tally r)"

lemma card_upd:
  assumes "finite {x. f x \<noteq> None}"
  shows "card {x. (f(h := v)) x = Some b} = card {x. f x = Some b} - (if f h = Some b then 1 else 0) + (if v = Some b then 1 else 0)"
proof -
  define A where "A = {x. f x = Some b}"
  have fin: "finite A" unfolding A_def by (rule finite_subset [OF _ assms]) auto
  have "{x. (f(h := v)) x = Some b} = (if v = Some b then insert h (A - {h}) else A - {h})" by (auto simp: A_def)
  moreover have "f h = Some b \<longleftrightarrow> h \<in> A" by (simp add: A_def)
  moreover have "card (insert h (A - {h})) = Suc (card (A - {h}))" using fin by (intro card_insert_disjoint) auto
  ultimately show ?thesis unfolding A_def [symmetric] by (simp add: card_Diff_singleton_if)
qed

lemma tally_set:
  assumes "finite {x. hblk r k x \<noteq> None}"
  shows "tally (set_blk k h v r) = add_one k v (drop_one k (hblk r k h) (tally r))"
  using card_upd [OF assms, of h v]
  by (auto simp: fun_eq_iff tally_def set_blk_def add_one_def drop_one_def split: option.splits)

lemma tally_held:
  assumes "finite {x. hblk r k x \<noteq> None}" and "hblk r k h = Some b"
  shows "0 < tally r k b"
proof -
  have "finite {x. hblk r k x = Some b}" by (rule finite_subset [OF _ assms(1)]) auto
  then show ?thesis unfolding tally_def using assms(2) by (auto simp: card_gt_0_iff)
qed

lemma set_blk_simps [simp]:
  "hblk (set_blk k h v r) k' x = (if k' = k \<and> x = h then v else hblk r k' x)" "hptr (set_blk k h v r) = hptr r"
  "counted (set_blk k h v r) M S W = counted r M S W"
  by (simp_all add: set_blk_def counted_def counted_at_def)

lemma set_ptr_simps [simp]:
  "hblk (set_ptr k h v r) = hblk r" "hptr (set_ptr k h v r) k' x = (if k' = k \<and> x = h then v else hptr r k' x)"
  "counted (set_ptr k h v r) M S W = counted r M S W" "tally (set_ptr k h v r) = tally r"
  by (simp_all add: set_ptr_def counted_def counted_at_def tally_def fun_eq_iff)

lemma finite_set_blk: "finite {x. hblk r k' x \<noteq> None} \<Longrightarrow> finite {x. hblk (set_blk k h v r) k' x \<noteq> None}"
  by (rule finite_subset [of _ "insert h {x. hblk r k' x \<noteq> None}"]) auto

lemma balancedD: "balanced r M \<Longrightarrow> finite {x. hblk r k x \<noteq> None}" "balanced r M \<Longrightarrow> counts r M (tally r)"
  by (auto simp: balanced_def)

lemma same_tally: "same_vars r r' \<Longrightarrow> tally r' = tally r"
  by (simp add: same_vars_def tally_def fun_eq_iff)

text \<open>The general operation: one variable changes its block, the old block is released and the new one acquired.\<close>

lemma assign_block_balanced:
  assumes "balanced r M" and "open_for k v (drop_one k (hblk r k h) (tally r))"
  shows "\<exists>r'. counter_assign_block k h v r = Inr r' \<and> balanced r' M \<and> same_vars (set_blk k h v r) r'"
proof -
  note D = balancedD [OF assms(1)]
  let ?r = "set_blk k h v r" and ?T = "drop_one k (hblk r k h) (tally r)"
  have "counts ?r M (tally r)" using D(2) by simp
  from release_block [OF this] tally_held [OF D(1)] obtain r1 where r1: "with_block (hblk r k h) (decrease k) ?r = Inr r1"
    "counts r1 M ?T" "same_vars ?r r1" by metis
  from acquire_block [OF r1(2) assms(2)] obtain r2 where r2: "with_block v (increase k) r1 = Inr r2" "counts r2 M (add_one k v ?T)"
    "same_vars r1 r2" by blast
  have sv: "same_vars ?r r2" using r1(3) r2(3) by (simp add: same_vars_def)
  have "hblk r1 k h = v" using r1(3) by (simp add: same_vars_def)
  then have "counter_assign_block k h v r = Inr r2" using r1(1) r2(1) by (simp add: counter_assign_block_def Let_def)
  moreover have "tally r2 = add_one k v ?T" using same_tally [OF sv] tally_set [OF D(1)] by simp
  moreover have "finite {x. hblk r2 k' x \<noteq> None}" for k'
    using sv finite_set_blk [OF D(1)] by (simp add: same_vars_def)
  ultimately show ?thesis using r2(2) sv by (auto simp: balanced_def)
qed

lemma rebalance:
  assumes "counts r' M T" and "hblk r' = hblk r1" and "tally r1 = T" and "\<And>k. finite {x. hblk r1 k x \<noteq> None}"
  shows "balanced r' M"
proof -
  have "tally r' = tally r1" using assms(2) by (simp add: tally_def fun_eq_iff)
  with assms show ?thesis by (simp add: balanced_def)
qed

lemma one_None [simp]: "drop_one k None T = T" "add_one k None T = T"
  by (simp_all add: drop_one_def add_one_def)

lemma drop_add [simp]: "drop_one k v (add_one k v T) = T"
  by (simp add: drop_one_def add_one_def fun_eq_iff split: option.split)

lemma balanced_ptr [simp]: "balanced (set_ptr k h p r) M = balanced r M"
  by (simp add: balanced_def)

definition room :: "refs \<Rightarrow> bool" where
  "room r \<longleftrightarrow> (\<forall>k b. tally r k b + 1 < 2 ^ 32 - 1)"

lemma open_held:
  assumes "balanced r M" and "room r" and "hblk r k g = v"
  shows "open_for k v (tally r)"
  using assms tally_held [OF balancedD(1) [OF assms(1)], of k g]
  by (cases k) (auto simp: open_for_def room_def split: option.split)

text \<open>Constructing a counter from a block that is referenced already.\<close>

lemma from_block_balanced:
  assumes "balanced r M" and "open_for k v (tally r)" and "hblk r k h = None"
  shows "\<exists>r'. counter_from_block k h v True r = Inr r' \<and> balanced r' M \<and> same_vars (set_blk k h v r) r'"
proof -
  note D = balancedD [OF assms(1)]
  have "counts (set_blk k h v r) M (tally r)" using D(2) by simp
  from acquire_block [OF this assms(2)] obtain r' where r': "with_block v (increase k) (set_blk k h v r) = Inr r'"
    "counts r' M (add_one k v (tally r))" "same_vars (set_blk k h v r) r'" by blast
  moreover have "balanced r' M"
  proof (rule rebalance [OF r'(2), of "set_blk k h v r"])
    show "hblk r' = hblk (set_blk k h v r)" using r'(3) by (simp add: same_vars_def)
    show "tally (set_blk k h v r) = add_one k v (tally r)" using tally_set [OF D(1)] assms(3) by (simp add: drop_one_def)
  qed (rule finite_set_blk [OF D(1)])
  ultimately show ?thesis by (auto simp: counter_from_block_def)
qed

lemma copy_balanced:
  assumes "balanced r M" and "room r" and "hblk r k h = None"
  shows "\<exists>r'. ref_copy k h g r = Inr r' \<and> balanced r' M \<and> hblk r' k h = hblk r k g"
proof -
  from from_block_balanced [OF assms(1) open_held [OF assms(1,2) refl] assms(3)] obtain r' where
    "counter_copy k h g r = Inr r'" "balanced r' M" "same_vars (set_blk k h (hblk r k g) r) r'"
    by (auto simp: counter_copy_def)
  then show ?thesis by (simp add: ref_copy_def same_vars_def)
qed

lemma move_balanced:
  assumes "balanced r M" and "hblk r k h = None" and "h \<noteq> g"
  shows "\<exists>r'. ref_move k h g r = Inr r' \<and> balanced r' M \<and> hblk r' k h = hblk r k g \<and> hblk r' k g = None"
proof -
  note D = balancedD [OF assms(1)]
  let ?r = "set_blk k h (hblk r k g) (set_blk k g None r)"
  have "tally ?r = add_one k (hblk r k g) (drop_one k (hblk r k g) (tally r))"
    using tally_set [OF finite_set_blk [OF D(1)], of k h "hblk r k g" k g None] tally_set [OF D(1), of k g None] assms(2,3) by simp
  also have "\<dots> = tally r" using tally_held [OF D(1), of k g] by (auto simp: add_one_def drop_one_def fun_eq_iff split: option.split)
  finally have "balanced ?r M" using D finite_set_blk by (intro rebalance [of ?r M "tally r" ?r]) auto
  then show ?thesis using assms(3) by (simp add: ref_move_def counter_move_def)
qed

lemma drop_balanced:
  assumes "balanced r M" and "v = hblk r k h"
  shows "\<exists>r'. with_block v (decrease k) (set_blk k h None r) = Inr r' \<and> balanced r' M \<and> same_vars (set_blk k h None r) r'"
proof -
  note D = balancedD [OF assms(1)]
  have "counts (set_blk k h None r) M (tally r)" using D(2) by simp
  from release_block [OF this, of v k] tally_held [OF D(1)] assms(2) obtain r' where
    r': "with_block v (decrease k) (set_blk k h None r) = Inr r'" "counts r' M (drop_one k v (tally r))"
    "same_vars (set_blk k h None r) r'" by metis
  moreover have "balanced r' M"
  proof (rule rebalance [OF r'(2), of "set_blk k h None r"])
    show "hblk r' = hblk (set_blk k h None r)" using r'(3) by (simp add: same_vars_def)
    show "tally (set_blk k h None r) = drop_one k v (tally r)" using tally_set [OF D(1)] assms(2) by (simp add: add_one_def)
  qed (rule finite_set_blk [OF D(1)])
  ultimately show ?thesis by blast
qed

lemma reset_balanced: "balanced r M \<Longrightarrow> \<exists>r'. ref_reset k h r = Inr r' \<and> balanced r' M \<and> hblk r' k h = None"
  using drop_balanced [of "set_ptr k h None r" M _ k h] by (auto simp: ref_reset_def counter_reset_def Let_def same_vars_def)

text \<open>The variable of a destroyed counter ends; whether it is cleared before or after the release does not matter.\<close>

lemma decrease_set_blk: "decrease k b (set_blk k' h v r) = map_sum id (set_blk k' h v) (decrease k b r)"
  by (cases k) (simp_all add: decrease_def decrease_strong_def decrease_weak_def callback_def set_blk_def Let_def)

lemma destroy_balanced: "balanced r M \<Longrightarrow> \<exists>r'. counter_destroy k h r = Inr r' \<and> balanced r' M \<and> hblk r' k h = None"
  using drop_balanced [of r M _ k h]
  by (cases "hblk r k h"; cases "with_block (hblk r k h) (decrease k) r")
    (auto simp: counter_destroy_def with_block_def decrease_set_blk same_vars_def)

lemma assign_balanced:
  assumes "balanced r M" and "room r" and "h \<noteq> g"
  shows "\<exists>r'. ref_assign k h g r = Inr r' \<and> balanced r' M \<and> hblk r' k h = hblk r k g"
proof -
  let ?r = "set_ptr k h (hptr r k g) r"
  have b: "balanced ?r M" using assms(1) by simp
  have "open_for k (hblk r k g) (drop_one k (hblk r k h) (tally r))"
  proof (cases "hblk r k g")
    case (Some b)
    have "tally (set_blk k h None r) = drop_one k (hblk r k h) (tally r)"
      using tally_set [OF balancedD(1) [OF assms(1)]] by (simp add: add_one_def)
    moreover have "0 < tally (set_blk k h None r) k b"
      by (rule tally_held [OF finite_set_blk [OF balancedD(1) [OF assms(1)]], of _ _ _ _ g]) (use Some assms(3) in auto)
    moreover have "drop_one k v (tally r) k b \<le> tally r k b" for v by (simp add: drop_one_def split: option.split)
    ultimately show ?thesis using Some assms(2) by (cases k) (auto simp: open_for_def room_def intro: le_less_trans)
  qed (simp add: open_for_def)
  with assign_block_balanced [OF b, of k "hblk r k g" h] show ?thesis
    by (auto simp: ref_assign_def counter_assign_def same_vars_def)
qed

lemma move_assign_balanced:
  assumes "balanced r M"
  shows "\<exists>r'. ref_move_assign k h g r = Inr r' \<and> balanced r' M \<and> hblk r' k g = None \<and> (h \<noteq> g \<longrightarrow> hblk r' k h = hblk r k g)"
proof -
  note D = balancedD [OF assms]
  let ?p = "set_ptr k h (hptr r k g) (set_ptr k g None r)" and ?v = "hblk r k g" and ?o = "hblk r k h"
  let ?q = "set_blk k h ?v ?p"
  have "counts ?q M (tally r)" using D(2) by simp
  from release_block [OF this, of ?o k] tally_held [OF D(1)] obtain r' where r': "with_block ?o (decrease k) ?q = Inr r'"
    "counts r' M (drop_one k ?o (tally r))" "same_vars ?q r'" by metis
  let ?e = "set_blk k g None ?q"
  have fq: "finite {x. hblk ?q k' x \<noteq> None}" for k' by (rule finite_set_blk) (use D(1) in simp)
  have "tally ?e = drop_one k ?o (tally r)"
  proof (cases "h = g")
    case True
    then have "hblk ?e = hblk (set_blk k g None r)" by (simp add: fun_eq_iff)
    then have "tally ?e = tally (set_blk k g None r)" by (simp add: tally_def fun_eq_iff)
    then show ?thesis using tally_set [OF D(1), of k g None] True by simp
  next
    case False
    have "finite {x. hblk ?p k x \<noteq> None}" using D(1) by simp
    from tally_set [OF this, of h ?v] tally_set [OF fq, of k g None] False show ?thesis by simp
  qed
  moreover have "balanced (set_blk k g None r') M" if "tally ?e = drop_one k ?o (tally r)"
  proof (rule rebalance [of _ _ "drop_one k ?o (tally r)" ?e])
    show "counts (set_blk k g None r') M (drop_one k ?o (tally r))" using r'(2) by simp
    show "hblk (set_blk k g None r') = hblk ?e" using r'(3) by (simp add: same_vars_def set_blk_def)
  qed (use that finite_set_blk [OF fq] in auto)
  ultimately show ?thesis using r'(1,3) by (auto simp: ref_move_assign_def counter_move_assign_def Let_def same_vars_def)
qed

lemma weak_balanced:
  assumes "balanced r M" and "room r" and "hblk r Weak h = None" and "hblk r Strong g = None \<or> hptr r Strong g \<noteq> None"
  shows "\<exists>r'. ref_weak h g r = Inr r' \<and> balanced r' M \<and> hblk r' Weak h = hblk r Strong g"
proof -
  have "open_for Weak (hblk r Strong g) (tally r)"
    using tally_held [OF balancedD(1) [OF assms(1)], of Strong g] assms(2) by (auto simp: open_for_def room_def split: option.split)
  from from_block_balanced [OF assms(1) this assms(3)] obtain r' where "counter_from_block Weak h (hblk r Strong g) True r = Inr r'"
    "balanced r' M" "same_vars (set_blk Weak h (hblk r Strong g) r) r'" by blast
  with assms(4) show ?thesis by (auto simp: ref_weak_def same_vars_def check_def)
qed

text \<open>Locking a weak reference gives a strong one if and only if a strong reference is left.\<close>

lemma counter_lock_balanced:
  assumes "balanced r M" and "room r" and "hblk r Strong h = None"
  shows "\<exists>r'. counter_lock h g r = Inr r' \<and> balanced r' M \<and> hptr r' = hptr r
    \<and> hblk r' Strong h = (case hblk r Weak g of Some b \<Rightarrow> if 0 < tally r Strong b then Some b else None | None \<Rightarrow> None)"
proof (cases "hblk r Weak g")
  case None
  then show ?thesis using from_block_balanced [OF assms(1) _ assms(3), of None]
    by (auto simp: counter_lock_def open_for_def same_vars_def)
next
  case (Some b)
  have n: "unat (cstrong r b) = tally r Strong b" using counted_atD [OF balancedD(2) [OF assms(1)], of b] by (simp add: counted_at_def)
  show ?thesis
  proof (cases "0 < tally r Strong b")
    case True
    then have "open_for Strong (Some b) (tally r)" using assms(2) by (simp add: open_for_def room_def)
    from from_block_balanced [OF assms(1) this assms(3)] obtain r' where r': "counter_from_block Strong h (Some b) True r = Inr r'"
      "balanced r' M" "same_vars (set_blk Strong h (Some b) r) r'" by blast
    moreover have "cstrong r b \<noteq> 0" using n True by auto
    ultimately have "counter_lock h g r = Inr r'" using Some
      by (auto simp: counter_lock_def try_increase_def counter_from_block_def with_block_def increase_def set_blk_def)
    with r' Some True show ?thesis by (auto simp: same_vars_def)
  next
    case False
    then have "cstrong r b = 0" using n by (simp add: unat_eq_0)
    with False Some show ?thesis using from_block_balanced [OF assms(1) _ assms(3), of None]
      by (auto simp: counter_lock_def try_increase_def open_for_def same_vars_def)
  qed
qed

lemma clear_free: "hblk r k h = None \<Longrightarrow> set_blk k h None r = r"
  by (cases r) (simp add: set_blk_def fun_eq_iff)

lemma lock_balanced:
  assumes "balanced r M" and "room r" and "hblk r Strong h = None"
  shows "\<exists>r'. weak_lock h g r = Inr r' \<and> balanced r' M
    \<and> (\<forall>p b. hptr r Weak g = Some p \<and> hblk r Weak g = Some b \<longrightarrow>
         (if 0 < tally r Strong b then hptr r' Strong h = Some p \<and> hblk r' Strong h = Some b else hptr r' Strong h = None))"
proof (cases "hptr r Weak g = None \<or> hblk r Weak g = None")
  case True
  then show ?thesis using assms(1,3) by (cases "hptr r Weak g") (auto simp: weak_lock_def clear_free)
next
  case False
  then obtain p b where g: "hptr r Weak g = Some p" "hblk r Weak g = Some b" by auto
  from counter_lock_balanced [OF assms, of g] g obtain r' where r': "counter_lock h g r = Inr r'" "balanced r' M"
    "hblk r' Strong h = (if 0 < tally r Strong b then Some b else None)" by auto
  then have "weak_lock h g r = Inr (set_ptr Strong h (if hblk r' Strong h = None then None else Some p) r')"
    using g by (simp add: weak_lock_def)
  with r' g show ?thesis by (intro exI [of _ "set_ptr Strong h (if hblk r' Strong h = None then None else Some p) r'"]) simp
qed

lemma allocate_balanced:
  assumes "balanced r M" and "b \<notin> M" and "hblk r Strong h = None"
  shows "\<exists>r'. allocate b p h r = Inr r' \<and> balanced r' (insert b M) \<and> hblk r' Strong h = Some b"
proof -
  note D = balancedD [OF assms(1)]
  let ?q = "r\<lparr>cstrong := (cstrong r)(b := 1), cweak := (cweak r)(b := 1)\<rparr>"
  let ?r = "set_ptr Strong h (Some p) (set_blk Strong h (Some b) ?q)" and ?t = "set_blk Strong h (Some b) r"
  have z: "counted_at r M b (tally r Strong b) (tally r Weak b)" using counted_atD [OF D(2)] .
  have "tally ?t = add_one Strong (Some b) (tally r)" using tally_set [OF D(1)] assms(3) by simp
  moreover have "counts ?r (insert b M) (add_one Strong (Some b) (tally r))"
    unfolding counted_def
  proof
    fix c
    have "counted_at r M c (tally r Strong c) (tally r Weak c)" using counted_atD [OF D(2)] .
    then show "counted_at ?r (insert b M) c (add_one Strong (Some b) (tally r) Strong c) (add_one Strong (Some b) (tally r) Weak c)"
      using z assms(2) by (cases "c = b") (auto simp: counted_at_def set_blk_def set_ptr_def add_one_def)
  qed
  moreover have "hblk ?r = hblk ?t" by (simp add: set_blk_def set_ptr_def)
  ultimately have "balanced ?r (insert b M)" using finite_set_blk [OF D(1)] by (intro rebalance [of ?r _ _ ?t]) auto
  then show ?thesis by (simp add: allocate_def counter_from_block_def)
qed

section \<open>Runs\<close>

text \<open>
  The operations of a program on its references, in any order. \<open>M\<close> is the set of blocks allocated so far.
  A variable is constructed when it holds nothing. A reference is not assigned to itself, and no
  counter reaches its limit.
\<close>

inductive ref_step :: "refs \<times> nat set \<Rightarrow> refs \<times> nat set \<Rightarrow> bool" where
  s_allocate: "b \<notin> M \<Longrightarrow> hblk r Strong h = None \<Longrightarrow> allocate b p h r = Inr r' \<Longrightarrow> ref_step (r, M) (r', insert b M)"
| s_copy: "room r \<Longrightarrow> hblk r k h = None \<Longrightarrow> ref_copy k h g r = Inr r' \<Longrightarrow> ref_step (r, M) (r', M)"
| s_move: "hblk r k h = None \<Longrightarrow> h \<noteq> g \<Longrightarrow> ref_move k h g r = Inr r' \<Longrightarrow> ref_step (r, M) (r', M)"
| s_assign: "room r \<Longrightarrow> h \<noteq> g \<Longrightarrow> ref_assign k h g r = Inr r' \<Longrightarrow> ref_step (r, M) (r', M)"
| s_move_assign: "ref_move_assign k h g r = Inr r' \<Longrightarrow> ref_step (r, M) (r', M)"
| s_reset: "ref_reset k h r = Inr r' \<Longrightarrow> ref_step (r, M) (r', M)"
| s_destroy: "counter_destroy k h r = Inr r' \<Longrightarrow> ref_step (r, M) (r', M)"
| s_weak: "room r \<Longrightarrow> hblk r Weak h = None \<Longrightarrow> hblk r Strong g = None \<or> hptr r Strong g \<noteq> None
    \<Longrightarrow> ref_weak h g r = Inr r' \<Longrightarrow> ref_step (r, M) (r', M)"
| s_lock: "room r \<Longrightarrow> hblk r Strong h = None \<Longrightarrow> weak_lock h g r = Inr r' \<Longrightarrow> ref_step (r, M) (r', M)"

definition no_refs :: refs where
  "no_refs = \<lparr>cstrong = \<lambda>b. 0, cweak = \<lambda>b. 0, hblk = \<lambda>k h. None, hptr = \<lambda>k h. None, rlog = []\<rparr>"

definition ref_reachable :: "refs \<Rightarrow> nat set \<Rightarrow> bool" where
  "ref_reachable r M \<longleftrightarrow> ref_step\<^sup>*\<^sup>* (no_refs, {}) (r, M)"

lemma balanced_no_refs: "balanced no_refs {}"
  by (simp add: balanced_def no_refs_def counted_def counted_at_def tally_def)

lemma step_balanced:
  assumes "ref_step c c'" and "balanced (fst c) (snd c)"
  shows "balanced (fst c') (snd c')"
  using assms
proof (induction rule: ref_step.induct)
  case (s_allocate b M r h p r')
  then show ?case using allocate_balanced [of r M b h p] by auto
next
  case (s_copy r k h g r' M)
  then show ?case using copy_balanced [of r M k h g] by auto
next
  case (s_move r k h g r' M)
  then show ?case using move_balanced [of r M k h g] by auto
next
  case (s_assign r h g k r' M)
  then show ?case using assign_balanced [of r M h g k] by auto
next
  case (s_move_assign k h g r r' M)
  then show ?case using move_assign_balanced [of r M k h g] by auto
next
  case (s_reset k h r r' M)
  then show ?case using reset_balanced [of r M k h] by auto
next
  case (s_destroy k h r r' M)
  then show ?case using destroy_balanced [of r M k h] by auto
next
  case (s_weak r h g r' M)
  then show ?case using weak_balanced [of r M h g] by auto
next
  case (s_lock r h g r' M)
  then show ?case using lock_balanced [of r M h g] by auto
qed

lemma reachable_balanced:
  assumes "ref_reachable r M"
  shows "balanced r M"
proof -
  have "balanced (fst c) (snd c)" if "ref_step\<^sup>*\<^sup>* (no_refs, {}) c" for c
    using that by (induction rule: rtranclp_induct) (auto simp: balanced_no_refs intro: step_balanced)
  from this [of "(r, M)"] assms show ?thesis by (simp add: ref_reachable_def)
qed

section \<open>Properties\<close>

text \<open>
  C7. Objects live exactly as long as they are referenced. In every state a program can reach, the strong counter of an allocated
  block is the number of strong references to it and the weak counter the number of weak ones, plus one while
  the object is alive; the object was destroyed once if no strong reference is left and never otherwise, and
  the block was deallocated once if no reference is left at all and never otherwise.
\<close>

theorem references_keep_alive:
  assumes "ref_reachable r M" and "b \<in> M"
  shows "unat (cstrong r b) = card {h. hblk r Strong h = Some b}
    \<and> unat (cweak r b) = card {h. hblk r Weak h = Some b} + (if \<exists>h. hblk r Strong h = Some b then 1 else 0)
    \<and> count_list (rlog r) (OnDestruct b) = (if \<exists>h. hblk r Strong h = Some b then 0 else 1)
    \<and> count_list (rlog r) (OnDeallocate b) = (if \<exists>k h. hblk r k h = Some b then 0 else 1)"
proof -
  have bal: "balanced r M" by (rule reachable_balanced [OF assms(1)])
  have e: "tally r k b = 0 \<longleftrightarrow> (\<nexists>h. hblk r k h = Some b)" for k
  proof -
    have "finite {x. hblk r k x = Some b}" by (rule finite_subset [OF _ balancedD(1) [OF bal, of k]]) auto
    then show ?thesis by (auto simp: tally_def)
  qed
  have k: "(\<exists>k h. hblk r k h = Some b) \<longleftrightarrow> (\<exists>h. hblk r Strong h = Some b) \<or> (\<exists>h. hblk r Weak h = Some b)"
    by (metis rkind.exhaust)
  have "counted_at r M b (tally r Strong b) (tally r Weak b)" by (rule counted_atD [OF balancedD(2) [OF bal]])
  then show ?thesis using assms(2) e [of Strong] e [of Weak] k by (auto simp: counted_at_def tally_def [symmetric])
qed

text \<open>A run: allocating block 3, taking a weak reference to it and dropping the strong one.\<close>

lemma room_small: "balanced r M \<Longrightarrow> (\<And>k h. hblk r k h \<noteq> None \<Longrightarrow> h < 9) \<Longrightarrow> room r"
proof -
  assume *: "\<And>k h. hblk r k h \<noteq> None \<Longrightarrow> h < 9"
  have "tally r k b \<le> card {..<9::nat}" for k b unfolding tally_def by (rule card_mono) (use * in fastforce)+
  then have "tally r k b + 1 < 2 ^ 32 - 1" for k b by (rule le_less_trans [OF add_right_mono]) simp
  then show "room r" by (simp add: room_def)
qed

lemma ex_refs_reachable:
  obtains r1 r2 r3 where "ref_reachable r1 {3}" "ref_reachable r2 {3}" "ref_reachable r3 {3}" "room r1" "room r2" "room r3"
    "hblk r1 = (\<lambda>k h. if k = Strong \<and> h = 0 then Some 3 else None)" "hptr r1 Strong 0 = Some 70"
    "hblk r2 = (\<lambda>k h. if k = Strong \<and> h = 0 \<or> k = Weak \<and> h = 1 then Some 3 else None)" "hptr r2 Weak 1 = Some 70"
    "hblk r3 = (\<lambda>k h. if k = Weak \<and> h = 1 then Some 3 else None)" "hptr r3 Weak 1 = Some 70"
proof -
  obtain r1 where r1: "allocate 3 70 0 no_refs = Inr r1" "hblk r1 = (\<lambda>k h. if k = Strong \<and> h = 0 then Some 3 else None)"
    "hptr r1 Strong 0 = Some 70"
    by (simp add: allocate_def counter_from_block_def no_refs_def fun_eq_iff set_blk_def set_ptr_def)
  have s1: "ref_step (no_refs, {}) (r1, {3})" using ref_step.s_allocate [OF _ _ r1(1), of "{}"] by (simp add: no_refs_def)
  then have R1: "ref_reachable r1 {3}" by (simp add: ref_reachable_def)
  have m1: "room r1" by (rule room_small [OF reachable_balanced [OF R1]]) (simp add: r1(2) split: if_splits)
  from weak_balanced [OF reachable_balanced [OF R1] m1, of 1 0] r1 obtain r2 where r2: "ref_weak 1 0 r1 = Inr r2" by auto
  have v2: "hblk r2 = (\<lambda>k h. if k = Strong \<and> h = 0 \<or> k = Weak \<and> h = 1 then Some 3 else None)" "hptr r2 Weak 1 = Some 70"
    using r2 r1(2,3) by (auto simp: ref_weak_def counter_from_block_def with_block_def increase_def set_blk_def set_ptr_def fun_eq_iff)
  have s2: "ref_step (r1, {3}) (r2, {3})" by (rule ref_step.s_weak [OF m1 _ _ r2]) (simp_all add: r1)
  then have R2: "ref_reachable r2 {3}" using R1 unfolding ref_reachable_def by (rule rtranclp.rtrancl_into_rtrancl [rotated])
  have m2: "room r2" by (rule room_small [OF reachable_balanced [OF R2]]) (auto simp: v2(1) split: if_splits)
  from drop_balanced [of "set_ptr Strong 0 None r2" "{3}" "Some 3" Strong 0] reachable_balanced [OF R2] v2(1) obtain r3 where
    r3: "ref_reset Strong 0 r2 = Inr r3" "same_vars (set_blk Strong 0 None (set_ptr Strong 0 None r2)) r3"
    by (auto simp: ref_reset_def counter_reset_def Let_def)
  have v3: "hblk r3 = (\<lambda>k h. if k = Weak \<and> h = 1 then Some 3 else None)" "hptr r3 Weak 1 = Some 70"
    using r3(2) v2 by (auto simp: same_vars_def set_blk_def set_ptr_def fun_eq_iff)
  have s3: "ref_step (r2, {3}) (r3, {3})" by (rule ref_step.s_reset [OF r3(1)])
  then have R3: "ref_reachable r3 {3}" using R2 unfolding ref_reachable_def by (rule rtranclp.rtrancl_into_rtrancl [rotated])
  have m3: "room r3" by (rule room_small [OF reachable_balanced [OF R3]]) (simp add: v3(1) split: if_splits)
  show thesis by (rule that [OF R1 R2 R3 m1 m2 m3 r1(2,3) v2 v3])
qed

theorem references_keep_alive_witness:
  "\<exists>r. ref_reachable r {3} \<and> unat (cweak r 3) = 1 \<and> cstrong r 3 = 0
     \<and> count_list (rlog r) (OnDestruct 3) = 1 \<and> count_list (rlog r) (OnDeallocate 3) = 0"
proof -
  obtain r where r: "ref_reachable r {3}" "hblk r = (\<lambda>k h. if k = Weak \<and> h = 1 then Some 3 else None)" by (rule ex_refs_reachable)
  have "{h. hblk r Weak h = Some 3} = {1}" "{h. hblk r Strong h = Some 3} = {}" by (auto simp: r(2))
  then have c: "card {h. hblk r Weak h = Some 3} = 1" "card {h. hblk r Strong h = Some 3} = 0" "\<nexists>h. hblk r Strong h = Some 3"
    "\<exists>k h. hblk r k h = Some 3" by (simp_all add: r(2))
  from references_keep_alive [OF r(1), of 3] c show ?thesis
    by (intro exI [of _ r]) (simp only: if_True if_False r(1) c insertI1 unat_eq_0 simp_thms add_0_right)
qed

text \<open>
  A weak reference can be locked if and only if the object is alive: in every reachable state locking returns a reference
  to the same object and block when a strong reference is left, and a null reference otherwise, and \<open>expired\<close> says which.
\<close>

theorem weak_lock_iff_alive:
  assumes "ref_reachable r M" and "room r" and "hblk r Strong h = None" and "hptr r Weak g = Some p" and "hblk r Weak g = Some b"
  shows "\<exists>r'. weak_lock h g r = Inr r' \<and> weak_expired g r = (\<nexists>x. hblk r Strong x = Some b)
    \<and> (if \<exists>x. hblk r Strong x = Some b then hptr r' Strong h = Some p \<and> hblk r' Strong h = Some b else hptr r' Strong h = None)"
proof -
  have bal: "balanced r M" by (rule reachable_balanced [OF assms(1)])
  have "finite {x. hblk r Strong x = Some b}" by (rule finite_subset [OF _ balancedD(1) [OF bal, of Strong]]) auto
  then have e: "0 < tally r Strong b \<longleftrightarrow> (\<exists>x. hblk r Strong x = Some b)" by (auto simp: tally_def card_gt_0_iff)
  have "unat (cstrong r b) = tally r Strong b" using counted_atD [OF balancedD(2) [OF bal], of b] by (simp add: counted_at_def)
  then have "weak_expired g r = (\<nexists>x. hblk r Strong x = Some b)"
    using assms(4,5) e by (auto simp: weak_expired_def counter_expired_def cb_expired_def unat_eq_0)
  moreover obtain r' where "weak_lock h g r = Inr r'"
    "if 0 < tally r Strong b then hptr r' Strong h = Some p \<and> hblk r' Strong h = Some b else hptr r' Strong h = None"
    using lock_balanced [OF bal assms(2,3), of g] assms(4,5) by blast
  ultimately show ?thesis unfolding e by blast
qed

theorem weak_lock_iff_alive_witness:
  "\<exists>r r'. ref_reachable r {3} \<and> weak_lock 5 1 r = Inr r' \<and> hptr r' Strong 5 = Some 70 \<and> \<not> weak_expired 1 r"
proof -
  obtain r where r: "ref_reachable r {3}" "room r"
    "hblk r = (\<lambda>k h. if k = Strong \<and> h = 0 \<or> k = Weak \<and> h = 1 then Some 3 else None)" "hptr r Weak 1 = Some 70"
    by (rule ex_refs_reachable)
  have "\<exists>x. hblk r Strong x = Some 3" "hblk r Strong 5 = None" "hblk r Weak 1 = Some 3" by (auto simp: r(3))
  with weak_lock_iff_alive [OF r(1,2) _ r(4), of 5 3] r(1) show ?thesis by auto
qed

text \<open>
  C32. Assigning a reference to itself is not safe. The counter releases its block before it acquires it: if the reference is the
  only one, the object is destroyed and the following increase violates an assertion. Moving a reference
  to itself releases the block and keeps the pointer, which then owns nothing.
\<close>

theorem self_assignment_destroys:
  assumes "ref_reachable r M" and "hblk r Strong h = Some b" and "{x. hblk r Strong x = Some b} = {h}"
  shows "ref_assign Strong h h r = Inl AssertFailed
    \<and> (\<exists>r'. decrease Strong b r = Inr r' \<and> count_list (rlog r') (OnDestruct b) = 1)
    \<and> (\<exists>r'. ref_move_assign Strong h h r = Inr r' \<and> hptr r' Strong h = hptr r Strong h \<and> hblk r' Strong h = None)"
proof -
  have bal: "balanced r M" by (rule reachable_balanced [OF assms(1)])
  have one: "tally r Strong b = 1" using assms(3) by (simp add: tally_def)
  have st: "balanced (set_ptr Strong h p r) M" for p using bal by simp
  let ?q = "set_blk Strong h (Some b) (set_ptr Strong h (hptr r Strong h) r)"
  have "counts ?q M (tally r)" using balancedD(2) [OF bal] by simp
  from decrease_strong_counted [OF this, of b] one obtain q where q: "decrease Strong b ?q = Inr q"
    "counted q M ((tally r Strong)(b := 0)) (tally r Weak)" "same_vars ?q q" by auto
  have "cstrong q b = 0" using counted_atD [OF q(2), of b] by (simp add: counted_at_def unat_eq_0)
  then have "ref_assign Strong h h r = Inl AssertFailed" using q(1,3) assms(2)
    by (simp add: ref_assign_def counter_assign_def counter_assign_block_def with_block_def Let_def same_vars_def increase_def)
  moreover from decrease_strong_counted [OF balancedD(2) [OF bal], of b] one obtain r' where r': "decrease Strong b r = Inr r'"
    "counted r' M ((tally r Strong)(b := 0)) (tally r Weak)" by auto
  moreover have "b \<in> M" using counted_atD [OF balancedD(2) [OF bal], of b] one by (auto simp: counted_at_def)
  then have "count_list (rlog r') (OnDestruct b) = 1" using counted_atD [OF r'(2), of b] by (simp add: counted_at_def)
  moreover have "\<exists>r'. ref_move_assign Strong h h r = Inr r' \<and> hptr r' Strong h = hptr r Strong h \<and> hblk r' Strong h = None"
  proof -
    let ?p = "set_blk Strong h (Some b) (set_ptr Strong h (hptr r Strong h) (set_ptr Strong h None r))"
    have "counts ?p M (tally r)" using balancedD(2) [OF bal] by simp
    from decrease_strong_counted [OF this, of b] one obtain q where "decrease Strong b ?p = Inr q" "same_vars ?p q" by auto
    then show ?thesis using assms(2) by (simp add: ref_move_assign_def counter_move_assign_def with_block_def Let_def same_vars_def)
  qed
  ultimately show ?thesis by blast
qed

theorem self_assignment_destroys_witness:
  "\<exists>r. ref_reachable r {3} \<and> ref_assign Strong 0 0 r = Inl AssertFailed"
proof -
  obtain r where r: "ref_reachable r {3}" "hblk r = (\<lambda>k h. if k = Strong \<and> h = 0 then Some 3 else None)"
    by (rule ex_refs_reachable)
  have "hblk r Strong 0 = Some 3" "{x. hblk r Strong x = Some 3} = {0}" by (auto simp: r(2))
  from self_assignment_destroys [OF r(1) this] r(1) show ?thesis by blast
qed

end
