(* ===== verification/Registries.thy ===== *)
theory Registries
  imports Flat_Sets Service_Model
begin

text \<open>
  The registry of interfaces (src/lib/idle/core/detail/context/registry_impl.cpp): the order of the interfaces of
  one type by priority and address, the sorted insertion into the list of published interfaces, and the
  manager that hands out one registry entry per type as long as somebody holds it. The
  notifications of an entry's subscribers are in the theory \<open>Import_Steps\<close>.
\<close>

section \<open>The order of interfaces\<close>

text \<open>
  An interface is its address. The operator \<open>>\<close> of an interface is virtual: \<open>gt\<close> below. By default an
  interface of a service that was not created automatically has the higher priority.
\<close>

type_synonym iid = nat

definition interface_gt :: "(iid \<Rightarrow> bool) \<Rightarrow> iid \<Rightarrow> iid \<Rightarrow> bool" where
  "interface_gt is_default_created x y \<longleftrightarrow> \<not> is_default_created x \<and> is_default_created y"

definition UniqueGreaterPred :: "(iid \<Rightarrow> iid \<Rightarrow> bool) \<Rightarrow> iid \<Rightarrow> iid \<Rightarrow> bool" where
  "UniqueGreaterPred gt l r =
     (let is_greater = gt l r in if \<not> is_greater \<and> \<not> gt r l then l > r else is_greater)"

definition GreaterPred :: "(iid \<Rightarrow> iid \<Rightarrow> bool) \<Rightarrow> iid \<Rightarrow> iid \<Rightarrow> bool" where
  "GreaterPred gt l r = (if l = r then False else UniqueGreaterPred gt l r)"

definition insert_sorted :: "(iid \<Rightarrow> iid \<Rightarrow> bool) \<Rightarrow> iid \<Rightarrow> iid list \<Rightarrow> iid list" where
  "insert_sorted gt i xs =
     (let pos = lower_bound (GreaterPred gt) xs i in take pos xs @ i # drop pos xs)"

text \<open>What the overriding operator has to satisfy: a strict weak order.\<close>

locale priority =
  fixes gt :: "iid \<Rightarrow> iid \<Rightarrow> bool"
  assumes asym: "gt x y \<Longrightarrow> \<not> gt y x"
    and neg_trans: "gt x z \<Longrightarrow> gt x y \<or> gt y z"
begin

lemma not_self: "\<not> gt x x"
  using asym by blast

lemma gt_trans: "gt x y \<Longrightarrow> gt y z \<Longrightarrow> gt x z"
  using neg_trans asym by blast

lemma greater_cases: "GreaterPred gt x y \<longleftrightarrow> x \<noteq> y \<and> (gt x y \<or> \<not> gt y x \<and> x > y)"
  using asym by (auto simp: GreaterPred_def UniqueGreaterPred_def Let_def)

lemma gt_greater: "gt x y \<Longrightarrow> GreaterPred gt x y"
  unfolding greater_cases using not_self by blast

lemma greater_not_gt: "GreaterPred gt x y \<Longrightarrow> \<not> gt y x"
  unfolding greater_cases using asym by blast

end

sublocale priority \<subseteq> sorted: strict_total "GreaterPred gt"
proof
  fix x y z
  show "\<not> GreaterPred gt x x" by (simp add: GreaterPred_def)
  show "GreaterPred gt x y \<or> x = y \<or> GreaterPred gt y x"
    unfolding greater_cases by auto
  show "GreaterPred gt x y \<Longrightarrow> GreaterPred gt y z \<Longrightarrow> GreaterPred gt x z"
    unfolding greater_cases using neg_trans asym by (metis less_trans less_asym)
qed

context priority
begin

lemma insert_sorted_sorted:
  "sorted_wrt (GreaterPred gt) xs \<Longrightarrow> i \<notin> set xs \<Longrightarrow> sorted_wrt (GreaterPred gt) (insert_sorted gt i xs)"
  unfolding insert_sorted_def Let_def by (rule sorted.sorted_insert_at)

lemma interfaces_distinct: "sorted_wrt (GreaterPred gt) xs \<Longrightarrow> distinct xs"
  by (rule sorted.sorted_distinct)

lemma remove1_sorted: "sorted_wrt (GreaterPred gt) xs \<Longrightarrow> sorted_wrt (GreaterPred gt) (remove1 i xs)"
  by (induction xs) (auto dest: notin_set_remove1 set_remove1_subset [THEN subsetD])

lemma head_not_below:
  assumes "sorted_wrt (GreaterPred gt) (i # xs)" and "j \<in> set (i # xs)"
  shows "\<not> gt j i"
proof (cases "j = i")
  case False
  with assms have "GreaterPred gt i j" by simp
  then show ?thesis by (rule greater_not_gt)
qed (simp add: not_self)

end

lemma set_insert_sorted [simp]: "set (insert_sorted gt i xs) = insert i (set xs)"
proof -
  have "set xs = set (take n xs) \<union> set (drop n xs)" for n
    by (metis append_take_drop_id set_append)
  then show ?thesis by (auto simp: insert_sorted_def Let_def)
qed

interpretation default_priority: priority "interface_gt d"
  by unfold_locales (auto simp: interface_gt_def)

section \<open>The manager of the entries\<close>

text \<open>
  The manager keeps a weak reference per type. An entry \<open>r\<close> is a number, \<open>m_alive\<close> says whether a strong
  reference to it is left and \<open>m_cleanup\<close> are the cleanup handlers that destroyed entries
  have dispatched. An empty type is equal to none, itself included.
\<close>

record manager =
  m_entries :: "(string \<times> nat) list"
  m_type :: "nat \<Rightarrow> string"
  m_alive :: "nat \<Rightarrow> bool"
  m_next :: nat
  m_cleanup :: "string list"
  m_auto :: "sid list"

definition type_eq :: "string \<Rightarrow> string \<Rightarrow> bool" where
  "type_eq l r \<longleftrightarrow> l \<noteq> [] \<and> l = r"

definition find_entry :: "string \<Rightarrow> manager \<Rightarrow> nat option" where
  "find_entry ty m = map_option snd (find (\<lambda>(k, r). type_eq k ty) (m_entries m))"

definition make_entry :: "string \<Rightarrow> manager \<Rightarrow> nat \<times> manager" where
  "make_entry ty m = (m_next m, m\<lparr>m_next := m_next m + 1, m_type := (m_type m)(m_next m := ty),
     m_alive := (m_alive m)(m_next m := True)\<rparr>)"

definition findImpl :: "string \<Rightarrow> manager \<Rightarrow> (nat \<times> manager) res" where
  "findImpl ty m =
     (if ty = [] then Inl AssertFailed
      else case find_entry ty m of
        Some r \<Rightarrow>
          if m_alive m r then Inr (r, m)
          else let (r', m') = make_entry ty m
               in Inr (r', m'\<lparr>m_entries := map (\<lambda>(k, x). if type_eq k ty then (k, r') else (k, x)) (m_entries m')\<rparr>)
      | None \<Rightarrow>
          let (r', m') = make_entry ty m in Inr (r', m'\<lparr>m_entries := m_entries m' @ [(ty, r')]\<rparr>))"

definition destroy_entry :: "nat \<Rightarrow> manager \<Rightarrow> manager" where
  "destroy_entry r m = m\<lparr>m_alive := (m_alive m)(r := False), m_cleanup := m_cleanup m @ [m_type m r]\<rparr>"

definition onRegistryEntryDestroy :: "string \<Rightarrow> manager \<Rightarrow> manager" where
  "onRegistryEntryDestroy ty m =
     (case find_entry ty m of
        Some r \<Rightarrow> if m_alive m r then m else m\<lparr>m_entries := filter (\<lambda>(k, x). \<not> type_eq k ty) (m_entries m)\<rparr>
      | None \<Rightarrow> m)"

definition manager_child_init :: "sid \<Rightarrow> manager \<Rightarrow> manager res" where
  "manager_child_init s = run
    [require (\<lambda>m. s \<notin> set (m_auto m)), (\<lambda>m. Inr (m\<lparr>m_auto := m_auto m @ [s]\<rparr>))]"

definition manager_child_destroy :: "sid \<Rightarrow> manager \<Rightarrow> manager res" where
  "manager_child_destroy s = run
    [require (\<lambda>m. s \<in> set (m_auto m)), (\<lambda>m. Inr (m\<lparr>m_auto := remove1 s (m_auto m)\<rparr>))]"

inductive manager_step :: "manager \<Rightarrow> manager \<Rightarrow> bool" where
  lookup: "findImpl ty m = Inr (r, m') \<Longrightarrow> manager_step m m'"
| destroy: "m_alive m r \<Longrightarrow> manager_step m (destroy_entry r m)"
| cleanup: "m_cleanup m = ty # tys \<Longrightarrow> manager_step m (onRegistryEntryDestroy ty (m\<lparr>m_cleanup := tys\<rparr>))"
| child_init: "manager_child_init s m = Inr m' \<Longrightarrow> manager_step m m'"
| child_destroy: "manager_child_destroy s m = Inr m' \<Longrightarrow> manager_step m m'"

definition empty_manager :: manager where
  "empty_manager = \<lparr>m_entries = [], m_type = (\<lambda>_. []), m_alive = (\<lambda>_. False), m_next = 0, m_cleanup = [], m_auto = []\<rparr>"

text \<open>Every live entry is the one its type leads to; there is at most one per type.\<close>

definition manager_ok :: "manager \<Rightarrow> bool" where
  "manager_ok m \<longleftrightarrow> distinct (map fst (m_entries m)) \<and> (\<forall>(k, r) \<in> set (m_entries m). k \<noteq> [] \<and> m_type m r = k \<and> r < m_next m)
     \<and> (\<forall>r. m_alive m r \<longrightarrow> (m_type m r, r) \<in> set (m_entries m)) \<and> distinct (m_auto m)"

lemma find_SomeD: "find P xs = Some x \<Longrightarrow> x \<in> set xs \<and> P x"
  by (induction xs) (auto split: if_splits)

lemma find_entry_iff:
  assumes "manager_ok m" and "ty \<noteq> []"
  shows "find_entry ty m = Some r \<longleftrightarrow> (ty, r) \<in> set (m_entries m)"
proof
  assume "find_entry ty m = Some r"
  then obtain k where "find (\<lambda>(k, r). type_eq k ty) (m_entries m) = Some (k, r)"
    by (auto simp: find_entry_def)
  from find_SomeD [OF this] show "(ty, r) \<in> set (m_entries m)" by (auto simp: type_eq_def)
next
  assume m: "(ty, r) \<in> set (m_entries m)"
  then have "find (\<lambda>(k, r). type_eq k ty) (m_entries m) \<noteq> None"
    using assms(2) by (auto simp: find_None_iff type_eq_def)
  then obtain k r' where f: "find (\<lambda>(k, r). type_eq k ty) (m_entries m) = Some (k, r')" by auto
  from find_SomeD [OF f] have "k = ty" "(k, r') \<in> set (m_entries m)" by (auto simp: type_eq_def)
  with m assms(1) have "r' = r" by (auto simp: manager_ok_def dest: eq_key_imp_eq_value)
  with f show "find_entry ty m = Some r" by (simp add: find_entry_def)
qed

lemma find_entry_None:
  assumes "manager_ok m" and "ty \<noteq> []" and "find_entry ty m = None"
  shows "ty \<notin> fst ` set (m_entries m)"
  using find_entry_iff [OF assms(1,2)] assms(3) by force

lemma findImpl_spec:
  assumes "manager_ok m" and "ty \<noteq> []"
  shows "\<exists>r m'. findImpl ty m = Inr (r, m') \<and> manager_ok m' \<and> m_alive m' r \<and> m_type m' r = ty
    \<and> (\<forall>r0. m_alive m r0 \<and> m_type m r0 = ty \<longrightarrow> r = r0 \<and> m' = m)"
proof (cases "find_entry ty m")
  case None
  have new: "ty \<notin> fst ` set (m_entries m)" by (rule find_entry_None [OF assms None])
  have old: "r < m_next m" if "m_alive m r" for r
    using assms(1) that by (fastforce simp: manager_ok_def)
  have "manager_ok (snd (make_entry ty m)\<lparr>m_entries := m_entries m @ [(ty, m_next m)]\<rparr>)"
    using assms new old by (auto simp: manager_ok_def make_entry_def)
  moreover have "\<not> (m_alive m r0 \<and> m_type m r0 = ty)" for r0
    using assms(1) new by (force simp: manager_ok_def)
  ultimately show ?thesis using None assms(2) by (auto simp: findImpl_def make_entry_def)
next
  case (Some r)
  then have r: "(ty, r) \<in> set (m_entries m)" by (simp add: find_entry_iff [OF assms])
  have same: "r0 = r" if "m_alive m r0" "m_type m r0 = ty" for r0
    using assms(1) r that by (auto simp: manager_ok_def dest: eq_key_imp_eq_value)
  show ?thesis
  proof (cases "m_alive m r")
    case True
    then show ?thesis using Some assms r same by (auto simp: findImpl_def manager_ok_def)
  next
    case False
    define f where "f = (\<lambda>(k, x). if type_eq k ty then (k, m_next m) else (k, x :: nat))"
    have keys: "fst \<circ> f = fst" by (auto simp: f_def fun_eq_iff)
    have old: "x < m_next m" if "(k, x) \<in> set (m_entries m)" for k x
      using assms(1) that by (auto simp: manager_ok_def)
    have "manager_ok (snd (make_entry ty m)\<lparr>m_entries := map f (m_entries m)\<rparr>)"
      unfolding manager_ok_def
    proof (intro conjI allI impI)
      let ?m = "snd (make_entry ty m)\<lparr>m_entries := map f (m_entries m)\<rparr>"
      show "distinct (map fst (m_entries ?m))" using assms(1) keys by (simp add: manager_ok_def make_entry_def)
      have "case f (k, x) of (k', x') \<Rightarrow> k' \<noteq> [] \<and> m_type ?m x' = k' \<and> x' < m_next ?m" if "(k, x) \<in> set (m_entries m)" for k x
        using assms(1) that old [OF that] by (auto simp: manager_ok_def make_entry_def f_def type_eq_def)
      then show "\<forall>(k, r)\<in>set (m_entries ?m). k \<noteq> [] \<and> m_type ?m r = k \<and> r < m_next ?m" by fastforce
      show "distinct (m_auto ?m)" using assms(1) by (simp add: manager_ok_def make_entry_def)
      fix x assume "m_alive ?m x"
      then consider "x = m_next m" | "x \<noteq> m_next m" "m_alive m x" by (auto simp: make_entry_def split: if_splits)
      then show "(m_type ?m x, x) \<in> set (m_entries ?m)"
      proof cases
        case 1
        have "f (ty, r) = (ty, m_next m)" using assms(2) by (simp add: f_def type_eq_def)
        with r 1 show ?thesis by (force simp: make_entry_def)
      next
        case 2
        then have "m_type m x \<noteq> ty" using same False by blast
        then have "f (m_type m x, x) = (m_type m x, x)" by (auto simp: f_def type_eq_def)
        with 2 assms(1) show ?thesis by (force simp: make_entry_def manager_ok_def)
      qed
    qed
    moreover have "findImpl ty m = Inr (m_next m, snd (make_entry ty m)\<lparr>m_entries := map f (m_entries m)\<rparr>)"
      using Some False assms(2) by (simp add: findImpl_def make_entry_def f_def)
    ultimately show ?thesis using same False by (auto simp: make_entry_def)
  qed
qed

lemma manager_step_ok: "manager_step m m' \<Longrightarrow> manager_ok m \<Longrightarrow> manager_ok m'"
proof (induction rule: manager_step.induct)
  case (lookup ty m r m')
  then have "ty \<noteq> []" by (auto simp: findImpl_def)
  with lookup show ?case using findImpl_spec [of m ty] by auto
next
  case (destroy m r)
  then show ?case by (auto simp: manager_ok_def destroy_entry_def)
next
  case (cleanup m ty tys)
  define m1 where "m1 = m\<lparr>m_cleanup := tys\<rparr>"
  have ok: "manager_ok m1" using cleanup.prems by (simp add: manager_ok_def m1_def)
  show ?case
  proof (cases "find_entry ty m1")
    case (Some r)
    have kept: "\<not> type_eq (m_type m1 x) ty" if "\<not> m_alive m1 r" "m_alive m1 x" for x
    proof
      assume "type_eq (m_type m1 x) ty"
      with that(2) ok have "ty \<noteq> []" "(ty, x) \<in> set (m_entries m1)" by (auto simp: manager_ok_def type_eq_def)
      then have "find_entry ty m1 = Some x" by (simp add: find_entry_iff [OF ok])
      with Some have "x = r" by simp
      with that show False by simp
    qed
    have "manager_ok (m1\<lparr>m_entries := filter (\<lambda>(k, x). \<not> type_eq k ty) (m_entries m1)\<rparr>)" if "\<not> m_alive m1 r"
      using ok kept [OF that] by (auto simp: manager_ok_def distinct_map inj_on_def)
    with Some ok show ?thesis by (auto simp: onRegistryEntryDestroy_def m1_def [symmetric])
  qed (use ok in \<open>simp add: onRegistryEntryDestroy_def m1_def\<close>)
qed (auto simp: manager_ok_def manager_child_init_def manager_child_destroy_def)

lemma manager_reachable_ok: "manager_step\<^sup>*\<^sup>* empty_manager m \<Longrightarrow> manager_ok m"
proof (induction rule: rtranclp_induct)
  case base
  show ?case by (simp add: manager_ok_def empty_manager_def)
qed (rule manager_step_ok)

section \<open>Properties\<close>

text \<open>
  C40. One registry entry per type. In every state that lookups, destructions of entries, their cleanup handlers and default
  created services can lead to, looking up a type succeeds, two live entries have different types, and looking up the type of a live
  entry returns this entry and changes nothing, even if the cleanup of an earlier entry of the
  type is still outstanding.
\<close>

theorem one_entry_per_type:
  assumes "manager_step\<^sup>*\<^sup>* empty_manager m" and "ty \<noteq> []"
  shows "\<exists>r m'. findImpl ty m = Inr (r, m') \<and> m_alive m' r \<and> m_type m' r = ty
    \<and> (\<forall>x y. m_alive m' x \<and> m_alive m' y \<and> m_type m' x = m_type m' y \<longrightarrow> x = y)
    \<and> (\<forall>r0. m_alive m r0 \<and> m_type m r0 = ty \<longrightarrow> r = r0 \<and> m' = m)"
proof -
  from findImpl_spec [OF manager_reachable_ok [OF assms(1)] assms(2)] obtain r m'
    where r: "findImpl ty m = Inr (r, m')" "manager_ok m'" "m_alive m' r" "m_type m' r = ty"
      "\<forall>r0. m_alive m r0 \<and> m_type m r0 = ty \<longrightarrow> r = r0 \<and> m' = m" by blast
  moreover from r(2) have "\<forall>x y. m_alive m' x \<and> m_alive m' y \<and> m_type m' x = m_type m' y \<longrightarrow> x = y"
    unfolding manager_ok_def by (metis eq_key_imp_eq_value)
  ultimately show ?thesis by blast
qed

definition stale_manager :: manager where
  "stale_manager = destroy_entry 0 (snd (make_entry ''log'' empty_manager)\<lparr>m_entries := [(''log'', 0)]\<rparr>)"

lemma stale_manager_reachable: "manager_step\<^sup>*\<^sup>* empty_manager stale_manager"
proof -
  let ?m = "snd (make_entry ''log'' empty_manager)\<lparr>m_entries := [(''log'', 0)]\<rparr>"
  have "findImpl ''log'' empty_manager = Inr (0, ?m)" by (simp add: findImpl_def find_entry_def empty_manager_def make_entry_def)
  then have "manager_step empty_manager ?m" by (rule lookup)
  moreover have "manager_step ?m stale_manager"
    unfolding stale_manager_def by (rule destroy) (simp add: make_entry_def empty_manager_def)
  ultimately show ?thesis by simp
qed

theorem one_entry_per_type_witness:
  "\<exists>r m'. findImpl ''log'' stale_manager = Inr (r, m') \<and> m_alive m' r \<and> m_type m' r = ''log''"
  using one_entry_per_type [OF stale_manager_reachable, of "''log''"] by blast

end
