(* ===== verification/Import_World.thy ===== *)
theory Import_World
  imports Registries Requests
begin

text \<open>
  The world of the import parts that depend on one type of interface: the registry entry of the type with its published
  interfaces and subscribers (\<open>RegistryImpl\<close>), the usages the parts hold, and the state of the parts
  \<open>Dependency\<close>, \<open>DynDependency\<close> and \<open>DynDependencies\<close> (src/lib/idle/core/parts). The theory
  holds the data and the operations on one usage; the parts follow in theories of their own.

  The service behind an interface is seen through \<open>w_up\<close> (it is locked) and \<open>w_running\<close>, the service of a part through \<open>w_locked\<close>. What
  connecting and disconnecting does to the counters of the engine is modelled in the theory \<open>Requests\<close>; here
  the calls into the engine and into the user's storage are recorded in \<open>w_calls\<close>. Dereferencing a null
  reference is the error \<open>Unreachable\<close>.
\<close>

section \<open>Data\<close>

datatype part_class = Dependency | DynDependency | DynDependencies

text \<open>
  A usage is a base class of \<open>Dependency\<close> and, twice, of \<open>DynDependency\<close>, and an element of the map of \<open>DynDependencies\<close>.
\<close>

datatype use = Active pid | Preferred pid | Item pid iid

primrec user_of :: "use \<Rightarrow> pid" where
  "user_of (Active p) = p"
| "user_of (Preferred p) = p"
| "user_of (Item p i) = p"

datatype use_reply = UseNever | UseNowAndInsert | UseLater | UseLaterAndNotify | UseLaterAndInsert

datatype storage_state = erased | inserted | unknown

datatype storage_update = UpdateImplicit | UpdateAuto | UpdateManual

datatype call =
    CConnect use iid bool
  | CDisconnect use iid
  | CSatisfied pid bool
  | CInsert pid iid storage_update
  | CErase pid iid storage_update

text \<open>
  A reference \<open>Ref<Interface>\<close> is the address and whether the reference is acquired. An offer to swap carries the epoch
  of the handle it was made with.
\<close>

record world =
  w_interfaces :: "iid list"
  w_subscribers :: "pid list"
  w_users :: "iid \<Rightarrow> use list"
  w_up :: "iid \<Rightarrow> bool"
  w_running :: "iid \<Rightarrow> bool"
  w_locked :: "pid \<Rightarrow> bool"
  w_satisfied :: "pid \<Rightarrow> bool"
  w_ref :: "use \<Rightarrow> (iid \<times> bool) option"
  w_connected :: "use \<Rightarrow> bool"
  w_linked :: "pid \<Rightarrow> bool"
  w_pending :: "pid \<Rightarrow> bool"
  w_userspace :: "pid \<Rightarrow> iid option"
  w_epoch :: "pid \<Rightarrow> nat"
  w_offers :: "(pid \<times> nat \<times> iid \<times> iid) list"
  w_used :: "pid \<Rightarrow> iid list"
  w_map :: "pid \<Rightarrow> iid list"
  w_weak :: "use \<Rightarrow> bool"
  w_reply :: "use \<Rightarrow> use_reply"
  w_storage :: "use \<Rightarrow> storage_state"
  w_calls :: "call list"

type_synonym wop = "world \<Rightarrow> world res"

text \<open>
  What virtual functions and user code decide: the class of a part, the order of interfaces, which services were
  created by default, the creation of such a service, and the answers of the hooks.
\<close>

record env =
  part_class_of :: "pid \<Rightarrow> part_class"
  gt :: "iid \<Rightarrow> iid \<Rightarrow> bool"
  is_default :: "iid \<Rightarrow> bool"
  hasDefault :: "pid \<Rightarrow> bool"
  createDefault :: "world \<Rightarrow> iid"
  canSwap :: "pid \<Rightarrow> iid option \<Rightarrow> iid option \<Rightarrow> bool"
  onInspect :: "pid \<Rightarrow> iid \<Rightarrow> mask"
  onUseOffer :: "pid \<Rightarrow> iid \<Rightarrow> use_reply"
  onReleaseUse :: "pid \<Rightarrow> iid \<Rightarrow> release_reply"

section \<open>Updates\<close>

definition set_ref :: "use \<Rightarrow> (iid \<times> bool) option \<Rightarrow> wop" where
  "set_ref u r w = Inr (w\<lparr>w_ref := (w_ref w)(u := r)\<rparr>)"

definition call :: "call \<Rightarrow> wop" where
  "call c w = Inr (w\<lparr>w_calls := w_calls w @ [c]\<rparr>)"

definition ptr :: "world \<Rightarrow> use \<Rightarrow> iid option" where
  "ptr w u = map_option fst (w_ref w u)"

definition reference_of :: "env \<Rightarrow> iid \<Rightarrow> iid \<times> bool" where
  "reference_of E i = (i, is_default E i)"

definition deref :: "use \<Rightarrow> (iid \<Rightarrow> wop) \<Rightarrow> wop" where
  "deref u f w = (case w_ref w u of None \<Rightarrow> Inl Unreachable | Some (i, a) \<Rightarrow> f i w)"

section \<open>A usage\<close>

definition connect_use :: "use \<Rightarrow> bool \<Rightarrow> wop" where
  "connect_use u weak = deref u (\<lambda>i. run
    [require (\<lambda>w. \<not> w_connected w u),
     require (\<lambda>w. u \<notin> set (w_users w i)),
     (\<lambda>w. Inr (w\<lparr>w_connected := (w_connected w)(u := True), w_users := (w_users w)(i := w_users w i @ [u])\<rparr>)),
     call (CConnect u i weak)])"

definition disconnect_use :: "use \<Rightarrow> wop" where
  "disconnect_use u = deref u (\<lambda>i. run
    [require (\<lambda>w. w_connected w u),
     require (\<lambda>w. u \<in> set (w_users w i)),
     call (CDisconnect u i),
     (\<lambda>w. Inr (w\<lparr>w_connected := (w_connected w)(u := False), w_users := (w_users w)(i := remove1 u (w_users w i))\<rparr>))])"

definition try_acquire :: "use \<Rightarrow> wop" where
  "try_acquire u w = Inr (w\<lparr>w_ref := (w_ref w)(u := map_option (\<lambda>(i, a). (i, True)) (w_ref w u))\<rparr>)"

definition disown :: "use \<Rightarrow> wop" where
  "disown u w = Inr (w\<lparr>w_ref := (w_ref w)(u := map_option (\<lambda>(i, a). (i, False)) (w_ref w u))\<rparr>)"

definition setSatisfied :: "pid \<Rightarrow> bool \<Rightarrow> wop" where
  "setSatisfied p b = only_if (\<lambda>w. b \<noteq> w_satisfied w p)
     (run [(\<lambda>w. Inr (w\<lparr>w_satisfied := (w_satisfied w)(p := b)\<rparr>)), call (CSatisfied p b)])"

definition subscriberAdd :: "pid \<Rightarrow> wop" where
  "subscriberAdd p = run
    [require (\<lambda>w. p \<notin> set (w_subscribers w)), (\<lambda>w. Inr (w\<lparr>w_subscribers := w_subscribers w @ [p]\<rparr>))]"

definition subscriberDel :: "pid \<Rightarrow> wop" where
  "subscriberDel p w = Inr (w\<lparr>w_subscribers := remove1 p (w_subscribers w)\<rparr>)"

end
