(* ===== verification/Dependency_Parts.thy ===== *)
theory Dependency_Parts
  imports Import_World
begin

text \<open>
  The part \<open>Dependency\<close> (src/lib/idle/core/parts/dependency.cpp): it refers to an interface of the highest
  priority while its service is stopped, and keeps the interface while its service is locked. The
  argument \<open>pub\<close> publishes an interface of a service that was just initialised; the theory
  \<open>Import_Steps\<close> supplies the notification of all subscribers for it.
\<close>

definition registry_contains_higher_priority :: "env \<Rightarrow> world \<Rightarrow> iid \<Rightarrow> bool res" where
  "registry_contains_higher_priority E w cur =
     (case w_interfaces w of [] \<Rightarrow> Inl AssertFailed | first # _ \<Rightarrow> Inr (first \<noteq> cur \<and> gt E first cur))"

definition dep_set_default :: "env \<Rightarrow> (iid \<Rightarrow> wop) \<Rightarrow> pid \<Rightarrow> wop" where
  "dep_set_default E pub p w =
     (let created = createDefault E w in run
       [require (\<lambda>w. hasDefault E p),
        pub created,
        require (\<lambda>w. w_ref w (Active p) \<noteq> None),
        require (\<lambda>w. ptr w (Active p) = Some created),
        require (\<lambda>w. is_default E created),
        require (\<lambda>w. w_ref w (Active p) = Some (created, True))] w)"

definition dep_select :: "env \<Rightarrow> pid \<Rightarrow> iid \<Rightarrow> wop" where
  "dep_select E p i = run [set_ref (Active p) (Some (reference_of E i)), connect_use (Active p) False]"

definition dep_init :: "env \<Rightarrow> (iid \<Rightarrow> wop) \<Rightarrow> pid \<Rightarrow> wop" where
  "dep_init E pub p = run
    [subscriberAdd p,
     (\<lambda>w. case w_interfaces w of
            i # _ \<Rightarrow> dep_select E p i w
          | [] \<Rightarrow> if hasDefault E p then dep_set_default E pub p w else setSatisfied p False w)]"

definition dep_destroy :: "pid \<Rightarrow> wop" where
  "dep_destroy p = run
    [subscriberDel p,
     only_if (\<lambda>w. w_ref w (Active p) \<noteq> None) (run [disconnect_use (Active p), set_ref (Active p) None])]"

definition dep_lock :: "pid \<Rightarrow> wop" where
  "dep_lock p = run
    [require (\<lambda>w. w_satisfied w p),
     require (\<lambda>w. w_ref w (Active p) \<noteq> None),
     deref (Active p) (\<lambda>i. require (\<lambda>w. w_running w i)),
     try_acquire (Active p)]"

definition dep_unlock :: "env \<Rightarrow> pid \<Rightarrow> wop" where
  "dep_unlock E p = run
    [require (\<lambda>w. w_ref w (Active p) \<noteq> None),
     deref (Active p) (\<lambda>i. run
       [require (\<lambda>w. w_running w i),
        (\<lambda>w. bind (registry_contains_higher_priority E w i) (\<lambda>higher.
           if higher then run
            [setSatisfied p False,
             disconnect_use (Active p),
             (\<lambda>w. dep_select E p (hd (w_interfaces w)) w),
             setSatisfied p True] w
           else only_if (\<lambda>w. \<not> is_default E i) (disown (Active p)) w))])]"

definition dep_created :: "env \<Rightarrow> pid \<Rightarrow> iid \<Rightarrow> wop" where
  "dep_created E p i w =
     (if (case ptr w (Active p) of None \<Rightarrow> False | Some cur \<Rightarrow> \<not> gt E i cur) then Inr w
      else only_if (\<lambda>w. \<not> w_locked w p)
       (run
         [only_if (\<lambda>w. w_ref w (Active p) \<noteq> None) (run [setSatisfied p False, disconnect_use (Active p)]),
          dep_select E p i,
          setSatisfied p True]) w)"

definition dep_used_destroy :: "env \<Rightarrow> (iid \<Rightarrow> wop) \<Rightarrow> pid \<Rightarrow> iid \<Rightarrow> wop" where
  "dep_used_destroy E pub p i = run
    [require (\<lambda>w. \<not> w_locked w p),
     deref (Active p) (\<lambda>cur. require (\<lambda>w. cur = i)),
     setSatisfied p False,
     disconnect_use (Active p),
     set_ref (Active p) None,
     (\<lambda>w. case w_interfaces w of
            j # _ \<Rightarrow> run [require (\<lambda>w. j \<noteq> i), dep_select E p j, setSatisfied p True] w
          | [] \<Rightarrow> only_if (\<lambda>w. \<not> is_default E i \<and> hasDefault E p) (dep_set_default E pub p) w)]"

definition dep_release :: "iid \<Rightarrow> release_reply" where
  "dep_release i = Never"

end
