(* ===== verification/Dyn_Dependency.thy ===== *)
theory Dyn_Dependency
  imports Dependency_Parts
begin

text \<open>
  The part \<open>DynDependency\<close> (src/lib/idle/core/parts/dyn_dependency.cpp): while its service is locked it
  keeps the interface it uses in \<open>active\<close> and remembers an interface of a higher priority in \<open>pref\<close>; the
  user is offered to swap as soon as the service of the preferred interface runs. \<open>w_linked\<close> says that the
  usage \<open>pref\<close> is linked behind \<open>active\<close> in the list of imports.
\<close>

definition IsPrioritizedOverCurrent :: "env \<Rightarrow> iid \<Rightarrow> iid \<Rightarrow> bool" where
  "IsPrioritizedOverCurrent E current other = gt E other current"

fun reselect_from :: "iid \<Rightarrow> iid \<Rightarrow> iid list \<Rightarrow> iid option" where
  "reselect_from act exclude [] = None"
| "reselect_from act exclude (i # is) =
     (if i = exclude then reselect_from act exclude is else if i = act then None else Some i)"

definition reselect_preferred :: "pid \<Rightarrow> iid \<Rightarrow> world \<Rightarrow> iid option res" where
  "reselect_preferred p exclude w =
     (case ptr w (Active p) of None \<Rightarrow> Inl AssertFailed | Some act \<Rightarrow> Inr (reselect_from act exclude (w_interfaces w)))"

definition link_pref :: "pid \<Rightarrow> wop" where
  "link_pref p = run [require (\<lambda>w. \<not> w_linked w p), (\<lambda>w. Inr (w\<lparr>w_linked := (w_linked w)(p := True)\<rparr>))]"

definition unlink_pref :: "pid \<Rightarrow> wop" where
  "unlink_pref p = run [require (\<lambda>w. w_linked w p), (\<lambda>w. Inr (w\<lparr>w_linked := (w_linked w)(p := False)\<rparr>))]"

definition reconnect_preferred :: "env \<Rightarrow> pid \<Rightarrow> iid option \<Rightarrow> wop" where
  "reconnect_preferred E p replacement = run
    [require (\<lambda>w. w_ref w (Active p) \<noteq> None),
     require (\<lambda>w. w_ref w (Preferred p) \<noteq> None),
     disconnect_use (Preferred p),
     (case replacement of
        Some i \<Rightarrow> run [set_ref (Preferred p) (Some (reference_of E i)), connect_use (Preferred p) False]
      | None \<Rightarrow> run [set_ref (Preferred p) None, unlink_pref p])]"

definition get_next_preferred :: "pid \<Rightarrow> iid \<Rightarrow> world \<Rightarrow> iid option res" where
  "get_next_preferred p cur w =
     (case ptr w (Active p) of
        None \<Rightarrow> Inl Unreachable
      | Some act \<Rightarrow>
          if cur = act then Inr (ptr w (Preferred p))
          else if ptr w (Preferred p) = Some cur then reselect_preferred p cur w
          else Inl AssertFailed)"

definition dyn_imports :: "pid \<Rightarrow> world \<Rightarrow> use list res" where
  "dyn_imports p w =
     (if w_ref w (Preferred p) \<noteq> None \<and> w_ref w (Active p) = None then Inl AssertFailed
      else Inr (if w_ref w (Active p) \<noteq> None then Active p # (if w_linked w p then [Preferred p] else []) else []))"

definition dyn_init :: "env \<Rightarrow> (iid \<Rightarrow> wop) \<Rightarrow> pid \<Rightarrow> wop" where
  "dyn_init E pub p = run
    [subscriberAdd p,
     (\<lambda>w. case w_interfaces w of
            i # _ \<Rightarrow> dep_select E p i w
          | [] \<Rightarrow> if hasDefault E p then run [require (\<lambda>w. w_ref w (Preferred p) = None), dep_set_default E pub p] w
                  else setSatisfied p False w)]"

definition dyn_destroy :: "pid \<Rightarrow> wop" where
  "dyn_destroy p = run
    [require (\<lambda>w. w_ref w (Preferred p) = None),
     subscriberDel p,
     only_if (\<lambda>w. w_ref w (Active p) \<noteq> None)
       (run [disconnect_use (Active p), require (\<lambda>w. \<not> w_linked w p), set_ref (Active p) None])]"

definition store_userspace :: "pid \<Rightarrow> iid option \<Rightarrow> wop" where
  "store_userspace p i w = Inr (w\<lparr>w_userspace := (w_userspace w)(p := i)\<rparr>)"

definition set_pending :: "pid \<Rightarrow> bool \<Rightarrow> wop" where
  "set_pending p b w = Inr (w\<lparr>w_pending := (w_pending w)(p := b)\<rparr>)"

definition dyn_lock :: "pid \<Rightarrow> wop" where
  "dyn_lock p = run
    [require (\<lambda>w. w_satisfied w p),
     require (\<lambda>w. w_ref w (Active p) \<noteq> None),
     deref (Active p) (\<lambda>i. require (\<lambda>w. w_running w i)),
     require (\<lambda>w. w_ref w (Preferred p) = None),
     require (\<lambda>w. \<not> w_pending w p),
     try_acquire (Active p),
     (\<lambda>w. store_userspace p (ptr w (Active p)) w)]"

definition dyn_unlock :: "env \<Rightarrow> pid \<Rightarrow> wop" where
  "dyn_unlock E p = run
    [require (\<lambda>w. w_ref w (Active p) \<noteq> None),
     deref (Active p) (\<lambda>i. require (\<lambda>w. w_running w i)),
     store_userspace p None,
     (\<lambda>w. if w_ref w (Preferred p) \<noteq> None then run
            [disconnect_use (Active p),
             (\<lambda>w. set_ref (Active p) (w_ref w (Preferred p)) w),
             connect_use (Active p) False,
             disconnect_use (Preferred p),
             unlink_pref p,
             set_ref (Preferred p) None] w
          else deref (Active p) (\<lambda>i. only_if (\<lambda>w. \<not> is_default E i) (disown (Active p))) w),
     set_pending p False]"

definition offerSwap :: "pid \<Rightarrow> wop" where
  "offerSwap p w =
     (case (ptr w (Active p), ptr w (Preferred p)) of
        (Some from, Some to) \<Rightarrow> run
          [require (\<lambda>w. \<not> w_pending w p \<and> to \<noteq> from \<and> w_running w to \<and> w_locked w p),
           set_pending p True,
           (\<lambda>w. Inr (w\<lparr>w_offers := w_offers w @ [(p, w_epoch w p, from, to)]\<rparr>))] w
      | _ \<Rightarrow> Inl AssertFailed)"

definition dyn_created :: "env \<Rightarrow> pid \<Rightarrow> iid \<Rightarrow> wop" where
  "dyn_created E p i w =
     (let currently_active = w_locked w p;
          cur = (if currently_active \<and> w_ref w (Preferred p) \<noteq> None then ptr w (Preferred p) else ptr w (Active p))
      in run
       [require (\<lambda>w. \<not> (currently_active \<and> w_ref w (Preferred p) \<noteq> None)
           \<or> (case (ptr w (Preferred p), ptr w (Active p)) of (Some b, Some a) \<Rightarrow> gt E b a | _ \<Rightarrow> False)),
        (\<lambda>w. if (case cur of None \<Rightarrow> False | Some c \<Rightarrow> \<not> IsPrioritizedOverCurrent E c i) then Inr w
             else if currently_active then
               (case ptr w (Active p) of
                  None \<Rightarrow> Inl AssertFailed
                | Some act \<Rightarrow>
                    if w_pending w p \<or> \<not> canSwap E p (Some act) (Some i) then Inr w
                    else run
                     [only_if (\<lambda>w. w_ref w (Preferred p) \<noteq> None) (run [disconnect_use (Preferred p), unlink_pref p]),
                      set_ref (Preferred p) (Some (reference_of E i)),
                      link_pref p,
                      connect_use (Preferred p) False,
                      only_if (\<lambda>w. w_running w i) (offerSwap p)] w)
             else run
              [only_if (\<lambda>w. w_ref w (Active p) \<noteq> None) (disconnect_use (Active p)),
               dep_select E p i,
               setSatisfied p True] w)] w)"

definition dyn_used_started :: "pid \<Rightarrow> iid \<Rightarrow> wop" where
  "dyn_used_started p i = run
    [require (\<lambda>w. w_running w i),
     only_if (\<lambda>w. w_locked w p)
       (run [deref (Preferred p) (\<lambda>cur. require (\<lambda>w. cur = i)), offerSwap p])]"

definition dyn_used_destroy :: "env \<Rightarrow> (iid \<Rightarrow> wop) \<Rightarrow> pid \<Rightarrow> iid \<Rightarrow> wop" where
  "dyn_used_destroy E pub p i = run
    [require (\<lambda>w. ptr w (Active p) \<noteq> Some i \<or> \<not> w_locked w p),
     require (\<lambda>w. ptr w (Preferred p) \<noteq> Some i \<or> w_locked w p),
     (\<lambda>w. if w_locked w p then bind (reselect_preferred p i w) (\<lambda>_. Inr w)
          else run
           [deref (Active p) (\<lambda>cur. require (\<lambda>w. cur = i)),
            disconnect_use (Active p),
            (\<lambda>w. case w_interfaces w of
                   j # _ \<Rightarrow> run [require (\<lambda>w. j \<noteq> i), dep_select E p j] w
                 | [] \<Rightarrow> run
                    [require (\<lambda>w. \<not> w_linked w p),
                     setSatisfied p False,
                     set_ref (Active p) None,
                     only_if (\<lambda>w. \<not> is_default E i \<and> hasDefault E p)
                       (run [require (\<lambda>w. w_ref w (Preferred p) = None), dep_set_default E pub p])] w)] w)]"

definition dyn_release :: "env \<Rightarrow> pid \<Rightarrow> iid \<Rightarrow> world \<Rightarrow> (release_reply \<times> world) res" where
  "dyn_release E p i w =
     (if ptr w (Active p) \<noteq> Some i \<and> ptr w (Preferred p) \<noteq> Some i then Inl AssertFailed
      else if w_pending w p then Inr (if ptr w (Active p) = Some i then Later else Never, w)
      else bind (get_next_preferred p i w) (\<lambda>replacement.
        if canSwap E p (Some i) replacement then
          (if ptr w (Preferred p) = Some i
           then bind (reconnect_preferred E p replacement w) (\<lambda>w. Inr (Now, w))
           else check (ptr w (Active p) = Some i) (Later, w))
        else Inr (Never, w)))"

definition dyn_finalize :: "env \<Rightarrow> pid \<Rightarrow> wop" where
  "dyn_finalize E p = run
    [require (\<lambda>w. w_pending w p \<and> w_ref w (Preferred p) \<noteq> None \<and> w_ref w (Active p) \<noteq> None),
     disconnect_use (Active p),
     deref (Preferred p) (\<lambda>to. dep_select E p to),
     disconnect_use (Preferred p),
     unlink_pref p,
     require (\<lambda>w. \<not> w_linked w p),
     set_ref (Preferred p) None,
     set_pending p False,
     (\<lambda>w. bind (dyn_imports p w) (\<lambda>us. check (length us = 1) w)),
     (\<lambda>w. case w_interfaces w of
            [] \<Rightarrow> Inl Unreachable
          | latest # _ \<Rightarrow> deref (Active p) (\<lambda>act w.
              if latest \<noteq> act then (if IsPrioritizedOverCurrent E act latest then Inl Unreachable else Inl AssertFailed)
              else Inr w) w)]"

text \<open>
  The handle of an offer locks if the service is still in the epoch of the offer and its use counter is not zero (\<open>usable\<close>).
\<close>

definition dyn_apply :: "env \<Rightarrow> bool \<Rightarrow> pid \<times> nat \<times> iid \<times> iid \<Rightarrow> world \<Rightarrow> (bool \<times> world) res" where
  "dyn_apply E usable act w =
     (case act of (p, epoch, from, to) \<Rightarrow>
        if usable \<and> w_epoch w p = epoch
        then bind (run [store_userspace p (Some to), dyn_finalize E p] w) (\<lambda>w. Inr (True, w))
        else Inr (False, w))"

end
