(* ===== verification/Dyn_Dependencies.thy ===== *)
theory Dyn_Dependencies
  imports Dyn_Dependency
begin

text \<open>
  The part \<open>DynDependencies\<close> (src/lib/idle/core/parts/dyn_dependencies.cpp), which uses all interfaces of its type: the map
  \<open>w_map\<close> holds a usage per interface that was not filtered out, \<open>w_used\<close> lists the connected usages, and the storage of the user
  is told which interfaces to insert and to erase. The map is unordered in the code; here it is visited in the order of insertion.
  The storage policy of the user is seen through the calls \<open>doInsert\<close> and \<open>doErase\<close>, recorded in \<open>w_calls\<close>.
\<close>

definition df_Ignore :: nat where "df_Ignore = 0"
definition df_Weak :: nat where "df_Weak = 1"

definition item_insert :: "pid \<Rightarrow> iid \<Rightarrow> mask \<Rightarrow> wop" where
  "item_insert p i flags = only_if (\<lambda>w. i \<notin> set (w_map w p))
     (\<lambda>w. Inr (w\<lparr>w_map := (w_map w)(p := w_map w p @ [i]), w_ref := (w_ref w)(Item p i \<mapsto> (i, False)),
                w_weak := (w_weak w)(Item p i := contains flags df_Weak),
                w_reply := (w_reply w)(Item p i := UseLater), w_storage := (w_storage w)(Item p i := erased)\<rparr>))"

definition usage_is_connected :: "pid \<Rightarrow> iid \<Rightarrow> world \<Rightarrow> bool" where
  "usage_is_connected p i w \<longleftrightarrow> i \<in> set (w_used w p)"

definition item_erase :: "pid \<Rightarrow> iid \<Rightarrow> wop" where
  "item_erase p i = only_if (\<lambda>w. i \<in> set (w_map w p))
     (run [require (\<lambda>w. \<not> usage_is_connected p i w),
           require (\<lambda>w. w_storage w (Item p i) = erased),
           (\<lambda>w. Inr (w\<lparr>w_map := (w_map w)(p := remove1 i (w_map w p)), w_ref := (w_ref w)(Item p i := None)\<rparr>))])"

definition usage_set_lock :: "pid \<Rightarrow> iid \<Rightarrow> bool \<Rightarrow> wop" where
  "usage_set_lock p i active = (if active then try_acquire (Item p i) else disown (Item p i))"

definition usage_release :: "pid \<Rightarrow> iid \<Rightarrow> wop" where
  "usage_release p i = run
    [require (\<lambda>w. w_ref w (Item p i) \<noteq> None \<and> \<not> usage_is_connected p i w \<and> i \<in> set (w_map w p)), item_erase p i]"

definition item_connect :: "pid \<Rightarrow> iid \<Rightarrow> wop" where
  "item_connect p i = run
    [require (\<lambda>w. \<not> usage_is_connected p i w),
     require (\<lambda>w. \<not> w_connected w (Item p i)),
     (\<lambda>w. Inr (w\<lparr>w_used := (w_used w)(p := w_used w p @ [i])\<rparr>)),
     (\<lambda>w. connect_use (Item p i) (w_weak w (Item p i)) w),
     require (\<lambda>w. w_connected w (Item p i))]"

definition item_disconnect :: "pid \<Rightarrow> iid \<Rightarrow> wop" where
  "item_disconnect p i = run
    [require (\<lambda>w. usage_is_connected p i w),
     require (\<lambda>w. w_connected w (Item p i)),
     require (\<lambda>w. w_storage w (Item p i) = erased),
     disconnect_use (Item p i),
     (\<lambda>w. Inr (w\<lparr>w_used := (w_used w)(p := remove1 i (w_used w p))\<rparr>)),
     require (\<lambda>w. \<not> usage_is_connected p i w),
     require (\<lambda>w. \<not> w_connected w (Item p i))]"

definition usage_set_storage_state :: "pid \<Rightarrow> iid \<Rightarrow> storage_state \<Rightarrow> wop" where
  "usage_set_storage_state p i st w = Inr (w\<lparr>w_storage := (w_storage w)(Item p i := st)\<rparr>)"

definition usage_insert_into_storage :: "pid \<Rightarrow> iid \<Rightarrow> storage_update \<Rightarrow> wop" where
  "usage_insert_into_storage p i upd = only_if (\<lambda>w. w_storage w (Item p i) \<noteq> inserted)
     (run [usage_set_storage_state p i inserted, call (CInsert p i upd)])"

definition usage_erase_from_storage :: "pid \<Rightarrow> iid \<Rightarrow> storage_update \<Rightarrow> wop" where
  "usage_erase_from_storage p i upd = only_if (\<lambda>w. w_storage w (Item p i) \<noteq> erased)
     (run [usage_set_storage_state p i erased, call (CErase p i upd)])"

definition usage_set_reply :: "pid \<Rightarrow> iid \<Rightarrow> use_reply \<Rightarrow> wop" where
  "usage_set_reply p i r w = Inr (w\<lparr>w_reply := (w_reply w)(Item p i := r)\<rparr>)"

definition accept_offer :: "pid \<Rightarrow> iid \<Rightarrow> use_reply \<Rightarrow> wop" where
  "accept_offer p i reply =
     (case reply of
        UseNowAndInsert \<Rightarrow> run [usage_set_lock p i True, item_connect p i, usage_insert_into_storage p i UpdateAuto]
      | UseLater \<Rightarrow> run [usage_set_lock p i True, item_connect p i]
      | UseLaterAndNotify \<Rightarrow> run [usage_set_reply p i reply, usage_set_lock p i True, item_connect p i]
      | UseLaterAndInsert \<Rightarrow> run [usage_set_reply p i reply, usage_set_lock p i True, item_connect p i]
      | UseNever \<Rightarrow> usage_set_reply p i UseNever)"

definition process_availability :: "env \<Rightarrow> pid \<Rightarrow> iid \<Rightarrow> wop" where
  "process_availability E p i w =
     (let flags = onInspect E p i in
      if contains flags df_Ignore then Inr w
      else run
       [item_insert p i flags,
        only_if (\<lambda>w. \<not> usage_is_connected p i w)
          (\<lambda>w. if \<not> w_locked w p then item_connect p i w else accept_offer p i (onUseOffer E p i) w)] w)"

definition item_used_destroy :: "pid \<Rightarrow> iid \<Rightarrow> wop" where
  "item_used_destroy p i = run
    [require (\<lambda>w. w_ref w (Item p i) \<noteq> None),
     deref (Item p i) (\<lambda>dep. require (\<lambda>w. dep = i)),
     require (\<lambda>w. usage_is_connected p i w),
     usage_erase_from_storage p i UpdateImplicit,
     item_disconnect p i,
     usage_release p i]"

definition item_used_started :: "env \<Rightarrow> pid \<Rightarrow> iid \<Rightarrow> wop" where
  "item_used_started E p i = run
    [require (\<lambda>w. i \<in> set (w_map w p)),
     (\<lambda>w. case w_reply w (Item p i) of
            UseLaterAndNotify \<Rightarrow>
              (let reply = onUseOffer E p i in run
                [require (\<lambda>w. reply \<noteq> UseLaterAndInsert),
                 require (\<lambda>w. reply \<noteq> UseLaterAndNotify),
                 only_if (\<lambda>w. reply = UseNowAndInsert) (usage_insert_into_storage p i UpdateAuto)] w)
          | UseLaterAndInsert \<Rightarrow> usage_insert_into_storage p i UpdateAuto w
          | _ \<Rightarrow> Inr w)]"

definition item_release :: "env \<Rightarrow> pid \<Rightarrow> iid \<Rightarrow> world \<Rightarrow> (release_reply \<times> world) res" where
  "item_release E p i w =
     (let reply = onReleaseUse E p i in
      bind (only_if (\<lambda>w. reply = Now)
        (run [require (\<lambda>w. usage_is_connected p i w),
              require (\<lambda>w. i \<in> set (w_map w p)),
              usage_erase_from_storage p i UpdateAuto,
              item_disconnect p i,
              usage_set_lock p i False]) w) (\<lambda>w. Inr (reply, w)))"

definition deps_created :: "env \<Rightarrow> pid \<Rightarrow> iid \<Rightarrow> wop" where
  "deps_created E p i = process_availability E p i"

definition deps_subscribed_destroy :: "pid \<Rightarrow> iid \<Rightarrow> wop" where
  "deps_subscribed_destroy p i = item_erase p i"

definition deps_subscribed_unlocked :: "env \<Rightarrow> pid \<Rightarrow> iid \<Rightarrow> wop" where
  "deps_subscribed_unlocked E p i = process_availability E p i"

definition deps_init :: "env \<Rightarrow> pid \<Rightarrow> wop" where
  "deps_init E p = run
    [require (\<lambda>w. \<not> w_locked w p), each w_interfaces (deps_created E p), subscriberAdd p]"

definition deps_destroy :: "pid \<Rightarrow> wop" where
  "deps_destroy p = run
    [require (\<lambda>w. \<not> w_locked w p),
     subscriberDel p,
     each (\<lambda>w. w_used w p) (\<lambda>i. run [usage_erase_from_storage p i UpdateImplicit, item_disconnect p i, usage_release p i]),
     (\<lambda>w. Inr (w\<lparr>w_map := (w_map w)(p := []),
                w_ref := (\<lambda>u. if \<exists>i\<in>set (w_map w p). u = Item p i then None else w_ref w u)\<rparr>))]"

definition deps_lock_item :: "pid \<Rightarrow> iid \<Rightarrow> wop" where
  "deps_lock_item p i w =
     (if w_running w i then run [usage_set_lock p i True, usage_insert_into_storage p i UpdateImplicit] w
      else run [require (\<lambda>w. w_weak w (Item p i)), usage_set_reply p i UseLaterAndNotify,
                usage_erase_from_storage p i UpdateImplicit] w)"

definition deps_lock :: "pid \<Rightarrow> wop" where
  "deps_lock p = each (\<lambda>w. w_used w p) (deps_lock_item p)"

definition deps_unlock_item :: "pid \<Rightarrow> iid \<Rightarrow> wop" where
  "deps_unlock_item p i = run
    [only_if (\<lambda>w. \<not> usage_is_connected p i w) (run [usage_set_reply p i UseLater, item_connect p i]),
     usage_insert_into_storage p i UpdateImplicit]"

definition deps_unlock :: "pid \<Rightarrow> wop" where
  "deps_unlock p = run
    [each (\<lambda>w. w_used w p) (\<lambda>i. usage_set_lock p i False), each (\<lambda>w. w_map w p) (deps_unlock_item p)]"

definition doAcquireUsage :: "env \<Rightarrow> pid \<Rightarrow> iid \<Rightarrow> wop" where
  "doAcquireUsage E p i = only_if (\<lambda>w. w_locked w p)
     (run [only_if (\<lambda>w. i \<notin> set (w_map w p)) (item_insert p i (onInspect E p i)),
           usage_set_storage_state p i unknown,
           only_if (\<lambda>w. \<not> usage_is_connected p i w) (run [usage_set_lock p i True, item_connect p i])])"

definition doReleaseUsage :: "pid \<Rightarrow> iid \<Rightarrow> wop" where
  "doReleaseUsage p i = only_if (\<lambda>w. w_locked w p \<and> i \<in> set (w_map w p))
     (run [usage_set_storage_state p i erased,
           only_if (\<lambda>w. usage_is_connected p i w) (run [item_disconnect p i, usage_set_lock p i False])])"

end
