(* ===== verification/Registry_Entry.thy ===== *)
theory Registry_Entry
  imports Dyn_Dependencies
begin

text \<open>
  The registry entry of one type (\<open>RegistryImpl\<close>, src/lib/idle/core/detail/context/registry_impl.cpp) together with its
  subscribers: publishing, revoking, starting, locking and unlocking an interface calls the subscribers and the users of the interface in the
  order of their lists. The dispatch of the virtual functions to the three classes of parts is by \<open>part_class_of\<close>.

  The loop over the users of an interface reads the list first. In the code the iterator is advanced before the
  callback, because a callback removes its own usage; it does not touch the others.
\<close>

section \<open>Subscribers\<close>

definition ev_OnCreated :: nat where "ev_OnCreated = 0"
definition ev_OnDestroy :: nat where "ev_OnDestroy = 1"
definition ev_OnLock :: nat where "ev_OnLock = 2"
definition ev_OnUnlocked :: nat where "ev_OnUnlocked = 3"

primrec subscriber_filter :: "part_class \<Rightarrow> mask" where
  "subscriber_filter Dependency = bs_of_list [ev_OnCreated, ev_OnDestroy]"
| "subscriber_filter DynDependency = bs_of_list [ev_OnCreated]"
| "subscriber_filter DynDependencies = bs_of_list [ev_OnCreated, ev_OnDestroy, ev_OnUnlocked]"

definition call_filtered :: "env \<Rightarrow> nat \<Rightarrow> (pid \<Rightarrow> wop) \<Rightarrow> pid \<Rightarrow> wop" where
  "call_filtered E ev f p = only_if (\<lambda>w. contains (subscriber_filter (part_class_of E p)) ev) (f p)"

definition onSubscribedCreated :: "env \<Rightarrow> iid \<Rightarrow> pid \<Rightarrow> wop" where
  "onSubscribedCreated E i p =
     (case part_class_of E p of
        Dependency \<Rightarrow> dep_created E p i | DynDependency \<Rightarrow> dyn_created E p i | DynDependencies \<Rightarrow> deps_created E p i)"

definition onSubscribedDestroy :: "env \<Rightarrow> iid \<Rightarrow> pid \<Rightarrow> wop" where
  "onSubscribedDestroy E i p =
     (case part_class_of E p of
        Dependency \<Rightarrow> Inr | DynDependency \<Rightarrow> Inr | DynDependencies \<Rightarrow> deps_subscribed_destroy p i)"

definition onSubscribedLock :: "env \<Rightarrow> iid \<Rightarrow> pid \<Rightarrow> wop" where
  "onSubscribedLock E i p = Inr"

definition onSubscribedUnlocked :: "env \<Rightarrow> iid \<Rightarrow> pid \<Rightarrow> wop" where
  "onSubscribedUnlocked E i p =
     (case part_class_of E p of
        Dependency \<Rightarrow> Inr | DynDependency \<Rightarrow> Inr | DynDependencies \<Rightarrow> deps_subscribed_unlocked E p i)"

section \<open>The events of an interface\<close>

definition onInterfaceCreate :: "env \<Rightarrow> iid \<Rightarrow> wop" where
  "onInterfaceCreate E i = run
    [require (\<lambda>w. i \<notin> set (w_interfaces w)),
     (\<lambda>w. Inr (w\<lparr>w_interfaces := insert_sorted (gt E) i (w_interfaces w)\<rparr>)),
     each w_subscribers (call_filtered E ev_OnCreated (onSubscribedCreated E i))]"

primrec onUsedDestroy :: "env \<Rightarrow> iid \<Rightarrow> use \<Rightarrow> wop" where
  "onUsedDestroy E i (Active p) =
     (if part_class_of E p = Dependency then dep_used_destroy E (onInterfaceCreate E) p i
      else dyn_used_destroy E (onInterfaceCreate E) p i)"
| "onUsedDestroy E i (Preferred p) = dyn_used_destroy E (onInterfaceCreate E) p i"
| "onUsedDestroy E i (Item p j) = run [require (\<lambda>w. j = i), item_used_destroy p i]"

primrec onUsedStarted :: "env \<Rightarrow> iid \<Rightarrow> use \<Rightarrow> wop" where
  "onUsedStarted E i (Active p) =
     (if part_class_of E p = Dependency then require (\<lambda>w. ptr w (Active p) = Some i \<and> w_locked w p \<and> w_running w i)
      else dyn_used_started p i)"
| "onUsedStarted E i (Preferred p) = dyn_used_started p i"
| "onUsedStarted E i (Item p j) = item_used_started E p i"

primrec onReleaseRequest :: "env \<Rightarrow> iid \<Rightarrow> use \<Rightarrow> world \<Rightarrow> (release_reply \<times> world) res" where
  "onReleaseRequest E i (Active p) w =
     (if part_class_of E p = Dependency then Inr (dep_release i, w) else dyn_release E p i w)"
| "onReleaseRequest E i (Preferred p) w = dyn_release E p i w"
| "onReleaseRequest E i (Item p j) w = item_release E p i w"

definition onInterfaceStart :: "env \<Rightarrow> iid \<Rightarrow> wop" where
  "onInterfaceStart E i =
     each (\<lambda>w. w_users w i) (\<lambda>u. only_if (\<lambda>w. w_locked w (user_of u)) (onUsedStarted E i u))"

definition onInterfaceDestroy :: "env \<Rightarrow> iid \<Rightarrow> wop" where
  "onInterfaceDestroy E i = run
    [(\<lambda>w. Inr (w\<lparr>w_interfaces := remove1 i (w_interfaces w)\<rparr>)),
     each (\<lambda>w. w_users w i) (onUsedDestroy E i),
     each w_subscribers (call_filtered E ev_OnDestroy (onSubscribedDestroy E i))]"

definition onInterfaceLock :: "env \<Rightarrow> iid \<Rightarrow> wop" where
  "onInterfaceLock E i = each w_subscribers (call_filtered E ev_OnLock (onSubscribedLock E i))"

definition onInterfaceUnlock :: "env \<Rightarrow> iid \<Rightarrow> wop" where
  "onInterfaceUnlock E i = each w_subscribers (call_filtered E ev_OnUnlocked (onSubscribedUnlocked E i))"

section \<open>The hooks of the parts\<close>

definition onPartInit :: "env \<Rightarrow> pid \<Rightarrow> wop" where
  "onPartInit E p =
     (case part_class_of E p of
        Dependency \<Rightarrow> dep_init E (onInterfaceCreate E) p
      | DynDependency \<Rightarrow> dyn_init E (onInterfaceCreate E) p
      | DynDependencies \<Rightarrow> deps_init E p)"

definition onPartDestroy :: "env \<Rightarrow> pid \<Rightarrow> wop" where
  "onPartDestroy E p =
     (case part_class_of E p of
        Dependency \<Rightarrow> dep_destroy p | DynDependency \<Rightarrow> dyn_destroy p | DynDependencies \<Rightarrow> deps_destroy p)"

definition onImportLock :: "env \<Rightarrow> pid \<Rightarrow> wop" where
  "onImportLock E p =
     (case part_class_of E p of
        Dependency \<Rightarrow> dep_lock p | DynDependency \<Rightarrow> dyn_lock p | DynDependencies \<Rightarrow> deps_lock p)"

definition onImportUnlock :: "env \<Rightarrow> pid \<Rightarrow> wop" where
  "onImportUnlock E p =
     (case part_class_of E p of
        Dependency \<Rightarrow> dep_unlock E p | DynDependency \<Rightarrow> dyn_unlock E p | DynDependencies \<Rightarrow> deps_unlock p)"

section \<open>Steps\<close>

text \<open>
  The engine's side of the steps. A service is locked with its imports satisfied and its strong usages running, it is stopped only when
  no locked service uses it, and an interface is revoked when its service is stopped; the theory \<open>Engine_Steps\<close> shows that the
  engine does so. Interfaces are published by services that do not run yet, and the release of a usage is requested when
  the service behind it is to stop.
\<close>

definition fresh_part :: "world \<Rightarrow> pid \<Rightarrow> bool" where
  "fresh_part w p \<longleftrightarrow> p \<notin> set (w_subscribers w) \<and> \<not> w_locked w p \<and> w_satisfied w p \<and> \<not> w_linked w p \<and> \<not> w_pending w p
     \<and> w_userspace w p = None \<and> w_used w p = [] \<and> w_map w p = []
     \<and> (\<forall>u. user_of u = p \<longrightarrow> w_ref w u = None \<and> \<not> w_connected w u \<and> (\<forall>i. u \<notin> set (w_users w i)))"

definition lockable :: "world \<Rightarrow> pid \<Rightarrow> bool" where
  "lockable w p \<longleftrightarrow> p \<in> set (w_subscribers w) \<and> \<not> w_locked w p \<and> w_satisfied w p
     \<and> (\<forall>u. user_of u = p \<and> w_connected w u \<and> \<not> w_weak w u \<longrightarrow> (\<forall>i. ptr w u = Some i \<longrightarrow> w_running w i))"

inductive import_step :: "env \<Rightarrow> world \<Rightarrow> world \<Rightarrow> bool" for E where
  publish: "\<not> w_up w i \<Longrightarrow> onInterfaceCreate E i w = Inr w' \<Longrightarrow> import_step E w w'"
| revoke: "i \<in> set (w_interfaces w) \<Longrightarrow> \<not> w_up w i \<Longrightarrow> onInterfaceDestroy E i w = Inr w' \<Longrightarrow> import_step E w w'"
| interface_locked: "i \<in> set (w_interfaces w) \<Longrightarrow> onInterfaceLock E i (w\<lparr>w_up := (w_up w)(i := True)\<rparr>) = Inr w' \<Longrightarrow> import_step E w w'"
| started: "i \<in> set (w_interfaces w) \<Longrightarrow> w_up w i \<Longrightarrow> onInterfaceStart E i (w\<lparr>w_running := (w_running w)(i := True)\<rparr>) = Inr w'
    \<Longrightarrow> import_step E w w'"
| stopped: "\<forall>u \<in> set (w_users w i). \<not> w_locked w (user_of u)
    \<Longrightarrow> import_step E w (w\<lparr>w_running := (w_running w)(i := False)\<rparr>)"
| interface_unlocked: "i \<in> set (w_interfaces w) \<Longrightarrow> \<not> w_running w i \<Longrightarrow> onInterfaceUnlock E i (w\<lparr>w_up := (w_up w)(i := False)\<rparr>) = Inr w'
    \<Longrightarrow> import_step E w w'"
| init: "fresh_part w p \<Longrightarrow> onPartInit E p w = Inr w' \<Longrightarrow> import_step E w w'"
| destroy: "p \<in> set (w_subscribers w) \<Longrightarrow> \<not> w_locked w p \<Longrightarrow> onPartDestroy E p w = Inr w' \<Longrightarrow> import_step E w w'"
| lock: "lockable w p \<Longrightarrow> onImportLock E p (w\<lparr>w_locked := (w_locked w)(p := True)\<rparr>) = Inr w' \<Longrightarrow> import_step E w w'"
| unlock: "p \<in> set (w_subscribers w) \<Longrightarrow> w_locked w p \<Longrightarrow> onImportUnlock E p w = Inr w'
    \<Longrightarrow> import_step E w (w'\<lparr>w_locked := (w_locked w')(p := False), w_epoch := (w_epoch w')(p := w_epoch w' p + 1)\<rparr>)"
| release: "w_connected w u \<Longrightarrow> ptr w u = Some i \<Longrightarrow> w_up w i \<Longrightarrow> onReleaseRequest E i u w = Inr (r, w') \<Longrightarrow> import_step E w w'"
| swap: "w_offers w = xs @ a # ys \<Longrightarrow> part_class_of E (fst a) = DynDependency \<Longrightarrow> dyn_apply E usable a (w\<lparr>w_offers := xs @ ys\<rparr>) = Inr (b, w') \<Longrightarrow> import_step E w w'"
| acquire: "p \<in> set (w_subscribers w) \<Longrightarrow> part_class_of E p = DynDependencies \<Longrightarrow> i \<in> set (w_interfaces w) \<Longrightarrow> doAcquireUsage E p i w = Inr w' \<Longrightarrow> import_step E w w'"
| give_back: "p \<in> set (w_subscribers w) \<Longrightarrow> part_class_of E p = DynDependencies \<Longrightarrow> doReleaseUsage p i w = Inr w' \<Longrightarrow> import_step E w w'"

definition empty_world :: world where
  "empty_world = \<lparr>w_interfaces = [], w_subscribers = [], w_users = (\<lambda>_. []), w_up = (\<lambda>_. False), w_running = (\<lambda>_. False), w_locked = (\<lambda>_. False),
     w_satisfied = (\<lambda>_. True), w_ref = (\<lambda>_. None), w_connected = (\<lambda>_. False), w_linked = (\<lambda>_. False), w_pending = (\<lambda>_. False),
     w_userspace = (\<lambda>_. None), w_epoch = (\<lambda>_. 0), w_offers = [], w_used = (\<lambda>_. []), w_map = (\<lambda>_. []), w_weak = (\<lambda>_. False),
     w_reply = (\<lambda>_. UseLater), w_storage = (\<lambda>_. erased), w_calls = []\<rparr>"

end
