(* ===== verification/Import_Frame.thy ===== *)
theory Import_Frame
  imports Registry_Entry
begin

text \<open>
  What an operation of one import part leaves alone: the registry entry, the services, and everything that belongs to another
  part. The collection \<open>framed\<close> holds the rules that derive this for an operation from its text.
\<close>

definition unaffected :: "pid \<Rightarrow> world \<Rightarrow> world \<Rightarrow> bool" where
  "unaffected p w w' \<longleftrightarrow> w_interfaces w' = w_interfaces w \<and> w_subscribers w' = w_subscribers w \<and> w_running w' = w_running w
     \<and> w_up w' = w_up w \<and> w_locked w' = w_locked w \<and> w_epoch w' = w_epoch w
     \<and> (\<forall>u. user_of u \<noteq> p \<longrightarrow> w_ref w' u = w_ref w u \<and> w_connected w' u = w_connected w u \<and> w_weak w' u = w_weak w u
          \<and> w_reply w' u = w_reply w u \<and> w_storage w' u = w_storage w u
          \<and> (\<forall>i. count_list (w_users w' i) u = count_list (w_users w i) u))
     \<and> (\<forall>q. q \<noteq> p \<longrightarrow> w_satisfied w' q = w_satisfied w q \<and> w_linked w' q = w_linked w q \<and> w_pending w' q = w_pending w q
          \<and> w_userspace w' q = w_userspace w q \<and> w_used w' q = w_used w q \<and> w_map w' q = w_map w q)"

lemma unaffected_refl [simp]: "unaffected p w w"
  by (simp add: unaffected_def)

lemma unaffected_trans [trans]: "unaffected p w w' \<Longrightarrow> unaffected p w' w'' \<Longrightarrow> unaffected p w w''"
  unfolding unaffected_def by auto

lemma unaffectedD:
  assumes "unaffected p w w'"
  shows "w_interfaces w' = w_interfaces w" "w_subscribers w' = w_subscribers w" "w_running w' = w_running w"
    "w_locked w' = w_locked w" "w_up w' = w_up w" "w_epoch w' = w_epoch w"
  using assms unfolding unaffected_def by auto

lemma unaffected_useD:
  assumes "unaffected p w w'" and "user_of u \<noteq> p"
  shows "w_ref w' u = w_ref w u" "w_connected w' u = w_connected w u" "w_weak w' u = w_weak w u" "w_reply w' u = w_reply w u"
    "w_storage w' u = w_storage w u" "count_list (w_users w' i) u = count_list (w_users w i) u"
  using assms unfolding unaffected_def by auto

lemma unaffected_partD:
  assumes "unaffected p w w'" and "q \<noteq> p"
  shows "w_satisfied w' q = w_satisfied w q" "w_linked w' q = w_linked w q" "w_pending w' q = w_pending w q"
    "w_userspace w' q = w_userspace w q" "w_used w' q = w_used w q" "w_map w' q = w_map w q"
  using assms unfolding unaffected_def by auto

lemma count_list_remove1 [simp]:
  "count_list (remove1 v xs) u = (if u = v then count_list xs u - 1 else count_list xs u)"
  by (induction xs) (auto simp: count_list_0_iff)

section \<open>Operations of one part\<close>

definition local_to :: "pid \<Rightarrow> wop \<Rightarrow> bool" where
  "local_to p f \<longleftrightarrow> (\<forall>w w'. f w = Inr w' \<longrightarrow> unaffected p w w')"

lemma local_toI: "(\<And>w w'. f w = Inr w' \<Longrightarrow> unaffected p w w') \<Longrightarrow> local_to p f"
  unfolding local_to_def by blast

lemma local_toD: "local_to p f \<Longrightarrow> f w = Inr w' \<Longrightarrow> unaffected p w w'"
  unfolding local_to_def by blast

named_theorems framed

lemma local_Nil [framed]: "local_to p (run [])"
  by (auto intro: local_toI)

lemma local_Cons [framed]: "local_to p f \<Longrightarrow> local_to p (run fs) \<Longrightarrow> local_to p (run (f # fs))"
  unfolding local_to_def run.simps bind_eq_Inr by (blast intro: unaffected_trans)

lemma local_require [framed]: "local_to p (require P)"
  by (rule local_toI) simp

lemma local_only_if [framed]: "local_to p f \<Longrightarrow> local_to p (only_if P f)"
  unfolding local_to_def only_if_def by auto

lemma local_if [framed]: "local_to p f \<Longrightarrow> local_to p g \<Longrightarrow> local_to p (\<lambda>w. if b w then f w else g w)"
  unfolding local_to_def by auto

lemma local_if_const [framed]: "local_to p f \<Longrightarrow> local_to p g \<Longrightarrow> local_to p (if b then f else g)"
  by simp

lemma local_Inr [framed]: "local_to p (\<lambda>w. Inr w)" "local_to p Inr"
  by (auto intro: local_toI)

lemma local_Inl [framed]: "local_to p (\<lambda>w. Inl e)"
  by (auto intro: local_toI)

lemma local_arg: "(\<And>x. local_to p (f x)) \<Longrightarrow> local_to p (\<lambda>w. f (g w) w)"
  unfolding local_to_def by blast

lemma local_deref [framed]: "(\<And>i. local_to p (f i)) \<Longrightarrow> local_to p (deref u f)"
  unfolding local_to_def deref_def by (auto split: option.splits)

lemma local_list [framed]:
  "(\<And>x xs. local_to p (f x xs)) \<Longrightarrow> local_to p g \<Longrightarrow> local_to p (\<lambda>w. case l w of [] \<Rightarrow> g w | x # xs \<Rightarrow> f x xs w)"
  unfolding local_to_def by (auto split: list.splits)

lemma local_option [framed]:
  "(\<And>x. local_to p (f x)) \<Longrightarrow> local_to p g \<Longrightarrow> local_to p (\<lambda>w. case l w of None \<Rightarrow> g w | Some x \<Rightarrow> f x w)"
  unfolding local_to_def by (auto split: option.splits)

lemma local_option_const [framed]:
  "(\<And>x. local_to p (f x)) \<Longrightarrow> local_to p g \<Longrightarrow> local_to p (case l of None \<Rightarrow> g | Some x \<Rightarrow> f x)"
  unfolding local_to_def by (auto split: option.splits)

lemma local_bind [framed]: "(\<And>x. local_to p (f x)) \<Longrightarrow> local_to p (\<lambda>w. bind (r w) (\<lambda>x. f x w))"
  unfolding local_to_def by auto

lemma local_fold: "(\<And>x. local_to p (f x)) \<Longrightarrow> local_to p (fold_res f xs)"
proof (rule local_toI)
  fix w w' assume f: "\<And>x. local_to p (f x)" and r: "fold_res f xs w = Inr w'"
  from r show "unaffected p w w'"
    by (rule fold_res_inv [where I = "unaffected p w"]) (auto intro: unaffected_trans local_toD [OF f])
qed

lemma local_each [framed]: "(\<And>x. local_to p (f x)) \<Longrightarrow> local_to p (each g f)"
  unfolding each_def by (rule local_arg) (rule local_fold)

lemma local_set_ref [framed]: "user_of u = p \<Longrightarrow> local_to p (set_ref u r)"
  by (rule local_toI) (auto simp: set_ref_def unaffected_def)

lemma local_set_ref_arg [framed]: "user_of u = p \<Longrightarrow> local_to p (\<lambda>w. set_ref u (r w) w)"
  by (rule local_toI) (auto simp: set_ref_def unaffected_def)

lemma local_call [framed]: "local_to p (call c)"
  by (rule local_toI) (auto simp: call_def unaffected_def)

lemma local_connect [framed]: "user_of u = p \<Longrightarrow> local_to p (connect_use u weak)"
  unfolding connect_use_def by (intro framed) (auto intro!: local_toI simp: unaffected_def)

lemma local_connect_arg [framed]: "user_of u = p \<Longrightarrow> local_to p (\<lambda>w. connect_use u (weak w) w)"
  by (rule local_arg) (rule local_connect)

lemma local_disconnect [framed]: "user_of u = p \<Longrightarrow> local_to p (disconnect_use u)"
  unfolding disconnect_use_def by (intro framed) (auto intro!: local_toI simp: unaffected_def)

lemma local_refs [framed]: "user_of u = p \<Longrightarrow> local_to p (try_acquire u)" "user_of u = p \<Longrightarrow> local_to p (disown u)"
  by (auto intro!: local_toI simp: try_acquire_def disown_def unaffected_def)

lemma local_satisfied [framed]: "local_to p (setSatisfied p b)"
  unfolding setSatisfied_def by (intro framed) (auto intro!: local_toI simp: unaffected_def)

lemma local_select [framed]: "local_to p (dep_select E p i)"
  unfolding dep_select_def by (intro framed) simp_all

lemma local_dep_created [framed]: "local_to p (dep_created E p i)"
proof -
  have "dep_created E p i = (\<lambda>w. if (case ptr w (Active p) of None \<Rightarrow> False | Some cur \<Rightarrow> \<not> gt E i cur) then Inr w
      else only_if (\<lambda>w. \<not> w_locked w p)
       (run [only_if (\<lambda>w. w_ref w (Active p) \<noteq> None) (run [setSatisfied p False, disconnect_use (Active p)]),
          dep_select E p i, setSatisfied p True]) w)"
    by (rule ext) (simp add: dep_created_def)
  then show ?thesis by (simp only:) (intro framed; simp)
qed

subsection \<open>\<open>DynDependency\<close>\<close>

lemma local_link [framed]: "local_to p (link_pref p)" "local_to p (unlink_pref p)"
  unfolding link_pref_def unlink_pref_def by (intro framed; auto intro!: local_toI simp: unaffected_def)+

lemma local_store [framed]: "local_to p (store_userspace p i)" "local_to p (\<lambda>w. store_userspace p (g w) w)" "local_to p (set_pending p b)"
  by (auto intro!: local_toI simp: store_userspace_def set_pending_def unaffected_def)

lemma local_reconnect [framed]: "local_to p (reconnect_preferred E p r)"
  unfolding reconnect_preferred_def by (intro framed) simp_all

lemma local_offerSwap [framed]: "local_to p (offerSwap p)"
proof (rule local_toI)
  fix w w' assume "offerSwap p w = Inr w'"
  then show "unaffected p w w'"
    by (auto simp: offerSwap_def set_pending_def unaffected_def split: option.splits)
qed

lemma local_dyn_lock [framed]: "local_to p (dyn_lock p)"
  unfolding dyn_lock_def by (intro framed) simp_all

lemma local_dyn_unlock [framed]: "local_to p (dyn_unlock E p)"
  unfolding dyn_unlock_def by (intro framed) simp_all

lemma local_dyn_used_started [framed]: "local_to p (dyn_used_started p i)"
  unfolding dyn_used_started_def by (intro framed)

lemma local_dyn_finalize [framed]: "local_to p (dyn_finalize E p)"
proof -
  have check: "local_to p (\<lambda>w. bind (dyn_imports p w) (\<lambda>us. check (length us = 1) w))"
    by (rule local_toI) auto
  show ?thesis unfolding dyn_finalize_def by (intro framed check; simp)
qed

lemma local_dyn_created [framed]: "local_to p (dyn_created E p i)"
proof (rule local_toI)
  fix w w' assume r: "dyn_created E p i w = Inr w'"
  define b where "b = w_locked w p"
  define cur where "cur = (if b \<and> w_ref w (Preferred p) \<noteq> None then ptr w (Preferred p) else ptr w (Active p))"
  have "local_to p (run
       [require (\<lambda>w. \<not> (b \<and> w_ref w (Preferred p) \<noteq> None)
           \<or> (case (ptr w (Preferred p), ptr w (Active p)) of (Some b, Some a) \<Rightarrow> gt E b a | _ \<Rightarrow> False)),
        (\<lambda>w. if (case cur of None \<Rightarrow> False | Some c \<Rightarrow> \<not> IsPrioritizedOverCurrent E c i) then Inr w
             else if b then
               (case ptr w (Active p) of
                  None \<Rightarrow> Inl AssertFailed
                | Some act \<Rightarrow>
                    if w_pending w p \<or> \<not> canSwap E p (Some act) (Some i) then Inr w
                    else run
                     [only_if (\<lambda>w. w_ref w (Preferred p) \<noteq> None) (run [disconnect_use (Preferred p), unlink_pref p]),
                      set_ref (Preferred p) (Some (reference_of E i)),
                      link_pref p,
                      connect_use (Preferred p) False,
                      only_if (\<lambda>w. w_running w i) (offerSwap p)] w)
             else run
              [only_if (\<lambda>w. w_ref w (Active p) \<noteq> None) (disconnect_use (Active p)),
               dep_select E p i,
               setSatisfied p True] w)])"
    by (intro framed; simp)
  moreover note r [unfolded dyn_created_def Let_def, folded b_def, folded cur_def]
  ultimately show "unaffected p w w'" by (rule local_toD)
qed

subsection \<open>\<open>DynDependencies\<close>\<close>

lemma local_items [framed]:
  "local_to p (item_insert p i fl)" "local_to p (usage_set_lock p i b)" "local_to p (usage_set_storage_state p i st)"
  "local_to p (usage_set_reply p i r)"
proof -
  show "local_to p (item_insert p i fl)" "local_to p (usage_set_lock p i b)"
    unfolding item_insert_def usage_set_lock_def by (intro framed; auto intro!: local_toI simp: unaffected_def)+
  show "local_to p (usage_set_storage_state p i st)" "local_to p (usage_set_reply p i r)"
    by (auto intro!: local_toI simp: unaffected_def usage_set_storage_state_def usage_set_reply_def)
qed

lemma local_item_erase [framed]: "local_to p (item_erase p i)"
  unfolding item_erase_def by (intro framed) (auto intro!: local_toI simp: unaffected_def)

lemma local_item_release [framed]: "local_to p (usage_release p i)"
  unfolding usage_release_def by (intro framed)

lemma local_item_connect [framed]: "local_to p (item_connect p i)"
  unfolding item_connect_def by (intro framed) (auto intro!: local_toI simp: unaffected_def)

lemma local_item_disconnect [framed]: "local_to p (item_disconnect p i)"
  unfolding item_disconnect_def by (intro framed) (auto intro!: local_toI simp: unaffected_def)

lemma local_storage [framed]:
  "local_to p (usage_insert_into_storage p i upd)" "local_to p (usage_erase_from_storage p i upd)"
  unfolding usage_insert_into_storage_def usage_erase_from_storage_def by (intro framed)+

lemma local_accept [framed]: "local_to p (accept_offer p i r)"
  unfolding accept_offer_def by (cases r) (simp_all, (intro framed)+)

lemma local_availability [framed]: "local_to p (process_availability E p i)"
proof (rule local_toI)
  fix w w' assume r: "process_availability E p i w = Inr w'"
  have "local_to p (run [item_insert p i fl, only_if (\<lambda>w. \<not> usage_is_connected p i w)
          (\<lambda>w. if \<not> w_locked w p then item_connect p i w else accept_offer p i (onUseOffer E p i) w)])" for fl
    by (intro framed)
  from local_toD [OF this] r show "unaffected p w w'"
    unfolding process_availability_def Let_def by (auto simp del: run.simps split: if_splits)
qed

lemma local_created [framed]: "local_to p (onSubscribedCreated E i p)"
  by (cases "part_class_of E p") (simp_all add: onSubscribedCreated_def deps_created_def framed)

lemma local_item_used_destroy [framed]: "local_to p (item_used_destroy p i)"
  unfolding item_used_destroy_def by (intro framed)

lemma local_item_used_started [framed]: "local_to p (item_used_started E p i)"
proof -
  have "local_to p (\<lambda>w. case w_reply w (Item p i) of
            UseLaterAndNotify \<Rightarrow>
              (let reply = onUseOffer E p i in run
                [require (\<lambda>w. reply \<noteq> UseLaterAndInsert),
                 require (\<lambda>w. reply \<noteq> UseLaterAndNotify),
                 only_if (\<lambda>w. reply = UseNowAndInsert) (usage_insert_into_storage p i UpdateAuto)] w)
          | UseLaterAndInsert \<Rightarrow> usage_insert_into_storage p i UpdateAuto w
          | _ \<Rightarrow> Inr w)" (is "local_to p ?f")
  proof (rule local_toI)
    fix w w' assume "?f w = Inr w'"
    then show "unaffected p w w'"
      by (cases "w_reply w (Item p i)")
        (auto simp: Let_def only_if_def split: if_splits dest: local_toD [OF local_storage(1)])
  qed
  then show ?thesis unfolding item_used_started_def by (intro framed)
qed

lemma local_lock_items [framed]:
  "local_to p (deps_lock p)" "local_to p (deps_unlock p)" "local_to p (doReleaseUsage p i)"
proof -
  have "local_to p (deps_lock_item p j)" for j
    unfolding deps_lock_item_def [abs_def] by (intro framed)
  then show "local_to p (deps_lock p)" unfolding deps_lock_def by (intro framed)
  show "local_to p (deps_unlock p)" "local_to p (doReleaseUsage p i)"
    unfolding deps_unlock_def deps_unlock_item_def doReleaseUsage_def by (intro framed)+
qed

lemma local_doAcquire [framed]: "local_to p (doAcquireUsage E p i)"
  unfolding doAcquireUsage_def by (intro framed)

end
