(* ===== verification/Import_Safety.thy ===== *)
theory Import_Safety
  imports Import_Frame
begin

text \<open>
  The invariant of the import parts. While its service is stopped a \<open>Dependency\<close> refers to a published interface than which no other
  has a higher priority; a \<open>DynDependencies\<close> part has a usage of every interface that was not filtered out. During a notification
  some parts do not know about an interface yet (the set \<open>Y\<close>), and while an interface is revoked some parts still
  refer to it (the set \<open>X\<close>).
\<close>

section \<open>The invariant\<close>

definition only_uses :: "world \<Rightarrow> pid \<Rightarrow> (use \<Rightarrow> bool) \<Rightarrow> bool" where
  "only_uses w p P \<longleftrightarrow> (\<forall>u. user_of u = p \<and> \<not> P u \<longrightarrow> w_ref w u = None \<and> \<not> w_connected w u \<and> (\<forall>i. count_list (w_users w i) u = 0))"

definition dep_ok :: "env \<Rightarrow> iid set \<Rightarrow> iid set \<Rightarrow> world \<Rightarrow> pid \<Rightarrow> bool" where
  "dep_ok E X Y w p \<longleftrightarrow> only_uses w p (\<lambda>u. u = Active p)
     \<and> (\<forall>i. count_list (w_users w i) (Active p) = (if w_connected w (Active p) \<and> ptr w (Active p) = Some i then 1 else 0))
     \<and> (case w_ref w (Active p) of
          None \<Rightarrow> set (w_interfaces w) \<subseteq> Y \<and> \<not> w_connected w (Active p) \<and> \<not> w_locked w p \<and> (Y = {} \<longrightarrow> \<not> w_satisfied w p)
        | Some (i, a) \<Rightarrow> w_satisfied w p \<and> w_connected w (Active p) \<and> i \<in> set (w_interfaces w) \<union> X
            \<and> (a \<longleftrightarrow> is_default E i \<or> w_locked w p) \<and> (w_locked w p \<longrightarrow> w_running w i)
            \<and> (\<not> w_locked w p \<longrightarrow> (\<forall>j \<in> set (w_interfaces w) - Y. \<not> gt E j i)))"

definition deps_base :: "env \<Rightarrow> iid set \<Rightarrow> iid set \<Rightarrow> world \<Rightarrow> pid \<Rightarrow> bool" where
  "deps_base E X Y w p \<longleftrightarrow> only_uses w p (\<lambda>u. \<exists>i. u = Item p i)
     \<and> distinct (w_map w p) \<and> distinct (w_used w p) \<and> set (w_used w p) \<subseteq> set (w_map w p)
     \<and> set (w_map w p) \<subseteq> set (w_interfaces w) \<union> X
     \<and> (\<forall>i \<in> set (w_interfaces w) - Y. \<not> contains (onInspect E p i) df_Ignore \<longrightarrow> i \<in> set (w_map w p))
     \<and> (\<forall>i. ptr w (Item p i) = (if i \<in> set (w_map w p) then Some i else None)
          \<and> w_connected w (Item p i) = (i \<in> set (w_used w p))
          \<and> (\<forall>j. count_list (w_users w j) (Item p i) = (if j = i \<and> i \<in> set (w_used w p) then 1 else 0))
          \<and> (i \<in> set (w_map w p) - set (w_used w p) \<longrightarrow> w_storage w (Item p i) = erased))"

definition deps_ok :: "env \<Rightarrow> iid set \<Rightarrow> iid set \<Rightarrow> world \<Rightarrow> pid \<Rightarrow> bool" where
  "deps_ok E X Y w p \<longleftrightarrow> deps_base E X Y w p 
     \<and> (\<not> w_locked w p \<longrightarrow> (\<forall>i \<in> set (w_map w p) - set (w_used w p). w_up w i \<or> contains (onInspect E p i) df_Ignore \<or> i \<in> Y))"

definition part_ok :: "env \<Rightarrow> iid set \<Rightarrow> iid set \<Rightarrow> world \<Rightarrow> pid \<Rightarrow> bool" where
  "part_ok E X Y w p \<longleftrightarrow>
     (case part_class_of E p of
        Dependency \<Rightarrow> dep_ok E X Y w p | DynDependency \<Rightarrow> True | DynDependencies \<Rightarrow> deps_ok E X Y w p)"

definition imports_inv :: "env \<Rightarrow> (pid \<Rightarrow> iid set) \<Rightarrow> (pid \<Rightarrow> iid set) \<Rightarrow> world \<Rightarrow> bool" where
  "imports_inv E X Y w \<longleftrightarrow> sorted_wrt (GreaterPred (gt E)) (w_interfaces w) \<and> distinct (w_subscribers w)
     \<and> (\<forall>p. if p \<in> set (w_subscribers w) then part_ok E (X p) (Y p) w p
            else part_class_of E p \<noteq> DynDependency \<longrightarrow> \<not> w_locked w p \<and> only_uses w p (\<lambda>u. False))"

abbreviation informed :: "pid \<Rightarrow> iid set" where "informed \<equiv> (\<lambda>p. {})"

lemma ptr_iff: "ptr w u = Some i \<longleftrightarrow> (\<exists>a. w_ref w u = Some (i, a))" "ptr w u = None \<longleftrightarrow> w_ref w u = None"
  by (auto simp: ptr_def)

lemma only_uses_frame:
  assumes "unaffected q w w'" and "p \<noteq> q"
  shows "only_uses w' p P = only_uses w p P"
  unfolding only_uses_def using unaffected_useD [OF assms(1)] assms(2) by (metis (full_types))

lemma part_ok_frame:
  assumes f: "unaffected q w w'" and n: "p \<noteq> q"
  shows "part_ok E X Y w' p = part_ok E X Y w p"
proof -
  note fr = unaffectedD [OF f] unaffected_partD [OF f n]
  have a: "user_of (Active p) \<noteq> q" and i: "user_of (Item p j) \<noteq> q" for j using n by simp_all
  have "dep_ok E X Y w' p = dep_ok E X Y w p"
    unfolding dep_ok_def ptr_def by (simp only: fr unaffected_useD [OF f a] only_uses_frame [OF f n])
  moreover have "deps_ok E X Y w' p = deps_ok E X Y w p"
    unfolding deps_ok_def deps_base_def ptr_def by (simp only: fr unaffected_useD [OF f i] only_uses_frame [OF f n])
  ultimately show ?thesis unfolding part_ok_def by (cases "part_class_of E p") simp_all
qed

lemma imports_inv_local:
  assumes inv: "imports_inv E X Y w" and f: "unaffected p w w'" and p: "p \<in> set (w_subscribers w)"
    and ok: "part_ok E V Z w' p"
  shows "imports_inv E (X(p := V)) (Y(p := Z)) w'"
  unfolding imports_inv_def
proof (intro conjI allI)
  note fr = unaffectedD [OF f]
  show "sorted_wrt (GreaterPred (gt E)) (w_interfaces w')" "distinct (w_subscribers w')"
    using inv by (simp_all add: imports_inv_def fr)
  fix q
  show "if q \<in> set (w_subscribers w') then part_ok E ((X(p := V)) q) ((Y(p := Z)) q) w' q
        else part_class_of E q \<noteq> DynDependency \<longrightarrow> \<not> w_locked w' q \<and> only_uses w' q (\<lambda>u. False)"
  proof (cases "q = p")
    case True
    then show ?thesis using ok p by (simp add: fr)
  next
    case False
    then show ?thesis
      using inv by (simp add: imports_inv_def fr part_ok_frame [OF f False] only_uses_frame [OF f False])
  qed
qed

lemma imports_invD: "imports_inv E X Y w \<Longrightarrow> p \<in> set (w_subscribers w) \<Longrightarrow> part_ok E (X p) (Y p) w p"
  unfolding imports_inv_def by (metis (full_types))

lemma imports_inv_fields:
  assumes "imports_inv E X Y w"
  shows "sorted_wrt (GreaterPred (gt E)) (w_interfaces w)" "distinct (w_subscribers w)"
    "p \<notin> set (w_subscribers w) \<Longrightarrow> part_class_of E p \<noteq> DynDependency \<Longrightarrow> \<not> w_locked w p \<and> only_uses w p (\<lambda>u. False)"
proof -
  from assms show "sorted_wrt (GreaterPred (gt E)) (w_interfaces w)" "distinct (w_subscribers w)"
    by (simp_all add: imports_inv_def)
  from assms have "if p \<in> set (w_subscribers w) then part_ok E (X p) (Y p) w p
      else part_class_of E p \<noteq> DynDependency \<longrightarrow> \<not> w_locked w p \<and> only_uses w p (\<lambda>u. False)"
    by (simp only: imports_inv_def) blast
  then show "p \<notin> set (w_subscribers w) \<Longrightarrow> part_class_of E p \<noteq> DynDependency \<Longrightarrow> \<not> w_locked w p \<and> only_uses w p (\<lambda>u. False)"
    by simp
qed

lemma deps_base_mono: "deps_base E X Y w p \<Longrightarrow> set (w_map w p) \<subseteq> set (w_interfaces w) \<union> V \<Longrightarrow> deps_base E V Y w p"
  by (simp add: deps_base_def)

lemma deps_map_bound: "deps_base E X Y w p \<Longrightarrow> set (w_map w p) \<subseteq> set (w_interfaces w) \<union> X"
  by (simp add: deps_base_def)

section \<open>Operations on one usage, evaluated\<close>

lemma connect_use_eq:
  assumes "w_ref w u = Some (i, a)" and "\<not> w_connected w u" and "count_list (w_users w i) u = 0"
  shows "connect_use u weak w = Inr (w\<lparr>w_connected := (w_connected w)(u := True),
    w_users := (w_users w)(i := w_users w i @ [u]), w_calls := w_calls w @ [CConnect u i weak]\<rparr>)"
  using assms by (simp add: connect_use_def deref_def call_def require_def count_list_0_iff)

lemma disconnect_use_eq:
  assumes "w_ref w u = Some (i, a)" and "w_connected w u" and "count_list (w_users w i) u \<noteq> 0"
  shows "disconnect_use u w = Inr (w\<lparr>w_connected := (w_connected w)(u := False),
    w_users := (w_users w)(i := remove1 u (w_users w i)), w_calls := w_calls w @ [CDisconnect u i]\<rparr>)"
  using assms by (simp add: disconnect_use_def deref_def call_def require_def count_list_0_iff)

lemma setSatisfied_eq:
  "setSatisfied p b w = Inr (w\<lparr>w_satisfied := (w_satisfied w)(p := b),
    w_calls := w_calls w @ (if b = w_satisfied w p then [] else [CSatisfied p b])\<rparr>)"
  by (auto simp: setSatisfied_def only_if_def call_def)

lemmas use_eqs = connect_use_eq disconnect_use_eq setSatisfied_eq set_ref_def only_if_def require_def

section \<open>\<open>Dependency\<close>\<close>

lemma dep_select_ok:
  assumes "\<not> w_connected w (Active p)" and "\<forall>j. count_list (w_users w j) (Active p) = 0" and "\<not> w_locked w p"
    and "i \<in> set (w_interfaces w)" and "\<forall>j \<in> set (w_interfaces w). \<not> gt E j i" and "only_uses w p (\<lambda>u. u = Active p)"
  shows "\<exists>w'. run [dep_select E p i, setSatisfied p True] w = Inr w' \<and> dep_ok E X {} w' p \<and> w_ref w' (Active p) = Some (i, is_default E i)"
  using assms by (simp add: dep_select_def use_eqs reference_of_def dep_ok_def ptr_def only_uses_def)

lemma dep_created_ok:
  assumes "priority (gt E)" and ok: "dep_ok E X {i} w p" and "i \<in> set (w_interfaces w)"
  shows "\<exists>w'. dep_created E p i w = Inr w' \<and> dep_ok E X {} w' p"
proof (cases "w_ref w (Active p)")
  case None
  with ok assms(3) have "set (w_interfaces w) = {i}" by (auto simp: dep_ok_def)
  moreover have "\<not> gt E i i" by (rule priority.not_self [OF assms(1)])
  ultimately show ?thesis
    using ok None dep_select_ok [of w p i E X] by (auto simp: dep_created_def dep_ok_def only_if_def ptr_def)
next
  case (Some r)
  obtain c a where r: "w_ref w (Active p) = Some (c, a)" using Some by (cases r) simp
  show ?thesis
  proof (cases "gt E i c \<and> \<not> w_locked w p")
    case False
    with ok r show ?thesis by (auto simp: dep_created_def dep_ok_def ptr_def only_if_def)
  next
    case True
    define w1 where "w1 = w\<lparr>w_satisfied := (w_satisfied w)(p := False), w_connected := (w_connected w)(Active p := False),
      w_users := (w_users w)(c := remove1 (Active p) (w_users w c)),
      w_calls := w_calls w @ (if w_satisfied w p then [CSatisfied p False] else []) @ [CDisconnect (Active p) c]\<rparr>"
    have d: "run [setSatisfied p False, disconnect_use (Active p)] w = Inr w1"
      using ok r by (simp add: setSatisfied_eq disconnect_use_eq dep_ok_def ptr_def w1_def)
    have "\<not> gt E j i" if "j \<in> set (w_interfaces w)" for j
    proof
      assume ji: "gt E j i"
      then have "j \<noteq> i" using priority.not_self [OF assms(1)] by blast
      with ok r True that have "\<not> gt E j c" by (auto simp: dep_ok_def)
      with ji True show False using priority.gt_trans [OF assms(1)] by blast
    qed
    then have "\<exists>w'. run [dep_select E p i, setSatisfied p True] w1 = Inr w' \<and> dep_ok E X {} w' p \<and> w_ref w' (Active p) = Some (i, is_default E i)"
      by (intro dep_select_ok) (use ok r True assms(3) in \<open>auto simp: w1_def dep_ok_def ptr_def only_uses_def\<close>)
    then obtain w' where "run [dep_select E p i, setSatisfied p True] w1 = Inr w'" "dep_ok E X {} w' p" by blast
    moreover have "dep_created E p i w = bind (run [setSatisfied p False, disconnect_use (Active p)] w)
        (run [dep_select E p i, setSatisfied p True])"
      using r True by (simp add: dep_created_def ptr_def only_if_def)
    ultimately show ?thesis using d by auto
  qed
qed

section \<open>\<open>DynDependencies\<close>\<close>

lemmas item_defs = item_insert_def item_connect_def item_disconnect_def item_erase_def usage_is_connected_def use_eqs

lemma deps_ref:
  assumes "deps_base E X Y w p" and "i \<in> set (w_map w p)"
  shows "\<exists>a. w_ref w (Item p i) = Some (i, a)"
  using assms unfolding deps_base_def by (metis ptr_iff(1))

lemma item_insert_ok:
  assumes "deps_base E X Y w p" and "i \<in> set (w_interfaces w) \<union> X"
  shows "\<exists>w'. item_insert p i fl w = Inr w' \<and> deps_base E X (Y - {i}) w' p \<and> set (w_map w' p) = insert i (set (w_map w p)) \<and> w_used w' p = w_used w p"
proof (cases "i \<in> set (w_map w p)")
  case True
  with assms show ?thesis by (auto simp: item_insert_def only_if_def deps_base_def)
next
  case False
  with assms show ?thesis by (auto simp: item_insert_def only_if_def deps_base_def ptr_def only_uses_def)
qed

lemma item_connect_ok:
  assumes "deps_base E X Y w p" and "i \<in> set (w_map w p)" and "i \<notin> set (w_used w p)"
  shows "\<exists>w'. item_connect p i w = Inr w' \<and> deps_base E X Y w' p \<and> w_map w' p = w_map w p \<and> w_used w' p = w_used w p @ [i]"
proof -
  from deps_ref [OF assms(1,2)] obtain a where r: "w_ref w (Item p i) = Some (i, a)" by blast
  with assms show ?thesis by (auto simp: item_defs deps_base_def ptr_def only_uses_def)
qed

lemma item_disconnect_ok:
  assumes "deps_base E X Y w p" and "i \<in> set (w_used w p)" and "w_storage w (Item p i) = erased"
  shows "\<exists>w'. item_disconnect p i w = Inr w' \<and> deps_base E X Y w' p \<and> w_map w' p = w_map w p \<and> w_used w' p = remove1 i (w_used w p)"
proof -
  have "i \<in> set (w_map w p)" using assms by (auto simp: deps_base_def)
  from deps_ref [OF assms(1) this] obtain a where r: "w_ref w (Item p i) = Some (i, a)" by blast
  with assms show ?thesis by (auto simp: item_defs deps_base_def ptr_def only_uses_def)
qed

lemma item_erase_ok:
  assumes "deps_base E X Y w p" and "i \<notin> set (w_used w p)" and "i \<notin> set (w_interfaces w) - Y"
  shows "\<exists>w'. item_erase p i w = Inr w' \<and> deps_base E X Y w' p \<and> set (w_map w' p) = set (w_map w p) - {i} \<and> w_used w' p = w_used w p"
  using assms by (auto simp: item_defs deps_base_def ptr_def only_uses_def)

lemma storage_ok:
  assumes "deps_base E X Y w p"
  shows "i \<in> set (w_used w p) \<Longrightarrow> \<exists>w'. usage_insert_into_storage p i upd w = Inr w' \<and> deps_base E X Y w' p \<and> w_map w' p = w_map w p \<and> w_used w' p = w_used w p"
    and "\<exists>w'. usage_erase_from_storage p i upd w = Inr w' \<and> deps_base E X Y w' p \<and> w_map w' p = w_map w p \<and> w_used w' p = w_used w p \<and> w_storage w' (Item p i) = erased"
  using assms by (auto simp: usage_insert_into_storage_def usage_erase_from_storage_def usage_set_storage_state_def
      only_if_def call_def deps_base_def ptr_def only_uses_def)

lemma set_lock_ok:
  assumes "deps_base E X Y w p"
  shows "\<exists>w'. usage_set_lock p i b w = Inr w' \<and> deps_base E X Y w' p \<and> w_map w' p = w_map w p \<and> w_used w' p = w_used w p"
proof -
  have "ptr (w\<lparr>w_ref := (w_ref w)(Item p i := map_option (\<lambda>(i, a). (i, c)) (w_ref w (Item p i)))\<rparr>) u = ptr w u" for u c
    by (simp add: ptr_def option.map_comp comp_def case_prod_beta)
  with assms show ?thesis
    by (auto simp: usage_set_lock_def try_acquire_def disown_def deps_base_def only_uses_def)
qed

lemma set_reply_ok:
  assumes "deps_base E X Y w p"
  shows "\<exists>w'. usage_set_reply p i r w = Inr w' \<and> deps_base E X Y w' p \<and> w_map w' p = w_map w p \<and> w_used w' p = w_used w p"
  using assms by (auto simp: usage_set_reply_def deps_base_def ptr_def only_uses_def)

text \<open>The operations of \<open>DynDependencies\<close> in one form: they succeed and change the map and the list of connected usages as stated.\<close>

definition deps_do :: "env \<Rightarrow> iid set \<Rightarrow> iid set \<Rightarrow> pid \<Rightarrow> iid set \<Rightarrow> iid set \<Rightarrow> world res \<Rightarrow> bool" where
  "deps_do E X Y p M U r \<longleftrightarrow> (\<exists>w'. r = Inr w' \<and> deps_base E X Y w' p \<and> set (w_map w' p) = M \<and> set (w_used w' p) = U)"

lemma deps_doI: "\<exists>w'. r = Inr w' \<and> deps_base E X Y w' p \<and> set (w_map w' p) = M \<and> set (w_used w' p) = U \<Longrightarrow> deps_do E X Y p M U r"
  by (simp add: deps_do_def)

lemma deps_doE:
  assumes "deps_do E X Y p M U r"
  obtains w' where "r = Inr w'" "deps_base E X Y w' p" "set (w_map w' p) = M" "set (w_used w' p) = U"
  using assms by (auto simp: deps_do_def)

lemma deps_do_Cons:
  assumes "deps_do E X Y p M U (f w)"
    and "\<And>w'. f w = Inr w' \<Longrightarrow> deps_base E X Y w' p \<Longrightarrow> set (w_map w' p) = M \<Longrightarrow> set (w_used w' p) = U \<Longrightarrow> deps_do E X Y' p M' U' (run fs w')"
  shows "deps_do E X Y' p M' U' (run (f # fs) w)"
  using assms by (auto elim!: deps_doE)

lemma deps_do_Nil: "deps_base E X Y w p \<Longrightarrow> set (w_map w p) = M \<Longrightarrow> set (w_used w p) = U \<Longrightarrow> deps_do E X Y p M U (run [] w)"
  by (auto simp: deps_do_def)

lemma deps_prims:
  assumes "deps_base E X Y w p"
  shows "i \<in> set (w_interfaces w) \<union> X \<Longrightarrow> deps_do E X (Y - {i}) p (insert i (set (w_map w p))) (set (w_used w p)) (item_insert p i fl w)"
    and "i \<in> set (w_map w p) - set (w_used w p) \<Longrightarrow> deps_do E X Y p (set (w_map w p)) (insert i (set (w_used w p))) (item_connect p i w)"
    and "i \<in> set (w_used w p) \<Longrightarrow> w_storage w (Item p i) = erased \<Longrightarrow> deps_do E X Y p (set (w_map w p)) (set (w_used w p) - {i}) (item_disconnect p i w)"
    and "i \<notin> set (w_used w p) \<Longrightarrow> i \<notin> set (w_interfaces w) - Y \<Longrightarrow> deps_do E X Y p (set (w_map w p) - {i}) (set (w_used w p)) (item_erase p i w)"
    and "i \<in> set (w_used w p) \<Longrightarrow> deps_do E X Y p (set (w_map w p)) (set (w_used w p)) (usage_insert_into_storage p i upd w)"
    and "deps_do E X Y p (set (w_map w p)) (set (w_used w p)) (usage_erase_from_storage p i upd w)"
    and "deps_do E X Y p (set (w_map w p)) (set (w_used w p)) (usage_set_lock p i b w)"
    and "deps_do E X Y p (set (w_map w p)) (set (w_used w p)) (usage_set_reply p i r w)"
proof -
  have d: "distinct (w_used w p)" using assms by (simp add: deps_base_def)
  show "i \<in> set (w_interfaces w) \<union> X \<Longrightarrow> deps_do E X (Y - {i}) p (insert i (set (w_map w p))) (set (w_used w p)) (item_insert p i fl w)"
    using item_insert_ok [OF assms, of i fl] by (auto simp: deps_do_def)
  show "i \<in> set (w_map w p) - set (w_used w p) \<Longrightarrow> deps_do E X Y p (set (w_map w p)) (insert i (set (w_used w p))) (item_connect p i w)"
    using item_connect_ok [OF assms, of i] by (auto simp: deps_do_def)
  show "i \<in> set (w_used w p) \<Longrightarrow> w_storage w (Item p i) = erased \<Longrightarrow> deps_do E X Y p (set (w_map w p)) (set (w_used w p) - {i}) (item_disconnect p i w)"
    using item_disconnect_ok [OF assms, of i] d by (auto simp: deps_do_def)
  show "i \<notin> set (w_used w p) \<Longrightarrow> i \<notin> set (w_interfaces w) - Y \<Longrightarrow> deps_do E X Y p (set (w_map w p) - {i}) (set (w_used w p)) (item_erase p i w)"
    using item_erase_ok [OF assms, of i] by (auto simp: deps_do_def)
  show "i \<in> set (w_used w p) \<Longrightarrow> deps_do E X Y p (set (w_map w p)) (set (w_used w p)) (usage_insert_into_storage p i upd w)"
    using storage_ok(1) [OF assms, of i upd] by (auto simp: deps_do_def)
  show "deps_do E X Y p (set (w_map w p)) (set (w_used w p)) (usage_erase_from_storage p i upd w)"
    using storage_ok(2) [OF assms, of i upd] by (auto simp: deps_do_def)
  show "deps_do E X Y p (set (w_map w p)) (set (w_used w p)) (usage_set_lock p i b w)"
    using set_lock_ok [OF assms, of i b] by (auto simp: deps_do_def)
  show "deps_do E X Y p (set (w_map w p)) (set (w_used w p)) (usage_set_reply p i r w)"
    using set_reply_ok [OF assms, of i r] by (auto simp: deps_do_def)
qed

lemma accept_offer_ok:
  assumes "deps_base E X Y w p" and "i \<in> set (w_map w p) - set (w_used w p)"
  shows "deps_do E X Y p (set (w_map w p)) (if r = UseNever then set (w_used w p) else insert i (set (w_used w p))) (accept_offer p i r w)"
proof -
  let ?M = "set (w_map w p)" and ?U = "set (w_used w p)"
  have con: "deps_do E X Y p ?M (insert i ?U) (item_connect p i v)"
    if "deps_base E X Y v p" "set (w_map v p) = ?M" "set (w_used v p) = ?U" for v
    using deps_prims(2) [OF that(1), of i] that(2,3) assms(2) by simp
  have lock: "deps_do E X Y p ?M (insert i ?U) (run [usage_set_lock p i True, item_connect p i] v)"
    if "deps_base E X Y v p" "set (w_map v p) = ?M" "set (w_used v p) = ?U" for v
    using deps_prims(7) [OF that(1), of i True] that(2,3) by (auto elim!: deps_doE dest: con)
  show ?thesis
  proof (cases r)
    case UseNever
    then show ?thesis using deps_prims(8) [OF assms(1)] by (simp add: accept_offer_def)
  next
    case UseNowAndInsert
    from lock [OF assms(1)] obtain w1 where w1: "run [usage_set_lock p i True, item_connect p i] w = Inr w1"
      "deps_base E X Y w1 p" "set (w_map w1 p) = ?M" "set (w_used w1 p) = insert i ?U" by (auto elim: deps_doE)
    have "accept_offer p i r w = usage_insert_into_storage p i UpdateAuto w1"
      using w1(1) UseNowAndInsert by (auto simp: accept_offer_def)
    then show ?thesis using deps_prims(5) [OF w1(2), of i UpdateAuto] w1 UseNowAndInsert by simp
  next
    case UseLater
    then show ?thesis using lock [OF assms(1)] by (simp add: accept_offer_def)
  next
    case UseLaterAndNotify
    then show ?thesis using deps_prims(8) [OF assms(1), of i r]
      by (auto simp: accept_offer_def simp del: run.simps intro: deps_do_Cons lock)
  next
    case UseLaterAndInsert
    then show ?thesis using deps_prims(8) [OF assms(1), of i r]
      by (auto simp: accept_offer_def simp del: run.simps intro: deps_do_Cons lock)
  qed
qed

lemma availability_ok:
  assumes ok: "deps_ok E X Y w p" and i: "i \<in> set (w_interfaces w)"
  shows "\<exists>w'. process_availability E p i w = Inr w' \<and> deps_ok E X (Y - {i}) w' p"
proof (cases "contains (onInspect E p i) df_Ignore")
  case True
  with ok show ?thesis by (auto simp: process_availability_def deps_ok_def deps_base_def)
next
  case False
  have b: "deps_base E X Y w p" using ok by (simp add: deps_ok_def)
  from deps_prims(1) [OF b, of i "onInspect E p i"] i obtain w1 where w1: "item_insert p i (onInspect E p i) w = Inr w1"
    "deps_base E X (Y - {i}) w1 p" "set (w_map w1 p) = insert i (set (w_map w p))" "set (w_used w1 p) = set (w_used w p)"
    by (auto elim: deps_doE)
  have l: "w_locked w1 = w_locked w" "w_up w1 = w_up w" using local_toD [OF local_items(1) w1(1)] by (simp_all add: unaffectedD)
  let ?rest = "only_if (\<lambda>w. \<not> usage_is_connected p i w)
          (\<lambda>w. if \<not> w_locked w p then item_connect p i w else accept_offer p i (onUseOffer E p i) w)"
  have all: "process_availability E p i w = ?rest w1"
    using False w1(1) by (simp add: process_availability_def)
  show ?thesis
  proof (cases "i \<in> set (w_used w p)")
    case True
    with b have "i \<in> set (w_map w p)" by (auto simp: deps_base_def)
    with True ok w1 l show ?thesis unfolding all by (auto simp: only_if_def usage_is_connected_def deps_ok_def)
  next
    case n: False
    have "deps_do E X (Y - {i}) p (set (w_map w1 p)) (insert i (set (w_used w1 p))) (item_connect p i w1)"
      by (rule deps_prims(2) [OF w1(2)]) (use w1 n in simp)
    moreover have "deps_do E X (Y - {i}) p (set (w_map w1 p)) (if onUseOffer E p i = UseNever then set (w_used w1 p) else insert i (set (w_used w1 p)))
        (accept_offer p i (onUseOffer E p i) w1)"
      by (rule accept_offer_ok [OF w1(2)]) (use w1 n in simp)
    ultimately obtain w' where w': "?rest w1 = Inr w'" "deps_base E X (Y - {i}) w' p"
      "\<not> w_locked w p \<Longrightarrow> set (w_used w' p) = insert i (set (w_used w p)) \<and> set (w_map w' p) = insert i (set (w_map w p))"
      using n l w1 by (cases "w_locked w p") (auto simp: only_if_def usage_is_connected_def elim!: deps_doE)
    have "w_locked w' = w_locked w" "w_up w' = w_up w"
      using local_toD [OF local_availability, of E p i w w'] w'(1) all by (simp_all add: unaffectedD)
    with w' ok show ?thesis unfolding all by (auto simp: deps_ok_def)
  qed
qed

lemma created_ok:
  assumes "priority (gt E)" and "part_ok E X {i} w p" and "i \<in> set (w_interfaces w)" and "onSubscribedCreated E i p w = Inr w'"
  shows "part_ok E X {} w' p"
proof (cases "part_class_of E p")
  case Dependency
  with assms dep_created_ok [OF assms(1) _ assms(3), of X p] show ?thesis by (auto simp: part_ok_def onSubscribedCreated_def)
next
  case DynDependencies
  with assms availability_ok [of E X "{i}" w p i] show ?thesis by (auto simp: part_ok_def onSubscribedCreated_def deps_created_def)
qed (simp add: part_ok_def)

section \<open>Publishing an interface\<close>

lemma filter_created: "contains (subscriber_filter c) ev_OnCreated"
  by (cases c; simp; code_simp)

lemma call_created: "call_filtered E ev_OnCreated f = f"
  by (intro ext) (simp add: call_filtered_def only_if_def filter_created)

lemma only_uses_interfaces [simp]: "only_uses (w\<lparr>w_interfaces := is\<rparr>) p P = only_uses w p P"
  by (simp add: only_uses_def)

lemma part_ok_insert:
  assumes "part_ok E X Y w p" and "set js = insert i (set (w_interfaces w))" and "Y \<subseteq> {i}"
  shows "part_ok E X {i} (w\<lparr>w_interfaces := js\<rparr>) p"
proof (cases "part_class_of E p")
  case Dependency
  with assms show ?thesis by (auto simp: part_ok_def dep_ok_def ptr_def only_uses_def split: option.splits)
next
  case DynDependencies
  with assms show ?thesis by (auto simp: part_ok_def deps_ok_def deps_base_def ptr_def only_uses_def)
qed (simp add: part_ok_def)

lemma notify_created:
  assumes "priority (gt E)" and "imports_inv E X (\<lambda>p. if p \<in> set ps then {i} else {}) w" and "distinct ps"
    and "set ps \<subseteq> set (w_subscribers w)" and "i \<in> set (w_interfaces w)"
    and "fold_res (onSubscribedCreated E i) ps w = Inr w'"
  shows "imports_inv E X informed w' \<and> w_interfaces w' = w_interfaces w \<and> w_subscribers w' = w_subscribers w
    \<and> w_locked w' = w_locked w \<and> w_running w' = w_running w \<and> w_up w' = w_up w"
  using assms
proof (induction ps arbitrary: w)
  case (Cons p ps)
  from Cons.prems(6) obtain w1 where w1: "onSubscribedCreated E i p w = Inr w1"
    and rest: "fold_res (onSubscribedCreated E i) ps w1 = Inr w'" by auto
  have f: "unaffected p w w1" by (rule local_toD [OF local_created w1])
  have p: "p \<in> set (w_subscribers w)" "p \<notin> set ps" using Cons.prems(3,4) by auto
  with Cons.prems(2) have "part_ok E (X p) {i} w p"
    unfolding imports_inv_def by (metis (full_types) list.set_intros(1))
  from created_ok [OF Cons.prems(1) this Cons.prems(5) w1]
  have "imports_inv E (X(p := X p)) ((\<lambda>q. if q \<in> set (p # ps) then {i} else {})(p := {})) w1"
    by (rule imports_inv_local [OF Cons.prems(2) f p(1)])
  moreover have "(\<lambda>q. if q \<in> set (p # ps) then {i} else {})(p := {}) = (\<lambda>q. if q \<in> set ps then {i} else {})"
    using p(2) by (auto simp: fun_eq_iff)
  ultimately have "imports_inv E X (\<lambda>q. if q \<in> set ps then {i} else {}) w1" by (simp only: fun_upd_triv)
  from Cons.IH [OF Cons.prems(1) this _ _ _ rest] Cons.prems(3-5) show ?case by (simp add: unaffectedD [OF f])
qed simp

lemma publish_inv:
  assumes "priority (gt E)" and inv: "imports_inv E X Y w" and Y: "\<And>p. Y p \<subseteq> {i}" and r: "onInterfaceCreate E i w = Inr w'"
  shows "imports_inv E X informed w' \<and> set (w_interfaces w') = insert i (set (w_interfaces w))
    \<and> w_subscribers w' = w_subscribers w \<and> w_locked w' = w_locked w \<and> w_running w' = w_running w \<and> w_up w' = w_up w"
proof -
  define w1 where "w1 = w\<lparr>w_interfaces := insert_sorted (gt E) i (w_interfaces w)\<rparr>"
  from r have i: "i \<notin> set (w_interfaces w)"
    and fold: "fold_res (onSubscribedCreated E i) (w_subscribers w1) w1 = Inr w'"
    by (auto simp: onInterfaceCreate_def each_def w1_def call_created)
  have "imports_inv E X (\<lambda>p. if p \<in> set (w_subscribers w1) then {i} else {}) w1"
    unfolding imports_inv_def
  proof (intro conjI allI)
    show "sorted_wrt (GreaterPred (gt E)) (w_interfaces w1)" "distinct (w_subscribers w1)"
      using priority.insert_sorted_sorted [OF assms(1) imports_inv_fields(1) [OF inv] i] imports_inv_fields(2) [OF inv] by (simp_all add: w1_def)
    fix p
    have "part_ok E (X p) {i} w1 p" if "p \<in> set (w_subscribers w)"
      unfolding w1_def by (rule part_ok_insert [OF imports_invD [OF inv that] _ Y]) simp
    then show "if p \<in> set (w_subscribers w1) then part_ok E (X p) (if p \<in> set (w_subscribers w1) then {i} else {}) w1 p
        else part_class_of E p \<noteq> DynDependency \<longrightarrow> \<not> w_locked w1 p \<and> only_uses w1 p (\<lambda>u. False)"
      using imports_inv_fields(3) [OF inv, of p] by (simp add: w1_def)
  qed
  moreover have "distinct (w_subscribers w1)" "i \<in> set (w_interfaces w1)" using inv by (simp_all add: imports_inv_def w1_def)
  ultimately show ?thesis using notify_created [OF assms(1) _ _ _ _ fold] by (simp add: w1_def)
qed

section \<open>Revoking an interface\<close>

lemma set_default_publish: "dep_set_default E pub p w = Inr w' \<Longrightarrow> pub (createDefault E w) w = Inr w' \<and> is_default E (createDefault E w)"
  by (auto simp: dep_set_default_def Let_def)

lemma imports_inv_dyn:
  assumes inv: "imports_inv E X Y w" and f: "unaffected p w w'" and d: "part_class_of E p = DynDependency"
  shows "imports_inv E X Y w'"
  unfolding imports_inv_def
proof (intro conjI allI)
  note fr = unaffectedD [OF f]
  show "sorted_wrt (GreaterPred (gt E)) (w_interfaces w')" "distinct (w_subscribers w')"
    using inv by (simp_all add: imports_inv_def fr)
  fix q
  show "if q \<in> set (w_subscribers w') then part_ok E (X q) (Y q) w' q
        else part_class_of E q \<noteq> DynDependency \<longrightarrow> \<not> w_locked w' q \<and> only_uses w' q (\<lambda>u. False)"
  proof (cases "q = p")
    case True
    then show ?thesis using d by (simp add: part_ok_def)
  next
    case False
    then show ?thesis
      using inv by (simp add: imports_inv_def fr part_ok_frame [OF f False] only_uses_frame [OF f False])
  qed
qed

text \<open>What stays while the users of a revoked interface are told.\<close>

definition revoking :: "env \<Rightarrow> (pid \<Rightarrow> iid set) \<Rightarrow> iid \<Rightarrow> world \<Rightarrow> world \<Rightarrow> bool" where
  "revoking E X i w w' \<longleftrightarrow> imports_inv E X informed w' \<and> i \<notin> set (w_interfaces w') \<and> w_subscribers w' = w_subscribers w
     \<and> w_locked w' = w_locked w \<and> w_running w' = w_running w \<and> w_up w' = w_up w"

lemma revoking_local:
  assumes "revoking E X i w0 w" and "unaffected p w w'" and "p \<in> set (w_subscribers w0)" and "part_ok E V {} w' p"
  shows "revoking E (X(p := V)) i w0 w'"
proof -
  have "imports_inv E (X(p := V)) (informed(p := {})) w'"
    using assms by (intro imports_inv_local [OF _ assms(2) _ assms(4)]) (auto simp: revoking_def)
  then show ?thesis using assms(1) by (simp add: revoking_def unaffectedD [OF assms(2)] fun_upd_idem)
qed

lemma revoking_default:
  assumes "priority (gt E)" and "revoking E X i w0 w" and "\<not> is_default E i" and "dep_set_default E (onInterfaceCreate E) p w = Inr w'"
  shows "revoking E X i w0 w'"
proof -
  from set_default_publish [OF assms(4)] have c: "onInterfaceCreate E (createDefault E w) w = Inr w'" "i \<noteq> createDefault E w"
    using assms(3) by auto
  have "imports_inv E X informed w" using assms(2) by (simp add: revoking_def)
  from publish_inv [OF assms(1) this _ c(1)] assms(2) c(2) show ?thesis by (simp add: revoking_def)
qed

lemma dep_used_destroy_ok:
  assumes "priority (gt E)" and rev: "revoking E X i w0 w" and p: "p \<in> set (w_subscribers w0)" "part_class_of E p = Dependency"
    and r: "dep_used_destroy E (onInterfaceCreate E) p i w = Inr w'"
  shows "revoking E (X(p := {})) i w0 w'"
proof -
  from rev have inv: "imports_inv E X informed w" and S: "i \<notin> set (w_interfaces w)" and p': "p \<in> set (w_subscribers w)"
    using p by (simp_all add: revoking_def)
  note sorted = imports_inv_fields(1) [OF inv]
  have ok: "dep_ok E (X p) {} w p" using imports_invD [OF inv p'] p(2) by (simp add: part_ok_def)
  from r obtain a where a: "w_ref w (Active p) = Some (i, a)" and l: "\<not> w_locked w p"
    by (auto simp: dep_used_destroy_def deref_def split: option.splits)
  define w1 where "w1 = w\<lparr>w_satisfied := (w_satisfied w)(p := False), w_connected := (w_connected w)(Active p := False),
      w_users := (w_users w)(i := remove1 (Active p) (w_users w i)), w_ref := (w_ref w)(Active p := None),
      w_calls := w_calls w @ (if w_satisfied w p then [CSatisfied p False] else []) @ [CDisconnect (Active p) i]\<rparr>"
  have pre: "run [require (\<lambda>w. \<not> w_locked w p), deref (Active p) (\<lambda>cur. require (\<lambda>w. cur = i)), setSatisfied p False,
      disconnect_use (Active p), set_ref (Active p) None] w = Inr w1"
    using ok a l by (simp add: deref_def setSatisfied_eq disconnect_use_eq set_ref_def require_def w1_def dep_ok_def ptr_def)
  have r1: "(case w_interfaces w1 of
            j # _ \<Rightarrow> run [require (\<lambda>w. j \<noteq> i), dep_select E p j, setSatisfied p True] w1
          | [] \<Rightarrow> only_if (\<lambda>w. \<not> is_default E i \<and> hasDefault E p) (dep_set_default E (onInterfaceCreate E) p) w1) = Inr w'"
    using r pre by (auto simp: dep_used_destroy_def)
  have f1: "unaffected p w w1" by (auto simp: unaffected_def w1_def)
  have none: "only_uses w1 p (\<lambda>u. u = Active p)" "\<forall>j. count_list (w_users w1 j) (Active p) = 0"
    using ok a by (auto simp: dep_ok_def w1_def only_uses_def ptr_def)
  show ?thesis
  proof (cases "w_interfaces w")
    case (Cons j js)
    then have sel: "run [dep_select E p j, setSatisfied p True] w1 = Inr w'" using r1 by (auto simp: w1_def)
    have "\<forall>k \<in> set (w_interfaces w1). \<not> gt E k j"
      using priority.head_not_below [OF assms(1)] sorted Cons by (simp add: w1_def)
    then have "dep_ok E {} {} w' p" using dep_select_ok [of w1 p j E "{}"] none sel l Cons by (auto simp: w1_def)
    moreover have "local_to p (run [dep_select E p j, setSatisfied p True])" by (intro framed)
    from local_toD [OF this sel] have "unaffected p w w'" by (rule unaffected_trans [OF f1])
    ultimately show ?thesis by (intro revoking_local [OF rev]) (use p in \<open>simp_all add: part_ok_def\<close>)
  next
    case Nil
    have "part_ok E {} {} w1 p" using none l Nil p by (simp add: part_ok_def dep_ok_def w1_def ptr_def)
    then have "revoking E (X(p := {})) i w0 w1" by (intro revoking_local [OF rev f1]) (use p in simp_all)
    with r1 Nil show ?thesis
      by (auto simp: w1_def only_if_def split: if_splits intro: revoking_default [OF assms(1)])
  qed
qed

lemma item_used_destroy_ok:
  assumes ok: "deps_ok E X {} w p" and S: "i \<notin> set (w_interfaces w)" and X: "X \<subseteq> {i}" and r: "item_used_destroy p i w = Inr w'"
  shows "deps_ok E {} {} w' p"
proof -
  have b: "deps_base E X {} w p" using ok by (simp add: deps_ok_def)
  from r have u: "i \<in> set (w_used w p)" by (auto simp: item_used_destroy_def deref_def usage_is_connected_def split: option.splits)
  from storage_ok(2) [OF b, of i UpdateImplicit] obtain w1 where w1: "usage_erase_from_storage p i UpdateImplicit w = Inr w1"
    "deps_base E X {} w1 p" "w_map w1 p = w_map w p" "w_used w1 p = w_used w p" "w_storage w1 (Item p i) = erased" by auto
  have f1: "unaffected p w w1" by (rule local_toD [OF local_storage(2) w1(1)])
  from deps_prims(3) [OF w1(2), of i] u w1 obtain w2 where w2: "item_disconnect p i w1 = Inr w2" "deps_base E X {} w2 p"
    "set (w_map w2 p) = set (w_map w p)" "set (w_used w2 p) = set (w_used w p) - {i}" by (auto elim: deps_doE)
  have f2: "unaffected p w w2" by (rule unaffected_trans [OF f1 local_toD [OF local_item_disconnect w2(1)]])
  from deps_prims(4) [OF w2(2), of i] w2 S obtain w3 where w3: "item_erase p i w2 = Inr w3" "deps_base E X {} w3 p"
    "set (w_map w3 p) = set (w_map w p) - {i}" "set (w_used w3 p) = set (w_used w p) - {i}"
    by (auto simp: unaffectedD [OF f2] elim: deps_doE)
  have f3: "unaffected p w w3" by (rule unaffected_trans [OF f2 local_toD [OF local_item_erase w3(1)]])
  have "w' = w3" using r w1 w2 w3 by (auto simp: item_used_destroy_def usage_release_def deref_def split: option.splits)
  moreover have "deps_base E {} {} w3 p"
    by (rule deps_base_mono [OF w3(2)]) (use deps_map_bound [OF w3(2)] w3(3) X in auto)
  ultimately show ?thesis using w3 ok by (auto simp: deps_ok_def unaffectedD [OF f3])
qed

end
