(* ===== verification/Import_Steps.thy ===== *)
theory Import_Steps
  imports Import_Safety
begin

text \<open>
  Every step of the registry entry and of the import parts keeps the invariant, and what follows for the parts: a \<open>Dependency\<close> refers to an
  interface of the highest priority while its service is stopped and does not change it while its service is locked, and a
  \<open>DynDependencies\<close> part uses every interface.
\<close>

section \<open>Revoking an interface\<close>

lemma revoking_dyn:
  assumes "revoking E X i w0 w" and "unaffected p w w'" and "part_class_of E p = DynDependency"
  shows "revoking E X i w0 w'"
  using assms imports_inv_dyn [OF _ assms(2,3)] by (simp add: revoking_def unaffectedD [OF assms(2)])

lemma dyn_used_destroy_ok:
  assumes "priority (gt E)" and rev: "revoking E X i w0 w" and d: "part_class_of E p = DynDependency"
    and r: "dyn_used_destroy E (onInterfaceCreate E) p i w = Inr w'"
  shows "revoking E X i w0 w'"
proof (cases "w_locked w p")
  case True
  with r have "w' = w" by (auto simp: dyn_used_destroy_def)
  with rev show ?thesis by simp
next
  case False
  let ?pre = "run [deref (Active p) (\<lambda>cur. require (\<lambda>w. cur = i)), disconnect_use (Active p)]"
  let ?sel = "\<lambda>j. run [require (\<lambda>w. j \<noteq> i), dep_select E p j]"
  let ?clr = "run [require (\<lambda>w. \<not> w_linked w p), setSatisfied p False, set_ref (Active p) None]"
  have loc: "local_to p ?pre" "local_to p (?sel j)" "local_to p ?clr" for j by (intro framed; simp)+
  from r False obtain w1 where w1: "?pre w = Inr w1"
    and r1: "(case w_interfaces w1 of j # _ \<Rightarrow> ?sel j w1 | [] \<Rightarrow> run [require (\<lambda>w. \<not> w_linked w p), setSatisfied p False, set_ref (Active p) None,
        only_if (\<lambda>w. \<not> is_default E i \<and> hasDefault E p)
          (run [require (\<lambda>w. w_ref w (Preferred p) = None), dep_set_default E (onInterfaceCreate E) p])] w1) = Inr w'"
    by (auto simp: dyn_used_destroy_def)
  have rev1: "revoking E X i w0 w1" by (rule revoking_dyn [OF rev local_toD [OF loc(1) w1] d])
  show ?thesis
  proof (cases "w_interfaces w1")
    case (Cons j js)
    with r1 have "?sel j w1 = Inr w'" by simp
    from revoking_dyn [OF rev1 local_toD [OF loc(2) this] d] show ?thesis .
  next
    case Nil
    with r1 obtain w2 where w2: "?clr w1 = Inr w2"
      and r2: "only_if (\<lambda>w. \<not> is_default E i \<and> hasDefault E p)
          (run [require (\<lambda>w. w_ref w (Preferred p) = None), dep_set_default E (onInterfaceCreate E) p]) w2 = Inr w'"
      by auto
    have rev2: "revoking E X i w0 w2" by (rule revoking_dyn [OF rev1 local_toD [OF loc(3) w2] d])
    show ?thesis
    proof (cases "\<not> is_default E i \<and> hasDefault E p")
      case True
      with r2 have "dep_set_default E (onInterfaceCreate E) p w2 = Inr w'" by (auto simp: only_if_def)
      with rev2 True show ?thesis by (auto intro: revoking_default [OF assms(1)])
    next
      case False
      with r2 rev2 show ?thesis by (simp add: only_if_def)
    qed
  qed
qed

definition legal_user :: "env \<Rightarrow> world \<Rightarrow> use \<Rightarrow> bool" where
  "legal_user E w u \<longleftrightarrow> (part_class_of E (user_of u) = DynDependency
     \<or> user_of u \<in> set (w_subscribers w) \<and> (part_class_of E (user_of u) = Dependency \<and> u = Active (user_of u)
        \<or> part_class_of E (user_of u) = DynDependencies \<and> (\<exists>j. u = Item (user_of u) j)))"

lemma used_destroy_ok:
  assumes "priority (gt E)" and rev: "revoking E X i w0 w" and X: "\<And>p. X p \<subseteq> {i}" and u: "legal_user E w0 u"
    and r: "onUsedDestroy E i u w = Inr w'"
  shows "revoking E (if part_class_of E (user_of u) = DynDependency then X else X(user_of u := {})) i w0 w'"
proof (cases "part_class_of E (user_of u)")
  case Dependency
  with u r have "user_of u \<in> set (w_subscribers w0)" "dep_used_destroy E (onInterfaceCreate E) (user_of u) i w = Inr w'"
    by (auto simp: legal_user_def) (metis onUsedDestroy.simps(1))
  with Dependency show ?thesis using dep_used_destroy_ok [OF assms(1) rev] by simp
next
  case DynDependency
  show ?thesis
  proof (cases u)
    case (Item p j)
    then have "item_used_destroy p i w = Inr w'" using r by auto
    from local_toD [OF local_item_used_destroy this] show ?thesis
      using revoking_dyn [OF rev] DynDependency Item by simp
  qed (use r DynDependency dyn_used_destroy_ok [OF assms(1) rev] in auto)
next
  case DynDependencies
  with u obtain j where j: "u = Item (user_of u) j" and p: "user_of u \<in> set (w_subscribers w0)" by (auto simp: legal_user_def)
  have d: "item_used_destroy (user_of u) i w = Inr w'" using r by (subst (asm) j) auto
  have inv: "imports_inv E X informed w" "user_of u \<in> set (w_subscribers w)" "i \<notin> set (w_interfaces w)"
    using rev p by (simp_all add: revoking_def)
  have "deps_ok E (X (user_of u)) {} w (user_of u)" using imports_invD [OF inv(1,2)] DynDependencies by (simp add: part_ok_def)
  from item_used_destroy_ok [OF this inv(3) X d] have "part_ok E {} {} w' (user_of u)"
    using DynDependencies by (simp add: part_ok_def)
  with revoking_local [OF rev local_toD [OF local_item_used_destroy d] p] DynDependencies show ?thesis by simp
qed

lemma users_told:
  assumes "priority (gt E)" and "revoking E X i w0 w" and "\<And>p. X p \<subseteq> {i}" and "\<forall>u\<in>set us. legal_user E w0 u"
    and "fold_res (onUsedDestroy E i) us w = Inr w'"
  shows "\<exists>V. revoking E V i w0 w' \<and> (\<forall>p. V p \<subseteq> X p)
    \<and> (\<forall>u\<in>set us. part_class_of E (user_of u) \<noteq> DynDependency \<longrightarrow> V (user_of u) = {})"
  using assms
proof (induction us arbitrary: w X)
  case (Cons u us)
  from Cons.prems(5) obtain w1 where w1: "onUsedDestroy E i u w = Inr w1" "fold_res (onUsedDestroy E i) us w1 = Inr w'" by auto
  define X1 where "X1 = (if part_class_of E (user_of u) = DynDependency then X else X(user_of u := {}))"
  have "revoking E X1 i w0 w1"
    unfolding X1_def by (rule used_destroy_ok [OF Cons.prems(1-3) _ w1(1)]) (use Cons.prems(4) in simp)
  moreover have le: "X1 p \<subseteq> X p" for p by (simp add: X1_def)
  moreover have "X1 p \<subseteq> {i}" for p using le Cons.prems(3) by blast
  ultimately obtain V where V: "revoking E V i w0 w'" "\<forall>p. V p \<subseteq> X1 p"
    "\<forall>u\<in>set us. part_class_of E (user_of u) \<noteq> DynDependency \<longrightarrow> V (user_of u) = {}"
    using Cons.IH [of X1 w1] Cons.prems(1,4) w1(2) by auto
  moreover have "V (user_of u) = {}" if "part_class_of E (user_of u) \<noteq> DynDependency"
    using V(2) that by (auto simp: X1_def dest: spec [of _ "user_of u"])
  ultimately show ?case using le by (intro exI [of _ V]) (auto, blast)
qed auto

lemma filter_destroy:
  "contains (subscriber_filter DynDependencies) ev_OnDestroy" "onSubscribedDestroy E i p = (if part_class_of E p = DynDependencies then item_erase p i else Inr)"
  by (simp, code_simp) (cases "part_class_of E p"; simp add: onSubscribedDestroy_def deps_subscribed_destroy_def)

lemma subscriber_told:
  assumes rev: "revoking E X i w0 w" and X: "X p \<subseteq> {i}" and p: "p \<in> set (w_subscribers w0)"
    and r: "call_filtered E ev_OnDestroy (onSubscribedDestroy E i) p w = Inr w'"
  shows "revoking E (if part_class_of E p = DynDependencies then X(p := {}) else X) i w0 w'"
proof (cases "part_class_of E p = DynDependencies")
  case False
  then show ?thesis using r rev by (auto simp: call_filtered_def only_if_def filter_destroy(2) split: if_splits)
next
  case True
  then have e: "item_erase p i w = Inr w'" using r
    by (auto simp: call_filtered_def only_if_def filter_destroy simp del: subscriber_filter.simps split: if_splits)
  have inv: "imports_inv E X informed w" "p \<in> set (w_subscribers w)" "i \<notin> set (w_interfaces w)"
    using rev p by (simp_all add: revoking_def)
  have ok: "deps_ok E (X p) {} w p" using imports_invD [OF inv(1,2)] True by (simp add: part_ok_def)
  then have b: "deps_base E (X p) {} w p" by (simp add: deps_ok_def)
  have "i \<notin> set (w_used w p)"
  proof
    assume u: "i \<in> set (w_used w p)"
    with b have "i \<in> set (w_map w p)" by (auto simp: deps_base_def)
    with u e show False by (auto simp: item_erase_def only_if_def usage_is_connected_def)
  qed
  from item_erase_ok [OF b this] inv(3) e have w': "deps_base E (X p) {} w' p" "set (w_map w' p) = set (w_map w p) - {i}" "w_used w' p = w_used w p"
    by auto
  have f: "unaffected p w w'" by (rule local_toD [OF local_item_erase e])
  have "deps_base E {} {} w' p" by (rule deps_base_mono [OF w'(1)]) (use deps_map_bound [OF w'(1)] w'(2) X in auto)
  then have "part_ok E {} {} w' p"
    using ok w' \<open>i \<notin> set (w_used w p)\<close> True by (auto simp: part_ok_def deps_ok_def unaffectedD [OF f])
  from revoking_local [OF rev f p this] show ?thesis using True by simp
qed

lemma subscribers_told:
  assumes "revoking E X i w0 w" and "\<And>p. X p \<subseteq> {i}" and "set ps \<subseteq> set (w_subscribers w0)"
    and "fold_res (call_filtered E ev_OnDestroy (onSubscribedDestroy E i)) ps w = Inr w'"
  shows "\<exists>V. revoking E V i w0 w' \<and> (\<forall>p. V p \<subseteq> X p) \<and> (\<forall>p\<in>set ps. part_class_of E p = DynDependencies \<longrightarrow> V p = {})"
  using assms
proof (induction ps arbitrary: w X)
  case (Cons p ps)
  from Cons.prems(4) obtain w1 where w1: "call_filtered E ev_OnDestroy (onSubscribedDestroy E i) p w = Inr w1"
    "fold_res (call_filtered E ev_OnDestroy (onSubscribedDestroy E i)) ps w1 = Inr w'" by auto
  define X1 where "X1 = (if part_class_of E p = DynDependencies then X(p := {}) else X)"
  have "revoking E X1 i w0 w1"
    unfolding X1_def by (rule subscriber_told [OF Cons.prems(1,2) _ w1(1)]) (use Cons.prems(3) in simp)
  moreover have le: "X1 q \<subseteq> X q" for q by (simp add: X1_def)
  moreover have "X1 q \<subseteq> {i}" for q using le Cons.prems(2) by blast
  ultimately obtain V where V: "revoking E V i w0 w'" "\<forall>q. V q \<subseteq> X1 q"
    "\<forall>q\<in>set ps. part_class_of E q = DynDependencies \<longrightarrow> V q = {}"
    using Cons.IH [of X1 w1] Cons.prems(3) w1(2) by auto
  moreover have "V p = {}" if "part_class_of E p = DynDependencies"
    using V(2) that by (auto simp: X1_def dest: spec [of _ p])
  ultimately show ?case using le by (intro exI [of _ V]) (auto, blast)
qed auto

lemma imports_inv_cong:
  assumes "imports_inv E X Y w" and "\<And>p. p \<in> set (w_subscribers w) \<Longrightarrow> part_class_of E p \<noteq> DynDependency \<Longrightarrow> V p = X p"
  shows "imports_inv E V Y w"
  unfolding imports_inv_def
proof (intro conjI allI)
  note fd = imports_inv_fields [OF assms(1)]
  show "sorted_wrt (GreaterPred (gt E)) (w_interfaces w)" "distinct (w_subscribers w)" by (rule fd)+
  fix p
  have "part_ok E (V p) (Y p) w p" if "p \<in> set (w_subscribers w)"
    using imports_invD [OF assms(1) that] assms(2) [OF that] by (cases "part_class_of E p") (simp_all add: part_ok_def)
  with fd(3) [of p] show "if p \<in> set (w_subscribers w) then part_ok E (V p) (Y p) w p
      else part_class_of E p \<noteq> DynDependency \<longrightarrow> \<not> w_locked w p \<and> only_uses w p (\<lambda>u. False)" by simp
qed

lemma users_legal:
  assumes "imports_inv E X Y w" and "u \<in> set (w_users w i)"
  shows "legal_user E w u"
proof -
  have c: "count_list (w_users w i) u \<noteq> 0" using assms(2) by (simp add: count_list_0_iff)
  show ?thesis
  proof (cases "user_of u \<in> set (w_subscribers w)")
    case True
    from imports_invD [OF assms(1) True] c True show ?thesis
      by (cases "part_class_of E (user_of u)") (auto simp: legal_user_def part_ok_def dep_ok_def deps_ok_def deps_base_def only_uses_def)
  next
    case False
    show ?thesis
    proof (rule ccontr)
      assume "\<not> legal_user E w u"
      then have "part_class_of E (user_of u) \<noteq> DynDependency" by (simp add: legal_user_def)
      from imports_inv_fields(3) [OF assms(1) False this] c show False by (auto simp: only_uses_def)
    qed
  qed
qed

lemma part_ok_remove:
  assumes "part_ok E {} {} w p" and i: "i \<in> set (w_interfaces w)" and d: "distinct (w_interfaces w)"
  shows "part_ok E (if part_class_of E p = Dependency \<and> ptr w (Active p) \<noteq> Some i then {} else {i}) {}
    (w\<lparr>w_interfaces := remove1 i (w_interfaces w)\<rparr>) p"
proof (cases "part_class_of E p")
  case Dependency
  with assms show ?thesis
    by (cases "w_ref w (Active p)") (auto simp: part_ok_def dep_ok_def ptr_def)
next
  case DynDependencies
  with assms show ?thesis by (auto simp: part_ok_def deps_ok_def deps_base_def ptr_def)
qed (simp add: part_ok_def)

lemma revoke_inv:
  assumes "priority (gt E)" and inv: "imports_inv E informed informed w" and i: "i \<in> set (w_interfaces w)"
    and r: "onInterfaceDestroy E i w = Inr w'"
  shows "imports_inv E informed informed w' \<and> i \<notin> set (w_interfaces w') \<and> w_subscribers w' = w_subscribers w
    \<and> w_locked w' = w_locked w \<and> w_running w' = w_running w \<and> w_up w' = w_up w"
proof -
  define w0 where "w0 = w\<lparr>w_interfaces := remove1 i (w_interfaces w)\<rparr>"
  define X where "X = (\<lambda>p. if part_class_of E p = Dependency \<and> ptr w (Active p) \<noteq> Some i then {} else {i})"
  note fd = imports_inv_fields [OF inv]
  have d: "distinct (w_interfaces w)"
    by (rule priority.interfaces_distinct [OF assms(1) fd(1)])
  from r obtain w1 where r1: "fold_res (onUsedDestroy E i) (w_users w0 i) w0 = Inr w1"
    and r2: "fold_res (call_filtered E ev_OnDestroy (onSubscribedDestroy E i)) (w_subscribers w1) w1 = Inr w'"
    by (auto simp: onInterfaceDestroy_def each_def w0_def)
  have "sorted_wrt (GreaterPred (gt E)) (remove1 i (w_interfaces w))"
    by (rule priority.remove1_sorted [OF assms(1) fd(1)])
  then have "revoking E X i w0 w0"
    using part_ok_remove [OF imports_invD [OF inv] i d] fd d by (auto simp: revoking_def imports_inv_def w0_def X_def)
  moreover have X: "X p \<subseteq> {i}" for p by (simp add: X_def)
  moreover have "\<forall>u\<in>set (w_users w0 i). legal_user E w0 u"
    using users_legal [OF inv, of _ i] by (auto simp: w0_def legal_user_def)
  ultimately obtain V1 where V1: "revoking E V1 i w0 w1" "\<And>p. V1 p \<subseteq> X p"
    "\<forall>u\<in>set (w_users w0 i). part_class_of E (user_of u) \<noteq> DynDependency \<longrightarrow> V1 (user_of u) = {}"
    using users_told [OF assms(1) _ _ _ r1] by blast
  have sub: "w_subscribers w1 = w_subscribers w0" using V1(1) by (simp add: revoking_def)
  have "V1 p \<subseteq> {i}" for p using V1(2) X by blast
  then obtain V2 where V2: "revoking E V2 i w0 w'" "\<And>p. V2 p \<subseteq> V1 p"
    "\<forall>p\<in>set (w_subscribers w0). part_class_of E p = DynDependencies \<longrightarrow> V2 p = {}"
    using subscribers_told [OF V1(1) _ _ r2] unfolding sub by blast
  have "V2 p = {}" if p: "p \<in> set (w_subscribers w)" and c: "part_class_of E p \<noteq> DynDependency" for p
  proof (cases "part_class_of E p")
    case Dependency
    show ?thesis
    proof (cases "ptr w (Active p) = Some i")
      case True
      have "count_list (w_users w i) (Active p) = 1"
        using imports_invD [OF inv p] Dependency True by (auto simp: part_ok_def dep_ok_def ptr_def)
      then have "Active p \<in> set (w_users w0 i)" 
        using count_notin [of "Active p" "w_users w i"] by (auto simp: w0_def)
      with V1(3) V2(2) Dependency show ?thesis by force
    next
      case False
      with V1(2) [of p] V2(2) [of p] Dependency show ?thesis by (simp add: X_def)
    qed
  qed (use c V2(3) p in \<open>auto simp: w0_def\<close>)
  with imports_inv_cong [of E V2 informed w' informed] V2(1) show ?thesis by (simp add: revoking_def w0_def)
qed

end
