(* ===== verification/Import_Hooks.thy ===== *)
theory Import_Hooks
  imports Import_Steps
begin

text \<open>The hooks of the parts keep the invariant: initialisation, destruction, locking, unlocking and releasing.\<close>

section \<open>A step of one part\<close>

definition others_same :: "pid \<Rightarrow> world \<Rightarrow> world \<Rightarrow> bool" where
  "others_same p w w' \<longleftrightarrow> w_interfaces w' = w_interfaces w \<and> w_running w' = w_running w \<and> w_up w' = w_up w
     \<and> (\<forall>q. q \<noteq> p \<longrightarrow> w_locked w' q = w_locked w q)
     \<and> (\<forall>u. user_of u \<noteq> p \<longrightarrow> w_ref w' u = w_ref w u \<and> w_connected w' u = w_connected w u \<and> w_storage w' u = w_storage w u
          \<and> (\<forall>i. count_list (w_users w' i) u = count_list (w_users w i) u))
     \<and> (\<forall>q. q \<noteq> p \<longrightarrow> w_satisfied w' q = w_satisfied w q \<and> w_used w' q = w_used w q \<and> w_map w' q = w_map w q)"

lemma unaffected_others: "unaffected p w w' \<Longrightarrow> others_same p w w'"
  by (simp add: unaffected_def others_same_def)

lemma others_trans: "others_same p w w' \<Longrightarrow> others_same p w' w'' \<Longrightarrow> others_same p w w''"
  unfolding others_same_def by auto

lemma others_only_uses: "others_same p w w' \<Longrightarrow> q \<noteq> p \<Longrightarrow> only_uses w' q P = only_uses w q P"
  unfolding only_uses_def others_same_def by (metis (full_types))

lemma others_part_ok:
  assumes f: "others_same p w w'" and n: "q \<noteq> p"
  shows "part_ok E X Y w' q = part_ok E X Y w q"
proof -
  have s: "w_interfaces w' = w_interfaces w" "w_running w' = w_running w" "w_up w' = w_up w" "w_locked w' q = w_locked w q"
    "w_satisfied w' q = w_satisfied w q" "w_used w' q = w_used w q" "w_map w' q = w_map w q"
    using f n by (auto simp: others_same_def)
  have u: "w_ref w' u = w_ref w u" "w_connected w' u = w_connected w u" "w_storage w' u = w_storage w u"
    "count_list (w_users w' i) u = count_list (w_users w i) u" if "user_of u = q" for u i
    using f n that by (auto simp: others_same_def)
  have a: "user_of (Active q) = q" and j: "user_of (Item q j) = q" for j by simp_all
  have "dep_ok E X Y w' q = dep_ok E X Y w q"
    unfolding dep_ok_def ptr_def by (simp only: s u [OF a] others_only_uses [OF f n])
  moreover have "deps_ok E X Y w' q = deps_ok E X Y w q"
    unfolding deps_ok_def deps_base_def ptr_def by (simp only: s u [OF j] others_only_uses [OF f n])
  ultimately show ?thesis unfolding part_ok_def by (cases "part_class_of E q") simp_all
qed

lemma imports_inv_step:
  assumes inv: "imports_inv E X Y w" and f: "others_same p w w'"
    and s: "distinct (w_subscribers w')" "\<And>q. q \<noteq> p \<Longrightarrow> q \<in> set (w_subscribers w') \<longleftrightarrow> q \<in> set (w_subscribers w)"
    and ok: "if p \<in> set (w_subscribers w') then part_ok E V Z w' p
      else part_class_of E p \<noteq> DynDependency \<longrightarrow> \<not> w_locked w' p \<and> only_uses w' p (\<lambda>u. False)"
  shows "imports_inv E (X(p := V)) (Y(p := Z)) w'"
  unfolding imports_inv_def
proof (intro conjI allI)
  show "sorted_wrt (GreaterPred (gt E)) (w_interfaces w')" using imports_inv_fields(1) [OF inv] f by (simp add: others_same_def)
  show "distinct (w_subscribers w')" by (rule s(1))
  fix q
  show "if q \<in> set (w_subscribers w') then part_ok E ((X(p := V)) q) ((Y(p := Z)) q) w' q
        else part_class_of E q \<noteq> DynDependency \<longrightarrow> \<not> w_locked w' q \<and> only_uses w' q (\<lambda>u. False)"
  proof (cases "q = p")
    case True
    then show ?thesis using ok by simp
  next
    case False
    then have "w_locked w' q = w_locked w q" using f by (simp add: others_same_def)
    then show ?thesis using imports_invD [OF inv, of q] imports_inv_fields(3) [OF inv, of q] False s(2) [OF False]
      by (simp add: others_part_ok [OF f False] others_only_uses [OF f False])
  qed
qed

abbreviation settled :: "env \<Rightarrow> world \<Rightarrow> bool" where
  "settled E w \<equiv> imports_inv E informed informed w"

lemma settled_step:
  assumes "settled E w" and "others_same p w w'"
    and "distinct (w_subscribers w')" "\<And>q. q \<noteq> p \<Longrightarrow> q \<in> set (w_subscribers w') \<longleftrightarrow> q \<in> set (w_subscribers w)"
    and "if p \<in> set (w_subscribers w') then part_ok E {} {} w' p
      else part_class_of E p \<noteq> DynDependency \<longrightarrow> \<not> w_locked w' p \<and> only_uses w' p (\<lambda>u. False)"
  shows "settled E w'"
  using imports_inv_step [OF assms(1-4), where V = "{}" and Z = "{}"] assms(5) by (simp add: fun_upd_idem)

lemma settled_local:
  assumes "settled E w" and "unaffected p w w'" and "part_ok E {} {} w' p" and "p \<in> set (w_subscribers w)"
  shows "settled E w'"
  using settled_step [OF assms(1) unaffected_others [OF assms(2)]] imports_inv_fields(2) [OF assms(1)] assms(3,4)
  by (simp add: unaffectedD [OF assms(2)])

section \<open>Initialisation\<close>

lemma part_ok_subs [simp]: "part_ok E X Y (w\<lparr>w_subscribers := ps\<rparr>) p = part_ok E X Y w p"
proof -
  have o: "only_uses (w\<lparr>w_subscribers := ps\<rparr>) p P = only_uses w p P" for P by (simp add: only_uses_def)
  have "dep_ok E X Y (w\<lparr>w_subscribers := ps\<rparr>) p = dep_ok E X Y w p"
    by (cases "w_ref w (Active p)") (simp_all add: dep_ok_def ptr_def o split_beta)
  moreover have "deps_ok E X Y (w\<lparr>w_subscribers := ps\<rparr>) p = deps_ok E X Y w p" by (simp add: deps_ok_def deps_base_def ptr_def o)
  ultimately show ?thesis unfolding part_ok_def by (cases "part_class_of E p") simp_all
qed

lemma fresh_uses: "fresh_part w p \<Longrightarrow> only_uses w p P"
  by (simp add: fresh_part_def only_uses_def count_list_0_iff)

lemma join:
  assumes "settled E w" and "p \<notin> set (w_subscribers w)" and "unaffected p w w1" and "part_ok E {} Z w1 p"
  shows "imports_inv E informed (informed(p := Z)) (w1\<lparr>w_subscribers := w_subscribers w1 @ [p]\<rparr>)"
proof -
  have "others_same p w (w1\<lparr>w_subscribers := w_subscribers w1 @ [p]\<rparr>)"
    using unaffected_others [OF assms(3)] by (simp add: others_same_def)
  from imports_inv_step [OF assms(1) this, where V = "{}" and Z = Z] assms imports_inv_fields(2) [OF assms(1)]
  show ?thesis by (simp add: unaffectedD [OF assms(3)] fun_upd_idem)
qed

lemma add_subscriber: "subscriberAdd p w = Inr w' \<longleftrightarrow> p \<notin> set (w_subscribers w) \<and> w' = w\<lparr>w_subscribers := w_subscribers w @ [p]\<rparr>"
  by (auto simp: subscriberAdd_def)

lemma dep_select_now:
  assumes "\<not> w_connected w (Active p)" and "\<forall>j. count_list (w_users w j) (Active p) = 0" and "\<not> w_locked w p" and "w_satisfied w p"
    and "i \<in> set (w_interfaces w)" and "\<forall>j \<in> set (w_interfaces w). \<not> gt E j i" and "only_uses w p (\<lambda>u. u = Active p)"
  shows "\<exists>w'. dep_select E p i w = Inr w' \<and> dep_ok E X {} w' p"
  using assms by (simp add: dep_select_def use_eqs reference_of_def dep_ok_def ptr_def only_uses_def)

lemma dep_init_ok:
  assumes "priority (gt E)" and inv: "settled E w" and fresh: "fresh_part w p" and c: "part_class_of E p = Dependency"
    and r: "dep_init E (onInterfaceCreate E) p w = Inr w'"
  shows "settled E w'"
proof -
  define w1 where "w1 = w\<lparr>w_subscribers := w_subscribers w @ [p]\<rparr>"
  from fresh have f: "p \<notin> set (w_subscribers w)" "\<not> w_locked w1 p" "w_satisfied w1 p" "\<not> w_connected w1 (Active p)"
    "\<forall>j. count_list (w_users w1 j) (Active p) = 0" "w_ref w1 (Active p) = None" "only_uses w1 p (\<lambda>u. u = Active p)"
    by (simp_all add: fresh_part_def w1_def count_list_0_iff only_uses_def)
  have p: "p \<in> set (w_subscribers w1)" by (simp add: w1_def)
  have join: "imports_inv E informed (informed(p := Z)) w1" if "part_ok E {} Z w1 p" for Z
    using join [OF inv f(1) unaffected_refl, of Z] that by (simp add: w1_def)
  have r1: "(case w_interfaces w1 of i # _ \<Rightarrow> dep_select E p i w1
      | [] \<Rightarrow> if hasDefault E p then dep_set_default E (onInterfaceCreate E) p w1 else setSatisfied p False w1) = Inr w'"
    using r unfolding w1_def by (simp add: dep_init_def add_subscriber)
  show ?thesis
  proof (cases "w_interfaces w1")
    case (Cons i js)
    have all: "imports_inv E informed (informed(p := set (w_interfaces w1))) w1"
      by (rule join) (use f c Cons in \<open>simp add: part_ok_def dep_ok_def ptr_def\<close>)
    have "\<forall>j \<in> set (w_interfaces w1). \<not> gt E j i"
      using priority.head_not_below [OF assms(1)] imports_inv_fields(1) [OF all] Cons by simp
    moreover have "dep_select E p i w1 = Inr w'" using r1 Cons by simp
    ultimately have "part_ok E {} {} w' p" and "unaffected p w1 w'"
      using dep_select_now [of w1 p i E "{}"] f Cons c local_toD [OF local_select] by (auto simp: part_ok_def)
    with imports_inv_local [OF all _ p, of w' "{}" "{}"] show ?thesis by (simp add: fun_upd_idem)
  next
    case Nil
    show ?thesis
    proof (cases "hasDefault E p")
      case True
      with r1 Nil have d: "onInterfaceCreate E (createDefault E w1) w1 = Inr w'" by (auto dest: set_default_publish)
      have all: "imports_inv E informed (informed(p := {createDefault E w1})) w1"
        by (rule join) (use f c Nil in \<open>simp add: part_ok_def dep_ok_def ptr_def\<close>)
      have "(informed(p := {createDefault E w1})) q \<subseteq> {createDefault E w1}" for q by simp
      from publish_inv [OF assms(1) all this d] show ?thesis by blast
    next
      case False
      with r1 Nil have r2: "setSatisfied p False w1 = Inr w'" by simp
      then have ok: "part_ok E {} {} w' p" using f c Nil by (auto simp: setSatisfied_eq part_ok_def dep_ok_def ptr_def only_uses_def)
      have all: "imports_inv E informed (informed(p := {0})) w1"
        by (rule join) (use f c Nil in \<open>simp add: part_ok_def dep_ok_def ptr_def\<close>)
      from imports_inv_local [OF all local_toD [OF local_satisfied r2] p ok] show ?thesis by (simp add: fun_upd_idem)
    qed
  qed
qed

lemma dyn_init_ok:
  assumes "priority (gt E)" and inv: "settled E w" and fresh: "fresh_part w p" and c: "part_class_of E p = DynDependency"
    and r: "dyn_init E (onInterfaceCreate E) p w = Inr w'"
  shows "settled E w'"
proof -
  define w1 where "w1 = w\<lparr>w_subscribers := w_subscribers w @ [p]\<rparr>"
  have "settled E w1"
    using join [OF inv _ unaffected_refl, of p "{}"] fresh c by (simp add: fresh_part_def part_ok_def w1_def fun_upd_idem)
  moreover have "settled E w1 \<Longrightarrow> settled E v" if "unaffected p w1 v" for v using imports_inv_dyn [OF _ that c] by blast
  moreover have "settled E v" if "dep_set_default E (onInterfaceCreate E) p w1 = Inr v" "settled E w1" for v
    using publish_inv [OF assms(1) that(2) _, of "createDefault E w1" v] set_default_publish [OF that(1)] by simp
  moreover from r have "dep_select E p (hd (w_interfaces w1)) w1 = Inr w' \<or> dep_set_default E (onInterfaceCreate E) p w1 = Inr w'
      \<or> setSatisfied p False w1 = Inr w'"
    by (auto simp: dyn_init_def add_subscriber w1_def split: list.splits if_splits)
  ultimately show ?thesis using local_toD [OF local_select] local_toD [OF local_satisfied] by blast
qed

lemma local_deps_created [framed]: "local_to p (deps_created E p i)"
  unfolding deps_created_def by (rule local_availability)

lemma availability_all:
  assumes "deps_ok E X Y w p" and "set js \<subseteq> set (w_interfaces w)" and "fold_res (deps_created E p) js w = Inr w'"
  shows "deps_ok E X (Y - set js) w' p"
  using assms
proof (induction js arbitrary: w Y)
  case (Cons j js)
  from Cons.prems(3) obtain w1 where w1: "deps_created E p j w = Inr w1" "fold_res (deps_created E p) js w1 = Inr w'" by auto
  from availability_ok [OF Cons.prems(1), of j] Cons.prems(2) w1(1) have "deps_ok E X (Y - {j}) w1 p"
    by (simp add: deps_created_def)
  from Cons.IH [OF this _ w1(2)] Cons.prems(2) have "deps_ok E X (Y - {j} - set js) w' p"
    by (simp add: unaffectedD [OF local_toD [OF local_deps_created w1(1)]])
  moreover have "Y - {j} - set js = Y - set (j # js)" by auto
  ultimately show ?case by simp
qed simp

lemma deps_init_ok:
  assumes inv: "settled E w" and fresh: "fresh_part w p" and c: "part_class_of E p = DynDependencies" and r: "deps_init E p w = Inr w'"
  shows "settled E w'"
proof -
  from r obtain w1 where w1: "fold_res (deps_created E p) (w_interfaces w) w = Inr w1" and w': "w' = w1\<lparr>w_subscribers := w_subscribers w1 @ [p]\<rparr>"
    by (auto simp: deps_init_def each_def add_subscriber)
  have "deps_ok E {} (set (w_interfaces w)) w p"
    using fresh fresh_uses [OF fresh] by (simp add: deps_ok_def deps_base_def fresh_part_def ptr_def count_list_0_iff)
  from availability_all [OF this order_refl w1] have "part_ok E {} {} w1 p" using c by (simp add: part_ok_def)
  moreover have "unaffected p w w1" by (rule local_toD [OF local_fold w1]) (rule framed)
  ultimately show ?thesis using join [OF inv, of p w1 "{}"] fresh by (simp add: w' fresh_part_def fun_upd_idem)
qed

lemma deps_itemD:
  assumes "deps_base E X Y w p"
  shows "ptr w (Item p i) = (if i \<in> set (w_map w p) then Some i else None)" "w_connected w (Item p i) \<longleftrightarrow> i \<in> set (w_used w p)"
    "count_list (w_users w j) (Item p i) = (if j = i \<and> i \<in> set (w_used w p) then 1 else 0)"
  using assms by (simp_all add: deps_base_def)

section \<open>Destruction\<close>

lemma settled_leave:
  assumes inv: "settled E w" and "unaffected p (w\<lparr>w_subscribers := remove1 p (w_subscribers w)\<rparr>) w'" and "\<not> w_locked w p"
    and "part_class_of E p \<noteq> DynDependency \<Longrightarrow> only_uses w' p (\<lambda>u. False)"
  shows "settled E w'"
proof -
  note fr = unaffectedD [OF assms(2)]
  have "others_same p w (w\<lparr>w_subscribers := remove1 p (w_subscribers w)\<rparr>)" by (simp add: others_same_def)
  from others_trans [OF this unaffected_others [OF assms(2)]] have "others_same p w w'" .
  then show ?thesis using imports_inv_fields(2) [OF inv] assms(3,4) by (intro settled_step [OF inv]) (auto simp: fr)
qed

lemma dep_destroy_ok:
  assumes inv: "settled E w" and p: "p \<in> set (w_subscribers w)" "\<not> w_locked w p" and c: "part_class_of E p = Dependency"
    and r: "dep_destroy p w = Inr w'"
  shows "settled E w'"
proof -
  define w1 where "w1 = w\<lparr>w_subscribers := remove1 p (w_subscribers w)\<rparr>"
  let ?rest = "only_if (\<lambda>w. w_ref w (Active p) \<noteq> None) (run [disconnect_use (Active p), set_ref (Active p) None])"
  have r1: "?rest w1 = Inr w'" using r by (simp add: dep_destroy_def subscriberDel_def w1_def)
  have "local_to p ?rest" by (intro framed) simp_all
  from local_toD [OF this r1] have f: "unaffected p w1 w'" .
  have ok: "dep_ok E {} {} w p" using imports_invD [OF inv p(1)] c by (simp add: part_ok_def)
  have "only_uses w' p (\<lambda>u. False)"
  proof (cases "w_ref w (Active p)")
    case None
    with r1 ok show ?thesis by (auto simp: only_if_def w1_def dep_ok_def only_uses_def ptr_def)
  next
    case (Some x)
    then obtain i a where a: "w_ref w1 (Active p) = Some (i, a)" by (cases x) (simp add: w1_def)
    have "disconnect_use (Active p) w1 = Inr (w1\<lparr>w_connected := (w_connected w1)(Active p := False),
      w_users := (w_users w1)(i := remove1 (Active p) (w_users w1 i)), w_calls := w_calls w1 @ [CDisconnect (Active p) i]\<rparr>)"
      by (rule disconnect_use_eq [OF a]) (use ok a in \<open>auto simp: w1_def dep_ok_def ptr_def\<close>)
    with r1 a have "w' = w1\<lparr>w_connected := (w_connected w1)(Active p := False),
      w_users := (w_users w1)(i := remove1 (Active p) (w_users w1 i)), w_calls := w_calls w1 @ [CDisconnect (Active p) i], w_ref := (w_ref w1)(Active p := None)\<rparr>"
      by (simp add: only_if_def set_ref_def)
    with ok a show ?thesis by (auto simp: only_uses_def dep_ok_def w1_def ptr_def)
  qed
  with settled_leave [OF inv f [unfolded w1_def] p(2)] show ?thesis .
qed

lemma dyn_destroy_ok:
  assumes inv: "settled E w" and p: "\<not> w_locked w p" and c: "part_class_of E p = DynDependency" and r: "dyn_destroy p w = Inr w'"
  shows "settled E w'"
proof -
  let ?rest = "only_if (\<lambda>w. w_ref w (Active p) \<noteq> None)
       (run [disconnect_use (Active p), require (\<lambda>w. \<not> w_linked w p), set_ref (Active p) None])"
  have "?rest (w\<lparr>w_subscribers := remove1 p (w_subscribers w)\<rparr>) = Inr w'" using r by (simp add: dyn_destroy_def subscriberDel_def)
  moreover have "local_to p ?rest" by (intro framed) simp_all
  ultimately have "unaffected p (w\<lparr>w_subscribers := remove1 p (w_subscribers w)\<rparr>) w'" by (blast dest: local_toD)
  from settled_leave [OF inv this p] c show ?thesis by simp
qed

lemma drop_item:
  assumes b: "deps_base E X Y w p" and Y: "set (w_interfaces w) \<subseteq> Y" and i: "i \<in> set (w_used w p)"
    and r: "run [usage_erase_from_storage p i UpdateImplicit, item_disconnect p i, usage_release p i] w = Inr w'"
  shows "deps_base E X Y w' p \<and> set (w_used w' p) = set (w_used w p) - {i} \<and> w_interfaces w' = w_interfaces w"
proof -
  from storage_ok(2) [OF b, of i UpdateImplicit] obtain w1 where w1: "usage_erase_from_storage p i UpdateImplicit w = Inr w1"
    "deps_base E X Y w1 p" "w_used w1 p = w_used w p" "w_storage w1 (Item p i) = erased" by auto
  from deps_prims(3) [OF w1(2), of i] i w1 obtain w2 where w2: "item_disconnect p i w1 = Inr w2" "deps_base E X Y w2 p"
    "set (w_used w2 p) = set (w_used w p) - {i}" by (auto elim: deps_doE)
  have s: "w_interfaces w2 = w_interfaces w"
    using unaffectedD(1) [OF local_toD [OF local_storage(2) w1(1)]] unaffectedD(1) [OF local_toD [OF local_item_disconnect w2(1)]] by simp
  have "i \<notin> set (w_interfaces w2) - Y" using Y s by auto
  with deps_prims(4) [OF w2(2), of i] w2(3) obtain w3 where w3: "item_erase p i w2 = Inr w3" "deps_base E X Y w3 p"
    "set (w_used w3 p) = set (w_used w p) - {i}" by (auto elim: deps_doE)
  have "w' = w3" using r w1(1) w2(1) w3(1) by (auto simp: usage_release_def)
  with w3 s unaffectedD(1) [OF local_toD [OF local_item_erase w3(1)]] show ?thesis by simp
qed

lemma drop_items:
  assumes "deps_base E X Y w p" and "set (w_interfaces w) \<subseteq> Y" and "distinct js" and "set js = set (w_used w p)"
    and "fold_res (\<lambda>i. run [usage_erase_from_storage p i UpdateImplicit, item_disconnect p i, usage_release p i]) js w = Inr w'"
  shows "deps_base E X Y w' p \<and> w_used w' p = []"
  using assms
proof (induction js arbitrary: w)
  case (Cons j js)
  from Cons.prems(5) obtain w1 where w1: "run [usage_erase_from_storage p j UpdateImplicit, item_disconnect p j, usage_release p j] w = Inr w1"
    "fold_res (\<lambda>i. run [usage_erase_from_storage p i UpdateImplicit, item_disconnect p i, usage_release p i]) js w1 = Inr w'"
    by (auto simp del: run.simps)
  from drop_item [OF Cons.prems(1,2) _ w1(1)] Cons.prems have b: "deps_base E X Y w1 p" "set (w_used w1 p) = set js" "w_interfaces w1 = w_interfaces w"
    by auto
  from Cons.IH [OF b(1) _ _ _ w1(2)] b Cons.prems show ?case by simp
qed simp

lemma deps_destroy_ok:
  assumes inv: "settled E w" and p: "p \<in> set (w_subscribers w)" "\<not> w_locked w p" and c: "part_class_of E p = DynDependencies"
    and r: "deps_destroy p w = Inr w'"
  shows "settled E w'"
proof -
  define w1 where "w1 = w\<lparr>w_subscribers := remove1 p (w_subscribers w)\<rparr>"
  let ?item = "\<lambda>i. run [usage_erase_from_storage p i UpdateImplicit, item_disconnect p i, usage_release p i]"
  from r obtain w2 where w2: "fold_res ?item (w_used w1 p) w1 = Inr w2"
    and w': "w' = w2\<lparr>w_map := (w_map w2)(p := []), w_ref := (\<lambda>u. if \<exists>i\<in>set (w_map w2 p). u = Item p i then None else w_ref w2 u)\<rparr>"
    by (auto simp: deps_destroy_def subscriberDel_def each_def w1_def simp del: fold_res.simps)
  have "deps_base E {} {} w p" using imports_invD [OF inv p(1)] c by (simp add: part_ok_def deps_ok_def)
  then have b: "deps_base E {} (set (w_interfaces w1)) w1 p" by (simp add: deps_base_def w1_def ptr_def only_uses_def)
  have d: "distinct (w_used w1 p)" using b by (simp add: deps_base_def)
  from drop_items [OF b order_refl d refl w2] have b2: "deps_base E {} (set (w_interfaces w1)) w2 p" "w_used w2 p = []" by auto
  have "local_to p (fold_res ?item js)" for js by (rule local_fold) (intro framed)
  from local_toD [OF this w2] have f: "unaffected p w1 w2" .
  have "unaffected p w2 w'" by (auto simp: w' unaffected_def)
  with f have f': "unaffected p w1 w'" by (rule unaffected_trans)
  have "w_ref w' u = None \<and> \<not> w_connected w' u \<and> (\<forall>i. count_list (w_users w' i) u = 0)" if "user_of u = p" for u
  proof (cases "\<exists>i. u = Item p i")
    case True
    then obtain i where i: "u = Item p i" by blast
    have "i \<notin> set (w_map w2 p) \<Longrightarrow> w_ref w2 (Item p i) = None" using deps_itemD(1) [OF b2(1), of i] by (simp add: ptr_iff)
    with deps_itemD(2) [OF b2(1), of i] deps_itemD(3) [OF b2(1)] b2(2) show ?thesis by (simp add: i w')
  next
    case False
    with b2(1) that show ?thesis by (auto simp: w' deps_base_def only_uses_def)
  qed
  then have "only_uses w' p (\<lambda>u. False)" by (simp add: only_uses_def)
  with settled_leave [OF inv f' [unfolded w1_def] p(2)] show ?thesis .
qed

section \<open>Locking and unlocking\<close>

abbreviation with_lock :: "pid \<Rightarrow> bool \<Rightarrow> world \<Rightarrow> world" where
  "with_lock p b w \<equiv> w\<lparr>w_locked := (w_locked w)(p := b)\<rparr>"

lemma settled_lock:
  assumes inv: "settled E w" and p: "p \<in> set (w_subscribers w)" and f: "unaffected p (with_lock p b w) w'" and ok: "part_ok E {} {} w' p"
  shows "settled E w'"
proof -
  have "others_same p w (with_lock p b w)" by (simp add: others_same_def)
  from others_trans [OF this unaffected_others [OF f]] have "others_same p w w'" .
  then show ?thesis
    using imports_inv_fields(2) [OF inv] p ok by (intro settled_step [OF inv]) (auto simp: unaffectedD [OF f])
qed

lemma dep_lock_ok:
  assumes ok: "dep_ok E {} {} w p" and l: "\<not> w_locked w p" and r: "dep_lock p (with_lock p True w) = Inr w'"
  shows "dep_ok E {} {} w' p \<and> unaffected p (with_lock p True w) w'"
proof -
  have "local_to p (dep_lock p)" unfolding dep_lock_def by (intro framed) simp_all
  from local_toD [OF this r] have "unaffected p (with_lock p True w) w'" .
  moreover from r obtain i a where a: "w_ref w (Active p) = Some (i, a)" "w_running w i"
    by (auto simp: dep_lock_def deref_def split: option.splits)
  then have "w' = (with_lock p True w)\<lparr>w_ref := (w_ref w)(Active p := Some (i, True))\<rparr>"
    using r by (auto simp: dep_lock_def deref_def try_acquire_def)
  with ok a have "dep_ok E {} {} w' p" by (auto simp: dep_ok_def ptr_def only_uses_def)
  ultimately show ?thesis by blast
qed

lemma deps_lock_items:
  assumes "deps_base E X Y w p" and "set js \<subseteq> set (w_used w p)" and "fold_res (deps_lock_item p) js w = Inr w'"
  shows "deps_base E X Y w' p"
  using assms
proof (induction js arbitrary: w)
  case (Cons j js)
  from Cons.prems(3) obtain w1 where w1: "deps_lock_item p j w = Inr w1" "fold_res (deps_lock_item p) js w1 = Inr w'" by auto
  have "deps_base E X Y w1 p \<and> w_used w1 p = w_used w p"
  proof (cases "w_running w j")
    case True
    from set_lock_ok [OF Cons.prems(1), of j True] obtain v where v: "usage_set_lock p j True w = Inr v" "deps_base E X Y v p" "w_used v p = w_used w p" by blast
    with storage_ok(1) [OF v(2), of j UpdateImplicit] Cons.prems(2) w1(1) True show ?thesis by (auto simp: deps_lock_item_def)
  next
    case False
    from set_reply_ok [OF Cons.prems(1), of j UseLaterAndNotify] obtain v where v: "usage_set_reply p j UseLaterAndNotify w = Inr v"
      "deps_base E X Y v p" "w_used v p = w_used w p" by blast
    with storage_ok(2) [OF v(2), of j UpdateImplicit] w1(1) False show ?thesis by (auto simp: deps_lock_item_def)
  qed
  with Cons.IH [OF _ _ w1(2)] Cons.prems(2) show ?case by simp
qed simp

lemma deps_lock_ok:
  assumes ok: "deps_ok E {} {} w p" and r: "deps_lock p (with_lock p True w) = Inr w'"
  shows "deps_ok E {} {} w' p \<and> unaffected p (with_lock p True w) w'"
proof -
  have f: "unaffected p (with_lock p True w) w'" by (rule local_toD [OF local_lock_items(1) r])
  have "deps_base E {} {} (with_lock p True w) p" using ok by (simp add: deps_ok_def deps_base_def ptr_def only_uses_def)
  from deps_lock_items [OF this _ r [unfolded deps_lock_def each_def]] have "deps_base E {} {} w' p" by simp
  with f show ?thesis by (simp add: deps_ok_def unaffectedD [OF f])
qed

lemma lock_ok:
  assumes inv: "settled E w" and l: "lockable w p" and r: "onImportLock E p (with_lock p True w) = Inr w'"
  shows "settled E w'"
proof -
  have p: "p \<in> set (w_subscribers w)" "\<not> w_locked w p" using l by (simp_all add: lockable_def)
  have "part_ok E {} {} w' p \<and> unaffected p (with_lock p True w) w'"
  proof (cases "part_class_of E p")
    case Dependency
    with imports_invD [OF inv p(1)] r dep_lock_ok [OF _ p(2)] show ?thesis by (simp add: part_ok_def onImportLock_def)
  next
    case DynDependency
    with r local_toD [OF local_dyn_lock] show ?thesis by (simp add: part_ok_def onImportLock_def)
  next
    case DynDependencies
    with imports_invD [OF inv p(1)] r deps_lock_ok [of E w p] show ?thesis by (simp add: part_ok_def onImportLock_def)
  qed
  with settled_lock [OF inv p(1)] show ?thesis by blast
qed

lemma set_locks:
  assumes "deps_base E X Y w p" and "fold_res (\<lambda>i. usage_set_lock p i b) js w = Inr w'"
  shows "deps_base E X Y w' p \<and> w_map w' p = w_map w p \<and> w_used w' p = w_used w p"
  using assms
proof (induction js arbitrary: w)
  case (Cons j js)
  from Cons.prems(2) obtain w1 where w1: "usage_set_lock p j b w = Inr w1" "fold_res (\<lambda>i. usage_set_lock p i b) js w1 = Inr w'" by auto
  from set_lock_ok [OF Cons.prems(1), of j b] w1(1) have "deps_base E X Y w1 p" "w_map w1 p = w_map w p" "w_used w1 p = w_used w p" by auto
  with Cons.IH [OF _ w1(2)] show ?case by simp
qed simp

lemma unlock_item:
  assumes b: "deps_base E X Y w p" and i: "i \<in> set (w_map w p)" and r: "deps_unlock_item p i w = Inr w'"
  shows "deps_base E X Y w' p \<and> set (w_map w' p) = set (w_map w p) \<and> set (w_used w' p) = insert i (set (w_used w p))"
proof (cases "i \<in> set (w_used w p)")
  case True
  then show ?thesis using storage_ok(1) [OF b True, of UpdateImplicit] r by (auto simp: deps_unlock_item_def only_if_def usage_is_connected_def)
next
  case False
  from set_reply_ok [OF b, of i UseLater] obtain w1 where w1: "usage_set_reply p i UseLater w = Inr w1" "deps_base E X Y w1 p"
    "w_map w1 p = w_map w p" "w_used w1 p = w_used w p" by blast
  from deps_prims(2) [OF w1(2), of i] i False w1 obtain w2 where w2: "item_connect p i w1 = Inr w2" "deps_base E X Y w2 p"
    "set (w_map w2 p) = set (w_map w p)" "set (w_used w2 p) = insert i (set (w_used w p))" by (auto elim: deps_doE)
  with storage_ok(1) [OF w2(2), of i UpdateImplicit] r w1(1) False show ?thesis
    by (auto simp: deps_unlock_item_def only_if_def usage_is_connected_def)
qed

lemma unlock_items:
  assumes "deps_base E X Y w p" and "set js \<subseteq> set (w_map w p)" and "fold_res (deps_unlock_item p) js w = Inr w'"
  shows "deps_base E X Y w' p \<and> set (w_map w' p) = set (w_map w p) \<and> set (w_used w' p) = set js \<union> set (w_used w p)"
  using assms
proof (induction js arbitrary: w)
  case (Cons j js)
  from Cons.prems(3) obtain w1 where w1: "deps_unlock_item p j w = Inr w1" "fold_res (deps_unlock_item p) js w1 = Inr w'" by auto
  from unlock_item [OF Cons.prems(1) _ w1(1)] Cons.prems(2) Cons.IH [OF _ _ w1(2)] show ?case by auto
qed simp

lemma deps_unlock_ok:
  assumes ok: "deps_ok E {} {} w p" and r: "deps_unlock p w = Inr w'"
  shows "deps_ok E {} {} (with_lock p False w') p"
proof -
  have b: "deps_base E {} {} w p" using ok by (simp add: deps_ok_def)
  from r obtain w1 where w1: "fold_res (\<lambda>i. usage_set_lock p i False) (w_used w p) w = Inr w1"
    "fold_res (deps_unlock_item p) (w_map w1 p) w1 = Inr w'" by (auto simp: deps_unlock_def each_def)
  from set_locks [OF b w1(1)] have b1: "deps_base E {} {} w1 p" by simp
  from unlock_items [OF b1 order_refl w1(2)] have b2: "deps_base E {} {} w' p" "set (w_map w' p) = set (w_map w1 p)"
    "set (w_used w' p) = set (w_map w1 p) \<union> set (w_used w1 p)" by auto
  moreover have "set (w_used w1 p) \<subseteq> set (w_map w1 p)" using b1 by (simp add: deps_base_def)
  moreover have "deps_base E {} {} (with_lock p False w') p" using b2(1) by (simp add: deps_base_def ptr_def only_uses_def)
  ultimately show ?thesis by (auto simp: deps_ok_def)
qed

lemma dep_unlock_ok:
  assumes "priority (gt E)" and ok: "dep_ok E {} {} w p" and l: "w_locked w p" and s: "sorted_wrt (GreaterPred (gt E)) (w_interfaces w)"
    and r: "dep_unlock E p w = Inr w'"
  shows "dep_ok E {} {} (with_lock p False w') p"
proof -
  from r obtain i a where a: "w_ref w (Active p) = Some (i, a)" by (auto simp: dep_unlock_def deref_def split: option.splits)
  with ok l have i: "i \<in> set (w_interfaces w)" "a" "w_running w i" by (auto simp: dep_ok_def)
  then obtain f js where f: "w_interfaces w = f # js" by (cases "w_interfaces w") auto
  have top: "\<not> gt E j f" if "j \<in> set (w_interfaces w)" for j
    using priority.head_not_below [OF assms(1)] s that f by metis
  define higher where "higher \<longleftrightarrow> f \<noteq> i \<and> gt E f i"
  have r1: "(if higher then run [setSatisfied p False, disconnect_use (Active p), (\<lambda>w. dep_select E p (hd (w_interfaces w)) w), setSatisfied p True] w
      else only_if (\<lambda>w. \<not> is_default E i) (disown (Active p)) w) = Inr w'"
    using r a i f by (auto simp: dep_unlock_def deref_def registry_contains_higher_priority_def higher_def)
  show ?thesis
  proof (cases higher)
    case False
    then have "\<not> gt E f i" using priority.not_self [OF assms(1)] by (auto simp: higher_def)
    then have "\<not> gt E j i" if "j \<in> set (w_interfaces w)" for j
      using top [OF that] priority.neg_trans [OF assms(1), of j i f] by blast
    with r1 False ok a l i show ?thesis
      by (cases "is_default E i") (auto simp: only_if_def disown_def dep_ok_def ptr_def only_uses_def)
  next
    case True
    define w1 where "w1 = w\<lparr>w_satisfied := (w_satisfied w)(p := False), w_connected := (w_connected w)(Active p := False),
      w_users := (w_users w)(i := remove1 (Active p) (w_users w i)),
      w_calls := w_calls w @ (if w_satisfied w p then [CSatisfied p False] else []) @ [CDisconnect (Active p) i]\<rparr>"
    have pre: "run [setSatisfied p False, disconnect_use (Active p)] w = Inr w1"
      using ok a by (simp add: setSatisfied_eq disconnect_use_eq dep_ok_def ptr_def w1_def)
    have "\<not> w_connected w1 (Active p)" "\<forall>j. count_list (w_users w1 j) (Active p) = 0" "w_interfaces w1 = f # js" "only_uses w1 p (\<lambda>u. u = Active p)"
      using ok a f by (auto simp: w1_def dep_ok_def ptr_def only_uses_def)
    moreover from pre r1 True have "run [dep_select E p (hd (w_interfaces w1)), setSatisfied p True] w1 = Inr w'" by auto
    ultimately show ?thesis using top f
      by (auto simp: dep_select_def use_eqs reference_of_def dep_ok_def ptr_def only_uses_def)
  qed
qed

lemma local_dep_unlock [framed]: "local_to p (dep_unlock E p)"
proof -
  have "local_to p (\<lambda>w. dep_select E p (hd (w_interfaces w)) w)" by (rule local_arg) (rule framed)
  then show ?thesis unfolding dep_unlock_def by (intro framed) simp_all
qed

lemma unlock_ok:
  assumes "priority (gt E)" and inv: "settled E w" and p: "p \<in> set (w_subscribers w)" "w_locked w p" and r: "onImportUnlock E p w = Inr w'"
  shows "settled E (w'\<lparr>w_locked := (w_locked w')(p := False), w_epoch := (w_epoch w')(p := n)\<rparr>)"
proof -
  let ?w = "w'\<lparr>w_locked := (w_locked w')(p := False), w_epoch := (w_epoch w')(p := n)\<rparr>"
  have f: "unaffected p w w'"
    using r by (cases "part_class_of E p")
      (simp_all add: onImportUnlock_def local_toD [OF local_dep_unlock] local_toD [OF local_dyn_unlock] local_toD [OF local_lock_items(2)])
  have "part_ok E {} {} (with_lock p False w') p"
  proof (cases "part_class_of E p")
    case Dependency
    with imports_invD [OF inv p(1)] r dep_unlock_ok [OF assms(1) _ p(2) imports_inv_fields(1) [OF inv]]
    show ?thesis by (simp add: part_ok_def onImportUnlock_def)
  next
    case DynDependencies
    with imports_invD [OF inv p(1)] r deps_unlock_ok [of E w p] show ?thesis by (simp add: part_ok_def onImportUnlock_def)
  qed (simp add: part_ok_def)
  moreover have "others_same p w (with_lock p False w')" using unaffected_others [OF f] by (simp add: others_same_def)
  ultimately have "settled E (with_lock p False w')"
    using imports_inv_fields(2) [OF inv] p by (intro settled_step [OF inv]) (auto simp: unaffectedD [OF f])
  moreover have "imports_inv E X Y (v\<lparr>w_epoch := e\<rparr>) = imports_inv E X Y v" for X Y v e
  proof -
    have "others_same q v (v\<lparr>w_epoch := e\<rparr>)" for q by (simp add: others_same_def)
    then have "part_ok E A B (v\<lparr>w_epoch := e\<rparr>) q = part_ok E A B v q" "only_uses (v\<lparr>w_epoch := e\<rparr>) q P = only_uses v q P" for A B q P
      using others_part_ok [of "Suc q" v "v\<lparr>w_epoch := e\<rparr>" q] others_only_uses [of "Suc q" v "v\<lparr>w_epoch := e\<rparr>" q] by auto
    then show ?thesis by (simp add: imports_inv_def)
  qed
  ultimately show ?thesis by simp
qed

end
