(* ===== verification/Import_Props.thy ===== *)
theory Import_Props
  imports Import_Hooks
begin

text \<open>The remaining steps, and the properties of the import parts in every reachable state.\<close>

section \<open>The services behind the interfaces\<close>

lemma part_ok_running:
  assumes "part_ok E X Y w p"
    and "part_class_of E p = Dependency \<Longrightarrow> w_locked w p \<Longrightarrow> (\<And>j. ptr w (Active p) = Some j \<Longrightarrow> w_running w j \<Longrightarrow> f j)"
  shows "part_ok E X Y (w\<lparr>w_running := f\<rparr>) p"
proof (cases "part_class_of E p")
  case Dependency
  with assms show ?thesis
    by (cases "w_ref w (Active p)") (auto simp: part_ok_def dep_ok_def ptr_def only_uses_def)
next
  case DynDependencies
  with assms(1) show ?thesis by (simp add: part_ok_def deps_ok_def deps_base_def ptr_def only_uses_def)
qed (simp add: part_ok_def)

lemma part_ok_up:
  assumes "part_ok E X Y w p" and "\<And>j. w_up w j \<Longrightarrow> f j \<or> j \<in> Z" and "Y \<subseteq> Z" and "part_class_of E p = Dependency \<Longrightarrow> Z = Y"
  shows "part_ok E X Z (w\<lparr>w_up := f\<rparr>) p"
proof (cases "part_class_of E p")
  case Dependency
  with assms show ?thesis by (cases "w_ref w (Active p)") (auto simp: part_ok_def dep_ok_def ptr_def only_uses_def)
next
  case DynDependencies
  with assms(1) have b: "deps_base E X Y w p" and c: "\<not> w_locked w p \<longrightarrow> (\<forall>i \<in> set (w_map w p) - set (w_used w p). w_up w i \<or> contains (onInspect E p i) df_Ignore \<or> i \<in> Y)"
    by (simp_all add: part_ok_def deps_ok_def)
  from b assms(3) have "deps_base E X Z (w\<lparr>w_up := f\<rparr>) p" by (auto simp: deps_base_def ptr_def only_uses_def)
  with c assms(2,3) DynDependencies show ?thesis by (auto simp: part_ok_def deps_ok_def)
qed (simp add: part_ok_def)

lemma imports_inv_same:
  assumes "imports_inv E X Y w" and "w_interfaces w' = w_interfaces w" "w_subscribers w' = w_subscribers w" "w_locked w' = w_locked w"
    and "\<And>p. only_uses w' p (\<lambda>u. False) = only_uses w p (\<lambda>u. False)"
    and "\<And>p. p \<in> set (w_subscribers w) \<Longrightarrow> part_ok E (X p) (Y p) w p \<Longrightarrow> part_ok E (X p) (Z p) w' p"
  shows "imports_inv E X Z w'"
  unfolding imports_inv_def
proof (intro conjI allI)
  note fd = imports_inv_fields [OF assms(1)]
  show "sorted_wrt (GreaterPred (gt E)) (w_interfaces w')" "distinct (w_subscribers w')" using fd(1,2) assms(2,3) by simp_all
  fix p
  show "if p \<in> set (w_subscribers w') then part_ok E (X p) (Z p) w' p
      else part_class_of E p \<noteq> DynDependency \<longrightarrow> \<not> w_locked w' p \<and> only_uses w' p (\<lambda>u. False)"
    using assms(6) [OF _ imports_invD [OF assms(1)], of p] fd(3) [of p] assms(3,4,5) by simp
qed

lemma connected_legal:
  assumes "settled E w" and "w_connected w u"
  shows "legal_user E w u"
proof (cases "part_class_of E (user_of u) = DynDependency")
  case False
  have p: "user_of u \<in> set (w_subscribers w)"
  proof (rule ccontr)
    assume "user_of u \<notin> set (w_subscribers w)"
    from imports_inv_fields(3) [OF assms(1) this False] assms(2) show False by (auto simp: only_uses_def)
  qed
  from imports_invD [OF assms(1) p] assms(2) False p show ?thesis
    by (cases "part_class_of E (user_of u)") (auto simp: legal_user_def part_ok_def dep_ok_def deps_ok_def deps_base_def only_uses_def)
qed (simp add: legal_user_def)

lemma settled_dyn: "settled E w \<Longrightarrow> unaffected p w w' \<Longrightarrow> part_class_of E p = DynDependency \<Longrightarrow> settled E w'"
  by (rule imports_inv_dyn)

lemma item_started_ok:
  assumes b: "deps_base E X Y w p" and i: "i \<in> set (w_used w p)" and r: "item_used_started E p i w = Inr w'"
  shows "deps_base E X Y w' p \<and> w_map w' p = w_map w p \<and> w_used w' p = w_used w p"
  using storage_ok(1) [OF b i, of UpdateAuto] r b
  by (cases "w_reply w (Item p i)") (auto simp: item_used_started_def Let_def only_if_def split: if_splits)

lemma used_started_ok:
  assumes inv: "settled E w" and u: "legal_user E w u" and i: "part_class_of E (user_of u) = DynDependencies \<Longrightarrow> i \<in> set (w_used w (user_of u))"
    and r: "onUsedStarted E i u w = Inr w'"
  shows "settled E w' \<and> w_subscribers w' = w_subscribers w \<and> (\<forall>p. part_class_of E p = DynDependencies \<longrightarrow> w_used w' p = w_used w p)"
proof (cases "part_class_of E (user_of u)")
  case Dependency
  with u obtain p where "u = Active p" "part_class_of E p = Dependency" by (auto simp: legal_user_def)
  with r have "w' = w" by auto
  with inv show ?thesis by simp
next
  case DynDependency
  have "local_to (user_of u) (onUsedStarted E i u)"
    using DynDependency by (cases u) (simp_all add: framed)
  from local_toD [OF this r] have f: "unaffected (user_of u) w w'" .
  from settled_dyn [OF inv f DynDependency] show ?thesis
    using unaffectedD [OF f] unaffected_partD(5) [OF f] DynDependency by (metis part_class.distinct(5))
next
  case DynDependencies
  with u obtain j where j: "u = Item (user_of u) j" and p: "user_of u \<in> set (w_subscribers w)" by (auto simp: legal_user_def)
  have s: "item_used_started E (user_of u) i w = Inr w'" using r by (subst (asm) j) simp
  have f: "unaffected (user_of u) w w'" by (rule local_toD [OF local_item_used_started s])
  have ok: "deps_ok E {} {} w (user_of u)" using imports_invD [OF inv p] DynDependencies by (simp add: part_ok_def)
  then have "deps_base E {} {} w (user_of u)" by (simp add: deps_ok_def)
  from item_started_ok [OF this i [OF DynDependencies] s] have s': "deps_base E {} {} w' (user_of u)" "w_map w' (user_of u) = w_map w (user_of u)"
    "w_used w' (user_of u) = w_used w (user_of u)" by auto
  with ok DynDependencies have "part_ok E {} {} w' (user_of u)" by (simp add: part_ok_def deps_ok_def unaffectedD [OF f])
  from settled_local [OF inv f this p] show ?thesis using unaffectedD [OF f] unaffected_partD(5) [OF f] s'(3) by metis
qed

lemma users_started:
  assumes "settled E w" and "\<forall>u\<in>set us. legal_user E w u \<and> (part_class_of E (user_of u) = DynDependencies \<longrightarrow> i \<in> set (w_used w (user_of u)))"
    and "fold_res (\<lambda>u. only_if (\<lambda>w. w_locked w (user_of u)) (onUsedStarted E i u)) us w = Inr w'"
  shows "settled E w'"
  using assms
proof (induction us arbitrary: w)
  case (Cons u us)
  from Cons.prems(3) obtain w1 where w1: "only_if (\<lambda>w. w_locked w (user_of u)) (onUsedStarted E i u) w = Inr w1"
    "fold_res (\<lambda>u. only_if (\<lambda>w. w_locked w (user_of u)) (onUsedStarted E i u)) us w1 = Inr w'" by auto
  have "settled E w1 \<and> w_subscribers w1 = w_subscribers w \<and> (\<forall>p. part_class_of E p = DynDependencies \<longrightarrow> w_used w1 p = w_used w p)"
    using used_started_ok [OF Cons.prems(1), of u i w1] Cons.prems(1,2) w1(1) by (auto simp: only_if_def split: if_splits)
  with Cons.IH [OF _ _ w1(2)] Cons.prems(2) show ?case by (auto simp: legal_user_def)
qed simp

lemma started_ok:
  assumes inv: "settled E w" and r: "onInterfaceStart E i (w\<lparr>w_running := (w_running w)(i := True)\<rparr>) = Inr w'"
  shows "settled E w'"
proof -
  define w1 where "w1 = w\<lparr>w_running := (w_running w)(i := True)\<rparr>"
  have inv1: "settled E w1"
    by (rule imports_inv_same [OF inv]) (auto simp: w1_def only_uses_def intro: part_ok_running)
  have "i \<in> set (w_used w1 (user_of u))" if "u \<in> set (w_users w1 i)" "part_class_of E (user_of u) = DynDependencies" for u
  proof -
    from users_legal [OF inv1 that(1)] that(2) obtain j where j: "u = Item (user_of u) j" and p: "user_of u \<in> set (w_subscribers w1)"
      by (auto simp: legal_user_def)
    have "count_list (w_users w1 i) u \<noteq> 0" using that(1) by (simp add: count_list_0_iff)
    moreover have "deps_base E {} {} w1 (user_of u)" using imports_invD [OF inv1 p] that(2) by (simp add: part_ok_def deps_ok_def)
    ultimately show ?thesis using deps_itemD(3) [of E "{}" "{}" w1 "user_of u" i j] j by (auto split: if_splits)
  qed
  then show ?thesis using users_started [OF inv1, of "w_users w1 i" i w'] users_legal [OF inv1, of _ i] r
    by (simp add: onInterfaceStart_def each_def w1_def)
qed

lemma stopped_ok:
  assumes inv: "settled E w" and u: "\<forall>u \<in> set (w_users w i). \<not> w_locked w (user_of u)"
  shows "settled E (w\<lparr>w_running := (w_running w)(i := False)\<rparr>)"
proof (rule imports_inv_same [OF inv])
  fix p assume p: "p \<in> set (w_subscribers w)" "part_ok E {} {} w p"
  show "part_ok E {} {} (w\<lparr>w_running := (w_running w)(i := False)\<rparr>) p"
  proof (rule part_ok_running [OF p(2)])
    fix j assume c: "part_class_of E p = Dependency" and l: "w_locked w p" and j: "ptr w (Active p) = Some j" "w_running w j"
    have "j \<noteq> i"
    proof
      assume "j = i"
      with p(2) c j have "count_list (w_users w i) (Active p) = 1" by (auto simp: part_ok_def dep_ok_def ptr_def)
      then have "Active p \<in> set (w_users w i)" using count_notin [of "Active p" "w_users w i"] by auto
      with u l show False by auto
    qed
    with j(2) show "((w_running w)(i := False)) j" by simp
  qed
qed (auto simp: only_uses_def)

lemma interface_locked_ok:
  assumes inv: "settled E w" and r: "onInterfaceLock E i (w\<lparr>w_up := (w_up w)(i := True)\<rparr>) = Inr w'"
  shows "settled E w'"
proof -
  have "fold_res (call_filtered E ev_OnLock (onSubscribedLock E i)) ps v = Inr v" for ps v
    by (induction ps) (auto simp: call_filtered_def only_if_def onSubscribedLock_def)
  with r have "w' = w\<lparr>w_up := (w_up w)(i := True)\<rparr>" by (simp add: onInterfaceLock_def each_def)
  then show ?thesis by (auto intro!: imports_inv_same [OF inv] part_ok_up simp: only_uses_def)
qed

lemma filter_unlocked: "contains (subscriber_filter DynDependencies) ev_OnUnlocked"
  by (simp, code_simp)

lemma subscribers_unlocked:
  assumes "imports_inv E informed (\<lambda>p. if p \<in> set ps \<and> part_class_of E p = DynDependencies then {i} else {}) w" and "i \<in> set (w_interfaces w)"
    and "set ps \<subseteq> set (w_subscribers w)" and "distinct ps" and "fold_res (call_filtered E ev_OnUnlocked (onSubscribedUnlocked E i)) ps w = Inr w'"
  shows "settled E w'"
  using assms
proof (induction ps arbitrary: w)
  case (Cons p ps)
  from Cons.prems(5) obtain w1 where w1: "call_filtered E ev_OnUnlocked (onSubscribedUnlocked E i) p w = Inr w1"
    "fold_res (call_filtered E ev_OnUnlocked (onSubscribedUnlocked E i)) ps w1 = Inr w'" by auto
  let ?Y = "\<lambda>ps p. if p \<in> set ps \<and> part_class_of E p = DynDependencies then {i} else {}"
  have p: "p \<in> set (w_subscribers w)" "p \<notin> set ps" using Cons.prems(3,4) by auto
  have Y: "(?Y (p # ps))(p := {}) = ?Y ps" using p(2) by (auto simp: fun_eq_iff)
  show ?case
  proof (cases "part_class_of E p = DynDependencies")
    case True
    then have a: "process_availability E p i w = Inr w1" using w1(1)
      by (auto simp: call_filtered_def only_if_def onSubscribedUnlocked_def deps_subscribed_unlocked_def filter_unlocked simp del: subscriber_filter.simps)
    have f: "unaffected p w w1" by (rule local_toD [OF local_availability a])
    have "deps_ok E {} {i} w p" using imports_invD [OF Cons.prems(1) p(1)] True by (simp add: part_ok_def)
    from availability_ok [OF this Cons.prems(2)] a have "part_ok E {} {} w1 p" using True by (simp add: part_ok_def)
    from imports_inv_local [OF Cons.prems(1) f p(1) this] have "imports_inv E informed (?Y ps) w1" unfolding Y by (simp add: fun_upd_idem)
    from Cons.IH [OF this _ _ _ w1(2)] Cons.prems(2-4) show ?thesis by (simp add: unaffectedD [OF f])
  next
    case False
    then have "w1 = w" using w1(1) by (cases "part_class_of E p") (auto simp: call_filtered_def only_if_def onSubscribedUnlocked_def split: if_splits)
    moreover have "?Y (p # ps) = ?Y ps" using False by (auto simp: fun_eq_iff)
    ultimately show ?thesis using Cons.IH [OF _ _ _ _ w1(2)] Cons.prems(1-4) by auto
  qed
qed simp

lemma interface_unlocked_ok:
  assumes inv: "settled E w" and i: "i \<in> set (w_interfaces w)" and r: "onInterfaceUnlock E i (w\<lparr>w_up := (w_up w)(i := False)\<rparr>) = Inr w'"
  shows "settled E w'"
proof -
  let ?w = "w\<lparr>w_up := (w_up w)(i := False)\<rparr>"
  have "imports_inv E informed (\<lambda>p. if p \<in> set (w_subscribers ?w) \<and> part_class_of E p = DynDependencies then {i} else {}) ?w"
  proof (rule imports_inv_same [OF inv])
    fix p assume p: "p \<in> set (w_subscribers w)" "part_ok E {} {} w p"
    show "part_ok E {} (if p \<in> set (w_subscribers ?w) \<and> part_class_of E p = DynDependencies then {i} else {}) ?w p"
      using part_ok_up [OF p(2), of "(w_up w)(i := False)" "{i}"] part_ok_up [OF p(2), of "w_up w" "{}"] p
      by (cases "part_class_of E p") (auto simp: part_ok_def dep_ok_def ptr_def only_uses_def split: option.splits)
  qed (auto simp: only_uses_def)
  from subscribers_unlocked [OF this _ _ _ r [unfolded onInterfaceUnlock_def each_def]] i imports_inv_fields(2) [OF inv] show ?thesis by simp
qed

section \<open>Requests of the users\<close>

lemma unaffected_dyn_release: "dyn_release E p i w = Inr (r, w') \<Longrightarrow> unaffected p w w'"
  using local_toD [OF local_reconnect] by (auto simp: dyn_release_def split: if_splits)

lemma item_release_ok:
  assumes ok: "deps_ok E {} {} w p" and up: "w_up w i" and r: "item_release E p i w = Inr (rep, w')"
  shows "deps_ok E {} {} w' p \<and> unaffected p w w'"
proof (cases "rep = Now")
  case False
  then have "w' = w" using r by (auto simp: item_release_def Let_def only_if_def split: if_splits)
  with ok show ?thesis by simp
next
  case True
  let ?f = "run [require (\<lambda>w. usage_is_connected p i w), require (\<lambda>w. i \<in> set (w_map w p)), usage_erase_from_storage p i UpdateAuto,
      item_disconnect p i, usage_set_lock p i False]"
  have f: "?f w = Inr w'" using r True by (auto simp: item_release_def Let_def only_if_def split: if_splits)
  have b: "deps_base E {} {} w p" using ok by (simp add: deps_ok_def)
  have u: "i \<in> set (w_used w p)" using f by (auto simp: usage_is_connected_def)
  from storage_ok(2) [OF b, of i UpdateAuto] obtain w1 where w1: "usage_erase_from_storage p i UpdateAuto w = Inr w1"
    "deps_base E {} {} w1 p" "w_map w1 p = w_map w p" "w_used w1 p = w_used w p" "w_storage w1 (Item p i) = erased" by auto
  from deps_prims(3) [OF w1(2), of i] u w1 obtain w2 where w2: "item_disconnect p i w1 = Inr w2" "deps_base E {} {} w2 p"
    "set (w_map w2 p) = set (w_map w p)" "set (w_used w2 p) = set (w_used w p) - {i}" by (auto elim: deps_doE)
  from set_lock_ok [OF w2(2), of i False] f w1(1) w2(1) have w': "deps_base E {} {} w' p" "w_map w' p = w_map w2 p" "w_used w' p = w_used w2 p" by auto
  have "local_to p ?f" by (intro framed)
  from local_toD [OF this f] have fr: "unaffected p w w'" .
  with w' w2 ok up show ?thesis by (auto simp: deps_ok_def unaffectedD [OF fr])
qed

lemma release_ok:
  assumes inv: "settled E w" and c: "w_connected w u" and up: "w_up w i" and r: "onReleaseRequest E i u w = Inr (rep, w')"
  shows "settled E w'"
proof (cases "part_class_of E (user_of u)")
  case Dependency
  with connected_legal [OF inv c] r show ?thesis using inv by (cases u) (auto simp: legal_user_def)
next
  case DynDependency
  have "unaffected (user_of u) w w'"
  proof (cases u)
    case (Item p j)
    have "local_to p (run [require (\<lambda>w. usage_is_connected p i w), require (\<lambda>w. i \<in> set (w_map w p)), usage_erase_from_storage p i UpdateAuto,
      item_disconnect p i, usage_set_lock p i False])" by (intro framed)
    from local_toD [OF this, of w w'] r Item show ?thesis
      by (auto simp: item_release_def Let_def only_if_def simp del: run.simps split: if_splits)
  qed (use r DynDependency unaffected_dyn_release in auto)
  with settled_dyn [OF inv _ DynDependency] show ?thesis by blast
next
  case DynDependencies
  with connected_legal [OF inv c] obtain j where j: "u = Item (user_of u) j" and p: "user_of u \<in> set (w_subscribers w)"
    by (auto simp: legal_user_def)
  have s: "item_release E (user_of u) i w = Inr (rep, w')" using r by (subst (asm) j) simp
  have "deps_ok E {} {} w (user_of u)" using imports_invD [OF inv p] DynDependencies by (simp add: part_ok_def)
  from item_release_ok [OF this up s] settled_local [OF inv _ _ p, of w'] DynDependencies show ?thesis by (simp add: part_ok_def)
qed

lemma settled_offers: "settled E w \<Longrightarrow> settled E (w\<lparr>w_offers := xs\<rparr>)"
proof (erule imports_inv_same)
  fix p assume "part_ok E {} {} w p"
  then show "part_ok E {} {} (w\<lparr>w_offers := xs\<rparr>) p"
    using others_part_ok [of "Suc p" w "w\<lparr>w_offers := xs\<rparr>" p E "{}" "{}"] by (simp add: others_same_def)
qed (simp_all add: only_uses_def)

lemma swap_ok:
  assumes inv: "settled E w" and c: "part_class_of E (fst a) = DynDependency" and r: "dyn_apply E usable a (w\<lparr>w_offers := xs\<rparr>) = Inr (b, w')"
  shows "settled E w'"
proof -
  obtain p e f to where a: "a = (p, e, f, to)" by (cases a)
  have "local_to p (run [store_userspace p (Some to), dyn_finalize E p])" by (intro framed)
  from local_toD [OF this, of "w\<lparr>w_offers := xs\<rparr>" w'] r have "unaffected p (w\<lparr>w_offers := xs\<rparr>) w'"
    by (auto simp: dyn_apply_def a simp del: run.simps split: if_splits)
  from settled_dyn [OF settled_offers [OF inv] this] c show ?thesis by (simp add: a)
qed

lemma deps_base_storage:
  assumes "deps_base E X Y w p" and "i \<in> set (w_used w p) \<or> s = erased"
  shows "deps_base E X Y (w\<lparr>w_storage := (w_storage w)(Item p i := s)\<rparr>) p"
proof -
  have "only_uses (w\<lparr>w_storage := (w_storage w)(Item p i := s)\<rparr>) p P = only_uses w p P" for P by (simp add: only_uses_def)
  moreover have "ptr (w\<lparr>w_storage := (w_storage w)(Item p i := s)\<rparr>) = ptr w" by (simp add: ptr_def fun_eq_iff)
  ultimately show ?thesis using assms by (simp add: deps_base_def) blast
qed

lemma acquire_item:
  assumes b: "deps_base E X Y w p" and i: "i \<in> set (w_map w p)"
    and r: "run [usage_set_storage_state p i unknown, only_if (\<lambda>w. \<not> usage_is_connected p i w) (run [usage_set_lock p i True, item_connect p i])] w = Inr w'"
  shows "deps_base E X Y w' p"
proof (cases "i \<in> set (w_used w p)")
  case True
  with r have "w' = w\<lparr>w_storage := (w_storage w)(Item p i := unknown)\<rparr>"
    by (simp add: usage_set_storage_state_def only_if_def usage_is_connected_def)
  with deps_base_storage [OF b] True show ?thesis by simp
next
  case False
  from deps_ref [OF b i] obtain a where a: "w_ref w (Item p i) = Some (i, a)" by blast
  have c: "\<not> w_connected w (Item p i)" "\<forall>j. count_list (w_users w j) (Item p i) = 0" using deps_itemD [OF b] False by simp_all
  from r a c False have "w' = w\<lparr>w_storage := (w_storage w)(Item p i := unknown), w_ref := (w_ref w)(Item p i \<mapsto> (i, True)),
      w_used := (w_used w)(p := w_used w p @ [i]), w_connected := (w_connected w)(Item p i := True),
      w_users := (w_users w)(i := w_users w i @ [Item p i]), w_calls := w_calls w @ [CConnect (Item p i) i (w_weak w (Item p i))]\<rparr>"
    by (auto simp: usage_set_storage_state_def usage_set_lock_def try_acquire_def item_defs)
  then show ?thesis using b i False by (auto simp: deps_base_def ptr_def only_uses_def)
qed

lemma acquire_ok:
  assumes inv: "settled E w" and p: "p \<in> set (w_subscribers w)" "part_class_of E p = DynDependencies" and i: "i \<in> set (w_interfaces w)"
    and r: "doAcquireUsage E p i w = Inr w'"
  shows "settled E w'"
proof (cases "w_locked w p")
  case False
  with r inv show ?thesis by (simp add: doAcquireUsage_def only_if_def)
next
  case True
  have b: "deps_base E {} {} w p" using imports_invD [OF inv p(1)] p(2) by (simp add: part_ok_def deps_ok_def)
  have f: "unaffected p w w'" by (rule local_toD [OF local_doAcquire r])
  define w1 where "w1 = (if i \<in> set (w_map w p) then w else projr (item_insert p i (onInspect E p i) w))"
  have w1: "deps_base E {} {} w1 p \<and> i \<in> set (w_map w1 p) \<and> only_if (\<lambda>w. i \<notin> set (w_map w p)) (item_insert p i (onInspect E p i)) w = Inr w1"
    using b deps_prims(1) [OF b, of i "onInspect E p i"] i by (auto simp: w1_def only_if_def elim!: deps_doE)
  with r True have "run [usage_set_storage_state p i unknown, only_if (\<lambda>w. \<not> usage_is_connected p i w) (run [usage_set_lock p i True, item_connect p i])] w1 = Inr w'"
    by (auto simp: doAcquireUsage_def only_if_def [of "\<lambda>w. w_locked w p"])
  with acquire_item w1 have "deps_base E {} {} w' p" by blast
  then have "part_ok E {} {} w' p" using True p(2) by (simp add: part_ok_def deps_ok_def unaffectedD [OF f])
  from settled_local [OF inv f this p(1)] show ?thesis .
qed

lemma give_back_ok:
  assumes inv: "settled E w" and p: "p \<in> set (w_subscribers w)" "part_class_of E p = DynDependencies" and r: "doReleaseUsage p i w = Inr w'"
  shows "settled E w'"
proof (cases "w_locked w p \<and> i \<in> set (w_map w p)")
  case False
  with r inv show ?thesis by (auto simp: doReleaseUsage_def only_if_def)
next
  case True
  have b: "deps_base E {} {} w p" using imports_invD [OF inv p(1)] p(2) by (simp add: part_ok_def deps_ok_def)
  have f: "unaffected p w w'" by (rule local_toD [OF local_lock_items(3) r])
  define w1 where "w1 = w\<lparr>w_storage := (w_storage w)(Item p i := erased)\<rparr>"
  have b1: "deps_base E {} {} w1 p" unfolding w1_def by (rule deps_base_storage [OF b]) simp
  have r1: "only_if (\<lambda>w. usage_is_connected p i w) (run [item_disconnect p i, usage_set_lock p i False]) w1 = Inr w'"
    using r True by (simp add: doReleaseUsage_def only_if_def [of "\<lambda>w. w_locked w p \<and> i \<in> set (w_map w p)"] usage_set_storage_state_def w1_def)
  have "deps_base E {} {} w' p"
  proof (cases "i \<in> set (w_used w1 p)")
    case True
    from deps_prims(3) [OF b1 True] obtain w2 where w2: "item_disconnect p i w1 = Inr w2" "deps_base E {} {} w2 p"
      by (auto simp: w1_def elim: deps_doE)
    with set_lock_ok [OF w2(2), of i False] r1 True show ?thesis by (auto simp: only_if_def usage_is_connected_def)
  next
    case False
    with r1 b1 show ?thesis by (simp add: only_if_def usage_is_connected_def)
  qed
  then have "part_ok E {} {} w' p" using True p(2) by (simp add: part_ok_def deps_ok_def unaffectedD [OF f])
  from settled_local [OF inv f this p(1)] show ?thesis .
qed

section \<open>Reachable states\<close>

lemma step_settled:
  assumes "import_step E w w'" and "priority (gt E)" and "settled E w"
  shows "settled E w'"
  using assms
proof (induction rule: import_step.induct)
  case (publish w i w')
  from publish_inv [OF publish.prems(1,2) _ publish(2)] show ?case by simp
next
  case (revoke i w w')
  then show ?case using revoke_inv [of E w i w'] by blast
next
  case (init w p w')
  then show ?case using dep_init_ok [of E w p w'] dyn_init_ok [of E w p w'] deps_init_ok [of E w p w']
    by (cases "part_class_of E p") (simp_all add: onPartInit_def)
next
  case (destroy p w w')
  then show ?case using dep_destroy_ok [of E w p w'] dyn_destroy_ok [of E w p w'] deps_destroy_ok [of E w p w']
    by (cases "part_class_of E p") (simp_all add: onPartDestroy_def)
next
  case (unlock p w w')
  then show ?case using unlock_ok [of E w p w'] by blast
qed (blast intro: interface_locked_ok started_ok stopped_ok interface_unlocked_ok lock_ok release_ok swap_ok acquire_ok give_back_ok)+

lemma reachable_settled:
  assumes "(import_step E)\<^sup>*\<^sup>* empty_world w" and "priority (gt E)"
  shows "settled E w"
  using assms(1)
proof (induction rule: rtranclp_induct)
  case base
  show ?case by (simp add: imports_inv_def empty_world_def only_uses_def)
next
  case (step w w')
  then show ?case using step_settled assms(2) by blast
qed

end
