(* ===== verification/Import_Stability.thy ===== *)
theory Import_Stability
  imports Import_Props
begin

text \<open>
  A \<open>Dependency\<close> keeps its interface while its service is locked. The collection \<open>held\<close> has the rules that
  derive this for an operation from its text, as \<open>framed\<close> does for the operations of one part.
\<close>

section \<open>Operations that keep the reference of a locked part\<close>

definition keeps_active :: "pid \<Rightarrow> wop \<Rightarrow> bool" where
  "keeps_active p f \<longleftrightarrow> (\<forall>w w'. f w = Inr w' \<longrightarrow> w_locked w p \<longrightarrow> w_locked w' p \<and> w_ref w' (Active p) = w_ref w (Active p))"

named_theorems held

lemma heldI: "(\<And>w w'. f w = Inr w' \<Longrightarrow> w_locked w p \<Longrightarrow> w_locked w' p \<and> w_ref w' (Active p) = w_ref w (Active p)) \<Longrightarrow> keeps_active p f"
  unfolding keeps_active_def by blast

lemma heldD: "keeps_active p f \<Longrightarrow> f w = Inr w' \<Longrightarrow> w_locked w p \<Longrightarrow> w_locked w' p \<and> w_ref w' (Active p) = w_ref w (Active p)"
  unfolding keeps_active_def by blast

lemma held_Nil [held]: "keeps_active p (run [])"
  by (auto intro: heldI)

lemma held_Cons [held]: "keeps_active p f \<Longrightarrow> keeps_active p (run fs) \<Longrightarrow> keeps_active p (run (f # fs))"
  unfolding keeps_active_def run.simps bind_eq_Inr by (metis (no_types))

lemma held_require [held]: "keeps_active p (require P)"
  by (rule heldI) simp

lemma held_Inr [held]: "keeps_active p Inr" "keeps_active p (\<lambda>w. Inr w)"
  by (auto intro: heldI)

lemma held_only_if [held]: "keeps_active p f \<Longrightarrow> keeps_active p (only_if P f)"
  unfolding keeps_active_def only_if_def by auto

lemma held_if [held]: "keeps_active p f \<Longrightarrow> keeps_active p g \<Longrightarrow> keeps_active p (\<lambda>w. if b w then f w else g w)"
  unfolding keeps_active_def by auto

lemma held_list [held]:
  "(\<And>x xs. keeps_active p (f x xs)) \<Longrightarrow> keeps_active p g \<Longrightarrow> keeps_active p (\<lambda>w. case l w of [] \<Rightarrow> g w | x # xs \<Rightarrow> f x xs w)"
  unfolding keeps_active_def by (auto split: list.splits)

lemma held_check [held]: "keeps_active p (\<lambda>w. bind (r w) (\<lambda>_. Inr w))"
  by (rule heldI) auto

lemma held_fold: "(\<And>x. x \<in> set xs \<Longrightarrow> keeps_active p (f x)) \<Longrightarrow> keeps_active p (fold_res f xs)"
proof (induction xs)
  case (Cons x xs)
  then have "keeps_active p (f x)" "keeps_active p (fold_res f xs)" by simp_all
  then have "keeps_active p (run [f x, fold_res f xs])" by (intro held)
  moreover have "run [f x, fold_res f xs] = fold_res f (x # xs)" by (rule ext) (auto simp: bind_def split: sum.splits)
  ultimately show ?case by (simp only:)
qed (auto intro: heldI)

lemma held_each [held]: "(\<And>x. keeps_active p (f x)) \<Longrightarrow> keeps_active p (each g f)"
  using held_fold [of _ p f] unfolding keeps_active_def each_def by blast

lemma held_local: "local_to q f \<Longrightarrow> q \<noteq> p \<Longrightarrow> keeps_active p f"
  by (rule heldI) (auto simp: unaffectedD unaffected_useD dest!: local_toD)

lemma held_unlocked: "keeps_active p (run (require (\<lambda>w. \<not> w_locked w p) # fs))"
  by (rule heldI) auto

lemma held_update [held]:
  "keeps_active p (\<lambda>w. Inr (w\<lparr>w_interfaces := js w\<rparr>))" "keeps_active p (subscriberAdd q)" "keeps_active p (subscriberDel q)"
  by (auto intro!: heldI simp: subscriberAdd_def subscriberDel_def)

section \<open>The events of an interface\<close>

lemma held_created [held]:
  assumes "part_class_of E p = Dependency"
  shows "keeps_active p (onSubscribedCreated E i q)"
proof (cases "q = p")
  case True
  with assms show ?thesis
    by (auto intro!: heldI simp: onSubscribedCreated_def dep_created_def only_if_def split: if_splits)
next
  case False
  with held_local [OF local_created] show ?thesis by blast
qed

lemma held_publish [held]: "part_class_of E p = Dependency \<Longrightarrow> keeps_active p (onInterfaceCreate E i)"
  unfolding onInterfaceCreate_def call_filtered_def by (intro held)

lemma held_default [held]: "part_class_of E p = Dependency \<Longrightarrow> keeps_active p (dep_set_default E (onInterfaceCreate E) q)"
  unfolding dep_set_default_def Let_def by (auto intro!: heldI dest!: heldD [OF held_publish])

lemma held_select: "q \<noteq> p \<Longrightarrow> keeps_active p (dep_select E q i)" "q \<noteq> p \<Longrightarrow> keeps_active p (setSatisfied q b)"
  "user_of u \<noteq> p \<Longrightarrow> keeps_active p (disconnect_use u)" "user_of u \<noteq> p \<Longrightarrow> keeps_active p (set_ref u r)"
  using held_local [OF local_select] held_local [OF local_satisfied] held_local [OF local_disconnect [OF refl]]
    held_local [OF local_set_ref [OF refl]] by blast+

lemma held_deref_require [held]: "keeps_active p (deref u (\<lambda>cur. require (P cur)))"
  by (rule heldI) (auto simp: deref_def split: option.splits)

lemma held_used_destroy:
  assumes c: "part_class_of E p = Dependency" and u: "user_of u = p \<Longrightarrow> u = Active p"
  shows "keeps_active p (onUsedDestroy E i u)"
proof (cases "user_of u = p")
  case True
  with u c show ?thesis by (simp add: dep_used_destroy_def held_unlocked del: run.simps)
next
  case False
  note keep = held_select
  have "keeps_active p (dep_used_destroy E (onInterfaceCreate E) (user_of u) i)"
    "keeps_active p (dyn_used_destroy E (onInterfaceCreate E) (user_of u) i)"
    unfolding dep_used_destroy_def dyn_used_destroy_def by (intro held keep c; use False in simp)+
  moreover have "keeps_active p (run [require (\<lambda>w. j = i), item_used_destroy (user_of u) i])" for j
    by (intro held held_local [OF local_item_used_destroy False])
  ultimately show ?thesis by (cases u) simp_all
qed

lemma held_subscribed [held]:
  assumes "part_class_of E p = Dependency"
  shows "keeps_active p (onSubscribedDestroy E i q)" "keeps_active p (onSubscribedUnlocked E i q)" "keeps_active p (onSubscribedLock E i q)"
proof -
  have n: "q \<noteq> p" if "part_class_of E q = DynDependencies" using that assms by auto
  show "keeps_active p (onSubscribedDestroy E i q)"
    using held_local [OF local_item_erase n] held_Inr by (cases "part_class_of E q") (simp_all add: onSubscribedDestroy_def deps_subscribed_destroy_def)
  show "keeps_active p (onSubscribedUnlocked E i q)"
    using held_local [OF local_availability n] held_Inr by (cases "part_class_of E q") (simp_all add: onSubscribedUnlocked_def deps_subscribed_unlocked_def)
  show "keeps_active p (onSubscribedLock E i q)" unfolding onSubscribedLock_def by (rule held_Inr)
qed

lemma held_notify [held]:
  assumes "part_class_of E p = Dependency"
  shows "keeps_active p (onInterfaceLock E i)" "keeps_active p (onInterfaceUnlock E i)"
  unfolding onInterfaceLock_def onInterfaceUnlock_def call_filtered_def by (intro held assms)+

lemma legal_active: "legal_user E w u \<Longrightarrow> part_class_of E (user_of u) = Dependency \<Longrightarrow> u = Active (user_of u)"
  by (cases u) (auto simp: legal_user_def)

lemma held_revoke:
  assumes c: "part_class_of E p = Dependency" and inv: "settled E w" and r: "onInterfaceDestroy E i w = Inr w'" and l: "w_locked w p"
  shows "w_ref w' (Active p) = w_ref w (Active p)"
proof -
  define w0 where "w0 = w\<lparr>w_interfaces := remove1 i (w_interfaces w)\<rparr>"
  from r obtain w1 where r1: "fold_res (onUsedDestroy E i) (w_users w i) w0 = Inr w1"
    and r2: "fold_res (call_filtered E ev_OnDestroy (onSubscribedDestroy E i)) (w_subscribers w1) w1 = Inr w'"
    by (auto simp: onInterfaceDestroy_def each_def w0_def)
  have "keeps_active p (fold_res (onUsedDestroy E i) (w_users w i))"
  proof (rule held_fold)
    fix u assume "u \<in> set (w_users w i)"
    then show "keeps_active p (onUsedDestroy E i u)"
      using held_used_destroy [OF c, of u i] legal_active [OF users_legal [OF inv]] c by blast
  qed
  from heldD [OF this r1] l have w1: "w_locked w1 p" "w_ref w1 (Active p) = w_ref w (Active p)" by (simp_all add: w0_def)
  have "keeps_active p (fold_res (call_filtered E ev_OnDestroy (onSubscribedDestroy E i)) (w_subscribers w1))"
    by (rule held_fold) (unfold call_filtered_def, intro held c)
  from heldD [OF this r2] w1 show ?thesis by simp
qed

lemma held_started:
  assumes c: "part_class_of E p = Dependency" and inv: "settled E w" and r: "onInterfaceStart E i w = Inr w'" and l: "w_locked w p"
  shows "w_ref w' (Active p) = w_ref w (Active p)"
proof -
  have "keeps_active p (onUsedStarted E i u)" if u: "u \<in> set (w_users w i)" for u
  proof (cases "user_of u = p")
    case True
    with legal_active [OF users_legal [OF inv u]] c have "u = Active p" by simp
    with c show ?thesis by (simp add: held_require)
  next
    case False
    have "local_to (user_of u) (onUsedStarted E i u)" by (cases u) (simp_all add: framed)
    from held_local [OF this False] show ?thesis .
  qed
  then have "keeps_active p (fold_res (\<lambda>u. only_if (\<lambda>w. w_locked w (user_of u)) (onUsedStarted E i u)) (w_users w i))"
    by (intro held_fold held_only_if)
  from heldD [OF this] r l show ?thesis by (simp add: onInterfaceStart_def each_def)
qed

section \<open>The hooks of other parts\<close>

lemma local_hooks:
  "local_to q (onImportLock E q)" "local_to q (onImportUnlock E q)"
proof -
  have "local_to q (dep_lock q)" unfolding dep_lock_def by (intro framed) simp_all
  then show "local_to q (onImportLock E q)"
    by (cases "part_class_of E q") (simp_all add: onImportLock_def framed)
  show "local_to q (onImportUnlock E q)" by (cases "part_class_of E q") (simp_all add: onImportUnlock_def framed)
qed

lemma held_init:
  assumes c: "part_class_of E p = Dependency" and n: "q \<noteq> p"
  shows "keeps_active p (onPartInit E q)"
proof -
  have "keeps_active p (deps_created E q i)" for i by (rule held_local [OF local_deps_created n])
  then have "keeps_active p (deps_init E q)" unfolding deps_init_def by (intro held)
  moreover have "keeps_active p (dep_init E (onInterfaceCreate E) q)" "keeps_active p (dyn_init E (onInterfaceCreate E) q)"
    unfolding dep_init_def dyn_init_def by (intro held held_select c n)+
  ultimately show ?thesis by (cases "part_class_of E q") (simp_all add: onPartInit_def)
qed

lemma held_destroy:
  assumes n: "q \<noteq> p"
  shows "keeps_active p (onPartDestroy E q)"
proof -
  have "keeps_active p (\<lambda>w. Inr (w\<lparr>w_map := f w, w_ref := (\<lambda>u. if \<exists>i\<in>set (w_map w q). u = Item q i then None else w_ref w u)\<rparr>))" for f
    by (rule heldI) auto
  then have "keeps_active p (deps_destroy q)"
    unfolding deps_destroy_def by (intro held held_local [OF local_storage(2) n] held_local [OF local_item_disconnect n] held_local [OF local_item_release n])
  moreover have "keeps_active p (dep_destroy q)" "keeps_active p (dyn_destroy q)"
    unfolding dep_destroy_def dyn_destroy_def by (intro held held_select; use n in simp)+
  ultimately show ?thesis by (cases "part_class_of E q") (simp_all add: onPartDestroy_def)
qed

lemma locked_subscribed: "settled E w \<Longrightarrow> part_class_of E p \<noteq> DynDependency \<Longrightarrow> w_locked w p \<Longrightarrow> p \<in> set (w_subscribers w)"
  using imports_inv_fields(3) by blast

lemma held_release:
  assumes c: "part_class_of E p = Dependency" and inv: "settled E w" and u: "w_connected w u"
    and r: "onReleaseRequest E i u w = Inr (rep, w')"
  shows "w_ref w' (Active p) = w_ref w (Active p)"
proof (cases "user_of u = p")
  case True
  with legal_active [OF connected_legal [OF inv u]] c have "u = Active p" by simp
  with r c show ?thesis by simp
next
  case False
  have "unaffected q w w' \<Longrightarrow> q \<noteq> p \<Longrightarrow> ?thesis" for q by (simp add: unaffected_useD)
  moreover have "unaffected q w w'" if "item_release E q i w = Inr (rep, w')" for q
  proof -
    have "local_to q (run [require (\<lambda>w. usage_is_connected q i w), require (\<lambda>w. i \<in> set (w_map w q)), usage_erase_from_storage q i UpdateAuto,
      item_disconnect q i, usage_set_lock q i False])" by (intro framed)
    from local_toD [OF this, of w w'] that show ?thesis
      by (auto simp: item_release_def Let_def only_if_def simp del: run.simps split: if_splits)
  qed
  ultimately show ?thesis using r False by (cases u) (auto split: if_splits dest: unaffected_dyn_release)
qed

lemma held_swap:
  assumes c: "part_class_of E p = Dependency" "part_class_of E (fst a) = DynDependency" and r: "dyn_apply E usable a w = Inr (b, w')" and l: "w_locked w p"
  shows "w_ref w' (Active p) = w_ref w (Active p)"
proof -
  obtain q e f to where a: "a = (q, e, f, to)" by (cases a)
  have "local_to q (run [store_userspace q (Some to), dyn_finalize E q])" by (intro framed)
  moreover have "q \<noteq> p" using c a by auto
  ultimately have "keeps_active p (run [store_userspace q (Some to), dyn_finalize E q])" by (rule held_local)
  from heldD [OF this, of w w'] r l show ?thesis by (auto simp: dyn_apply_def a simp del: run.simps split: if_splits)
qed

lemma step_keeps:
  assumes "import_step E w w'" and "settled E w" and c: "part_class_of E p = Dependency" and "w_locked w p" and "w_locked w' p"
  shows "w_ref w' (Active p) = w_ref w (Active p)"
  using assms(1,2,4,5)
proof (induction rule: import_step.induct)
  case (publish w i w')
  then show ?case using heldD [OF held_publish [OF c]] by blast
next
  case (revoke i w w')
  then show ?case using held_revoke [OF c] by blast
next
  case (interface_locked i w w')
  from heldD [OF held_notify(1) [OF c] interface_locked(2)] interface_locked.prems show ?case by simp
next
  case (started i w w')
  have "settled E (w\<lparr>w_running := (w_running w)(i := True)\<rparr>)"
    by (rule imports_inv_same [OF started.prems(1)]) (auto simp: only_uses_def intro: part_ok_running)
  from held_started [OF c this started(3)] started.prems show ?case by simp
next
  case (interface_unlocked i w w')
  from heldD [OF held_notify(2) [OF c] interface_unlocked(3)] interface_unlocked.prems show ?case by simp
next
  case (init w q w')
  then have "q \<noteq> p" using locked_subscribed c by (auto simp: fresh_part_def)
  from heldD [OF held_init [OF c this] init(2)] init.prems show ?case by simp
next
  case (destroy q w w')
  then have "q \<noteq> p" by auto
  from heldD [OF held_destroy [OF this] destroy(3)] destroy.prems show ?case by simp
next
  case (lock w q w')
  then have "q \<noteq> p" by (auto simp: lockable_def)
  from heldD [OF held_local [OF local_hooks(1) this] lock(2)] lock.prems this show ?case by simp
next
  case (unlock q w w')
  then have "q \<noteq> p" by auto
  from heldD [OF held_local [OF local_hooks(2) this] unlock(3)] unlock.prems show ?case by simp
next
  case (release w u i r w')
  then show ?case using held_release [OF c] by blast
next
  case (swap w xs a ys usable b w')
  from held_swap [OF c swap(2,3)] swap.prems show ?case by simp
next
  case (acquire q w i w')
  then have "q \<noteq> p" using c by auto
  from heldD [OF held_local [OF local_doAcquire this] acquire(4)] acquire.prems show ?case by simp
next
  case (give_back q w i w')
  then have "q \<noteq> p" using c by auto
  from heldD [OF held_local [OF local_lock_items(3) this] give_back(3)] give_back.prems show ?case by simp
qed simp

end
