(* ===== verification/Example_Imports.thy ===== *)
theory Example_Imports
  imports Import_Stability
begin

text \<open>
  A run of the import parts: the parts 2, 3 and 4 are a \<open>Dependency\<close>, a \<open>DynDependency\<close> and a \<open>DynDependencies\<close>
  part. The interfaces 20 and 21 have the same priority, which is above that of 10.
\<close>

definition ex_env :: env where
  "ex_env = \<lparr>part_class_of = (\<lambda>p. if p = 2 then Dependency else if p = 3 then DynDependency else DynDependencies),
     gt = (\<lambda>i j. i div 10 > j div 10), is_default = (\<lambda>_. False), hasDefault = (\<lambda>_. False), createDefault = (\<lambda>_. 0),
     canSwap = (\<lambda>_ _ _. True), onInspect = (\<lambda>_ _. 0), onUseOffer = (\<lambda>_ _. UseNowAndInsert), onReleaseUse = (\<lambda>_ _. Never)\<rparr>"

definition do_init :: "pid \<Rightarrow> world \<Rightarrow> world" where "do_init p w = projr (onPartInit ex_env p w)"
definition do_publish :: "iid \<Rightarrow> world \<Rightarrow> world" where "do_publish i w = projr (onInterfaceCreate ex_env i w)"
definition do_revoke :: "iid \<Rightarrow> world \<Rightarrow> world" where "do_revoke i w = projr (onInterfaceDestroy ex_env i w)"
definition do_up :: "iid \<Rightarrow> world \<Rightarrow> world" where "do_up i w = projr (onInterfaceLock ex_env i (w\<lparr>w_up := (w_up w)(i := True)\<rparr>))"
definition do_started :: "iid \<Rightarrow> world \<Rightarrow> world" where
  "do_started i w = projr (onInterfaceStart ex_env i (w\<lparr>w_running := (w_running w)(i := True)\<rparr>))"
definition do_lock :: "pid \<Rightarrow> world \<Rightarrow> world" where
  "do_lock p w = projr (onImportLock ex_env p (w\<lparr>w_locked := (w_locked w)(p := True)\<rparr>))"
definition do_unlock :: "pid \<Rightarrow> world \<Rightarrow> world" where
  "do_unlock p w = (let w' = projr (onImportUnlock ex_env p w) in w'\<lparr>w_locked := (w_locked w')(p := False), w_epoch := (w_epoch w')(p := w_epoch w' p + 1)\<rparr>)"

definition ex_used :: world where
  "ex_used = do_started 10 (do_up 10 (do_publish 10 (do_init 4 (do_init 3 (do_init 2 empty_world)))))"

definition ex_locked :: world where "ex_locked = do_lock 3 (do_lock 2 ex_used)"
definition ex_preferred :: world where "ex_preferred = do_publish 20 ex_locked"
definition ex_offered :: world where "ex_offered = do_started 20 (do_up 20 (do_publish 21 ex_preferred))"
definition ex_revoked :: world where "ex_revoked = do_revoke 20 ex_preferred"
definition ex_unlocked :: world where "ex_unlocked = do_unlock 2 ex_preferred"

abbreviation reachable_ex :: "world \<Rightarrow> bool" where
  "reachable_ex \<equiv> (import_step ex_env)\<^sup>*\<^sup>* empty_world"

interpretation ex_priority: priority "gt ex_env"
  by unfold_locales (auto simp: ex_env_def)

lemma projr_Inr: "\<not> isl r \<Longrightarrow> r = Inr (projr r)"
  by (cases r) simp_all

lemma ex_steps:
  assumes "reachable_ex w"
  shows "fresh_part w p \<Longrightarrow> \<not> isl (onPartInit ex_env p w) \<Longrightarrow> reachable_ex (do_init p w)"
    "\<not> w_up w i \<Longrightarrow> \<not> isl (onInterfaceCreate ex_env i w) \<Longrightarrow> reachable_ex (do_publish i w)"
    "i \<in> set (w_interfaces w) \<Longrightarrow> \<not> w_up w i \<Longrightarrow> \<not> isl (onInterfaceDestroy ex_env i w) \<Longrightarrow> reachable_ex (do_revoke i w)"
    "i \<in> set (w_interfaces w) \<Longrightarrow> \<not> isl (onInterfaceLock ex_env i (w\<lparr>w_up := (w_up w)(i := True)\<rparr>)) \<Longrightarrow> reachable_ex (do_up i w)"
    "i \<in> set (w_interfaces w) \<Longrightarrow> w_up w i \<Longrightarrow> \<not> isl (onInterfaceStart ex_env i (w\<lparr>w_running := (w_running w)(i := True)\<rparr>)) \<Longrightarrow> reachable_ex (do_started i w)"
    "lockable w p \<Longrightarrow> \<not> isl (onImportLock ex_env p (w\<lparr>w_locked := (w_locked w)(p := True)\<rparr>)) \<Longrightarrow> reachable_ex (do_lock p w)"
    "p \<in> set (w_subscribers w) \<Longrightarrow> w_locked w p \<Longrightarrow> \<not> isl (onImportUnlock ex_env p w) \<Longrightarrow> reachable_ex (do_unlock p w)"
  unfolding do_init_def do_publish_def do_revoke_def do_up_def do_started_def do_lock_def do_unlock_def Let_def
  by (blast intro: rtranclp.rtrancl_into_rtrancl [OF assms] import_step.intros projr_Inr)+


section \<open>Evaluation\<close>

lemma ex_env_simps [simp]:
  "part_class_of ex_env p = (if p = 2 then Dependency else if p = 3 then DynDependency else DynDependencies)"
  "gt ex_env i j \<longleftrightarrow> i div 10 > j div 10" "is_default ex_env i = False" "hasDefault ex_env p = False" "canSwap ex_env p a b = True"
  "onInspect ex_env p i = 0" "onUseOffer ex_env p i = UseNowAndInsert" "onReleaseUse ex_env p i = Never"
  by (simp_all add: ex_env_def)

lemma ex_filters [simp]: "contains 0 df_Ignore = False" "contains 0 df_Weak = False" "contains (subscriber_filter c) ev_OnCreated" "\<not> contains (subscriber_filter c) ev_OnLock"
  "contains (subscriber_filter c) ev_OnDestroy \<longleftrightarrow> c \<noteq> DynDependency"
proof -
  show "contains 0 df_Ignore = False" "contains 0 df_Weak = False" by code_simp+
qed (cases c; simp; code_simp)+

lemma some_bool [simp]: "\<exists>b. \<not> b" "\<exists>b. b"
  by auto

declare subscriber_filter.simps [simp del]

lemma ex_insert [simp]:
  "insert_sorted (gt ex_env) 10 [] = [10]" "insert_sorted (gt ex_env) 20 [10] = [20, 10]" "insert_sorted (gt ex_env) 21 [20, 10] = [21, 20, 10]"
  by code_simp+

lemmas ex_steps_defs = do_init_def do_publish_def do_revoke_def do_up_def do_started_def do_lock_def do_unlock_def

lemmas ex_ops = require_def only_if_def each_def set_ref_def call_def deref_def reference_of_def try_acquire_def disown_def ptr_def Let_def
  connect_use_def disconnect_use_def setSatisfied_eq subscriberAdd_def call_filtered_def
  usage_is_connected_def
  dep_select_def dep_init_def dep_created_def dep_lock_def dep_unlock_def registry_contains_higher_priority_def dep_used_destroy_def
  dyn_init_def dyn_created_def dyn_lock_def IsPrioritizedOverCurrent_def link_pref_def store_userspace_def set_pending_def offerSwap_def
  dyn_used_started_def dyn_used_destroy_def reselect_preferred_def deps_init_def deps_created_def process_availability_def item_insert_def item_connect_def
  item_disconnect_def item_used_destroy_def usage_erase_from_storage_def usage_release_def item_erase_def deps_subscribed_destroy_def
  onPartInit_def onImportLock_def onImportUnlock_def onInterfaceCreate_def onInterfaceDestroy_def onInterfaceLock_def onInterfaceStart_def
  onSubscribedCreated_def onSubscribedDestroy_def onSubscribedLock_def

lemmas ex_eval = ex_steps_defs ex_ops empty_world_def ex_used_def ex_locked_def ex_preferred_def ex_offered_def ex_revoked_def ex_unlocked_def

section \<open>The states are reachable\<close>

lemma ex_init_reachable: "reachable_ex (do_init 4 (do_init 3 (do_init 2 empty_world)))"
proof -
  have "\<not> isl (onPartInit ex_env 2 empty_world)" "\<not> isl (onPartInit ex_env 3 (do_init 2 empty_world))"
    "\<not> isl (onPartInit ex_env 4 (do_init 3 (do_init 2 empty_world)))"
    by (simp_all add: ex_eval)
  moreover have "fresh_part empty_world 2" "fresh_part (do_init 2 empty_world) 3" "fresh_part (do_init 3 (do_init 2 empty_world)) 4"
    by (simp_all add: ex_eval fresh_part_def)
  ultimately show ?thesis using ex_steps(1) by blast
qed

lemma ex_used_reachable: "reachable_ex ex_used"
proof -
  have "reachable_ex (do_publish 10 (do_init 4 (do_init 3 (do_init 2 empty_world))))"
    by (rule ex_steps(2) [OF ex_init_reachable]) (simp_all add: ex_eval)
  from ex_steps(4) [OF this, of 10]
  have "reachable_ex (do_up 10 (do_publish 10 (do_init 4 (do_init 3 (do_init 2 empty_world)))))"
    by (simp add: ex_eval)
  from ex_steps(5) [OF this, of 10] show ?thesis unfolding ex_used_def by (simp add: ex_eval)
qed

lemma ex_locked_reachable: "reachable_ex ex_locked"
proof -
  have "lockable ex_used 2" "lockable (do_lock 2 ex_used) 3"
    "\<not> isl (onImportLock ex_env 2 (ex_used\<lparr>w_locked := (w_locked ex_used)(2 := True)\<rparr>))"
    "\<not> isl (onImportLock ex_env 3 ((do_lock 2 ex_used)\<lparr>w_locked := (w_locked (do_lock 2 ex_used))(3 := True)\<rparr>))"
    by (simp_all add: ex_eval lockable_def)
  then show ?thesis unfolding ex_locked_def using ex_steps(6) ex_used_reachable by blast
qed

lemma ex_preferred_step: "import_step ex_env ex_locked ex_preferred"
proof (rule import_step.publish)
  show "\<not> w_up ex_locked 20" by (simp add: ex_eval)
  show "onInterfaceCreate ex_env 20 ex_locked = Inr ex_preferred" by (simp add: ex_eval)
qed

lemma ex_preferred_reachable: "reachable_ex ex_preferred"
  using ex_preferred_step ex_locked_reachable by (rule rtranclp.rtrancl_into_rtrancl [rotated])

lemma ex_revoked_reachable: "reachable_ex ex_revoked"
  unfolding ex_revoked_def by (rule ex_steps(3) [OF ex_preferred_reachable]) (simp_all add: ex_eval)

lemma ex_unlocked_reachable: "reachable_ex ex_unlocked"
  unfolding ex_unlocked_def by (rule ex_steps(7) [OF ex_preferred_reachable]) (simp_all add: ex_eval)

lemma ex_offered_reachable: "reachable_ex ex_offered"
proof -
  have "reachable_ex (do_publish 21 ex_preferred)"
    by (rule ex_steps(2) [OF ex_preferred_reachable]) (simp_all add: ex_eval)
  from ex_steps(4) [OF this, of 20] have "reachable_ex (do_up 20 (do_publish 21 ex_preferred))" by (simp add: ex_eval)
  from ex_steps(5) [OF this, of 20] show ?thesis unfolding ex_offered_def by (simp add: ex_eval)
qed

end
