(* ===== verification/Import_Theorems.thy ===== *)
theory Import_Theorems
  imports Example_Imports
begin

text \<open>What the import parts guarantee in every reachable state, and where \<open>DynDependency\<close> does not.\<close>

section \<open>Publishing never fails\<close>

lemma notify_total:
  assumes "priority (gt E)" and "imports_inv E informed (\<lambda>p. if p \<in> set ps then {i} else {}) w" and "distinct ps"
    and "set ps \<subseteq> set (w_subscribers w)" and "i \<in> set (w_interfaces w)" and "\<forall>p \<in> set ps. part_class_of E p \<noteq> DynDependency"
  shows "\<exists>w'. fold_res (onSubscribedCreated E i) ps w = Inr w'"
  using assms
proof (induction ps arbitrary: w)
  case (Cons p ps)
  have p: "p \<in> set (w_subscribers w)" "p \<notin> set ps" using Cons.prems(3,4) by auto
  from imports_invD [OF Cons.prems(2) p(1)] have ok: "part_ok E {} {i} w p" by simp
  have "\<exists>w1. onSubscribedCreated E i p w = Inr w1"
    using ok Cons.prems(6) dep_created_ok [OF Cons.prems(1) _ Cons.prems(5), of "{}" p] availability_ok [of E "{}" "{i}" w p i] Cons.prems(5)
    by (cases "part_class_of E p") (auto simp: onSubscribedCreated_def part_ok_def deps_created_def)
  then obtain w1 where w1: "onSubscribedCreated E i p w = Inr w1" ..
  have f: "unaffected p w w1" by (rule local_toD [OF local_created w1])
  have "(\<lambda>q. if q \<in> set (p # ps) then {i} else {})(p := {}) = (\<lambda>q. if q \<in> set ps then {i} else {})"
    using p(2) by (auto simp: fun_eq_iff)
  with imports_inv_local [OF Cons.prems(2) f p(1) created_ok [OF Cons.prems(1) ok Cons.prems(5) w1]]
  have "imports_inv E informed (\<lambda>q. if q \<in> set ps then {i} else {}) w1" by (simp only: fun_upd_idem)
  from Cons.IH [OF Cons.prems(1) this] Cons.prems(3-6) have "\<exists>w'. fold_res (onSubscribedCreated E i) ps w1 = Inr w'"
    by (simp add: unaffectedD [OF f])
  with w1 show ?case by simp
qed simp

lemma publish_total:
  assumes "priority (gt E)" and "settled E w" and i: "i \<notin> set (w_interfaces w)" and "\<forall>p \<in> set (w_subscribers w). part_class_of E p \<noteq> DynDependency"
  shows "\<exists>w'. onInterfaceCreate E i w = Inr w'"
proof -
  define w1 where "w1 = w\<lparr>w_interfaces := insert_sorted (gt E) i (w_interfaces w)\<rparr>"
  note fd = imports_inv_fields [OF assms(2)]
  have "part_ok E {} {i} w1 p" if "p \<in> set (w_subscribers w)" for p
    unfolding w1_def by (rule part_ok_insert [OF imports_invD [OF assms(2) that]]) simp_all
  moreover have "sorted_wrt (GreaterPred (gt E)) (w_interfaces w1)"
    using priority.insert_sorted_sorted [OF assms(1) fd(1) i] by (simp add: w1_def)
  ultimately have "imports_inv E informed (\<lambda>p. if p \<in> set (w_subscribers w1) then {i} else {}) w1"
    using fd by (simp add: imports_inv_def w1_def)
  from notify_total [OF assms(1) this] assms(4) fd(2) have "\<exists>w'. fold_res (onSubscribedCreated E i) (w_subscribers w1) w1 = Inr w'"
    by (simp add: w1_def)
  then show ?thesis using i by (simp add: onInterfaceCreate_def each_def w1_def call_created require_def)
qed

section \<open>Properties\<close>

text \<open>
  C9. In every reachable state a \<open>Dependency\<close> is satisfied if and only if an interface of its type is published. It then refers to a
  published interface and is registered exactly once, with the users of this interface only. While its service is not locked no published
  interface has a higher priority; while the service is locked the interface runs and its reference is acquired.
\<close>

theorem dependency_selects_best:
  assumes "(import_step E)\<^sup>*\<^sup>* empty_world w" and "priority (gt E)" and "part_class_of E p = Dependency" and "p \<in> set (w_subscribers w)"
  shows "(w_satisfied w p \<longleftrightarrow> w_interfaces w \<noteq> []) \<and> (w_satisfied w p \<longleftrightarrow> w_ref w (Active p) \<noteq> None)
    \<and> (\<forall>i a. w_ref w (Active p) = Some (i, a) \<longrightarrow>
         i \<in> set (w_interfaces w) \<and> (\<forall>j. count_list (w_users w j) (Active p) = (if j = i then 1 else 0))
         \<and> (if w_locked w p then w_running w i \<and> a else \<forall>j \<in> set (w_interfaces w). \<not> gt E j i))"
proof -
  have ok: "dep_ok E {} {} w p"
    using imports_invD [OF reachable_settled [OF assms(1,2)] assms(4)] assms(3) by (simp add: part_ok_def)
  show ?thesis
  proof (cases "w_ref w (Active p)")
    case None
    with ok show ?thesis by (simp add: dep_ok_def)
  next
    case (Some r)
    obtain i a where r: "r = (i, a)" by (cases r)
    with ok Some have "w_satisfied w p" "w_connected w (Active p)" "i \<in> set (w_interfaces w)"
      "if w_locked w p then w_running w i \<and> a else \<forall>j \<in> set (w_interfaces w). \<not> gt E j i"
      "\<forall>j. count_list (w_users w j) (Active p) = (if j = i then 1 else 0)"
      by (auto simp: dep_ok_def ptr_def)
    with Some r show ?thesis by auto
  qed
qed

theorem dependency_selects_best_witness:
  "reachable_ex ex_unlocked \<and> w_ref ex_unlocked (Active 2) = Some (20, False) \<and> count_list (w_users ex_unlocked 20) (Active 2) = 1
    \<and> count_list (w_users ex_unlocked 10) (Active 2) = 0 \<and> \<not> gt ex_env 10 20 \<and> w_satisfied ex_unlocked 2"
proof -
  have p: "part_class_of ex_env 2 = Dependency" "2 \<in> set (w_subscribers ex_unlocked)" by (simp_all add: ex_eval)
  have r: "w_ref ex_unlocked (Active 2) = Some (20, False)" "\<not> w_locked ex_unlocked 2" "10 \<in> set (w_interfaces ex_unlocked)"
    by (simp_all add: ex_eval)
  from dependency_selects_best [OF ex_unlocked_reachable ex_priority.priority_axioms p] r ex_unlocked_reachable
  show ?thesis by auto
qed

text \<open>
  C10. A \<open>Dependency\<close> keeps its interface while its service is locked: no step of a reachable state changes the reference of
  a part that is locked before and after the step, whatever interfaces are published or revoked.
\<close>

theorem dependency_stable_while_locked:
  assumes "(import_step E)\<^sup>*\<^sup>* empty_world w" and "priority (gt E)" and "import_step E w w'" and "part_class_of E p = Dependency"
    and "w_locked w p" and "w_locked w' p"
  shows "w_ref w' (Active p) = w_ref w (Active p)"
  by (rule step_keeps [OF assms(3) reachable_settled [OF assms(1,2)] assms(4-6)])

theorem dependency_stable_while_locked_witness:
  "import_step ex_env ex_locked ex_preferred \<and> gt ex_env (hd (w_interfaces ex_preferred)) 10
    \<and> w_ref ex_preferred (Active 2) = w_ref ex_locked (Active 2) \<and> w_ref ex_locked (Active 2) = Some (10, True)"
proof -
  have l: "part_class_of ex_env 2 = Dependency" "w_locked ex_locked 2" "w_locked ex_preferred 2" by (simp_all add: ex_eval)
  have "gt ex_env (hd (w_interfaces ex_preferred)) 10" "w_ref ex_locked (Active 2) = Some (10, True)" by (simp_all add: ex_eval)
  with dependency_stable_while_locked [OF ex_locked_reachable ex_priority.priority_axioms ex_preferred_step l] ex_preferred_step
  show ?thesis by blast
qed

text \<open>
  C11. In every reachable state a \<open>DynDependencies\<close> part has a usage of exactly the published interfaces it did not ask to ignore: each
  refers to its interface and is registered once with its users if it is connected and not at all otherwise, and the storage of the user holds no interface
  that is not connected. While the service of the part is not locked, a usage is not connected only if the service behind it is locked (it was released) or
  the user wants it ignored.
\<close>

theorem dependencies_track_all:
  assumes "(import_step E)\<^sup>*\<^sup>* empty_world w" and "priority (gt E)" and "part_class_of E p = DynDependencies" and "p \<in> set (w_subscribers w)"
  shows "distinct (w_map w p) \<and> set (w_map w p) \<subseteq> set (w_interfaces w)
    \<and> (\<forall>i \<in> set (w_interfaces w). contains (onInspect E p i) df_Ignore \<or> i \<in> set (w_map w p))
    \<and> (\<forall>i \<in> set (w_map w p). ptr w (Item p i) = Some i
         \<and> (\<forall>j. count_list (w_users w j) (Item p i) = (if j = i \<and> w_connected w (Item p i) then 1 else 0))
         \<and> (\<not> w_connected w (Item p i) \<longrightarrow> w_storage w (Item p i) = erased)
         \<and> (\<not> w_connected w (Item p i) \<and> \<not> w_locked w p \<longrightarrow> w_up w i \<or> contains (onInspect E p i) df_Ignore))"
proof -
  have "deps_ok E {} {} w p"
    using imports_invD [OF reachable_settled [OF assms(1,2)] assms(4)] assms(3) by (simp add: part_ok_def)
  then show ?thesis by (auto simp: deps_ok_def deps_base_def)
qed

theorem dependencies_track_all_witness:
  "reachable_ex ex_preferred \<and> ptr ex_preferred (Item 4 20) = Some 20 \<and> count_list (w_users ex_preferred 20) (Item 4 20) = 1
    \<and> count_list (w_users ex_preferred 10) (Item 4 20) = 0"
proof -
  have p: "part_class_of ex_env 4 = DynDependencies" "4 \<in> set (w_subscribers ex_preferred)" by (simp_all add: ex_eval)
  have m: "20 \<in> set (w_map ex_preferred 4)" "w_connected ex_preferred (Item 4 20)" by (simp_all add: ex_eval)
  from dependencies_track_all [OF ex_preferred_reachable ex_priority.priority_axioms p] m ex_preferred_reachable
  show ?thesis by auto
qed

text \<open>
  C12. Publishing an interface succeeds in every reachable state in which no subscriber is a \<open>DynDependency\<close>: no handler of a subscriber violates an
  assertion or dereferences a null reference. Afterwards the interface is listed, and the others still are.
\<close>

theorem publish_never_fails:
  assumes "(import_step E)\<^sup>*\<^sup>* empty_world w" and "priority (gt E)" and "\<forall>p \<in> set (w_subscribers w). part_class_of E p \<noteq> DynDependency"
    and "i \<notin> set (w_interfaces w)"
  shows "\<exists>w'. onInterfaceCreate E i w = Inr w' \<and> set (w_interfaces w') = insert i (set (w_interfaces w))
    \<and> sorted_wrt (GreaterPred (gt E)) (w_interfaces w')"
proof -
  have s: "settled E w" by (rule reachable_settled [OF assms(1,2)])
  from publish_total [OF assms(2) s assms(4,3)] obtain w' where r: "onInterfaceCreate E i w = Inr w'" ..
  have "imports_inv E informed informed w' \<and> set (w_interfaces w') = insert i (set (w_interfaces w))"
    using publish_inv [OF assms(2) s _ r] by simp
  with r imports_inv_fields(1) show ?thesis by blast
qed

theorem publish_never_fails_witness:
  "\<exists>w'. onInterfaceCreate ex_env 10 (do_init 2 empty_world) = Inr w' \<and> set (w_interfaces w') = {10}"
proof -
  have "reachable_ex (do_init 2 empty_world)"
    by (rule ex_steps(1)) (simp_all add: ex_eval fresh_part_def)
  moreover have "\<forall>p \<in> set (w_subscribers (do_init 2 empty_world)). part_class_of ex_env p \<noteq> DynDependency"
    "10 \<notin> set (w_interfaces (do_init 2 empty_world))" "w_interfaces (do_init 2 empty_world) = []"
    by (simp_all add: ex_eval)
  ultimately show ?thesis using publish_never_fails [OF _ ex_priority.priority_axioms, of "do_init 2 empty_world" 10] by auto
qed

text \<open>
  A swap of a \<open>DynDependency\<close> can only be finished if the interface swapped in is the first of the registry: otherwise \<open>finalize\<close> fails, although
  an interface of the same priority and a higher address, published while the service of the preferred interface starts, is enough for that.
\<close>

theorem swap_needs_first_interface:
  assumes "ptr w (Preferred p) = Some to" and "w_interfaces w = latest # rest" and "latest \<noteq> to"
  shows "\<exists>e. dyn_apply E True (p, w_epoch w p, from, to) w = Inl e"
proof -
  have "\<nexists>w'. dyn_finalize E p v = Inr w'" if v: "ptr v (Preferred p) = Some to" "w_interfaces v = latest # rest" for v
  proof
    assume "\<exists>w'. dyn_finalize E p v = Inr w'"
    then obtain w' where f: "dyn_finalize E p v = Inr w'" ..
    from v(1) obtain a where a: "w_ref v (Preferred p) = Some (to, a)" by (auto simp: ptr_iff)
    from f obtain w1 where w1: "disconnect_use (Active p) v = Inr w1"
      and rest: "run [deref (Preferred p) (dep_select E p), disconnect_use (Preferred p), unlink_pref p, require (\<lambda>w. \<not> w_linked w p),
        set_ref (Preferred p) None, set_pending p False, (\<lambda>w. bind (dyn_imports p w) (\<lambda>us. check (length us = 1) w)),
        (\<lambda>w. case w_interfaces w of [] \<Rightarrow> Inl Unreachable
          | latest # _ \<Rightarrow> deref (Active p) (\<lambda>act w. if latest \<noteq> act then (if IsPrioritizedOverCurrent E act latest then Inl Unreachable else Inl AssertFailed)
              else Inr w) w)] w1 = Inr w'"
      unfolding dyn_finalize_def by auto
    have "w_ref w1 (Preferred p) = Some (to, a)" "w_interfaces w1 = latest # rest"
      using w1 a v(2) by (auto simp: disconnect_use_def deref_def call_def split: option.splits)
    with rest assms(3) show False
      by (auto simp: deref_def dep_select_def set_ref_def connect_use_def disconnect_use_def call_def unlink_pref_def set_pending_def reference_of_def
        split: if_splits)
  qed
  moreover have "ptr (w\<lparr>w_userspace := f\<rparr>) = ptr w" for f by (simp add: ptr_def fun_eq_iff)
  ultimately have "\<nexists>w'. run [store_userspace p (Some to), dyn_finalize E p] w = Inr w'"
    using assms by (simp add: store_userspace_def)
  then show ?thesis by (cases "run [store_userspace p (Some to), dyn_finalize E p] w") (auto simp: dyn_apply_def simp del: run.simps)
qed

theorem swap_needs_first_interface_witness:
  "reachable_ex ex_offered \<and> w_offers ex_offered = [(3, 0, 10, 20)] \<and> \<not> gt ex_env 21 20
    \<and> (\<exists>e. dyn_apply ex_env True (3, 0, 10, 20) ex_offered = Inl e)"
proof -
  have "ptr ex_offered (Preferred 3) = Some 20" "w_interfaces ex_offered = [21, 20, 10]" "(21::nat) \<noteq> 20" "w_epoch ex_offered 3 = 0"
    "w_offers ex_offered = [(3, 0, 10, 20)]"
    by (simp_all add: ex_eval)
  with swap_needs_first_interface [of ex_offered 3 20 21 "[20, 10]" ex_env 10] ex_offered_reachable show ?thesis by simp
qed

text \<open>
  C39. The preferred interface of a locked \<open>DynDependency\<close> may dangle: when it is revoked, the handler computes a replacement and discards it, so that in
  a reachable state the part still refers to an interface that is no longer published.
\<close>

theorem preferred_may_dangle:
  "(import_step ex_env)\<^sup>*\<^sup>* empty_world ex_revoked \<and> ptr ex_revoked (Preferred 3) = Some 20 \<and> w_connected ex_revoked (Preferred 3)
    \<and> 20 \<notin> set (w_interfaces ex_revoked)"
  using ex_revoked_reachable by (simp add: ex_eval)

end
