(* ===== verification/Event_Loop.thy ===== *)
theory Event_Loop
  imports Idle_Prelude "HOL-Library.Multiset" "HOL-Library.Sublist"
begin

text \<open>
  The event loop (src/lib/idle/core/detail/context/event_loop_executor_impl.cpp and .hpp) as a step relation: one thread runs the loop,
  any number of threads queue work. \<open>queue\<close> loads the state, enqueues and notifies in separate steps, because it takes no lock.

  The concurrent queue is third-party code. As its documentation promises, the items of one producer leave the queue in the order in
  which they entered it, and nothing is promised for different producers. The condition variable may wake the loop
  without a notification. What a piece of work does on the loop is a list of actions: it queues more work or it is the posted
  lambda of \<open>onImportUnlock\<close>, which moves the loop to stopping.
\<close>

section \<open>State\<close>

datatype state_t = ready | running | stopping | destroyed | stopped

type_synonym tid = nat
type_synonym work = nat

datatype action = Queue work | Set_Stopping

datatype round = First | Final

text \<open>
  Where the thread of the loop is: before \<open>prepare_ev\<close>, in \<open>dispatch_all\<close> with the actions left of the work it runs,
  after \<open>dispatch_all\<close>, in \<open>wait\<close>, destroying the services, or behind \<open>run_ev\<close>.
\<close>

datatype place = Before | Dispatch round | Running round "action list" | Emptied round | Waiting | Destroying | After

record loop =
  l_state :: state_t
  l_place :: place
  l_queue :: "(tid \<times> work) list"
  l_loaded :: "(tid \<times> work) list"
  l_notify :: "tid list"
  l_queued :: "(tid \<times> work) list"
  l_ran :: "(tid \<times> work) list"
  l_canceled :: "(tid \<times> work) list"

definition loop_thread :: tid where "loop_thread = 0"

definition is_running :: "state_t \<Rightarrow> bool" where
  "is_running s = (case s of ready \<Rightarrow> True | running \<Rightarrow> True | stopping \<Rightarrow> True | _ \<Rightarrow> False)"

definition is_on_event_loop :: "state_t \<Rightarrow> tid \<Rightarrow> bool" where
  "is_on_event_loop s t = (case s of running \<Rightarrow> t = loop_thread | stopping \<Rightarrow> t = loop_thread | destroyed \<Rightarrow> t = loop_thread | _ \<Rightarrow> False)"

definition can_dispatch_inplace :: "state_t \<Rightarrow> tid \<Rightarrow> bool" where
  "can_dispatch_inplace s t \<longleftrightarrow> is_running s \<and> is_on_event_loop s t"

definition initial_loop :: loop where
  "initial_loop = \<lparr>l_state = ready, l_place = Before, l_queue = [], l_loaded = [], l_notify = [], l_queued = [], l_ran = [], l_canceled = []\<rparr>"

section \<open>The queue\<close>

definition enqueue :: "tid \<Rightarrow> work \<Rightarrow> loop \<Rightarrow> loop" where
  "enqueue t x s = s\<lparr>l_queue := l_queue s @ [(t, x)], l_queued := l_queued s @ [(t, x)]\<rparr>"

definition set_canceled :: "tid \<Rightarrow> work \<Rightarrow> loop \<Rightarrow> loop" where
  "set_canceled t x s = s\<lparr>l_canceled := l_canceled s @ [(t, x)]\<rparr>"

text \<open>Taking out the item behind \<open>us\<close> is possible if none of its producer is before it.\<close>

definition oldest_of :: "tid \<Rightarrow> (tid \<times> work) list \<Rightarrow> bool" where
  "oldest_of t us \<longleftrightarrow> t \<notin> fst ` set us"

definition wake :: "loop \<Rightarrow> loop" where
  "wake s = (if l_place s = Waiting then s\<lparr>l_place := Dispatch First\<rparr> else s)"

text \<open>\<open>queue\<close> on the thread of the loop, in one step: only this thread changes the state, and nobody waits.\<close>

definition queue_inplace :: "work \<Rightarrow> loop \<Rightarrow> loop" where
  "queue_inplace x s = (if is_running (l_state s) then enqueue loop_thread x s else set_canceled loop_thread x s)"

section \<open>Steps\<close>

inductive loop_step :: "(work \<Rightarrow> action list) \<Rightarrow> loop \<Rightarrow> loop \<Rightarrow> bool" for body where
  prepare_ev: "l_place s = Before \<Longrightarrow> loop_step body s (s\<lparr>l_state := running, l_place := Dispatch First\<rparr>)"
| try_dequeue: "l_place s = Dispatch r \<Longrightarrow> l_queue s = us @ (t, x) # vs \<Longrightarrow> oldest_of t us
    \<Longrightarrow> loop_step body s (s\<lparr>l_queue := us @ vs, l_ran := l_ran s @ [(t, x)], l_place := Running r (body x)\<rparr>)"
| queue_more: "l_place s = Running r (Queue x # as) \<Longrightarrow> loop_step body s (queue_inplace x (s\<lparr>l_place := Running r as\<rparr>))"
| set_stopping: "l_place s = Running r (Set_Stopping # as) \<Longrightarrow> loop_step body s (s\<lparr>l_state := stopping, l_place := Running r as\<rparr>)"
| work_done: "l_place s = Running r [] \<Longrightarrow> loop_step body s (s\<lparr>l_place := Dispatch r\<rparr>)"
| dispatched_all: "l_place s = Dispatch r \<Longrightarrow> l_queue s = [] \<Longrightarrow> loop_step body s (s\<lparr>l_place := Emptied r\<rparr>)"
| wait: "l_place s = Emptied First \<Longrightarrow> l_state s \<noteq> stopping \<Longrightarrow> loop_step body s (s\<lparr>l_place := Waiting\<rparr>)"
| destroy: "l_place s = Emptied First \<Longrightarrow> l_state s = stopping \<Longrightarrow> loop_step body s (s\<lparr>l_place := Destroying\<rparr>)"
| dispatch_pending: "l_place s = Destroying \<Longrightarrow> loop_step body s (s\<lparr>l_state := destroyed, l_place := Dispatch Final\<rparr>)"
| finish: "l_place s = Emptied Final \<Longrightarrow> loop_step body s (s\<lparr>l_state := stopped, l_place := After\<rparr>)"

inductive spurious :: "loop \<Rightarrow> loop \<Rightarrow> bool" where
  spurious_wakeup: "l_place s = Waiting \<Longrightarrow> spurious s (wake s)"

inductive post_step :: "loop \<Rightarrow> loop \<Rightarrow> bool" where
  load: "t \<noteq> loop_thread \<Longrightarrow> t \<notin> fst ` set (l_loaded s) \<Longrightarrow> t \<notin> set (l_notify s) \<Longrightarrow> is_running (l_state s)
    \<Longrightarrow> post_step s (s\<lparr>l_loaded := l_loaded s @ [(t, x)]\<rparr>)"
| reject: "t \<noteq> loop_thread \<Longrightarrow> t \<notin> fst ` set (l_loaded s) \<Longrightarrow> t \<notin> set (l_notify s) \<Longrightarrow> \<not> is_running (l_state s)
    \<Longrightarrow> post_step s (set_canceled t x s)"
| enqueue: "l_loaded s = us @ (t, x) # vs \<Longrightarrow> post_step s (enqueue t x (s\<lparr>l_loaded := us @ vs, l_notify := t # l_notify s\<rparr>))"
| notify_one: "t \<in> set (l_notify s) \<Longrightarrow> post_step s (wake (s\<lparr>l_notify := remove1 t (l_notify s)\<rparr>))"

definition ev_step :: "(work \<Rightarrow> action list) \<Rightarrow> loop \<Rightarrow> loop \<Rightarrow> bool" where
  "ev_step body s s' \<longleftrightarrow> loop_step body s s' \<or> spurious s s' \<or> post_step s s'"

inductive_cases loop_stepE: "loop_step body s s'"
inductive_cases post_stepE: "post_step s s'"
inductive_cases spuriousE: "spurious s s'"

section \<open>Every piece of work runs once, in the order of its producer\<close>

definition of_thread :: "tid \<Rightarrow> (tid \<times> work) list \<Rightarrow> work list" where
  "of_thread t xs = map snd (filter (\<lambda>e. fst e = t) xs)"

lemma of_thread_simps [simp]:
  "of_thread t [] = []" "of_thread t ((u, x) # xs) = (if u = t then x # of_thread t xs else of_thread t xs)"
  "of_thread t (xs @ ys) = of_thread t xs @ of_thread t ys"
  by (simp_all add: of_thread_def)

lemma of_thread_oldest: "oldest_of t us \<Longrightarrow> of_thread t us = []"
  by (force simp: oldest_of_def of_thread_def filter_empty_conv)

definition loop_inv :: "loop \<Rightarrow> bool" where
  "loop_inv s \<longleftrightarrow> mset (l_queued s) = mset (l_ran s) + mset (l_queue s)
     \<and> (\<forall>t. of_thread t (l_queued s) = of_thread t (l_ran s) @ of_thread t (l_queue s))"

lemma wake_simps [simp]:
  "l_state (wake s) = l_state s" "l_queue (wake s) = l_queue s" "l_queued (wake s) = l_queued s" "l_ran (wake s) = l_ran s"
  "l_canceled (wake s) = l_canceled s" "l_loaded (wake s) = l_loaded s" "l_notify (wake s) = l_notify s"
  by (simp_all add: wake_def)

lemma loop_step_inv: "loop_step body s s' \<Longrightarrow> loop_inv s \<Longrightarrow> loop_inv s'"
proof (induction rule: loop_step.induct)
  case (try_dequeue s r us t x vs)
  then show ?case by (auto simp: loop_inv_def of_thread_oldest)
next
  case (queue_more s r x as)
  then show ?case by (cases r) (auto simp: loop_inv_def queue_inplace_def enqueue_def set_canceled_def)
qed (auto simp: loop_inv_def)

lemma post_step_inv: "post_step s s' \<Longrightarrow> loop_inv s \<Longrightarrow> loop_inv s'"
  by (induction rule: post_step.induct) (auto simp: loop_inv_def enqueue_def set_canceled_def)

lemma ev_step_inv: "ev_step body s s' \<Longrightarrow> loop_inv s \<Longrightarrow> loop_inv s'"
  unfolding ev_step_def using loop_step_inv post_step_inv by (auto simp: loop_inv_def elim!: spuriousE)

lemma reachable_loop_inv: "(ev_step body)\<^sup>*\<^sup>* initial_loop s \<Longrightarrow> loop_inv s"
proof (induction rule: rtranclp_induct)
  case base
  show ?case by (simp add: loop_inv_def initial_loop_def)
qed (rule ev_step_inv)

section \<open>The loop ends\<close>

text \<open>A weight of the work bounds what it queues.\<close>

definition cost :: "(work \<Rightarrow> nat) \<Rightarrow> action \<Rightarrow> nat" where
  "cost m a = (case a of Queue x \<Rightarrow> m x + 3 | Set_Stopping \<Rightarrow> 1)"

definition bounded_work :: "(work \<Rightarrow> nat) \<Rightarrow> (work \<Rightarrow> action list) \<Rightarrow> bool" where
  "bounded_work m body \<longleftrightarrow> (\<forall>x. sum_list (map (cost m) (body x)) \<le> m x)"

primrec left_to_do :: "(work \<Rightarrow> nat) \<Rightarrow> place \<Rightarrow> nat" where
  "left_to_do m Before = 0"
| "left_to_do m (Dispatch r) = 0"
| "left_to_do m (Running r as) = Suc (sum_list (map (cost m) as))"
| "left_to_do m (Emptied r) = 0"
| "left_to_do m Waiting = 0"
| "left_to_do m Destroying = 0"
| "left_to_do m After = 0"

fun distance :: "place \<Rightarrow> nat" where
  "distance (Dispatch First) = 5"
| "distance (Running First as) = 5"
| "distance (Emptied First) = 4"
| "distance Destroying = 3"
| "distance (Dispatch Final) = 2"
| "distance (Running Final as) = 2"
| "distance (Emptied Final) = 1"
| "distance p = 0"

definition weight :: "(work \<Rightarrow> nat) \<Rightarrow> loop \<Rightarrow> nat" where
  "weight m s = 8 * (sum_list (map (\<lambda>e. m (snd e) + 2) (l_queue s)) + left_to_do m (l_place s)) + distance (l_place s)"

definition winding_down :: "loop \<Rightarrow> bool" where
  "winding_down s \<longleftrightarrow> (case l_place s of
      Before \<Rightarrow> False | Waiting \<Rightarrow> False
    | Dispatch r \<Rightarrow> r = First \<longrightarrow> l_state s = stopping
    | Running r as \<Rightarrow> r = First \<longrightarrow> l_state s = stopping
    | Emptied r \<Rightarrow> (r = First \<longrightarrow> l_state s = stopping) \<and> l_queue s = []
    | Destroying \<Rightarrow> True
    | After \<Rightarrow> l_queue s = [] \<and> l_state s = stopped)"

lemma winding_down_step:
  assumes "loop_step body s s'" and "winding_down s" and "bounded_work m body"
  shows "winding_down s' \<and> weight m s' < weight m s"
  using assms
proof (induction rule: loop_step.induct)
  case (try_dequeue s r us t x vs)
  from try_dequeue.prems(2) have "sum_list (map (cost m) (body x)) \<le> m x" by (simp add: bounded_work_def)
  with try_dequeue show ?case by (cases r) (auto simp: winding_down_def weight_def)
next
  case (queue_more s r x as)
  then show ?case
    by (cases r) (auto simp: winding_down_def weight_def queue_inplace_def enqueue_def set_canceled_def cost_def)
next
  case (set_stopping s r as)
  then show ?case by (cases r) (auto simp: winding_down_def weight_def cost_def)
next
  case (work_done s r)
  then show ?case by (cases r) (auto simp: winding_down_def weight_def)
next
  case (dispatched_all s r)
  then show ?case by (cases r) (auto simp: winding_down_def weight_def)
qed (auto simp: winding_down_def weight_def)

lemma winding_down_steps:
  assumes "(loop_step body)\<^sup>*\<^sup>* s s'" and "winding_down s" and "bounded_work m body"
  shows "winding_down s'"
  using assms by (induction rule: rtranclp_induct) (auto dest: winding_down_step)

lemma winding_down_progress:
  assumes "winding_down s" and "l_place s \<noteq> After"
  shows "\<exists>s'. loop_step body s s'"
proof (cases "l_place s")
  case (Dispatch r)
  show ?thesis
  proof (cases "l_queue s")
    case Nil
    with Dispatch show ?thesis using loop_step.dispatched_all by blast
  next
    case (Cons e q)
    with Dispatch loop_step.try_dequeue [of s r "[]" "fst e" "snd e" q body] show ?thesis by (auto simp: oldest_of_def)
  qed
next
  case (Running r as)
  then show ?thesis
  proof (cases as)
    case (Cons a bs)
    with Running show ?thesis using loop_step.queue_more loop_step.set_stopping by (cases a) blast+
  qed (use Running loop_step.work_done in blast)
next
  case (Emptied r)
  with assms(1) show ?thesis using loop_step.destroy loop_step.finish by (cases r) (auto simp: winding_down_def, blast)
next
  case Destroying
  then show ?thesis using loop_step.dispatch_pending by blast
qed (use assms in \<open>auto simp: winding_down_def\<close>)

lemma winding_down_finishes:
  assumes "winding_down s" and "bounded_work m body"
  shows "\<exists>s'. (loop_step body)\<^sup>*\<^sup>* s s' \<and> l_place s' = After"
  using assms(1)
proof (induction "weight m s" arbitrary: s rule: less_induct)
  case less
  show ?case
  proof (cases "l_place s = After")
    case False
    from winding_down_progress [OF less.prems False] obtain s1 where s1: "loop_step body s s1" by blast
    from winding_down_step [OF s1 less.prems assms(2)] less.hyps [of s1] show ?thesis
      using converse_rtranclp_into_rtranclp [of "loop_step body", OF s1] by blast
  qed blast
qed

lemma winding_down_no_chain:
  assumes "winding_down (f 0)" and "bounded_work m body" and chain: "\<And>n. loop_step body (f n) (f (Suc n))"
  shows False
proof -
  have down: "winding_down (f n)" for n
    by (induction n) (use assms(1) winding_down_step [OF chain _ assms(2)] in auto)
  have "weight m (f n) + n \<le> weight m (f 0)" for n
  proof (induction n)
    case (Suc n)
    with winding_down_step [OF chain [of n] down assms(2)] show ?case by simp
  qed simp
  from this [of "Suc (weight m (f 0))"] show False by simp
qed

lemma loop_steps_ev: "(loop_step body)\<^sup>*\<^sup>* s s' \<Longrightarrow> (ev_step body)\<^sup>*\<^sup>* s s'"
  by (rule mono_rtranclp [rule_format, of "loop_step body"]) (simp_all add: ev_step_def)

section \<open>Runs\<close>

text \<open>The work of these runs moves the loop to stopping.\<close>

definition ex_body :: "work \<Rightarrow> action list" where
  "ex_body x = [Set_Stopping]"

definition ex_loop :: "state_t \<Rightarrow> place \<Rightarrow> (tid \<times> work) list \<Rightarrow> (tid \<times> work) list \<Rightarrow> tid list \<Rightarrow> (tid \<times> work) list \<Rightarrow> loop" where
  "ex_loop st p queue loaded notify past =
     \<lparr>l_state = st, l_place = p, l_queue = queue, l_loaded = loaded, l_notify = notify, l_queued = past @ queue, l_ran = past, l_canceled = []\<rparr>"

abbreviation ex_runs :: "loop \<Rightarrow> bool" where
  "ex_runs \<equiv> (ev_step ex_body)\<^sup>*\<^sup>* initial_loop"

lemmas ex_next = rtranclp.rtrancl_into_rtrancl [of "ev_step ex_body" initial_loop]

lemma ex_load: "ex_runs (ex_loop st p [] [] [] past) \<Longrightarrow> is_running st \<Longrightarrow> t \<noteq> loop_thread \<Longrightarrow> ex_runs (ex_loop st p [] [(t, x)] [] past)"
  using post_step.load [of t "ex_loop st p [] [] [] past" x] by (auto simp: ev_step_def ex_loop_def intro: ex_next)

lemma ex_enqueue: "ex_runs (ex_loop st p [] [(t, x)] [] past) \<Longrightarrow> ex_runs (ex_loop st p [(t, x)] [] [t] past)"
  using post_step.enqueue [of "ex_loop st p [] [(t, x)] [] past" "[]" t x "[]"] by (auto simp: ev_step_def ex_loop_def enqueue_def intro: ex_next)

lemma ex_notify: "ex_runs (ex_loop st p q [] [t] past) \<Longrightarrow> p \<noteq> Waiting \<Longrightarrow> ex_runs (ex_loop st p q [] [] past)"
  using post_step.notify_one [of t "ex_loop st p q [] [t] past"] by (auto simp: ev_step_def ex_loop_def wake_def intro: ex_next)

lemma ex_dispatched: "ex_runs (ex_loop st (Dispatch r) [] l n past) \<Longrightarrow> ex_runs (ex_loop st (Emptied r) [] l n past)"
  using loop_step.dispatched_all [of "ex_loop st (Dispatch r) [] l n past" r ex_body] by (auto simp: ev_step_def ex_loop_def intro: ex_next)

lemma ex_running: "ex_runs (ex_loop running (Dispatch First) [] [] [] [])"
  using loop_step.prepare_ev [of initial_loop ex_body] by (auto simp: ev_step_def ex_loop_def initial_loop_def intro: r_into_rtranclp)

lemma ex_stopping: "ex_runs (ex_loop stopping (Running First []) [] [] [] [(1, 7)])"
proof -
  have "ex_runs (ex_loop running (Dispatch First) [(1, 7)] [] [] [])"
    by (rule ex_notify [of _ _ _ 1], rule ex_enqueue, rule ex_load, rule ex_running) (simp_all add: is_running_def loop_thread_def)
  then have "ex_runs (ex_loop running (Running First [Set_Stopping]) [] [] [] [(1, 7)])"
    by (rule ex_next) (use loop_step.try_dequeue [of "ex_loop running (Dispatch First) [(1, 7)] [] [] []" First "[]" 1 7 "[]" ex_body] in
      \<open>auto simp: ev_step_def ex_loop_def ex_body_def oldest_of_def\<close>)
  then show ?thesis
    by (rule ex_next) (use loop_step.set_stopping [of "ex_loop running (Running First [Set_Stopping]) [] [] [] [(1, 7)]" First "[]" ex_body] in
      \<open>auto simp: ev_step_def ex_loop_def\<close>)
qed

lemma ex_sleeping: "ex_runs (ex_loop running Waiting [(1, 7)] [] [] [])"
proof -
  have "ex_runs (ex_loop running (Emptied First) [(1, 7)] [] [] [])"
    by (rule ex_notify [of _ _ _ 1], rule ex_enqueue, rule ex_dispatched, rule ex_load, rule ex_running)
      (simp_all add: is_running_def loop_thread_def)
  then show ?thesis
    by (rule ex_next) (use loop_step.wait [of "ex_loop running (Emptied First) [(1, 7)] [] [] []" ex_body] in \<open>auto simp: ev_step_def ex_loop_def\<close>)
qed

lemma ex_left_over: "ex_runs (ex_loop stopped After [(2, 8)] [] [2] [(1, 7)])"
proof -
  have "ex_runs (ex_loop stopping (Dispatch First) [] [] [] [(1, 7)])"
    by (rule ex_next [OF ex_stopping]) (use loop_step.work_done [of "ex_loop stopping (Running First []) [] [] [] [(1, 7)]" First ex_body] in
      \<open>auto simp: ev_step_def ex_loop_def\<close>)
  from ex_dispatched [OF ex_load [OF this, of 2 8]] have "ex_runs (ex_loop stopping (Emptied First) [] [(2, 8)] [] [(1, 7)])"
    by (simp add: is_running_def loop_thread_def)
  then have "ex_runs (ex_loop stopping Destroying [] [(2, 8)] [] [(1, 7)])"
    by (rule ex_next) (use loop_step.destroy [of "ex_loop stopping (Emptied First) [] [(2, 8)] [] [(1, 7)]" ex_body] in \<open>auto simp: ev_step_def ex_loop_def\<close>)
  then have "ex_runs (ex_loop destroyed (Dispatch Final) [] [(2, 8)] [] [(1, 7)])"
    by (rule ex_next) (use loop_step.dispatch_pending [of "ex_loop stopping Destroying [] [(2, 8)] [] [(1, 7)]" ex_body] in \<open>auto simp: ev_step_def ex_loop_def\<close>)
  from ex_dispatched [OF this] have "ex_runs (ex_loop stopped After [] [(2, 8)] [] [(1, 7)])"
    by (rule ex_next) (use loop_step.finish [of "ex_loop destroyed (Emptied Final) [] [(2, 8)] [] [(1, 7)]" ex_body] in \<open>auto simp: ev_step_def ex_loop_def\<close>)
  then show ?thesis by (rule ex_enqueue)
qed

section \<open>Properties\<close>



text \<open>
  C13. When the loop was moved to stopping and no other thread queues work, the loop ends: if the work does not queue work for ever, no run of the loop is
  infinite, and from every state it can get to it reaches its end, stopped, with an empty queue and all queued work run.
\<close>

theorem stopping_loop_ends:
  assumes "(ev_step body)\<^sup>*\<^sup>* initial_loop s" and "l_state s = stopping" and "l_place s = Running First as" and "bounded_work m body"
  shows "(\<nexists>f. f 0 = s \<and> (\<forall>n. loop_step body (f n) (f (Suc n))))
    \<and> (\<forall>s1. (loop_step body)\<^sup>*\<^sup>* s s1 \<longrightarrow>
         (\<exists>s2. (loop_step body)\<^sup>*\<^sup>* s1 s2 \<and> l_place s2 = After \<and> l_state s2 = stopped \<and> l_queue s2 = [] \<and> mset (l_ran s2) = mset (l_queued s2)))"
proof (intro conjI allI impI)
  have down: "winding_down s" using assms(2,3) by (simp add: winding_down_def)
  then show "\<nexists>f. f 0 = s \<and> (\<forall>n. loop_step body (f n) (f (Suc n)))"
    using winding_down_no_chain [OF _ assms(4)] by blast
  fix s1 assume s1: "(loop_step body)\<^sup>*\<^sup>* s s1"
  from winding_down_finishes [OF winding_down_steps [OF s1 down assms(4)] assms(4)]
  obtain s2 where s2: "(loop_step body)\<^sup>*\<^sup>* s1 s2" "l_place s2 = After" by blast
  from s1 s2(1) have run: "(loop_step body)\<^sup>*\<^sup>* s s2" by simp
  from winding_down_steps [OF run down assms(4)] s2(2) have e: "l_queue s2 = []" "l_state s2 = stopped" by (simp_all add: winding_down_def)
  have "(ev_step body)\<^sup>*\<^sup>* initial_loop s2" using assms(1) loop_steps_ev [OF run] by simp
  from reachable_loop_inv [OF this] e s2
  show "\<exists>s2. (loop_step body)\<^sup>*\<^sup>* s1 s2 \<and> l_place s2 = After \<and> l_state s2 = stopped \<and> l_queue s2 = [] \<and> mset (l_ran s2) = mset (l_queued s2)"
    by (auto simp: loop_inv_def)
qed


theorem stopping_loop_ends_witness:
  "\<exists>s. (loop_step ex_body)\<^sup>*\<^sup>* (ex_loop stopping (Running First []) [] [] [] [(1, 7)]) s \<and> l_place s = After \<and> l_state s = stopped \<and> l_queue s = []"
proof -
  have "bounded_work (\<lambda>_. 1) ex_body" by (simp add: bounded_work_def ex_body_def cost_def)
  from stopping_loop_ends [OF ex_stopping, of "[]" "\<lambda>_. 1"] this show ?thesis by (auto simp: ex_loop_def)
qed

text \<open>
  C38. A notification can be lost, because \<open>queue\<close> does not take the mutex of the loop: in a reachable state the loop waits although the queue is not empty,
  and no thread is about to notify it. The loop itself cannot go on.
\<close>

theorem wakeup_lost:
  "(ev_step ex_body)\<^sup>*\<^sup>* initial_loop (ex_loop running Waiting [(1, 7)] [] [] [])
    \<and> l_notify (ex_loop running Waiting [(1, 7)] [] [] []) = [] \<and> l_loaded (ex_loop running Waiting [(1, 7)] [] [] []) = []
    \<and> (\<nexists>s. loop_step ex_body (ex_loop running Waiting [(1, 7)] [] [] []) s)"
  using ex_sleeping by (auto simp: ex_loop_def elim: loop_stepE)

text \<open>
  Work can be lost when the loop ends: a thread that saw the loop running queues its work after the loop has stopped; in this reachable state
  the work is in the queue, was not canceled, and the loop has ended.
\<close>

theorem work_lost_at_the_end:
  "(ev_step ex_body)\<^sup>*\<^sup>* initial_loop (ex_loop stopped After [(2, 8)] [] [2] [(1, 7)])
    \<and> l_canceled (ex_loop stopped After [(2, 8)] [] [2] [(1, 7)]) = [] \<and> l_queue (ex_loop stopped After [(2, 8)] [] [2] [(1, 7)]) = [(2, 8)]
    \<and> (\<nexists>s. loop_step ex_body (ex_loop stopped After [(2, 8)] [] [2] [(1, 7)]) s)"
  using ex_left_over by (auto simp: ex_loop_def elim: loop_stepE)

end
