(* ===== verification/Spans.thy ===== *)
theory Spans
  imports Flat_Sets
begin

text \<open>
  Views onto arrays: \<open>Span\<close> (src/include/idle/core/util/span.hpp), \<open>StringView\<close> (util/string_view.hpp) and the functions on symbol
  names (detail/symbol.hpp). A view is an offset into an array and a size of 64 bits. Reading outside of the array is undefined in
  C++: the operations return \<open>None\<close> then.
\<close>

section \<open>Spans\<close>

type_synonym size_type = "64 word"

record 'a span =
  sp_mem :: "'a list"
  sp_data :: nat
  sp_size :: size_type

definition npos :: size_type where "npos = -1"

definition span_at :: "'a span \<Rightarrow> size_type \<Rightarrow> 'a option" where
  "span_at s idx = (let k = sp_data s + unat idx in if k < length (sp_mem s) then Some (sp_mem s ! k) else None)"

definition span_empty :: "'a span \<Rightarrow> bool" where
  "span_empty s \<longleftrightarrow> sp_size s = 0"

definition span_clear :: "'a span \<Rightarrow> 'a span" where
  "span_clear s = s\<lparr>sp_data := 0, sp_size := 0\<rparr>"

definition subspan :: "'a span \<Rightarrow> size_type \<Rightarrow> size_type \<Rightarrow> 'a span" where
  "subspan s pos count =
     (if count = npos then s\<lparr>sp_data := sp_data s + unat pos, sp_size := sp_size s - pos\<rparr>
      else s\<lparr>sp_data := sp_data s + unat pos, sp_size := count\<rparr>)"

lemma unat_Suc_below:
  assumes "(x :: size_type) < y"
  shows "unat (x + 1) = Suc (unat x)"
proof -
  have "unat y < 2 ^ LENGTH(64)" by (rule unsigned_less)
  with assms have "Suc (unat x) < 2 ^ 64" by (simp add: word_less_nat_alt)
  then show ?thesis by (simp add: unat_word_ariths)
qed

function span_find :: "'a span \<Rightarrow> 'a \<Rightarrow> size_type \<Rightarrow> size_type option" where
  "span_find s v pos =
     (if pos < sp_size s
      then (case span_at s pos of None \<Rightarrow> None | Some c \<Rightarrow> if c = v then Some pos else span_find s v (pos + 1))
      else Some npos)"
  by pat_completeness auto
termination
  by (relation "measure (\<lambda>(s, v, pos). unat (sp_size s) - unat pos)") (auto simp: unat_Suc_below word_less_nat_alt)

function rfind_loop :: "'a span \<Rightarrow> 'a \<Rightarrow> size_type \<Rightarrow> size_type option" where
  "rfind_loop s v pos =
     (if pos > 0
      then (case span_at s pos of None \<Rightarrow> None | Some c \<Rightarrow> if c = v then Some pos else rfind_loop s v (pos - 1))
      else Some npos)"
  by pat_completeness auto
termination
  by (relation "measure (\<lambda>(s, v, pos). unat pos)") (auto simp: unat_minus_one word_gt_0 unat_gt_0)

definition span_rfind :: "'a span \<Rightarrow> 'a \<Rightarrow> size_type \<Rightarrow> size_type option" where
  "span_rfind s v pos = rfind_loop s v (if pos \<ge> sp_size s then sp_size s - 1 else pos)"

definition span_split :: "'a span \<Rightarrow> 'a \<Rightarrow> ('a span \<times> 'a span) option" where
  "span_split s v =
     (case span_find s v 0 of
        None \<Rightarrow> None
      | Some nx \<Rightarrow> Some (if nx \<noteq> npos then (subspan s 0 nx, subspan s (nx + 1) npos) else (s, span_clear s)))"

declare span_find.simps [simp del] rfind_loop.simps [simp del]

text \<open>The loops over the tokens of a string, \<open>while (StringView part = s.split(c))\<close>: they end at the first empty token.\<close>

lemma span_find_bound: "span_find s v pos = Some nx \<Longrightarrow> nx \<noteq> npos \<Longrightarrow> nx < sp_size s \<and> pos \<le> nx"
proof (induction s v pos rule: span_find.induct)
  case (1 s v pos)
  show ?case
  proof (cases "pos < sp_size s")
    case True
    then obtain c where c: "span_at s pos = Some c" using 1(2) by (subst (asm) span_find.simps) (auto split: option.splits)
    show ?thesis
    proof (cases "c = v")
      case True
      with 1(2) c \<open>pos < sp_size s\<close> show ?thesis by (subst (asm) span_find.simps) simp
    next
      case False
      with 1(2) c \<open>pos < sp_size s\<close> have "span_find s v (pos + 1) = Some nx" by (subst (asm) span_find.simps) simp
      from 1(1) [OF True c False this 1(3)] unat_Suc_below [OF True] show ?thesis by (simp add: word_le_nat_alt)
    qed
  next
    case False
    with 1(2,3) show ?thesis by (subst (asm) span_find.simps) simp
  qed
qed

lemma split_smaller:
  assumes "span_split s v = Some (cur, rest)" and "\<not> span_empty cur"
  shows "unat (sp_size rest) < unat (sp_size s)"
proof -
  from assms(1) obtain nx where f: "span_find s v 0 = Some nx" by (auto simp: span_split_def split: option.splits)
  show ?thesis
  proof (cases "nx = npos")
    case True
    with assms f show ?thesis by (auto simp: span_split_def span_clear_def span_empty_def unat_gt_0)
  next
    case False
    from span_find_bound [OF f False] have n: "nx < sp_size s" by simp
    have "sp_size rest = sp_size s - (nx + 1)" using assms(1) f False by (auto simp: span_split_def subspan_def)
    moreover have "nx + 1 \<le> sp_size s" "unat (nx + 1) = Suc (unat nx)"
      using n unat_Suc_below [OF n] by (simp_all add: word_le_nat_alt word_less_nat_alt)
    moreover have "unat nx < unat (sp_size s)" using n by (simp add: word_less_nat_alt)
    ultimately show ?thesis by (simp add: unat_sub)
  qed
qed

function span_tokens :: "'a span \<Rightarrow> 'a \<Rightarrow> 'a span list option" where
  "span_tokens s v =
     (case span_split s v of
        None \<Rightarrow> None
      | Some (cur, rest) \<Rightarrow> if span_empty cur then Some [] else map_option ((#) cur) (span_tokens rest v))"
  by pat_completeness auto
termination
  by (relation "measure (\<lambda>(s, v). unat (sp_size s))") (auto simp: split_smaller)

declare span_tokens.simps [simp del]

function eq_from :: "'a span \<Rightarrow> 'a span \<Rightarrow> size_type \<Rightarrow> bool option" where
  "eq_from a b i =
     (if i \<noteq> sp_size a
      then (case (span_at a i, span_at b i) of
          (Some x, Some y) \<Rightarrow> if x \<noteq> y then Some False else eq_from a b (i + 1)
        | _ \<Rightarrow> None)
      else Some True)"
  by pat_completeness auto
termination
proof (relation "measure (\<lambda>(a, b, i). unat (sp_size a - i))")
  fix a b :: "'a span" and i :: size_type
  assume "i \<noteq> sp_size a"
  then have "sp_size a - i \<noteq> 0" by simp
  then have "unat (sp_size a - i - 1) < unat (sp_size a - i)" by (simp add: unat_minus_one unat_gt_0)
  then show "((a, b, i + 1), a, b, i) \<in> measure (\<lambda>(a, b, i). unat (sp_size a - i))" by (simp add: diff_diff_eq)
qed simp

declare eq_from.simps [simp del]

definition span_eq :: "'a span \<Rightarrow> 'a span \<Rightarrow> bool option" where
  "span_eq a b = (if sp_size a = sp_size b then eq_from a b 0 else Some False)"

section \<open>String views\<close>

function is_subseq_from :: "'a span \<Rightarrow> 'a span \<Rightarrow> size_type \<Rightarrow> size_type \<Rightarrow> bool option" where
  "is_subseq_from s seq pos off =
     (if off < sp_size seq
      then (case (span_at s (pos + off), span_at seq off) of
          (Some x, Some y) \<Rightarrow> if x \<noteq> y then Some False else is_subseq_from s seq pos (off + 1)
        | _ \<Rightarrow> None)
      else Some True)"
  by pat_completeness auto
termination
  by (relation "measure (\<lambda>(s, seq, pos, off). unat (sp_size seq) - unat off)") (auto simp: unat_Suc_below word_less_nat_alt)

declare is_subseq_from.simps [simp del]

definition is_subseq :: "'a span \<Rightarrow> 'a span \<Rightarrow> size_type \<Rightarrow> bool option" where
  "is_subseq s seq pos = is_subseq_from s seq pos 0"

function sv_find_loop :: "'a span \<Rightarrow> 'a span \<Rightarrow> size_type \<Rightarrow> size_type \<Rightarrow> size_type option" where
  "sv_find_loop s seq len pos =
     (if pos < len
      then (case is_subseq s seq pos of None \<Rightarrow> None | Some b \<Rightarrow> if b then Some pos else sv_find_loop s seq len (pos + 1))
      else Some npos)"
  by pat_completeness auto
termination
  by (relation "measure (\<lambda>(s, seq, len, pos). unat len - unat pos)") (auto simp: unat_Suc_below word_less_nat_alt)

declare sv_find_loop.simps [simp del]

definition sv_find :: "'a span \<Rightarrow> 'a span \<Rightarrow> size_type \<Rightarrow> size_type option" where
  "sv_find s seq pos =
     (if span_empty seq then Some pos
      else if sp_size seq > sp_size s - pos then Some npos
      else sv_find_loop s seq (sp_size s - sp_size seq) pos)"

definition sv_substr :: "'a span \<Rightarrow> size_type \<Rightarrow> size_type \<Rightarrow> 'a span" where
  "sv_substr s pos count = subspan s pos count"

definition starts_with :: "'a span \<Rightarrow> 'a span \<Rightarrow> bool option" where
  "starts_with s seq = (if sp_size seq > sp_size s then Some False else span_eq (sv_substr s 0 (sp_size seq)) seq)"

function sv_less_from :: "'a::linorder span \<Rightarrow> 'a span \<Rightarrow> size_type \<Rightarrow> bool option" where
  "sv_less_from a b i =
     (if i < sp_size a
      then (case (span_at a i, span_at b i) of
          (Some x, Some y) \<Rightarrow> if x \<noteq> y then Some (x < y) else sv_less_from a b (i + 1)
        | _ \<Rightarrow> None)
      else Some False)"
  by pat_completeness auto
termination
  by (relation "measure (\<lambda>(a, b, i). unat (sp_size a) - unat i)") (auto simp: unat_Suc_below word_less_nat_alt)

declare sv_less_from.simps [simp del]

definition sv_less :: "'a::linorder span \<Rightarrow> 'a span \<Rightarrow> bool option" where
  "sv_less a b = (if sp_size a \<noteq> sp_size b then Some (sp_size a < sp_size b) else sv_less_from a b 0)"

section \<open>Symbol names\<close>

definition filename :: "char \<Rightarrow> char span \<Rightarrow> char span option" where
  "filename path_separator s =
     map_option (\<lambda>pos. if pos \<noteq> npos then sv_substr s (pos + 1) npos else s) (span_rfind s path_separator npos)"

definition undecorate_pretty_function_name :: "char span \<Rightarrow> char span option" where
  "undecorate_pretty_function_name s =
     (case span_find s CHR ''('' 0 of
        None \<Rightarrow> None
      | Some e \<Rightarrow>
          if e = npos then Some s
          else map_option (\<lambda>b. if b = npos then sv_substr s 0 e else sv_substr s (b + 1) (e - b - 1)) (span_rfind s CHR '' '' e))"

definition current_namespace :: "char span \<Rightarrow> char span option" where
  "current_namespace s =
     map_option (\<lambda>b. if b = npos \<or> b + 1 \<ge> sp_size s then s else sv_substr s (b + 1) npos) (span_rfind s CHR '':'' npos)"

definition pop_namespace :: "char span \<Rightarrow> char span option" where
  "pop_namespace s =
     map_option (\<lambda>b. if b = npos \<or> b = 0 then span_clear s else sv_substr s 0 (b - 1)) (span_rfind s CHR '':'' npos)"

section \<open>What the loops compute\<close>

definition wf_span :: "'a span \<Rightarrow> bool" where
  "wf_span s \<longleftrightarrow> sp_data s + unat (sp_size s) \<le> length (sp_mem s)"

definition content :: "'a span \<Rightarrow> 'a list" where
  "content s = take (unat (sp_size s)) (drop (sp_data s) (sp_mem s))"

definition to_size :: "nat option \<Rightarrow> size_type" where
  "to_size r = (case r of None \<Rightarrow> npos | Some i \<Rightarrow> of_nat i)"

lemma length_content [simp]: "wf_span s \<Longrightarrow> length (content s) = unat (sp_size s)"
  by (simp add: wf_span_def content_def)

lemma span_at_content: "wf_span s \<Longrightarrow> unat i < unat (sp_size s) \<Longrightarrow> span_at s i = Some (content s ! unat i)"
  by (simp add: wf_span_def content_def span_at_def Let_def)

lemma find_upt: "List.find P [k..<n] = (if k < n then if P k then Some k else List.find P [Suc k..<n] else None)"
  by (simp add: upt_rec)

lemma to_size_unat [simp]: "to_size (Some (unat x)) = x"
  by (simp add: to_size_def)

lemma span_find_eq:
  "wf_span s \<Longrightarrow> span_find s v pos = Some (to_size (List.find (\<lambda>i. content s ! i = v) [unat pos..<unat (sp_size s)]))"
proof (induction s v pos rule: span_find.induct)
  case (1 s v pos)
  show ?case
  proof (cases "pos < sp_size s")
    case True
    then have at: "span_at s pos = Some (content s ! unat pos)" using span_at_content [OF 1(2)] by (simp add: word_less_nat_alt)
    have "span_find s v pos = (if content s ! unat pos = v then Some pos else span_find s v (pos + 1))"
      using True at by (subst span_find.simps) simp
    with 1(1) [OF True at _ 1(2)] True show ?thesis
      by (subst find_upt) (simp add: unat_Suc_below [OF True] word_less_nat_alt)
  next
    case False
    then show ?thesis by (subst span_find.simps) (simp add: to_size_def word_less_nat_alt)
  qed
qed

lemma rfind_loop_eq:
  "wf_span s \<Longrightarrow> pos < sp_size s \<Longrightarrow> rfind_loop s v pos = Some (to_size (List.find (\<lambda>i. content s ! i = v) (rev [1..<Suc (unat pos)])))"
proof (induction s v pos rule: rfind_loop.induct)
  case (1 s v pos)
  show ?case
  proof (cases "pos > 0")
    case True
    have at: "span_at s pos = Some (content s ! unat pos)" using span_at_content [OF 1(2)] 1(3) by (simp add: word_less_nat_alt)
    have p: "unat (pos - 1) = unat pos - 1" using True by (simp add: unat_minus_one word_gt_0)
    have l: "pos - 1 < sp_size s" "unat pos \<ge> 1" using 1(3) p True by (simp_all add: word_less_nat_alt)
    have "rfind_loop s v pos = (if content s ! unat pos = v then Some pos else rfind_loop s v (pos - 1))"
      using True at by (subst rfind_loop.simps) simp
    with 1(1) [OF True at _ 1(2) l(1)] l(2) p show ?thesis by simp
  next
    case False
    then have "pos = 0" by (simp add: word_gt_0)
    then show ?thesis by (subst rfind_loop.simps) (simp add: to_size_def)
  qed
qed

lemma is_subseq_from_eq:
  assumes "wf_span s" and "wf_span seq" and "unat pos + unat (sp_size seq) \<le> unat (sp_size s)" and "off \<le> sp_size seq"
  shows "is_subseq_from s seq pos off = Some (drop (unat off) (take (unat (sp_size seq)) (drop (unat pos) (content s))) = drop (unat off) (content seq))"
  using assms
proof (induction s seq pos off rule: is_subseq_from.induct)
  case (1 s seq pos off)
  let ?t = "take (unat (sp_size seq)) (drop (unat pos) (content s))"
  have len: "length ?t = unat (sp_size seq)" using 1(2,4) by simp
  show ?case
  proof (cases "off < sp_size seq")
    case True
    then have o: "unat off < unat (sp_size seq)" by (simp add: word_less_nat_alt)
    have "unat (sp_size s) < 2 ^ LENGTH(64)" by (rule unsigned_less)
    with o 1(4) have "unat pos + unat off < 2 ^ 64" by simp
    then have po: "unat (pos + off) = unat pos + unat off" by (simp add: unat_word_ariths)
    have at: "span_at s (pos + off) = Some (content s ! (unat pos + unat off))" "span_at seq off = Some (content seq ! unat off)"
      using span_at_content [OF 1(2), of "pos + off"] span_at_content [OF 1(3) o] o 1(4) by (simp_all add: po)
    have d: "drop (unat off) ?t = content s ! (unat pos + unat off) # drop (Suc (unat off)) ?t"
      "drop (unat off) (content seq) = content seq ! unat off # drop (Suc (unat off)) (content seq)"
      using Cons_nth_drop_Suc [of "unat off" ?t] Cons_nth_drop_Suc [of "unat off" "content seq"] o len 1(2-4) by simp_all
    have le: "off + 1 \<le> sp_size seq" using unat_Suc_below [OF True] o by (simp add: word_le_nat_alt)
    show ?thesis
      using 1(1) [OF True refl at _ 1(2-4) le] True at unat_Suc_below [OF True] by (subst is_subseq_from.simps) (simp add: d)
  next
    case False
    with 1(5) have "off = sp_size seq" by simp
    then show ?thesis using len 1(3) by (subst is_subseq_from.simps) simp
  qed
qed

abbreviation occurs :: "'a list \<Rightarrow> 'a list \<Rightarrow> nat \<Rightarrow> bool" where
  "occurs xs ys i \<equiv> prefix ys (drop i xs)"

lemma is_subseq_eq:
  assumes "wf_span s" and "wf_span seq" and "unat pos + unat (sp_size seq) \<le> unat (sp_size s)"
  shows "is_subseq s seq pos = Some (occurs (content s) (content seq) (unat pos))"
proof -
  have "(take n xs = ys) = prefix ys xs" if "length ys = n" for n and xs ys :: "'a list"
    using that by (metis append_eq_conv_conj prefix_def append_take_drop_id)
  then show ?thesis using is_subseq_from_eq [OF assms, of 0] assms(2) by (simp add: is_subseq_def)
qed

lemma sv_find_loop_eq:
  assumes "wf_span s" and "wf_span seq" and "unat len + unat (sp_size seq) \<le> unat (sp_size s)"
  shows "sv_find_loop s seq len pos = Some (to_size (List.find (occurs (content s) (content seq)) [unat pos..<unat len]))"
  using assms
proof (induction s seq len pos rule: sv_find_loop.induct)
  case (1 s seq len pos)
  show ?case
  proof (cases "pos < len")
    case True
    then have "unat pos + unat (sp_size seq) \<le> unat (sp_size s)" using 1(4) by (simp add: word_less_nat_alt)
    from is_subseq_eq [OF 1(2,3) this] have sub: "is_subseq s seq pos = Some (occurs (content s) (content seq) (unat pos))" .
    then have "sv_find_loop s seq len pos = (if occurs (content s) (content seq) (unat pos) then Some pos else sv_find_loop s seq len (pos + 1))"
      using True by (subst sv_find_loop.simps) simp
    with 1(1) [OF True sub _ 1(2-4)] True show ?thesis
      by (subst find_upt) (simp add: unat_Suc_below [OF True] word_less_nat_alt)
  next
    case False
    then show ?thesis by (subst sv_find_loop.simps) (simp add: to_size_def word_less_nat_alt)
  qed
qed

fun split_list :: "'a \<Rightarrow> 'a list \<Rightarrow> 'a list list" where
  "split_list v [] = [[]]"
| "split_list v (x # xs) =
     (if x = v then [] # split_list v xs else (x # hd (split_list v xs)) # tl (split_list v xs))"

fun join_list :: "'a \<Rightarrow> 'a list list \<Rightarrow> 'a list" where
  "join_list v [] = []"
| "join_list v [t] = t"
| "join_list v (t # u # ts) = t @ v # join_list v (u # ts)"

lemma split_list_ne [simp]: "split_list v xs \<noteq> []"
  by (cases xs) simp_all

lemma split_list_step:
  "split_list v xs = takeWhile (\<lambda>x. x \<noteq> v) xs # (case dropWhile (\<lambda>x. x \<noteq> v) xs of [] \<Rightarrow> [] | y # ys \<Rightarrow> split_list v ys)"
  by (induction xs) simp_all

lemma join_list_Cons: "ts \<noteq> [] \<Longrightarrow> join_list v (t # ts) = t @ v # join_list v ts"
  by (cases ts) simp_all

lemma join_split: "join_list v (split_list v xs) = xs"
proof (induction xs)
  case (Cons x xs)
  have "join_list v ((x # t) # ts) = x # join_list v (t # ts)" for t ts by (cases ts) simp_all
  with Cons show ?case by (simp add: join_list_Cons)
qed simp

lemma split_no_separator: "t \<in> set (split_list v xs) \<Longrightarrow> v \<notin> set t"
proof (induction xs arbitrary: t)
  case (Cons x xs)
  have "hd (split_list v xs) \<in> set (split_list v xs)" "set (tl (split_list v xs)) \<subseteq> set (split_list v xs)"
    by (auto dest: list.set_sel(2) [OF split_list_ne])
  with Cons show ?case by (auto split: if_splits)
qed simp

lemma takeWhile_hit: "v \<in> set xs \<Longrightarrow> length (takeWhile (\<lambda>x. x \<noteq> v) xs) < length xs \<and> xs ! length (takeWhile (\<lambda>x. x \<noteq> v) xs) = v"
  by (induction xs) auto

lemma find_takeWhile:
  "List.find (\<lambda>i. xs ! i = v) [0..<length xs] = (if v \<in> set xs then Some (length (takeWhile (\<lambda>x. x \<noteq> v) xs)) else None)"
proof (cases "v \<in> set xs")
  case True
  let ?n = "length (takeWhile (\<lambda>x. x \<noteq> v) xs)"
  note n = takeWhile_hit [OF True]
  have "xs ! i \<noteq> v" if "i < ?n" for i using that nth_mem [OF that] by (auto dest: set_takeWhileD simp: takeWhile_nth)
  then have "List.find (\<lambda>i. xs ! i = v) [0..<length xs] = Some ?n"
    unfolding find_Some_iff using n by (intro exI [of _ ?n]) simp
  with True show ?thesis by simp
next
  case False
  then show ?thesis by (auto simp: find_None_iff in_set_conv_nth)
qed

lemma content_subspan:
  assumes "wf_span s" and "unat pos + unat count \<le> unat (sp_size s)" and "count \<noteq> npos"
  shows "wf_span (subspan s pos count) \<and> content (subspan s pos count) = take (unat count) (drop (unat pos) (content s))"
  using assms by (simp add: subspan_def wf_span_def content_def min_absorb1 add.commute drop_take)

lemma content_rest:
  assumes "wf_span s" and "pos \<le> sp_size s"
  shows "wf_span (subspan s pos npos) \<and> content (subspan s pos npos) = drop (unat pos) (content s)"
  using assms by (simp add: subspan_def wf_span_def content_def drop_take unat_sub word_le_nat_alt add.commute)

lemma span_split_eq:
  assumes "wf_span s"
  shows "\<exists>cur rest. span_split s v = Some (cur, rest) \<and> wf_span cur \<and> wf_span rest \<and> content cur = takeWhile (\<lambda>x. x \<noteq> v) (content s)
    \<and> content rest = (case dropWhile (\<lambda>x. x \<noteq> v) (content s) of [] \<Rightarrow> [] | y # ys \<Rightarrow> ys)"
proof -
  let ?n = "length (takeWhile (\<lambda>x. x \<noteq> v) (content s))"
  have f: "span_find s v 0 = Some (to_size (if v \<in> set (content s) then Some ?n else None))"
    using span_find_eq [OF assms, of v 0] find_takeWhile [of "content s" v] assms by simp
  show ?thesis
  proof (cases "v \<in> set (content s)")
    case True
    have n: "?n < unat (sp_size s)" using takeWhile_hit [OF True] assms by simp
    moreover have "unat (sp_size s) < 2 ^ LENGTH(64)" by (rule unsigned_less)
    ultimately have u: "unat (of_nat ?n :: size_type) = ?n" by (simp add: unat_of_nat)
    with n have lt: "(of_nat ?n :: size_type) < sp_size s" by (simp add: word_less_nat_alt)
    then have np: "(of_nat ?n :: size_type) \<noteq> npos" by (metis npos_def word_order.extremum_strict)
    have s: "span_split s v = Some (subspan s 0 (of_nat ?n), subspan s (of_nat ?n + 1) npos)"
      using f True np by (simp add: span_split_def to_size_def)
    have "wf_span (subspan s 0 (of_nat ?n)) \<and> content (subspan s 0 (of_nat ?n)) = takeWhile (\<lambda>x. x \<noteq> v) (content s)"
      using content_subspan [OF assms, of 0 "of_nat ?n"] np n by (simp add: u takeWhile_eq_take [symmetric])
    moreover have "of_nat ?n + 1 \<le> sp_size s" using n unat_Suc_below [OF lt] u by (simp add: word_le_nat_alt)
    from content_rest [OF assms this] have "wf_span (subspan s (of_nat ?n + 1) npos)"
      "content (subspan s (of_nat ?n + 1) npos) = drop (Suc ?n) (content s)" using unat_Suc_below [OF lt] u by simp_all
    moreover have "dropWhile (\<lambda>x. x \<noteq> v) (content s) = content s ! ?n # drop (Suc ?n) (content s)"
      using n assms by (simp add: dropWhile_eq_drop Cons_nth_drop_Suc)
    ultimately show ?thesis using s True by simp
  next
    case False
    then have w: "takeWhile (\<lambda>x. x \<noteq> v) (content s) = content s" "dropWhile (\<lambda>x. x \<noteq> v) (content s) = []"
      by (auto simp: takeWhile_eq_all_conv dropWhile_eq_Nil_conv)
    have "span_split s v = Some (s, span_clear s)" using f False by (simp add: span_split_def to_size_def)
    moreover have "wf_span (span_clear s)" "content (span_clear s) = []" by (simp_all add: span_clear_def wf_span_def content_def)
    ultimately show ?thesis unfolding w using assms by simp
  qed
qed

lemma span_empty_content: "wf_span s \<Longrightarrow> span_empty s \<longleftrightarrow> content s = []"
  using length_content [of s] by (auto simp: span_empty_def unat_eq_0 simp flip: length_0_conv)

lemma span_tokens_eq:
  "wf_span s \<Longrightarrow> \<exists>ts. span_tokens s v = Some ts \<and> map content ts = takeWhile (\<lambda>t. t \<noteq> []) (split_list v (content s))"
proof (induction s v rule: span_tokens.induct)
  case (1 s v)
  from span_split_eq [OF 1(2), of v] obtain cur rest where sp: "span_split s v = Some (cur, rest)" "wf_span cur" "wf_span rest"
    "content cur = takeWhile (\<lambda>x. x \<noteq> v) (content s)"
    "content rest = (case dropWhile (\<lambda>x. x \<noteq> v) (content s) of [] \<Rightarrow> [] | y # ys \<Rightarrow> ys)" by blast
  show ?case
  proof (cases "content cur = []")
    case True
    then show ?thesis using sp span_empty_content [OF sp(2)] by (subst span_tokens.simps, subst split_list_step) simp
  next
    case False
    then have "\<not> span_empty cur" using span_empty_content [OF sp(2)] by simp
    from 1(1) [OF sp(1) refl this sp(3)] obtain ts where ts: "span_tokens rest v = Some ts"
      "map content ts = takeWhile (\<lambda>t. t \<noteq> []) (split_list v (content rest))" by blast
    have "takeWhile (\<lambda>t. t \<noteq> []) (split_list v (content s)) = content cur # map content ts"
      using False sp(4,5) ts(2) unfolding split_list_step [of v "content s"]
      by (cases "dropWhile (\<lambda>x. x \<noteq> v) (content s)") (simp_all del: takeWhile_eq_Nil_iff dropWhile_eq_Nil_conv)
    with ts(1) sp(1) \<open>\<not> span_empty cur\<close> show ?thesis by (subst span_tokens.simps) simp
  qed
qed

section \<open>The order of strings\<close>

definition shortlex :: "'a::linorder list \<Rightarrow> 'a list \<Rightarrow> bool" where
  "shortlex xs ys \<longleftrightarrow> length xs < length ys \<or> length xs = length ys \<and> (\<exists>i < length xs. take i xs = take i ys \<and> xs ! i < ys ! i)"

lemma sv_less_from_eq:
  assumes "wf_span a" and "wf_span b" and "sp_size a = sp_size b" and "take (unat i) (content a) = take (unat i) (content b)"
  shows "sv_less_from a b i = Some (\<exists>k < unat (sp_size a). take k (content a) = take k (content b) \<and> content a ! k < content b ! k)"
  using assms
proof (induction a b i rule: sv_less_from.induct)
  case (1 a b i)
  have len: "length (content a) = unat (sp_size a)" "length (content b) = unat (sp_size a)" using 1(2-4) by simp_all
  show ?case
  proof (cases "i < sp_size a")
    case True
    then have i: "unat i < unat (sp_size a)" by (simp add: word_less_nat_alt)
    have at: "span_at a i = Some (content a ! unat i)" "span_at b i = Some (content b ! unat i)"
      using span_at_content [OF 1(2) i] span_at_content [OF 1(3), of i] i 1(4) by simp_all
    show ?thesis
    proof (cases "content a ! unat i = content b ! unat i")
      case eq: True
      then have "take (Suc (unat i)) (content a) = take (Suc (unat i)) (content b)" using 1(5) i len by (simp add: take_Suc_conv_app_nth)
      with 1(1) [OF True refl at _ 1(2-4)] eq True at unat_Suc_below [OF True] show ?thesis by (subst sv_less_from.simps) simp
    next
      case False
      have "k = unat i" if "take k (content a) = take k (content b)" "content a ! k < content b ! k" "k < unat (sp_size a)" for k
      proof (rule ccontr)
        assume "k \<noteq> unat i"
        then consider "k < unat i" | "unat i < k" by linarith
        then show False
        proof cases
          assume "k < unat i"
          then have "content a ! k = content b ! k" using 1(5) by (metis nth_take)
          with that(2) show False by simp
        next
          assume "unat i < k"
          then have "content a ! unat i = content b ! unat i" using that(1) by (metis nth_take)
          with False show False by simp
        qed
      qed
      then have "(\<exists>k < unat (sp_size a). take k (content a) = take k (content b) \<and> content a ! k < content b ! k) \<longleftrightarrow> content a ! unat i < content b ! unat i"
        using 1(5) i by blast
      then show ?thesis using False True at by (subst sv_less_from.simps) simp
    qed
  next
    case False
    then have "content a = content b" using 1(5) len by (simp add: word_less_nat_alt)
    then show ?thesis using False by (subst sv_less_from.simps) simp
  qed
qed

lemma sv_less_shortlex:
  assumes "wf_span a" and "wf_span b"
  shows "sv_less a b = Some (shortlex (content a) (content b))"
proof (cases "sp_size a = sp_size b")
  case True
  with sv_less_from_eq [OF assms, of 0] assms show ?thesis by (simp add: sv_less_def shortlex_def)
next
  case False
  then have "unat (sp_size a) \<noteq> unat (sp_size b)" unfolding word_unat_eq_iff .
  with False assms show ?thesis by (auto simp: sv_less_def shortlex_def word_less_nat_alt)
qed

lemma first_difference:
  assumes "length xs = length ys" and "xs \<noteq> ys"
  shows "\<exists>i < length xs. take i xs = take i ys \<and> xs ! i \<noteq> ys ! i"
  using assms
proof (induction xs ys rule: list_induct2)
  case (Cons x xs y ys)
  show ?case
  proof (cases "x = y")
    case True
    with Cons obtain i where "i < length xs" "take i xs = take i ys" "xs ! i \<noteq> ys ! i" by auto
    with True show ?thesis by (intro exI [of _ "Suc i"]) simp
  qed (intro exI [of _ 0], simp)
qed simp

interpretation short: strict_total "shortlex :: 'a::linorder list \<Rightarrow> 'a list \<Rightarrow> bool"
proof
  fix xs ys zs :: "'a list"
  show "\<not> shortlex xs xs" by (simp add: shortlex_def)
  show "shortlex xs ys \<or> xs = ys \<or> shortlex ys xs"
    using first_difference [of xs ys] by (auto simp: shortlex_def) (metis linorder_less_linear)+
  assume a: "shortlex xs ys" "shortlex ys zs"
  show "shortlex xs zs"
  proof (cases "length xs = length ys \<and> length ys = length zs")
    case False
    with a show ?thesis by (auto simp: shortlex_def)
  next
    case True
    with a obtain i j where i: "i < length xs" "take i xs = take i ys" "xs ! i < ys ! i" and j: "j < length xs" "take j ys = take j zs" "ys ! j < zs ! j"
      by (auto simp: shortlex_def)
    define k where "k = min i j"
    have "take k xs = take k ys" "take k ys = take k zs" using i(2) j(2) by (simp_all add: k_def) (metis min.commute take_take)+
    moreover have "xs ! k < zs ! k"
    proof (cases i j rule: linorder_cases)
      case less
      then have "ys ! i = zs ! i" using j(2) by (metis nth_take)
      with less i(3) show ?thesis by (simp add: k_def)
    next
      case equal
      with i(3) j(3) show ?thesis by (simp add: k_def)
    next
      case greater
      then have "xs ! j = ys ! j" using i(2) by (metis nth_take)
      with greater j(3) show ?thesis by (simp add: k_def)
    qed
    ultimately show ?thesis using True i(1) by (auto simp: shortlex_def k_def intro!: exI [of _ "min i j"])
  qed
qed

section \<open>Properties\<close>

definition view :: "'a list \<Rightarrow> 'a span" where
  "view xs = \<lparr>sp_mem = xs, sp_data = 0, sp_size = of_nat (length xs)\<rparr>"

text \<open>
  Searching a string in a string reads no character outside of the two and returns the first position from \<open>pos\<close> on at which the
  sequence occurs, or \<open>npos\<close>, but only of the positions strictly before the last one at which the sequence fits: an occurrence at
  the very end of the string is not found.
\<close>

theorem string_find_exact:
  assumes "wf_span s" and "wf_span seq" and "content seq \<noteq> []" and "pos \<le> sp_size s"
  shows "sv_find s seq pos
    = Some (to_size (List.find (occurs (content s) (content seq)) [unat pos..<length (content s) - length (content seq)]))"
proof (cases "sp_size seq > sp_size s - pos")
  case True
  then have "unat (sp_size s) - unat pos < unat (sp_size seq)" using assms(4) by (simp add: word_less_nat_alt unat_sub)
  then have "unat (sp_size s) - unat (sp_size seq) \<le> unat pos" by simp
  with True assms span_empty_content [OF assms(2)] show ?thesis by (simp add: sv_find_def to_size_def)
next
  case False
  then have le: "unat pos + unat (sp_size seq) \<le> unat (sp_size s)"
    using assms(4) by (simp add: word_less_nat_alt word_le_nat_alt unat_sub)
  then have "unat (sp_size s - sp_size seq) = unat (sp_size s) - unat (sp_size seq)" by (simp add: unat_sub word_le_nat_alt)
  with sv_find_loop_eq [OF assms(1,2), of "sp_size s - sp_size seq" pos] le False assms span_empty_content [OF assms(2)]
  show ?thesis by (simp add: sv_find_def)
qed

theorem string_find_exact_witness:
  "sv_find (view ''a warn'') (view ''warn'') 0 = Some npos \<and> sv_find (view ''a warn:'') (view ''warn'') 0 = Some 2"
proof -
  have v: "wf_span (view ''a warn'')" "wf_span (view ''warn'')" "content (view ''warn'') = ''warn''" "content (view ''a warn'') = ''a warn''"
    by (simp_all add: wf_span_def content_def view_def)
  have v': "wf_span (view ''a warn:'')" "content (view ''a warn:'') = ''a warn:''"
    by (simp_all add: wf_span_def content_def view_def)
  from string_find_exact [OF v(1,2), of 0] string_find_exact [OF v'(1) v(2), of 0] v v' show ?thesis
    by (simp add: upt_rec to_size_def)
qed

text \<open>
  Searching backwards from the end of a view returns the last position of the value, except that the first position is never
  looked at; on an empty view the search starts at the highest 64 bit number and reads outside of the array.
\<close>

theorem span_rfind_exact:
  assumes "wf_span s" and "length (sp_mem s) < 2 ^ 64"
  shows "span_rfind s v npos =
    (if span_empty s then None else Some (to_size (List.find (\<lambda>i. content s ! i = v) (rev [1..<length (content s)]))))"
proof (cases "span_empty s")
  case True
  then have "sp_size s - 1 = npos" by (simp add: span_empty_def npos_def)
  moreover have "unat npos = 2 ^ 64 - 1" by (simp add: npos_def unsigned_minus_1_eq_mask mask_eq_exp_minus_1)
  then have "span_at s npos = None" using assms(2) by (simp add: span_at_def Let_def)
  moreover have "npos > 0" by (simp add: npos_def word_gt_0)
  moreover have "sp_size s \<le> npos" by (simp add: npos_def)
  ultimately have "span_rfind s v npos = None" unfolding span_rfind_def by (subst rfind_loop.simps) simp
  with True show ?thesis by simp
next
  case False
  then have n: "sp_size s > 0" by (simp add: span_empty_def word_gt_0)
  have "unat (sp_size s - 1) = unat (sp_size s) - 1" using n by (simp add: unat_minus_one word_gt_0)
  moreover have "unat (sp_size s) \<ge> 1" using n by (simp add: word_less_nat_alt)
  moreover from calculation have "sp_size s - 1 < sp_size s" by (simp add: word_less_nat_alt)
  moreover have "sp_size s \<le> npos" by (simp add: npos_def)
  ultimately show ?thesis using rfind_loop_eq [OF assms(1), of "sp_size s - 1" v] False assms(1) by (simp add: span_rfind_def)
qed

theorem span_rfind_exact_witness:
  "span_rfind (view ''/x'') CHR ''/'' npos = Some npos \<and> span_rfind (view ''a/x'') CHR ''/'' npos = Some 1 \<and> span_rfind (view []) CHR ''/'' npos = None"
proof -
  have v: "wf_span (view ''/x'')" "wf_span (view ''a/x'')" "wf_span (view [] :: char span)" by (simp_all add: wf_span_def view_def)
  have c: "content (view ''/x'') = ''/x''" "content (view ''a/x'') = ''a/x''" "\<not> span_empty (view ''/x'')" "\<not> span_empty (view ''a/x'')"
    "span_empty (view [] :: char span)" by (simp_all add: content_def view_def span_empty_def)
  show ?thesis
    using span_rfind_exact [OF v(1), of "CHR ''/''"] span_rfind_exact [OF v(2), of "CHR ''/''"] span_rfind_exact [OF v(3), of "CHR ''/''"] c
    by (simp add: upt_rec to_size_def view_def)
qed

text \<open>
  C24. A loop over the tokens of a string yields the tokens between the separators in their order up to the first empty token: if no token is empty, joining them
  gives back the string, and no token contains the separator.
\<close>

theorem split_loop_tokens:
  assumes "wf_span s"
  shows "\<exists>ts. span_tokens s v = Some ts \<and> map content ts = takeWhile (\<lambda>t. t \<noteq> []) (split_list v (content s))
    \<and> ([] \<notin> set (split_list v (content s)) \<longrightarrow> join_list v (map content ts) = content s) \<and> (\<forall>t \<in> set ts. v \<notin> set (content t))"
proof -
  from span_tokens_eq [OF assms] obtain ts where ts: "span_tokens s v = Some ts" "map content ts = takeWhile (\<lambda>t. t \<noteq> []) (split_list v (content s))"
    by blast
  have "map content ts = split_list v (content s)" if "[] \<notin> set (split_list v (content s))"
    unfolding ts(2) using that by (auto simp: takeWhile_eq_all_conv)
  moreover have "content t \<in> set (split_list v (content s))" if "t \<in> set ts" for t
    using that arg_cong [OF ts(2), of set] by (auto dest: set_takeWhileD)
  ultimately show ?thesis using ts join_split split_no_separator by metis
qed

theorem split_loop_tokens_witness:
  "\<exists>ts. span_tokens (view ''a.b..c'') CHR ''.'' = Some ts \<and> map content ts = [''a'', ''b'']"
proof -
  have "wf_span (view ''a.b..c'')" "content (view ''a.b..c'') = ''a.b..c''" by (simp_all add: wf_span_def view_def content_def)
  with split_loop_tokens [of "view ''a.b..c''" "CHR ''.''"] show ?thesis by auto
qed

end
