(* ===== verification/Command_Processor.thy ===== *)
theory Command_Processor
  imports Spans Registries Requests
begin

text \<open>
  The command processor (src/lib/idle/interface/command_processor.cpp) with the arguments of a command
  (src/lib/idle/interface/arguments.cpp). It subscribes to the registry of the commands and keeps a map from their
  names to the commands.

  The map is a \<open>tsl::htrie_map\<close>, third-party code: it is the argument \<open>T\<close> of the definitions, and \<open>trie_laws\<close> is what
  its documentation promises. \<open>insert_ks\<close> leaves an existing entry alone.
\<close>

section \<open>The map\<close>

record 'm trie =
  t_empty :: 'm
  t_insert :: "string \<Rightarrow> iid \<Rightarrow> 'm \<Rightarrow> 'm"
  t_longest :: "string \<Rightarrow> 'm \<Rightarrow> (string \<times> iid) option"
  t_prefixed :: "string \<Rightarrow> 'm \<Rightarrow> string list"

definition longest_entry :: "(string \<rightharpoonup> iid) \<Rightarrow> string \<Rightarrow> (string \<times> iid) option" where
  "longest_entry m q =
     (case List.find (\<lambda>n. m (take n q) \<noteq> None) (rev [0..<Suc (length q)]) of
        None \<Rightarrow> None
      | Some n \<Rightarrow> map_option (Pair (take n q)) (m (take n q)))"

definition trie_laws :: "'m trie \<Rightarrow> ('m \<Rightarrow> string \<rightharpoonup> iid) \<Rightarrow> bool" where
  "trie_laws T look \<longleftrightarrow> look (t_empty T) = Map.empty
     \<and> (\<forall>k c m. look (t_insert T k c m) = (if look m k = None then (look m)(k \<mapsto> c) else look m))
     \<and> (\<forall>q m. t_longest T q m = longest_entry (look m) q)
     \<and> (\<forall>q m. distinct (t_prefixed T q m) \<and> set (t_prefixed T q m) = {k. prefix q k \<and> look m k \<noteq> None})"

section \<open>The processor\<close>

record 'm processor =
  p_commands :: 'm
  p_subscribed :: bool
  p_acquired :: "iid list"

datatype outcome = No_Such_Command | Invoke iid "string list" | Start_And_Invoke iid "string list"

definition insert_command :: "'m trie \<Rightarrow> (iid \<Rightarrow> string) \<Rightarrow> iid \<Rightarrow> 'm processor \<Rightarrow> 'm processor" where
  "insert_command T name c s = s\<lparr>p_commands := t_insert T (name c) c (p_commands s)\<rparr>"

definition processor_init :: "'m trie \<Rightarrow> (iid \<Rightarrow> string) \<Rightarrow> iid list \<Rightarrow> 'm processor \<Rightarrow> 'm processor" where
  "processor_init T name interfaces s = (fold (insert_command T name) interfaces s)\<lparr>p_subscribed := True\<rparr>"

definition processor_destroy :: "'m trie \<Rightarrow> 'm processor \<Rightarrow> 'm processor" where
  "processor_destroy T s = s\<lparr>p_subscribed := False, p_commands := t_empty T\<rparr>"

definition processor_created :: "'m trie \<Rightarrow> (iid \<Rightarrow> string) \<Rightarrow> iid \<Rightarrow> 'm processor \<Rightarrow> 'm processor" where
  "processor_created T name c s = insert_command T name c s"

definition processor_destroyed :: "'m trie \<Rightarrow> (iid \<Rightarrow> string) \<Rightarrow> iid \<Rightarrow> 'm processor \<Rightarrow> 'm processor" where
  "processor_destroyed T name c s = insert_command T name c s"

definition longestPrefixMatch :: "'m trie \<Rightarrow> string \<Rightarrow> 'm processor \<Rightarrow> iid option" where
  "longestPrefixMatch T command s = map_option snd (t_longest T command (p_commands s))"

definition arguments_from :: "string \<Rightarrow> string list" where
  "arguments_from str = filter (\<lambda>t. t \<noteq> []) (split_list CHR '' '' str)"

definition get_string :: "string list \<Rightarrow> nat \<Rightarrow> string res" where
  "get_string args index = (if index < length args then Inr (args ! index) else Inl AssertFailed)"

definition processor_invoke :: "'m trie \<Rightarrow> (iid \<Rightarrow> string) \<Rightarrow> (iid \<Rightarrow> bool) \<Rightarrow> string \<Rightarrow> 'm processor \<Rightarrow> outcome \<times> 'm processor" where
  "processor_invoke T name is_run args s =
     (case longestPrefixMatch T args s of
        None \<Rightarrow> (No_Such_Command, s)
      | Some c \<Rightarrow>
          (let prefix_free = drop (length (name c)) args in
           (if is_run c then Invoke c (arguments_from prefix_free) else Start_And_Invoke c (arguments_from prefix_free),
            s\<lparr>p_acquired := List.insert c (p_acquired s)\<rparr>)))"

definition processor_complete :: "'m trie \<Rightarrow> string \<Rightarrow> 'm processor \<Rightarrow> string list" where
  "processor_complete T command s = t_prefixed T command (p_commands s)"

definition processor_release :: "iid \<Rightarrow> 'm processor \<Rightarrow> release_reply \<times> 'm processor" where
  "processor_release c s = (Later, s\<lparr>p_acquired := removeAll c (p_acquired s)\<rparr>)"

section \<open>What is found\<close>

abbreviation known :: "('m \<Rightarrow> string \<rightharpoonup> iid) \<Rightarrow> 'm processor \<Rightarrow> string \<rightharpoonup> iid" where
  "known look s \<equiv> look (p_commands s)"

lemma insert_known:
  assumes "trie_laws T look"
  shows "known look (insert_command T name c s) = (if known look s (name c) = None then (known look s)(name c \<mapsto> c) else known look s)"
  using assms by (simp add: insert_command_def trie_laws_def)



lemma longest_entry_exact: "m q = Some c \<Longrightarrow> longest_entry m q = Some (q, c)"
  by (simp add: longest_entry_def)

section \<open>Reachable states\<close>

inductive processor_step :: "'m trie \<Rightarrow> (iid \<Rightarrow> string) \<Rightarrow> 'm processor \<Rightarrow> 'm processor \<Rightarrow> bool" for T name where
  init: "\<not> p_subscribed s \<Longrightarrow> processor_step T name s (processor_init T name interfaces s)"
| created: "p_subscribed s \<Longrightarrow> processor_step T name s (processor_created T name c s)"
| destroyed: "p_subscribed s \<Longrightarrow> processor_step T name s (processor_destroyed T name c s)"
| destroy: "p_subscribed s \<Longrightarrow> processor_step T name s (processor_destroy T s)"
| invoke: "processor_step T name s (snd (processor_invoke T name is_run line s))"
| release: "processor_step T name s (snd (processor_release c s))"

definition empty_processor :: "'m trie \<Rightarrow> 'm processor" where
  "empty_processor T = \<lparr>p_commands = t_empty T, p_subscribed = False, p_acquired = []\<rparr>"





section \<open>Properties\<close>


text \<open>
  A destroyed command stays in the map, because the handler of its destruction inserts it again: in every reachable state in which no other command has its name,
  the line with its name still invokes the destroyed command after the handler has run.
\<close>

theorem destroyed_command_stays:
  assumes "(processor_step T name)\<^sup>*\<^sup>* (empty_processor T) s" and "trie_laws T look" and "known look s (name c) \<in> {None, Some c}"
  shows "fst (processor_invoke T name is_run (name c) (processor_destroyed T name c s)) = (if is_run c then Invoke c [] else Start_And_Invoke c [])"
proof -
  have "known look (processor_destroyed T name c s) (name c) = Some c"
    using assms(3) by (auto simp: processor_destroyed_def insert_known [OF assms(2)])
  from longest_entry_exact [of "known look (processor_destroyed T name c s)", OF this]
  have "longestPrefixMatch T (name c) (processor_destroyed T name c s) = Some c"
    using assms(2) by (simp add: longestPrefixMatch_def trie_laws_def)
  then show ?thesis by (simp add: processor_invoke_def arguments_from_def Let_def)
qed

section \<open>A map that satisfies the laws\<close>

definition alist_trie :: "(string \<times> iid) list trie" where
  "alist_trie = \<lparr>t_empty = [], t_insert = (\<lambda>k c m. if map_of m k = None then (k, c) # m else m), t_longest = (\<lambda>q m. longest_entry (map_of m) q),
     t_prefixed = (\<lambda>q m. remdups (filter (prefix q) (map fst m)))\<rparr>"

definition ex_name :: "iid \<Rightarrow> string" where
  "ex_name c = (if c = 1 then ''ls'' else ''ls all'')"

definition ex_processor :: "(string \<times> iid) list processor" where
  "ex_processor = processor_created alist_trie ex_name 2 (processor_init alist_trie ex_name [1] (empty_processor alist_trie))"

lemma alist_laws: "trie_laws alist_trie map_of"
  by (auto simp: trie_laws_def alist_trie_def map_of_eq_None_iff dest: map_of_SomeD) (force dest: map_of_SomeD)?

lemma ex_processor_reachable: "(processor_step alist_trie ex_name)\<^sup>*\<^sup>* (empty_processor alist_trie) ex_processor"
proof -
  have "processor_step alist_trie ex_name (empty_processor alist_trie) (processor_init alist_trie ex_name [1] (empty_processor alist_trie))"
    by (rule processor_step.init) (simp add: empty_processor_def)
  moreover have "processor_step alist_trie ex_name (processor_init alist_trie ex_name [1] (empty_processor alist_trie)) ex_processor"
    unfolding ex_processor_def by (rule processor_step.created) (simp add: processor_init_def)
  ultimately show ?thesis by (meson converse_rtranclp_into_rtranclp r_into_rtranclp)
qed


theorem destroyed_command_stays_witness:
  "fst (processor_invoke alist_trie ex_name (\<lambda>c. False) ''ls all'' (processor_destroyed alist_trie ex_name 2 ex_processor)) = Start_And_Invoke 2 []"
proof -
  have "known map_of ex_processor (ex_name 2) \<in> {None, Some 2}" "ex_name 2 = ''ls all''" by (code_simp, code_simp)
  from destroyed_command_stays [OF ex_processor_reachable alist_laws this(1), of "\<lambda>c. False"] this(2) show ?thesis by simp
qed

end
