(* ===== verification/Use_Handles.thy ===== *)
theory Use_Handles
  imports Engine_Steps
begin

text \<open>
  Uses and handles (src/include/idle/core/use.hpp). A \<open>Use\<close> is a variable of a program that holds a use of a service; the variables are
  numbered. A \<open>Handle\<close> remembers the epoch of a service and locks only in the same epoch; whether the weak reference in it locks is the
  argument \<open>alive\<close>. The copy constructor of \<open>Use\<close> cannot be instantiated and is left out.

  The theory shows that the variables implement the ghost that counts handles in the theory \<open>Engine_Steps\<close>.
\<close>

section \<open>Operations\<close>

type_synonym slots = "nat \<Rightarrow> sid option"

type_synonym uses_state = "engine \<times> slots"

definition drop_use :: "sid option \<Rightarrow> op" where
  "drop_use obj = (case obj of None \<Rightarrow> Inr | Some s \<Rightarrow> dec_use s)"

definition add_use :: "sid option \<Rightarrow> op" where
  "add_use obj = (case obj of None \<Rightarrow> Inr | Some s \<Rightarrow> inc_use s)"

definition use_move :: "nat \<Rightarrow> nat \<Rightarrow> uses_state \<Rightarrow> uses_state res" where
  "use_move x y c = Inr (fst c, (snd c)(x := snd c y, y := None))"

definition use_assign :: "nat \<Rightarrow> nat \<Rightarrow> uses_state \<Rightarrow> uses_state res" where
  "use_assign x y c =
     bind (add_use (snd c y) (fst c)) (\<lambda>e. bind (drop_use (snd c x) e) (\<lambda>e. Inr (e, (snd c)(x := snd c y))))"

definition use_move_assign :: "nat \<Rightarrow> nat \<Rightarrow> uses_state \<Rightarrow> uses_state res" where
  "use_move_assign x y c =
     bind (drop_use (snd c x) (fst c)) (\<lambda>e. let other = snd c y in Inr (e, (snd c)(y := None, x := other)))"

definition use_destroy :: "nat \<Rightarrow> uses_state \<Rightarrow> uses_state res" where
  "use_destroy x c = bind (drop_use (snd c x) (fst c)) (\<lambda>e. Inr (e, (snd c)(x := None)))"

definition tryUse :: "sid \<Rightarrow> nat \<Rightarrow> uses_state \<Rightarrow> uses_state res" where
  "tryUse s x c = bind (try_use s (fst c)) (\<lambda>(b, e). Inr (e, (snd c)(x := if b then Some s else None)))"

definition useOf :: "sid \<Rightarrow> nat \<Rightarrow> uses_state \<Rightarrow> uses_state res" where
  "useOf s x c = bind (tryUse s x c) (\<lambda>c. check (snd c x \<noteq> None) c)"

definition service_epoch :: "engine \<Rightarrow> sid \<Rightarrow> 64 word" where
  "service_epoch e s = c_epoch (cluster_of e s)"

record use_handle =
  ha_obj :: "sid option"
  ha_epoch :: "64 word"

definition handleOf :: "sid \<Rightarrow> engine \<Rightarrow> use_handle" where
  "handleOf s e = \<lparr>ha_obj = Some s, ha_epoch = service_epoch e s\<rparr>"

definition handle_lock :: "bool \<Rightarrow> use_handle \<Rightarrow> nat \<Rightarrow> uses_state \<Rightarrow> uses_state res" where
  "handle_lock alive ha x c =
     (case ha_obj ha of
        None \<Rightarrow> Inl AssertFailed
      | Some s \<Rightarrow>
          if alive then
            bind (tryUse s x c) (\<lambda>c.
              if snd c x \<noteq> None then
                (if epoch_eq (service_epoch (fst c) s) (ha_epoch ha) then Inr c else use_destroy x c)
              else Inr c)
          else Inr (fst c, (snd c)(x := None)))"

section \<open>Steps\<close>

definition held_by :: "slots \<Rightarrow> sid \<Rightarrow> nat" where
  "held_by us s = card {x. us x = Some s}"

definition has_room :: "engine \<Rightarrow> sid option \<Rightarrow> bool" where
  "has_room e obj \<longleftrightarrow> (\<forall>s. obj = Some s \<longrightarrow> uses_of e s \<noteq> - 1)"

text \<open>
  A program takes uses, moves, assigns and drops them; a variable that is initialised held nothing before. In between the engine runs.
  No counter overflows (\<open>has_room\<close>).
\<close>

inductive use_step :: "hooks \<Rightarrow> uses_state \<Rightarrow> uses_state \<Rightarrow> bool" for hk where
  engine: "engine_step hk (e, held_by us) (e', held_by us) \<Longrightarrow> use_step hk (e, us) (e', us)"
| move: "x \<noteq> y \<Longrightarrow> us x = None \<Longrightarrow> use_move x y (e, us) = Inr c \<Longrightarrow> use_step hk (e, us) c"
| assign: "has_room e (us y) \<Longrightarrow> use_assign x y (e, us) = Inr c \<Longrightarrow> use_step hk (e, us) c"
| move_assign: "x \<noteq> y \<Longrightarrow> use_move_assign x y (e, us) = Inr c \<Longrightarrow> use_step hk (e, us) c"
| drop: "use_destroy x (e, us) = Inr c \<Longrightarrow> use_step hk (e, us) c"
| take: "us x = None \<Longrightarrow> has_room e (Some s) \<Longrightarrow> tryUse s x (e, us) = Inr c \<Longrightarrow> use_step hk (e, us) c"
| lock: "us x = None \<Longrightarrow> has_room e (ha_obj ha) \<Longrightarrow> handle_lock alive ha x (e, us) = Inr c \<Longrightarrow> use_step hk (e, us) c"

section \<open>The variables implement the count of handles\<close>

definition plus_use :: "sid option \<Rightarrow> (sid \<Rightarrow> nat) \<Rightarrow> sid \<Rightarrow> nat" where
  "plus_use obj h = (case obj of None \<Rightarrow> h | Some s \<Rightarrow> h(s := h s + 1))"

lemma held_by_upd:
  assumes "finite (dom us)"
  shows "plus_use (us x) (held_by (us(x := obj))) = plus_use obj (held_by us)"
proof -
  define A where "A = (\<lambda>s. {y. us y = Some s} - {x})"
  have f: "finite (A s)" for s unfolding A_def by (rule finite_subset [OF _ assms]) auto
  have e: "held_by (us(x := obj)) s = card (A s) + (if obj = Some s then 1 else 0)" for obj s
  proof -
    have "{y. (us(x := obj)) y = Some s} = (if obj = Some s then insert x (A s) else A s)" by (auto simp: A_def)
    moreover have "card (insert x (A s)) = Suc (card (A s))" by (rule card_insert_disjoint [OF f]) (simp add: A_def)
    ultimately show ?thesis by (simp add: held_by_def)
  qed
  from e [of "us x"] have d: "held_by us s = card (A s) + (if us x = Some s then 1 else 0)" for s by (simp add: fun_upd_idem)
  show ?thesis by (rule ext) (cases "us x"; cases obj; simp add: plus_use_def e d)
qed

lemma drop_use_steps:
  assumes "drop_use obj e = Inr e'" and "\<forall>s. obj = Some s \<longrightarrow> 0 < h s"
  shows "\<exists>h'. (engine_step hk)\<^sup>*\<^sup>* (e, h) (e', h') \<and> plus_use obj h' = h"
proof (cases obj)
  case None
  with assms show ?thesis by (auto simp: drop_use_def plus_use_def)
next
  case (Some s)
  with assms engine_step.release [of h s e e' hk] have "engine_step hk (e, h) (e', h(s := h s - 1))" by (simp add: drop_use_def)
  moreover have "plus_use obj (h(s := h s - 1)) = h" using Some assms(2) by (auto simp: plus_use_def)
  ultimately show ?thesis by blast
qed

lemma add_use_steps:
  assumes "add_use obj e = Inr e'" and "has_room e obj"
  shows "(engine_step hk)\<^sup>*\<^sup>* (e, h) (e', plus_use obj h)"
proof (cases obj)
  case (Some s)
  with assms engine_step.copy [of e s e' hk h] show ?thesis by (auto simp: add_use_def plus_use_def has_room_def)
qed (use assms in \<open>simp add: add_use_def plus_use_def\<close>)

lemma plus_use_inj: "plus_use obj h = plus_use obj h' \<Longrightarrow> h = h'"
proof (rule ext)
  fix s assume "plus_use obj h = plus_use obj h'"
  from fun_cong [OF this, of s] show "h s = h' s" by (cases obj) (auto simp: plus_use_def split: if_splits)
qed

lemma held_pos: "finite (dom us) \<Longrightarrow> us x = Some s \<Longrightarrow> 0 < held_by us s"
  unfolding held_by_def by (subst card_gt_0_iff) (auto intro: finite_subset [of _ "dom us"])

lemma finite_upd: "finite (dom us) \<Longrightarrow> finite (dom (us(x := obj)))"
  by (rule finite_subset [of _ "insert x (dom us)"]) auto

lemma destroy_steps:
  assumes "use_destroy x (e, us) = Inr (e', us')" and "finite (dom us)"
  shows "(engine_step hk)\<^sup>*\<^sup>* (e, held_by us) (e', held_by us') \<and> finite (dom us')"
proof -
  from assms(1) have d: "drop_use (us x) e = Inr e'" and us': "us' = us(x := None)" by (auto simp: use_destroy_def)
  from drop_use_steps [OF d, of "held_by us"] held_pos [OF assms(2)] obtain h' where
    h': "(engine_step hk)\<^sup>*\<^sup>* (e, held_by us) (e', h')" "plus_use (us x) h' = held_by us" by blast
  have "plus_use (us x) (held_by us') = held_by us" using held_by_upd [OF assms(2), of x None] by (simp add: us' plus_use_def)
  with h'(2) have "h' = held_by us'" using plus_use_inj by metis
  with h'(1) finite_upd [OF assms(2), of x None] show ?thesis by (simp add: us')
qed

lemma assign_steps:
  assumes "use_assign x y (e, us) = Inr (e', us')" and "has_room e (us y)" and "finite (dom us)"
  shows "(engine_step hk)\<^sup>*\<^sup>* (e, held_by us) (e', held_by us') \<and> finite (dom us')"
proof -
  from assms(1) obtain e1 where a: "add_use (us y) e = Inr e1" and d: "drop_use (us x) e1 = Inr e'" and us': "us' = us(x := us y)"
    by (auto simp: use_assign_def)
  have pos: "0 < plus_use (us y) (held_by us) s" if "us x = Some s" for s
    using held_pos [OF assms(3) that] by (auto simp: plus_use_def split: option.splits)
  from drop_use_steps [OF d, of "plus_use (us y) (held_by us)"] pos obtain h' where
    h': "(engine_step hk)\<^sup>*\<^sup>* (e1, plus_use (us y) (held_by us)) (e', h')" "plus_use (us x) h' = plus_use (us y) (held_by us)" by blast
  have "plus_use (us x) (held_by us') = plus_use (us y) (held_by us)" using held_by_upd [OF assms(3)] by (simp add: us')
  with h'(2) have "h' = held_by us'" using plus_use_inj by metis
  with add_use_steps [OF a assms(2), of hk "held_by us"] h'(1) finite_upd [OF assms(3), of x "us y"] show ?thesis by (auto simp: us' simp del: dom_fun_upd)
qed

lemma move_held:
  assumes "finite (dom us)" and "x \<noteq> y" and "us x = None"
  shows "held_by (us(x := us y, y := None)) = held_by us"
proof -
  have "plus_use (us y) (held_by (us(x := us y, y := None))) = plus_use (us y) (held_by us)"
    using held_by_upd [OF finite_upd [OF assms(1)], of x "us y" y None] held_by_upd [OF assms(1), of x "us y"] assms(2,3)
    by (simp add: plus_use_def)
  then show ?thesis by (rule plus_use_inj)
qed

lemma move_assign_steps:
  assumes "use_move_assign x y (e, us) = Inr (e', us')" and "x \<noteq> y" and "finite (dom us)"
  shows "(engine_step hk)\<^sup>*\<^sup>* (e, held_by us) (e', held_by us') \<and> finite (dom us')"
proof -
  from assms(1) have d: "drop_use (us x) e = Inr e'" and us': "us' = us(y := None, x := us y)"
    by (auto simp: use_move_assign_def Let_def)
  then have dd: "use_destroy x (e, us) = Inr (e', us(x := None))" by (simp add: use_destroy_def)
  let ?v = "us(x := None)"
  have "us' = ?v(x := ?v y, y := None)" using assms(2) by (auto simp: us' fun_eq_iff)
  with move_held [OF finite_upd [OF assms(3), of x None] assms(2)] have "held_by us' = held_by ?v" by simp
  with destroy_steps [OF dd assms(3), of hk] show ?thesis by (simp add: us')
qed

lemma try_steps:
  assumes "tryUse s x (e, us) = Inr (e', us')" and "us x = None" and "has_room e (Some s)" and "finite (dom us)"
  shows "(engine_step hk)\<^sup>*\<^sup>* (e, held_by us) (e', held_by us') \<and> finite (dom us')"
proof -
  from assms(1) obtain b where t: "try_use s e = Inr (b, e')" and us': "us' = us(x := if b then Some s else None)" by (auto simp: tryUse_def)
  show ?thesis
  proof (cases b)
    case True
    with t assms(3) engine_step.acquire [of e s e' hk "held_by us"]
    have "engine_step hk (e, held_by us) (e', (held_by us)(s := held_by us s + 1))" by (simp add: has_room_def)
    moreover have "held_by us' = (held_by us)(s := held_by us s + 1)"
      using held_by_upd [OF assms(4), of x "Some s"] assms(2) True by (simp add: us' plus_use_def)
    ultimately show ?thesis using assms(4) by (auto simp: us')
  next
    case False
    with t have "e' = e" by (auto simp: try_use_def check_def split: if_splits)
    moreover have "us' = us" using False assms(2) by (auto simp: us')
    ultimately show ?thesis using assms(4) by simp
  qed
qed

lemma lock_steps:
  assumes "handle_lock alive ha x (e, us) = Inr (e', us')" and "us x = None" and "has_room e (ha_obj ha)" and "finite (dom us)"
  shows "(engine_step hk)\<^sup>*\<^sup>* (e, held_by us) (e', held_by us') \<and> finite (dom us')"
proof -
  from assms(1) obtain s where s: "ha_obj ha = Some s" by (auto simp: handle_lock_def split: option.splits)
  show ?thesis
  proof (cases alive)
    case False
    with assms(1) s have "e' = e" "us' = us" using assms(2) by (auto simp: handle_lock_def)
    with assms(4) show ?thesis by simp
  next
    case True
    with assms(1) s obtain e1 us1 where t: "tryUse s x (e, us) = Inr (e1, us1)"
      and r: "(e1, us1) = (e', us') \<or> use_destroy x (e1, us1) = Inr (e', us')"
      by (auto simp: handle_lock_def split: if_splits)
    from try_steps [OF t assms(2) _ assms(4), of hk] assms(3) s have st: "(engine_step hk)\<^sup>*\<^sup>* (e, held_by us) (e1, held_by us1)" "finite (dom us1)"
      by simp_all
    with r destroy_steps [of x e1 us1 e' us' hk] show ?thesis by auto
  qed
qed

lemma use_step_refines:
  assumes "use_step hk c c'" and "finite (dom (snd c))"
  shows "(engine_step hk)\<^sup>*\<^sup>* (fst c, held_by (snd c)) (fst c', held_by (snd c')) \<and> finite (dom (snd c'))"
  using assms
proof (induction rule: use_step.induct)
  case (move x y us e c)
  then show ?case using move_held [of us x y] finite_upd [OF finite_upd, of us x "us y" y None] by (auto simp: use_move_def simp del: dom_fun_upd fun_upd_apply)
next
  case (assign e us y x c)
  then show ?case using assign_steps [of x y e us "fst c" "snd c" hk] by simp
next
  case (move_assign x y e us c)
  then show ?case using move_assign_steps [of x y e us "fst c" "snd c" hk] by simp
next
  case (drop x e us c)
  then show ?case using destroy_steps [of x e us "fst c" "snd c" hk] by simp
next
  case (take us x e s c)
  then show ?case using try_steps [of s x e us "fst c" "snd c" hk] by simp
next
  case (lock us x e ha alive c)
  then show ?case using lock_steps [of alive ha x e us "fst c" "snd c" hk] by simp
qed auto

lemma use_steps_refine:
  assumes "(use_step hk)\<^sup>*\<^sup>* (e0, us0) c" and "finite (dom us0)"
  shows "(engine_step hk)\<^sup>*\<^sup>* (e0, held_by us0) (fst c, held_by (snd c)) \<and> finite (dom (snd c))"
  using assms
proof (induction rule: rtranclp_induct)
  case (step c c')
  then show ?case using use_step_refines [of hk c c'] by (meson rtranclp_trans)
qed simp

section \<open>Properties\<close>

text \<open>
  C4. The variables of a program implement the count of handles of the engine: whatever a program does with uses and handles, the state it gets to is reachable by the
  engine with as many handles on a service as variables hold it. So a service that a variable holds is usable, its use counter is above one, and
  it is not moved to stopping.
\<close>

theorem uses_keep_service:
  assumes "stopped_engine e0" and "(use_step hk)\<^sup>*\<^sup>* (e0, \<lambda>x. None) (e, us)" and "us x = Some s"
  shows "reachable hk e (held_by us) \<and> isUsable e s \<and> 1 < uses_of e s \<and> try_set_service_stopping s e = Inr (False, e)"
proof -
  have zero: "held_by (\<lambda>x. None) = (\<lambda>s. 0)" by (simp add: held_by_def fun_eq_iff)
  from use_steps_refine [OF assms(2)] have steps: "(engine_step hk)\<^sup>*\<^sup>* (e0, \<lambda>s. 0) (e, held_by us)" and f: "finite (dom us)"
    by (simp_all add: zero)
  then have r: "reachable hk e (held_by us)" using assms(1) by (auto simp: reachable_def)
  have u: "uses_ok e (held_by us) s" by (rule life_invD(4) [OF reachable_life(1) [OF r]])
  have pos: "0 < held_by us s" by (rule held_pos [OF f assms(3)])
  then have p: "phase_of e s = running \<or> phase_of e s = starting" using u by (cases "phase_of e s") (simp_all add: uses_ok_def)
  then have "1 < unat (uses_of e s)" using u pos by (auto simp: uses_ok_def all_uses_def)
  then have "1 < uses_of e s" by (simp add: word_less_nat_alt)
  with r p show ?thesis by (auto simp: isUsable_def is_between_def try_set_service_stopping_def)
qed

theorem uses_keep_service_witness:
  "\<exists>e0 e us. stopped_engine e0 \<and> (use_step ready_hooks)\<^sup>*\<^sup>* (e0, \<lambda>x. None) (e, us) \<and> us 7 = Some 0 \<and> isUsable e 0 \<and> 1 < uses_of e 0"
proof -
  from ex_root_starts obtain e where e: "start_root ready_hooks ex_root = Inr e" "phase_of e 0 = running" "uses_of e 0 = 1"
    by (auto simp: root_runs_def split: sum.splits)
  let ?none = "\<lambda>x :: nat. None :: sid option" and ?e = "upd_svc 0 (\<lambda>x. x\<lparr>s_uses := s_uses x + 1\<rparr>) e"
  have "use_step ready_hooks (ex_root, ?none) (e, ?none)" by (rule use_step.engine [OF engine_step.root_start [OF e(1)]])
  moreover have "try_use 0 e = Inr (True, ?e)" using e by (simp add: try_use_def check_def isUsable_def is_between_def)
  then have "tryUse 0 7 (e, ?none) = Inr (?e, ?none(7 \<mapsto> 0))" by (simp add: tryUse_def)
  with use_step.take [of ?none 7 e 0 "(?e, ?none(7 \<mapsto> 0))" ready_hooks] have "use_step ready_hooks (e, ?none) (?e, ?none(7 \<mapsto> 0))"
    by (simp add: has_room_def e(3))
  ultimately have steps: "(use_step ready_hooks)\<^sup>*\<^sup>* (ex_root, ?none) (?e, ?none(7 \<mapsto> 0))" by simp
  have seven: "(?none(7 \<mapsto> 0)) 7 = Some 0" by simp
  from uses_keep_service [OF ex_root_stopped steps seven] steps seven ex_root_stopped show ?thesis by blast
qed

text \<open>Assigning a variable to itself by a move drops its use but keeps the pointer, so that its destruction drops the use of somebody else.\<close>

lemma self_move_drops_use:
  assumes "us x = Some s" and "dec_use s e = Inr e'"
  shows "use_move_assign x x (e, us) = Inr (e', us)"
  using assms by (simp add: use_move_assign_def drop_use_def Let_def fun_upd_idem)

end
