(* ===== verification/Enumerations.thy ===== *)
theory Enumerations
  imports Spans "HOL-Library.Multiset" "HOL-Library.Char_ord"
begin

text \<open>
  The reflection of enumerations: the sorting routine of src/include/idle/core/detail/algorithm.hpp, the tables that
  detail/enumerate_impl.hpp builds from the names that the compiler prints, and the searches in these tables (util/enum.hpp,
  util/enum_map.hpp). The name that the compiler prints for the value at a position is an argument of the model (\<open>seq\<close>, the
  empty string where the enumeration has no constant), and so are the two functions of the enumeration's trait.
\<close>

section \<open>Sorting\<close>

text \<open>
  \<open>detail::sort\<close> compares elements at a distance that shrinks by the factor 1.247330950103979, and swaps a pair unless its left
  element is smaller. The distance is computed on doubles in the code and rounded towards zero.
\<close>

definition shrink :: "nat \<Rightarrow> nat" where
  "shrink gap = (gap * 1000000000000000) div 1247330950103979"

function comb_pass :: "('a \<Rightarrow> 'a \<Rightarrow> bool) \<Rightarrow> nat \<Rightarrow> nat \<Rightarrow> bool \<Rightarrow> 'a list \<Rightarrow> bool \<times> 'a list" where
  "comb_pass pred gap i swapped xs =
     (if gap + i < length xs then
        let left = xs ! i; right = xs ! (i + gap)
        in if \<not> pred left right then comb_pass pred gap (Suc i) True (xs[i := right, i + gap := left])
           else comb_pass pred gap (Suc i) swapped xs
      else (swapped, xs))"
  by pat_completeness auto
termination
  by (relation "measure (\<lambda>(pred, gap, i, swapped, xs). length xs - (gap + i))") auto

declare comb_pass.simps [simp del]

partial_function (option) comb_loop :: "('a \<Rightarrow> 'a \<Rightarrow> bool) \<Rightarrow> nat \<Rightarrow> bool \<Rightarrow> 'a list \<Rightarrow> 'a list option" where
  "comb_loop pred gap swapped xs =
     (if gap > 1 \<or> swapped then
        let gap = (if gap > 1 then shrink gap else gap);
            r = comb_pass pred gap 0 False xs
        in comb_loop pred gap (fst r) (snd r)
      else Some xs)"

definition comb_sort :: "('a \<Rightarrow> 'a \<Rightarrow> bool) \<Rightarrow> 'a list \<Rightarrow> 'a list option" where
  "comb_sort pred xs = comb_loop pred (length xs) False xs"

section \<open>Building the tables\<close>

record enum_info =
  ei_size :: nat
  ei_chars :: nat
  ei_continuous :: bool

definition info_step :: "int \<Rightarrow> nat \<times> string \<Rightarrow> enum_info \<times> bool \<Rightarrow> enum_info \<times> bool" where
  "info_step mn = (\<lambda>(i, str) (count, interleaved).
     if str \<noteq> [] then
       (count\<lparr>ei_size := ei_size count + 1, ei_chars := ei_chars count + length str + 1,
              ei_continuous := (if ei_continuous count \<and> interleaved then False else ei_continuous count)\<rparr>, interleaved)
     else if ei_continuous count \<and> \<not> interleaved then (count, int i + mn \<ge> 0) else (count, interleaved))"

definition enum_info_of :: "string list \<Rightarrow> int \<Rightarrow> enum_info" where
  "enum_info_of data mn = fst (fold (info_step mn) (zip [0..<length data] data)
     (\<lparr>ei_size = 0, ei_chars = 1, ei_continuous = True\<rparr>, False))"

text \<open>The trait of an enumeration: its smallest value and the functions from positions to values and from characters to characters.\<close>

record enum_trait =
  et_min :: int
  et_value :: "int \<Rightarrow> int"
  et_transform :: "char \<Rightarrow> char"

record enum_entry =
  ee_value :: int
  ee_offset :: nat
  ee_length :: nat

record enumeration =
  en_entries :: "enum_entry list"
  en_names :: "char list"
  en_dense :: bool

text \<open>Writing an element of an array outside of its bounds is undefined.\<close>

definition array_set :: "'a list \<Rightarrow> nat \<Rightarrow> 'a \<Rightarrow> 'a list option" where
  "array_set xs i v = (if i < length xs then Some (xs[i := v]) else None)"

fun put_chars :: "(char \<Rightarrow> char) \<Rightarrow> nat \<Rightarrow> string \<Rightarrow> char list \<Rightarrow> char list option" where
  "put_chars tr off [] chars = Some chars"
| "put_chars tr off (c # cs) chars = Option.bind (array_set chars off (tr c)) (put_chars tr (Suc off) cs)"

fun expand_loop :: "enum_trait \<Rightarrow> nat \<Rightarrow> nat \<Rightarrow> nat \<Rightarrow> string list \<Rightarrow> enum_entry list \<Rightarrow> char list
    \<Rightarrow> (enum_entry list \<times> char list) option" where
  "expand_loop tr i off pos [] entries chars = Some (entries, chars)"
| "expand_loop tr i off pos (current # seq) entries chars =
     (if current \<noteq> [] then
        Option.bind (array_set entries pos
            \<lparr>ee_value = et_value tr (int i + et_min tr), ee_offset = off, ee_length = length current\<rparr>) (\<lambda>entries.
        Option.bind (put_chars (et_transform tr) off current chars) (\<lambda>chars.
        Option.bind (array_set chars (off + length current) (CHR 0x0A)) (\<lambda>chars.
        expand_loop tr (Suc i) (off + length current + 1) (Suc pos) seq entries chars)))
      else expand_loop tr (Suc i) off pos seq entries chars)"

definition expand_linear_impl :: "enum_trait \<Rightarrow> string list \<Rightarrow> enumeration option" where
  "expand_linear_impl tr seq =
     (let info = enum_info_of seq (et_min tr);
          entries = replicate (ei_size info) \<lparr>ee_value = 0, ee_offset = 0, ee_length = 0\<rparr>;
          chars = replicate (ei_chars info) (CHR 0x00)
      in Option.bind (expand_loop tr 0 0 0 seq entries chars) (\<lambda>(entries, chars).
         Option.bind (array_set chars (ei_chars info - 1) (CHR 0x00)) (\<lambda>chars.
         Some \<lparr>en_entries = entries, en_names = chars, en_dense = (ei_continuous info \<and> et_min tr = 0)\<rparr>)))"

section \<open>Searching the tables\<close>

definition entry_name :: "enumeration \<Rightarrow> enum_entry \<Rightarrow> string" where
  "entry_name e en = take (ee_length en) (drop (ee_offset en) (en_names e))"

definition name_at :: "enumeration \<Rightarrow> nat \<Rightarrow> string option" where
  "name_at e index = (if index < length (en_entries e) then Some (entry_name e (en_entries e ! index)) else None)"

definition value_at :: "enumeration \<Rightarrow> nat \<Rightarrow> int option" where
  "value_at e index = (if index < length (en_entries e) then Some (ee_value (en_entries e ! index)) else None)"

definition value_key :: "enumeration \<Rightarrow> nat \<Rightarrow> int" where
  "value_key e i = ee_value (en_entries e ! i)"

definition name_key :: "enumeration \<Rightarrow> nat \<Rightarrow> string" where
  "name_key e i = entry_name e (en_entries e ! i)"

definition enum_values :: "enumeration \<Rightarrow> nat list option" where
  "enum_values e =
     (let buffer = [0..<length (en_entries e)]
      in if \<not> en_dense e then comb_sort (\<lambda>l r. value_key e l < value_key e r) buffer else Some buffer)"

definition enum_names :: "enumeration \<Rightarrow> nat list option" where
  "enum_names e = comb_sort (\<lambda>l r. shortlex (name_key e l) (name_key e r)) [0..<length (en_entries e)]"

text \<open>
  A search with a comparison between positions and keys is the search for the key in the list of the keys at the positions. The result is
  the element of the table, \<open>None\<close> at the end of the table.
\<close>

definition search :: "('k \<Rightarrow> 'k \<Rightarrow> bool) \<Rightarrow> (nat \<Rightarrow> 'k) \<Rightarrow> nat list \<Rightarrow> 'k \<Rightarrow> nat option" where
  "search prec key idx v =
     (let itr = find_first_lower_bound_of prec (map key idx) v in if itr \<noteq> length idx then Some (idx ! itr) else None)"

text \<open>The name of a value that a sparse enumeration does not have is a violated assertion.\<close>

definition enum_name :: "enumeration \<Rightarrow> int \<Rightarrow> string option res" where
  "enum_name e v =
     (if en_dense e then Inr (name_at e (nat (v mod 2 ^ 64)))
      else case enum_values e of
          None \<Rightarrow> Inl Diverged
        | Some values \<Rightarrow> (case search (<) (value_key e) values v of
            None \<Rightarrow> Inl AssertFailed
          | Some i \<Rightarrow> Inr (name_at e i)))"

definition enum_find :: "enumeration \<Rightarrow> string \<Rightarrow> nat option res" where
  "enum_find e str = (case enum_names e of None \<Rightarrow> Inl Diverged | Some names \<Rightarrow> Inr (search shortlex (name_key e) names str))"

section \<open>Sorting is exact\<close>

lemma shrink_less: "1 < gap \<Longrightarrow> shrink gap < gap"
  unfolding shrink_def by (rule div_less_iff_less_mult [THEN iffD2]) simp_all

lemma shrink_pos: "1 < gap \<Longrightarrow> 0 < shrink gap"
  unfolding shrink_def by (subst div_greater_zero_iff) simp

lemma comb_pass_mset: "mset (snd (comb_pass pred gap i swapped xs)) = mset xs"
proof (induction pred gap i swapped xs rule: comb_pass.induct)
  case (1 pred gap i swapped xs)
  show ?case
  proof (cases "gap + i < length xs")
    case True
    have "mset (xs[i := xs ! (i + gap), i + gap := xs ! i]) = mset xs"
      using mset_swap [of "i + gap" xs i] True by simp
    with 1 [OF True refl refl] True show ?thesis by (subst comb_pass.simps) (simp add: Let_def)
  qed (simp add: comb_pass.simps)
qed

lemma comb_pass_True: "fst (comb_pass pred gap i True xs)"
proof (induction "length xs - (gap + i)" arbitrary: i xs rule: less_induct)
  case less
  show ?case
  proof (cases "gap + i < length xs")
    case True
    then show ?thesis by (subst comb_pass.simps) (simp add: Let_def less)
  qed (simp add: comb_pass.simps)
qed

lemma comb_pass_quiet:
  assumes "\<not> fst (comb_pass pred gap i False xs)"
  shows "snd (comb_pass pred gap i False xs) = xs \<and> (\<forall>j \<ge> i. gap + j < length xs \<longrightarrow> pred (xs ! j) (xs ! (j + gap)))"
  using assms
proof (induction "length xs - (gap + i)" arbitrary: i rule: less_induct)
  case less
  show ?case
  proof (cases "gap + i < length xs")
    case True
    with less.prems have p: "pred (xs ! i) (xs ! (i + gap))"
      by (subst (asm) comb_pass.simps) (auto simp: Let_def comb_pass_True split: if_splits)
    with True have eq: "comb_pass pred gap i False xs = comb_pass pred gap (Suc i) False xs"
      by (subst comb_pass.simps) (simp add: Let_def)
    have "snd (comb_pass pred gap (Suc i) False xs) = xs \<and> (\<forall>j \<ge> Suc i. gap + j < length xs \<longrightarrow> pred (xs ! j) (xs ! (j + gap)))"
      by (rule less.hyps) (use True less.prems in \<open>simp_all add: eq\<close>)
    with p show ?thesis unfolding eq by (metis le_antisym not_less_eq_eq)
  qed (simp add: comb_pass.simps)
qed

text \<open>Swapping a pair in the wrong order makes the list smaller in the lexicographic order.\<close>

definition smaller :: "('a \<Rightarrow> 'a \<Rightarrow> bool) \<Rightarrow> 'a set \<Rightarrow> ('a \<times> 'a) set" where
  "smaller pred S = {(x, y). x \<in> S \<and> y \<in> S \<and> pred x y}"

lemma swap_lex:
  assumes "i < j" and "j < length xs" and "(xs ! j, xs ! i) \<in> r"
  shows "(xs[i := xs ! j, j := xs ! i], xs) \<in> lex r"
proof -
  have "xs = take i xs @ xs ! i # drop (Suc i) xs" using assms by (intro id_take_nth_drop) simp
  moreover have "xs[i := xs ! j, j := xs ! i] = take i xs @ xs ! j # (drop (Suc i) xs)[j - Suc i := xs ! i]"
    using assms Suc_diff_Suc [of i j, symmetric] by (simp add: upd_conv_take_nth_drop [of i] list_update_append)
  ultimately show ?thesis
    unfolding lex_conv using assms
    by (intro CollectI case_prodI conjI exI [of _ "take i xs"] exI [of _ "xs ! j"] exI [of _ "xs ! i"]
        exI [of _ "(drop (Suc i) xs)[j - Suc i := xs ! i]"] exI [of _ "drop (Suc i) xs"]) simp_all
qed

locale keyed = strict_total prec for prec :: "'k \<Rightarrow> 'k \<Rightarrow> bool" +
  fixes key :: "'a \<Rightarrow> 'k"
begin

abbreviation before :: "'a \<Rightarrow> 'a \<Rightarrow> bool" where
  "before x y \<equiv> prec (key x) (key y)"

lemma wf_smaller: "finite S \<Longrightarrow> wf (smaller before S)"
proof (rule finite_acyclic_wf)
  assume "finite S"
  then have "finite (S \<times> S)" by simp
  then show "finite (smaller before S)" by (rule rev_finite_subset) (auto simp: smaller_def)
  have "trans (smaller before S)" by (rule transI) (auto simp: smaller_def intro: trans)
  then show "acyclic (smaller before S)" by (auto simp: acyclic_def trancl_id smaller_def irrefl)
qed

text \<open>A pass over distinct keys that swaps makes the list smaller.\<close>

lemma comb_pass_lex:
  assumes "0 < gap" and "distinct (map key xs)"
  shows "(snd (comb_pass before gap i b xs), xs) \<in> (lex (smaller before (set xs)))\<^sup>*
    \<and> (fst (comb_pass before gap i b xs) \<and> \<not> b \<longrightarrow> (snd (comb_pass before gap i b xs), xs) \<in> (lex (smaller before (set xs)))\<^sup>+)"
  using assms
proof (induction "length xs - (gap + i)" arbitrary: i b xs rule: less_induct)
  case less
  let ?ys = "xs[i := xs ! (i + gap), i + gap := xs ! i]"
  consider "length xs \<le> gap + i" | "gap + i < length xs" "before (xs ! i) (xs ! (i + gap))"
    | "gap + i < length xs" "\<not> before (xs ! i) (xs ! (i + gap))" by linarith
  then show ?case
  proof cases
    case 1
    then show ?thesis by (simp add: comb_pass.simps)
  next
    case 2
    then have "comb_pass before gap i b xs = comb_pass before gap (Suc i) b xs" by (subst comb_pass.simps) (simp add: Let_def)
    moreover have "length xs - (gap + Suc i) < length xs - (gap + i)" using 2(1) by simp
    ultimately show ?thesis using less.hyps [of xs "Suc i" b] less.prems by metis
  next
    case 3
    have "map key xs ! i \<noteq> map key xs ! (i + gap)"
      using 3(1) less.prems by (subst nth_eq_iff_index_eq) auto
    then have "(xs ! (i + gap), xs ! i) \<in> smaller before (set xs)"
      using 3 total [of "key (xs ! i)" "key (xs ! (i + gap))"] by (simp add: smaller_def)
    then have lx: "(?ys, xs) \<in> lex (smaller before (set xs))"
      using 3(1) less.prems(1) by (intro swap_lex) simp_all
    have ms: "mset ?ys = mset xs" using mset_swap [of "i + gap" xs i] 3(1) by simp
    then have st: "set ?ys = set xs" by (rule mset_eq_setD)
    have "mset (map key ?ys) = mset (map key xs)" using ms by (simp only: mset_map)
    then have "distinct (map key ?ys)" using less.prems(2) by (metis distinct_count_atmost_1 set_mset_mset)
    from less.hyps [of ?ys "Suc i" True, OF _ less.prems(1) this] 3(1)
    have "(snd (comb_pass before gap (Suc i) True ?ys), ?ys) \<in> (lex (smaller before (set xs)))\<^sup>*" by (simp add: st del: set_map)
    with lx have "(snd (comb_pass before gap (Suc i) True ?ys), xs) \<in> (lex (smaller before (set xs)))\<^sup>+" by (rule rtrancl_into_trancl1 [rotated])
    moreover have "comb_pass before gap i b xs = comb_pass before gap (Suc i) True ?ys"
      using 3 by (subst comb_pass.simps) (simp add: Let_def)
    ultimately show ?thesis by (metis trancl_into_rtrancl)
  qed
qed

lemma comb_pass_keys: "distinct (map key (snd (comb_pass before gap i b xs))) = distinct (map key xs)"
  and comb_pass_set: "set (snd (comb_pass before gap i b xs)) = set xs"
proof -
  have m: "mset (snd (comb_pass before gap i b xs)) = mset xs" by (rule comb_pass_mset)
  then show "set (snd (comb_pass before gap i b xs)) = set xs" by (rule mset_eq_setD)
  from m have "mset (map key (snd (comb_pass before gap i b xs))) = mset (map key xs)" by (simp only: mset_map)
  then show "distinct (map key (snd (comb_pass before gap i b xs))) = distinct (map key xs)" by (metis distinct_count_atmost_1 set_mset_mset)
qed

lemma comb_loop_returns_1:
  assumes "distinct (map key xs)"
  shows "\<exists>ys. comb_loop before 1 swapped xs = Some ys"
proof -
  define S where "S = set xs"
  have "wf ((lex (smaller before S))\<^sup>+)" unfolding S_def by (intro wf_trancl wf_lex wf_smaller) simp
  moreover have "set xs = S" by (simp add: S_def)
  ultimately show ?thesis using assms
  proof (induction xs arbitrary: swapped rule: wf_induct_rule)
    case (less zs)
    let ?r = "comb_pass before 1 0 False zs"
    consider "\<not> swapped" | "swapped" "\<not> fst ?r" | "swapped" "fst ?r" by blast
    then show ?case
    proof cases
      case 1
      then show ?thesis by (subst comb_loop.simps) simp
    next
      case 2
      then show ?thesis by (subst comb_loop.simps, subst comb_loop.simps) (simp add: Let_def)
    next
      case 3
      then have "(snd ?r, zs) \<in> (lex (smaller before S))\<^sup>+" using comb_pass_lex [of 1 zs 0 False] less.prems by simp
      moreover have "set (snd ?r) = S" using less.prems(1) by (simp add: comb_pass_set)
      moreover have "distinct (map key (snd ?r))" using less.prems(2) by (simp add: comb_pass_keys)
      ultimately have "\<exists>ys. comb_loop before 1 (fst ?r) (snd ?r) = Some ys" by (rule less.IH)
      with 3 show ?thesis by (subst comb_loop.simps) (simp add: Let_def)
    qed
  qed
qed

lemma comb_loop_returns:
  assumes "distinct (map key xs)" and "0 < gap \<or> \<not> swapped"
  shows "\<exists>ys. comb_loop before gap swapped xs = Some ys"
  using assms
proof (induction gap arbitrary: swapped xs rule: less_induct)
  case (less gap)
  let ?r = "comb_pass before (shrink gap) 0 False xs"
  consider "gap = 0" "\<not> swapped" | "gap = 1" | "1 < gap" using less.prems(2) by linarith
  then show ?case
  proof cases
    case 1
    then show ?thesis by (subst comb_loop.simps) simp
  next
    case 2
    with comb_loop_returns_1 [OF less.prems(1)] show ?thesis by simp
  next
    case 3
    have "\<exists>ys. comb_loop before (shrink gap) (fst ?r) (snd ?r) = Some ys"
      using shrink_less [OF 3] by (rule less.IH) (simp_all add: comb_pass_keys less.prems(1) shrink_pos [OF 3])
    with 3 show ?thesis by (subst comb_loop.simps) (simp add: Let_def)
  qed
qed

text \<open>What the loop returns is a permutation in which neighbours are in order.\<close>

lemma adjacent_sorted:
  assumes "\<And>j. Suc j < length xs \<Longrightarrow> before (xs ! j) (xs ! Suc j)"
  shows "sorted_wrt before xs"
proof -
  have "transp before" by (rule transpI) (rule trans)
  then show ?thesis using assms by (simp add: sorted_wrt_iff_nth_Suc_transp)
qed

lemma comb_loop_result:
  assumes "comb_loop pred gap swapped xs = Some ys" and "pred = before"
    and "gap \<le> 1 \<and> \<not> swapped \<longrightarrow> sorted_wrt before xs"
    and "gap = 0 \<longrightarrow> \<not> swapped"
  shows "mset ys = mset xs \<and> sorted_wrt before ys"
  using assms
proof (induction rule: comb_loop.raw_induct [rotated, consumes 1, case_names step])
  case (step f pred gap swapped xs ys)
  show ?case
  proof (cases "gap > 1 \<or> swapped")
    case True
    define g where "g = (if gap > 1 then shrink gap else gap)"
    define r where "r = comb_pass before g 0 False xs"
    have g: "0 < g" using True step.prems(3) shrink_pos [of gap] by (auto simp: g_def)
    have f: "f pred g (fst r) (snd r) = Some ys" using step.hyps True step.prems(1) by (simp add: g_def r_def Let_def)
    have "sorted_wrt before (snd r)" if "g \<le> 1 \<and> \<not> fst r"
    proof -
      from g that have "g = 1" by simp
      with comb_pass_quiet [of before 1 0 xs] that show ?thesis unfolding r_def by (intro adjacent_sorted) auto
    qed
    with step.IH [OF f step.prems(1)] g have "mset ys = mset (snd r) \<and> sorted_wrt before ys" by blast
    then show ?thesis by (simp add: r_def comb_pass_mset)
  next
    case False
    with step.hyps step.prems(2) show ?thesis by auto
  qed
qed

lemma comb_sort_result:
  assumes "comb_sort before xs = Some ys"
  shows "mset ys = mset xs \<and> sorted_wrt before ys"
proof -
  have "sorted_wrt before xs" if "length xs \<le> 1" using that by (cases xs) auto
  then show ?thesis using comb_loop_result [OF assms [unfolded comb_sort_def] refl] by simp
qed

lemma comb_sort_distinct:
  assumes "comb_sort before xs = Some ys"
  shows "distinct (map key xs)"
proof -
  have "sorted_wrt prec (map key ys)" using comb_sort_result [OF assms] by (simp add: sorted_wrt_map)
  then have "distinct (map key ys)" by (rule sorted_distinct)
  moreover have "mset (map key ys) = mset (map key xs)" using comb_sort_result [OF assms] by (simp only: mset_map)
  ultimately show ?thesis by (metis distinct_count_atmost_1 set_mset_mset)
qed

lemma comb_sort_returns: "distinct (map key xs) \<Longrightarrow> \<exists>ys. comb_sort before xs = Some ys"
  unfolding comb_sort_def by (rule comb_loop_returns) simp_all

end

text \<open>Sorting positions by the keys at the positions gives a table in which the search is exact.\<close>

context keyed
begin

lemma search_exact:
  fixes pos :: "nat \<Rightarrow> 'k"
  assumes "sorted_wrt prec (map pos idx)"
  shows "search prec pos idx v = (if v \<in> pos ` set idx then Some (idx ! lower_bound prec (map pos idx) v) else None)"
    and "v \<in> pos ` set idx \<Longrightarrow> lower_bound prec (map pos idx) v < length idx \<and> pos (idx ! lower_bound prec (map pos idx) v) = v"
proof -
  let ?l = "lower_bound prec (map pos idx) v"
  note eq = equal_element_iff [OF assms, of v]
  have lt: "?l < length idx" if "v \<in> pos ` set idx"
  proof -
    have "?l \<noteq> length idx" using eq(1) that by (simp add: is_equal_element_def)
    with lower_bound_spec(1) [OF assms, of v] show ?thesis by simp
  qed
  then show "search prec pos idx v = (if v \<in> pos ` set idx then Some (idx ! ?l) else None)"
    using eq(1) by (auto simp: search_def find_first_lower_bound_of_def Let_def)
  show "v \<in> pos ` set idx \<Longrightarrow> ?l < length idx \<and> pos (idx ! ?l) = v" using lt eq(2) by simp
qed

end

section \<open>The tables are exact\<close>

text \<open>The constants of an enumeration in their order: each one's value and name.\<close>

fun constants :: "enum_trait \<Rightarrow> nat \<Rightarrow> string list \<Rightarrow> (int \<times> string) list" where
  "constants tr i [] = []"
| "constants tr i (str # seq) =
     (if str \<noteq> [] then [(et_value tr (int i + et_min tr), map (et_transform tr) str)] else []) @ constants tr (Suc i) seq"

definition name_text :: "(char \<Rightarrow> char) \<Rightarrow> string list \<Rightarrow> char list" where
  "name_text tr seq = concat (map (\<lambda>str. map tr str @ [CHR 0x0A]) (filter (\<lambda>str. str \<noteq> []) seq))"

fun layout :: "enum_trait \<Rightarrow> nat \<Rightarrow> nat \<Rightarrow> string list \<Rightarrow> enum_entry list" where
  "layout tr i off [] = []"
| "layout tr i off (str # seq) =
     (if str \<noteq> [] then \<lparr>ee_value = et_value tr (int i + et_min tr), ee_offset = off, ee_length = length str\<rparr>
        # layout tr (Suc i) (off + length str + 1) seq
      else layout tr (Suc i) off seq)"

lemma name_text_simps [simp]:
  "name_text tr [] = []"
  "name_text tr (str # seq) = (if str \<noteq> [] then map tr str @ CHR 0x0A # name_text tr seq else name_text tr seq)"
  by (simp_all add: name_text_def)

lemma fold_info:
  assumes "fold (info_step mn) (zip [k..<k + length data] data) (c, b) = (c', b')"
  shows "ei_size c' = ei_size c + length (filter (\<lambda>str. str \<noteq> []) data) \<and> ei_chars c' = ei_chars c + length (name_text tr data)"
  using assms
proof (induction data arbitrary: k c b)
  case (Cons str data)
  have u: "[k..<k + length (str # data)] = k # [Suc k..<Suc k + length data]" by (simp add: upt_rec)
  obtain c1 b1 where 1: "info_step mn (k, str) (c, b) = (c1, b1)" by fastforce
  with Cons.prems have "fold (info_step mn) (zip [Suc k..<Suc k + length data] data) (c1, b1) = (c', b')" unfolding u by simp
  from Cons.IH [OF this] 1 show ?case by (auto simp: info_step_def split: if_splits)
qed simp

lemma put_chars_eq:
  "off + length cs \<le> length chars \<Longrightarrow>
     put_chars tr off cs chars = Some (take off chars @ map tr cs @ drop (off + length cs) chars)"
proof (induction cs arbitrary: off chars)
  case (Cons c cs)
  then have "put_chars tr (Suc off) cs (chars[off := tr c])
      = Some (take (Suc off) (chars[off := tr c]) @ map tr cs @ drop (Suc off + length cs) (chars[off := tr c]))" by simp
  with Cons.prems show ?case by (simp add: array_set_def take_Suc_conv_app_nth)
qed simp

lemma expand_loop_eq:
  assumes "pos + length (layout tr i off seq) \<le> length entries" and "off + length (name_text (et_transform tr) seq) \<le> length chars"
  shows "expand_loop tr i off pos seq entries chars =
    Some (take pos entries @ layout tr i off seq @ drop (pos + length (layout tr i off seq)) entries,
      take off chars @ name_text (et_transform tr) seq @ drop (off + length (name_text (et_transform tr) seq)) chars)"
  using assms
proof (induction tr i off pos seq entries chars rule: expand_loop.induct)
  case (2 tr i off pos str seq entries chars)
  show ?case
  proof (cases "str = []")
    case True
    with 2(2)[OF _ ] 2(3,4) show ?thesis by simp
  next
    case False
    let ?en = "\<lparr>ee_value = et_value tr (int i + et_min tr), ee_offset = off, ee_length = length str\<rparr>"
    let ?cs = "take off chars @ map (et_transform tr) str @ drop (off + length str) chars"
    have b: "off + length str < length chars" "pos < length entries" using False 2(3,4) by simp_all
    let ?nl = "take off chars @ map (et_transform tr) str @ CHR 0x0A # drop (Suc (off + length str)) chars"
    have "drop (off + length str) chars = chars ! (off + length str) # drop (Suc (off + length str)) chars"
      using b by (simp add: Cons_nth_drop_Suc)
    then have "array_set ?cs (off + length str) (CHR 0x0A) = Some ?nl" using b by (simp add: array_set_def list_update_append)
    moreover have "array_set entries pos ?en = Some (entries[pos := ?en])" using b by (simp add: array_set_def)
    moreover have "put_chars (et_transform tr) off str chars = Some ?cs" using b by (intro put_chars_eq) simp
    moreover have "expand_loop tr (Suc i) (off + length str + 1) (Suc pos) seq (entries[pos := ?en]) ?nl =
      Some (take (Suc pos) (entries[pos := ?en]) @ layout tr (Suc i) (off + length str + 1) seq
          @ drop (Suc pos + length (layout tr (Suc i) (off + length str + 1) seq)) (entries[pos := ?en]),
        take (off + length str + 1) ?nl @ name_text (et_transform tr) seq
          @ drop (off + length str + 1 + length (name_text (et_transform tr) seq)) ?nl)"
      by (rule 2(1) [OF _ calculation(2,3,1)]) (use False 2(3,4) b in simp_all)
    ultimately show ?thesis using False b by (simp add: take_Suc_conv_app_nth ac_simps)
  qed
qed simp

lemma layout_constants:
  "map (\<lambda>en. (ee_value en, take (ee_length en) (drop (ee_offset en) (pre @ name_text (et_transform tr) seq @ post)))) (layout tr i (length pre) seq)
     = constants tr i seq"
proof (induction seq arbitrary: i pre)
  case (Cons str seq)
  show ?case
  proof (cases "str = []")
    case True
    with Cons show ?thesis by simp
  next
    case False
    with Cons [where pre = "pre @ map (et_transform tr) str @ [CHR 0x0A]" and i = "Suc i"] show ?thesis by simp
  qed
qed simp

lemma length_layout: "length (layout tr i off seq) = length (filter (\<lambda>str. str \<noteq> []) seq)"
  by (induction seq arbitrary: i off) auto

lemma length_constants: "length (constants tr i seq) = length (filter (\<lambda>str. str \<noteq> []) seq)"
  by (induction seq arbitrary: i) auto

lemma enum_info_counts:
  "ei_size (enum_info_of seq mn) = length (filter (\<lambda>str. str \<noteq> []) seq) \<and> ei_chars (enum_info_of seq mn) = Suc (length (name_text tr seq))"
proof -
  obtain c' b' where "fold (info_step mn) (zip [0..<0 + length seq] seq) (\<lparr>ei_size = 0, ei_chars = 1, ei_continuous = True\<rparr>, False) = (c', b')" by fastforce
  from fold_info [OF this, of tr] this show ?thesis by (simp add: enum_info_of_def)
qed

text \<open>All writes into the tables are in their bounds, and the tables list the constants.\<close>

lemma expand_linear_exact:
  obtains e where "expand_linear_impl tr seq = Some e"
    and "map (\<lambda>en. (ee_value en, entry_name e en)) (en_entries e) = constants tr 0 seq"
    and "en_dense e \<longleftrightarrow> ei_continuous (enum_info_of seq (et_min tr)) \<and> et_min tr = 0"
proof -
  let ?info = "enum_info_of seq (et_min tr)" and ?text = "name_text (et_transform tr) seq"
  note c = enum_info_counts [of seq "et_min tr" "et_transform tr"]
  have "expand_loop tr 0 0 0 seq (replicate (ei_size ?info) \<lparr>ee_value = 0, ee_offset = 0, ee_length = 0\<rparr>) (replicate (ei_chars ?info) (CHR 0x00))
      = Some (layout tr 0 0 seq, ?text @ [CHR 0x00])"
    using c by (subst expand_loop_eq) (simp_all add: length_layout replicate_Suc [of 0] del: replicate_Suc)
  then have "expand_linear_impl tr seq = Some \<lparr>en_entries = layout tr 0 0 seq, en_names = ?text @ [CHR 0x00],
      en_dense = (ei_continuous ?info \<and> et_min tr = 0)\<rparr>"
    using c by (simp add: expand_linear_impl_def Let_def array_set_def list_update_append)
  moreover have "map (\<lambda>en. (ee_value en, take (ee_length en) (drop (ee_offset en) (?text @ [CHR 0x00])))) (layout tr 0 0 seq) = constants tr 0 seq"
    using layout_constants [of "[]" tr seq "[CHR 0x00]" 0] by simp
  ultimately show thesis by (intro that) (auto simp: entry_name_def)
qed

text \<open>An enumeration is dense if no constant follows a position without one.\<close>

lemma fold_continuous:
  assumes "fold (info_step 0) (zip [k..<k + length data] data) (c, b) = (c', b')"
  shows "ei_continuous c' \<longleftrightarrow> ei_continuous c \<and> list_all (\<lambda>str. str = []) (if b then data else dropWhile (\<lambda>str. str \<noteq> []) data)"
  using assms
proof (induction data arbitrary: k c b)
  case (Cons str data)
  have u: "[k..<k + length (str # data)] = k # [Suc k..<Suc k + length data]" by (simp add: upt_rec)
  obtain c1 b1 where 1: "info_step 0 (k, str) (c, b) = (c1, b1)" by fastforce
  with Cons.prems have "fold (info_step 0) (zip [Suc k..<Suc k + length data] data) (c1, b1) = (c', b')" unfolding u by simp
  from Cons.IH [OF this] 1 show ?case by (cases str; cases b; cases "ei_continuous c") (auto simp: info_step_def)
qed simp

lemma dense_values:
  assumes "list_all (\<lambda>str. str = []) (dropWhile (\<lambda>str. str \<noteq> []) data)" and "i < length (constants tr k data)"
  shows "fst (constants tr k data ! i) = et_value tr (int (k + i) + et_min tr)"
  using assms
proof (induction data arbitrary: k i)
  case (Cons str data)
  show ?case
  proof (cases "str = []")
    case True
    with Cons.prems(1) have "filter (\<lambda>str. str \<noteq> []) data = []" by (simp add: filter_empty_conv list_all_iff)
    with True Cons.prems(2) show ?thesis by (simp add: length_constants)
  next
    case False
    with Cons show ?thesis by (cases i) (simp_all add: ac_simps)
  qed
qed simp

lemma continuous_values:
  assumes "ei_continuous (enum_info_of seq 0)" and "et_min tr = 0" and "i < length (constants tr 0 seq)"
  shows "fst (constants tr 0 seq ! i) = et_value tr (int i)"
proof -
  obtain c' b' where f: "fold (info_step 0) (zip [0..<0 + length seq] seq) (\<lparr>ei_size = 0, ei_chars = 1, ei_continuous = True\<rparr>, False) = (c', b')" by fastforce
  from fold_continuous [OF f] f assms(1) have "list_all (\<lambda>str. str = []) (dropWhile (\<lambda>str. str \<noteq> []) seq)" by (simp add: enum_info_of_def)
  from dense_values [OF this assms(3)] assms(2) show ?thesis by simp
qed

text \<open>The two tables are sorted by the values and by the names of the constants.\<close>

interpretation by_value: keyed "(<) :: int \<Rightarrow> int \<Rightarrow> bool" "value_key e" for e
  by unfold_locales

interpretation by_name: keyed "shortlex :: string \<Rightarrow> string \<Rightarrow> bool" "name_key e" for e
  by unfold_locales

definition lists :: "enumeration \<Rightarrow> (int \<times> string) list \<Rightarrow> bool" where
  "lists e cs \<longleftrightarrow> map (\<lambda>en. (ee_value en, entry_name e en)) (en_entries e) = cs"

lemma lists_keys:
  assumes "lists e cs"
  shows "length (en_entries e) = length cs"
    and "i < length cs \<Longrightarrow> value_key e i = fst (cs ! i)"
    and "i < length cs \<Longrightarrow> name_key e i = snd (cs ! i)"
    and "map (value_key e) [0..<length cs] = map fst cs"
    and "map (name_key e) [0..<length cs] = map snd cs"
  using assms by (auto simp: lists_def value_key_def name_key_def intro: nth_equalityI)

lemma enum_find_exact:
  assumes "lists e cs" and "distinct (map snd cs)"
  shows "\<exists>r. enum_find e str = Inr r \<and> (case r of None \<Rightarrow> str \<notin> snd ` set cs | Some i \<Rightarrow> i < length cs \<and> snd (cs ! i) = str)"
proof -
  note k = lists_keys [OF assms(1)]
  from by_name.comb_sort_returns [of e "[0..<length cs]"] k(5) assms(2)
  obtain idx where idx: "enum_names e = Some idx" by (auto simp: enum_names_def k(1))
  then have r: "mset idx = mset [0..<length cs]" "sorted_wrt shortlex (map (name_key e) idx)"
    using by_name.comb_sort_result [of e "[0..<length cs]" idx] by (simp_all add: enum_names_def k(1) sorted_wrt_map)
  have st: "set idx = {0..<length cs}" using mset_eq_setD [OF r(1)] by simp
  have im: "name_key e ` set idx = snd ` set cs" unfolding st using arg_cong [OF k(5), of set] by simp
  let ?l = "lower_bound shortlex (map (name_key e) idx) str"
  show ?thesis
  proof (cases "str \<in> snd ` set cs")
    case True
    with by_name.search_exact [OF r(2), of str] im have "search shortlex (name_key e) idx str = Some (idx ! ?l)"
      "?l < length idx" "name_key e (idx ! ?l) = str" by auto
    moreover have "idx ! ?l < length cs" using calculation(2) st by (metis atLeastLessThan_iff nth_mem)
    ultimately show ?thesis using idx k(3) by (simp add: enum_find_def)
  next
    case False
    with by_name.search_exact(1) [OF r(2), of str] im idx show ?thesis by (simp add: enum_find_def)
  qed
qed

lemma enum_name_sparse:
  assumes "lists e cs" and "distinct (map fst cs)" and "\<not> en_dense e" and "i < length cs"
  shows "enum_name e (fst (cs ! i)) = Inr (Some (snd (cs ! i)))"
proof -
  note k = lists_keys [OF assms(1)]
  from by_value.comb_sort_returns [of e "[0..<length cs]"] k(4) assms(2,3)
  obtain idx where idx: "enum_values e = Some idx" by (auto simp: enum_values_def k(1) Let_def)
  then have r: "mset idx = mset [0..<length cs]" "sorted_wrt (<) (map (value_key e) idx)"
    using by_value.comb_sort_result [of e "[0..<length cs]" idx] assms(3) by (simp_all add: enum_values_def k(1) Let_def sorted_wrt_map)
  have st: "set idx = {0..<length cs}" using mset_eq_setD [OF r(1)] by simp
  have "fst (cs ! i) \<in> value_key e ` set idx" unfolding st using assms(4) k(2) by (metis atLeastLessThan_iff image_eqI le0)
  with by_value.search_exact [OF r(2), of "fst (cs ! i)"] obtain l where
    l: "search (<) (value_key e) idx (fst (cs ! i)) = Some (idx ! l)" "l < length idx" "value_key e (idx ! l) = fst (cs ! i)" by auto
  have lt: "idx ! l < length cs" using l(2) st by (metis atLeastLessThan_iff nth_mem)
  with l(3) k(2) have "map fst cs ! (idx ! l) = map fst cs ! i" using assms(4) by simp
  then have "idx ! l = i" using assms(2,4) lt nth_eq_iff_index_eq [OF assms(2), of "idx ! l" i] by simp
  with l(1) idx assms(3,4) k(1) k(3) [of i] show ?thesis by (simp add: enum_name_def name_at_def name_key_def)
qed

lemma enum_name_dense:
  assumes "lists e cs" and "en_dense e" and "i < length cs" and "length cs < 2 ^ 64" and "fst (cs ! i) = int i"
  shows "enum_name e (fst (cs ! i)) = Inr (Some (snd (cs ! i)))"
  using assms lists_keys(1,3) [OF assms(1)] by (simp add: enum_name_def name_at_def name_key_def)

lemma constants_increasing:
  assumes "et_value tr = (\<lambda>i. i)"
  shows "sorted_wrt (<) (map fst (constants tr k seq)) \<and> (\<forall>v \<in> set (map fst (constants tr k seq)). int k + et_min tr \<le> v)"
proof (induction seq arbitrary: k)
  case (Cons str seq)
  from Cons [of "Suc k"] show ?case using assms by fastforce
qed simp

section \<open>Properties\<close>

text \<open>
  C25. The constexpr sort returns exactly if no two elements have equal keys, and then it returns a permutation of its input in the strict order of the keys. With
  two equal elements it swaps them in every pass and does not end.
\<close>

theorem comb_sort_exact:
  assumes "strict_total prec"
  shows "case comb_sort (\<lambda>x y. prec (key x) (key y)) xs of
      None \<Rightarrow> \<not> distinct (map key xs)
    | Some ys \<Rightarrow> mset ys = mset xs \<and> sorted_wrt prec (map key ys)"
proof -
  have k: "keyed prec" using assms by (rule keyed.intro)
  show ?thesis
    using keyed.comb_sort_returns [OF k, of key xs] keyed.comb_sort_result [OF k, of key xs]
    by (auto simp: sorted_wrt_map split: option.split)
qed

theorem comb_sort_exact_witness:
  "\<exists>ys. comb_sort (\<lambda>x y. x < y) [3, 1, 2 :: int] = Some ys \<and> mset ys = {#1, 2, 3#} \<and> sorted_wrt (<) ys"
proof -
  have "strict_total ((<) :: int \<Rightarrow> int \<Rightarrow> bool)" by unfold_locales
  from comb_sort_exact [OF this, of "\<lambda>x. x" "[3, 1, 2]"] show ?thesis by (auto split: option.splits)
qed

text \<open>
  C26. Names and values of an enumeration are inverse to each other: for an enumeration whose trait keeps the values and whose printed names are distinct, the
  table is built without a write outside of its arrays, every constant's value has the constant's name, and looking up that name gives the position
  of the value, whether the enumeration is dense or not.
\<close>

theorem enum_name_find_roundtrip:
  assumes "distinct (map snd (constants tr 0 seq))" and "et_value tr = (\<lambda>i. i)" and "length seq < 2 ^ 64"
  shows "\<exists>e. expand_linear_impl tr seq = Some e \<and> (\<forall>(v, nm) \<in> set (constants tr 0 seq).
    enum_name e v = Inr (Some nm) \<and> (\<exists>i. enum_find e nm = Inr (Some i) \<and> value_at e i = Some v))"
proof -
  let ?cs = "constants tr 0 seq"
  obtain e where e: "expand_linear_impl tr seq = Some e" "lists e ?cs"
    and d: "en_dense e \<longleftrightarrow> ei_continuous (enum_info_of seq (et_min tr)) \<and> et_min tr = 0"
    using expand_linear_exact [of tr seq] by (auto simp: lists_def)
  have len: "length ?cs < 2 ^ 64" unfolding length_constants using length_filter_le assms(3) by (rule le_less_trans)
  have dv: "distinct (map fst ?cs)" using constants_increasing [OF assms(2), of 0 seq] strict_sorted_iff by blast
  have "enum_name e (fst (?cs ! i)) = Inr (Some (snd (?cs ! i)))
      \<and> (\<exists>j. enum_find e (snd (?cs ! i)) = Inr (Some j) \<and> value_at e j = Some (fst (?cs ! i)))" if i: "i < length ?cs" for i
  proof
    show "enum_name e (fst (?cs ! i)) = Inr (Some (snd (?cs ! i)))"
    proof (cases "en_dense e")
      case True
      with d have "ei_continuous (enum_info_of seq 0)" "et_min tr = 0" by (metis, blast)
      from continuous_values [OF this i] assms(2) have "fst (?cs ! i) = int i" by simp
      with e(2) True i len show ?thesis by (rule enum_name_dense)
    qed (rule enum_name_sparse [OF e(2) dv _ i])
    from enum_find_exact [OF e(2) assms(1), of "snd (?cs ! i)"] i obtain j where
      j: "enum_find e (snd (?cs ! i)) = Inr (Some j)" "j < length ?cs" "snd (?cs ! j) = snd (?cs ! i)"
      by (auto split: option.splits)
    with i nth_eq_iff_index_eq [OF assms(1), of j i] have "j = i" by simp
    with j lists_keys(1,2) [OF e(2)] i show "\<exists>j. enum_find e (snd (?cs ! i)) = Inr (Some j) \<and> value_at e j = Some (fst (?cs ! i))"
      by (auto simp: value_at_def value_key_def)
  qed
  then have "enum_name e (fst c) = Inr (Some (snd c)) \<and> (\<exists>j. enum_find e (snd c) = Inr (Some j) \<and> value_at e j = Some (fst c))"
    if "c \<in> set ?cs" for c using that unfolding in_set_conv_nth by blast
  with e(1) show ?thesis by fastforce
qed

theorem enum_name_find_roundtrip_witness:
  "\<exists>e. expand_linear_impl \<lparr>et_min = 0, et_value = (\<lambda>i. i), et_transform = id\<rparr> [''On'', [], ''Off''] = Some e
    \<and> enum_name e 2 = Inr (Some ''Off'') \<and> (\<exists>i. enum_find e ''Off'' = Inr (Some i) \<and> value_at e i = Some 2)"
proof -
  let ?tr = "\<lparr>et_min = 0, et_value = (\<lambda>i. i), et_transform = id\<rparr>"
  have "constants ?tr 0 [''On'', [], ''Off''] = [(0, ''On''), (2, ''Off'')]" by simp
  with enum_name_find_roundtrip [of ?tr "[''On'', [], ''Off'']"] show ?thesis by auto
qed

text \<open>
  The trait \<open>enum_mask\<close> makes an enumeration of flags dense, although the value at position \<open>i\<close> is \<open>2 ^ i\<close>: the name of a flag is then the
  name of another one.
\<close>

lemma mask_names_shifted:
  "\<exists>e. expand_linear_impl \<lparr>et_min = 0, et_value = (\<lambda>i. 2 ^ nat i), et_transform = id\<rparr> [''A'', ''B'', ''C''] = Some e
    \<and> value_at e 0 = Some 1 \<and> name_at e 0 = Some ''A'' \<and> enum_name e 1 = Inr (Some ''B'') \<and> enum_name e 4 = Inr None"
  by (simp add: expand_linear_impl_def enum_info_of_def info_step_def array_set_def Let_def value_at_def name_at_def entry_name_def enum_name_def upt_rec)

end
