(* ===== verification/Reflections.thy ===== *)
theory Reflections
  imports Enumerations
begin

text \<open>
  The reflection of objects (src/include/idle/service/art/): the mapped types, the type descriptors that detail/art/reflection_tree_impl.hpp
  builds for a C++ type, and the traversal of an object along its descriptor (visitor.hpp), which is generic in the visitor. An object
  in memory is a tree: the fields of a class and of its primary base class are found by their offsets. Type descriptors are trees as
  well: a class that contains a container of itself has no descriptor here.
\<close>

section \<open>Mapped types\<close>

datatype mapped_type = TBool | Int8 | Int16 | Int32 | Int64 | UInt8 | UInt16 | UInt32 | UInt64 | TFloat | TDouble | TString
  | TimePoint | Duration | TArray | TSet | TObject | TEmpty

definition isBool :: "mapped_type \<Rightarrow> bool" where
  "isBool m \<longleftrightarrow> m = TBool"

definition isIntegral :: "mapped_type \<Rightarrow> bool" where
  "isIntegral m \<longleftrightarrow> (case m of Int8 \<Rightarrow> True | Int16 \<Rightarrow> True | Int32 \<Rightarrow> True | Int64 \<Rightarrow> True
     | UInt8 \<Rightarrow> True | UInt16 \<Rightarrow> True | UInt32 \<Rightarrow> True | UInt64 \<Rightarrow> True | _ \<Rightarrow> False)"

definition isSigned :: "mapped_type \<Rightarrow> bool" where
  "isSigned m \<longleftrightarrow> (case m of Int8 \<Rightarrow> True | Int16 \<Rightarrow> True | Int32 \<Rightarrow> True | Int64 \<Rightarrow> True | _ \<Rightarrow> False)"

definition isFloating :: "mapped_type \<Rightarrow> bool" where
  "isFloating m \<longleftrightarrow> (case m of TFloat \<Rightarrow> True | TDouble \<Rightarrow> True | _ \<Rightarrow> False)"

definition isString :: "mapped_type \<Rightarrow> bool" where
  "isString m \<longleftrightarrow> m = TString"

definition isArray :: "mapped_type \<Rightarrow> bool" where
  "isArray m \<longleftrightarrow> m = TArray"

definition isSet :: "mapped_type \<Rightarrow> bool" where
  "isSet m \<longleftrightarrow> m = TSet"

definition isObject :: "mapped_type \<Rightarrow> bool" where
  "isObject m \<longleftrightarrow> m = TObject"

definition isStructured :: "mapped_type \<Rightarrow> bool" where
  "isStructured m \<longleftrightarrow> (case m of TArray \<Rightarrow> True | TSet \<Rightarrow> True | TObject \<Rightarrow> True | _ \<Rightarrow> False)"

definition isPrimitive :: "mapped_type \<Rightarrow> bool" where
  "isPrimitive m \<longleftrightarrow> \<not> isStructured m"

section \<open>Objects and their descriptors\<close>

text \<open>Floating point numbers are their bit patterns, points in time and durations are counts of ticks.\<close>

datatype prim = PBool bool | PInt int | PFloat "32 word" | PDouble "64 word" | PString string | PTime int | PDuration int

datatype obj = OPrim prim | OArray "obj list" | OSet "obj list" | OObject "(nat \<times> obj) list"

record field_info =
  fi_name :: string
  fi_description :: "string option"
  fi_offset :: nat

text \<open>
  A descriptor is what \<open>subtypeSelect\<close> selects for a type: a primitive without a subtype, an enumeration with its tables, an array with its fixed size
  or \<open>None\<close> if it is resizeable, the element that \<open>resize\<close> adds and the type of its elements, a set with its comparison, the default element and the type of its
  elements, or an object with its reflection: the reflection of its
  primary base class and its fields.
\<close>

datatype stype = Prim mapped_type | Enumerated mapped_type enumeration | ArrayOf "nat option" obj stype | SetOf "obj \<Rightarrow> obj \<Rightarrow> bool" obj stype | ObjectOf refl
  and refl = Refl "refl option" "(field_info \<times> stype) list"

fun mapped :: "stype \<Rightarrow> mapped_type" where
  "mapped (Prim m) = m"
| "mapped (Enumerated m e) = m"
| "mapped (ArrayOf n df t) = TArray"
| "mapped (SetOf cmp df t) = TSet"
| "mapped (ObjectOf r) = TObject"

text \<open>The representation of an enumeration's value, and the two searches in its tables.\<close>

fun prim_repr :: "prim \<Rightarrow> int option" where
  "prim_repr (PInt i) = Some i"
| "prim_repr (PBool b) = Some (of_bool b)"
| "prim_repr _ = None"

definition primitive_value :: "enumeration \<Rightarrow> string \<Rightarrow> int option res" where
  "primitive_value e nm = (case enum_names e of None \<Rightarrow> Inl Diverged
     | Some names \<Rightarrow> (case search shortlex (name_key e) names nm of None \<Rightarrow> Inr None | Some i \<Rightarrow> Inr (Some (value_key e i))))"

definition primitive_name :: "enumeration \<Rightarrow> prim \<Rightarrow> string res" where
  "primitive_name e p = (case prim_repr p of None \<Rightarrow> Inl Unreachable
     | Some v \<Rightarrow> (case enum_values e of None \<Rightarrow> Inl Diverged
       | Some values \<Rightarrow> (case search (<) (value_key e) values v of None \<Rightarrow> Inr [] | Some i \<Rightarrow> Inr (name_key e i))))"

definition relocate :: "field_info \<Rightarrow> obj \<Rightarrow> obj res" where
  "relocate f ob = (case ob of
     OObject fs \<Rightarrow> (case map_of fs (fi_offset f) of None \<Rightarrow> Inl Unreachable | Some x \<Rightarrow> Inr x)
   | _ \<Rightarrow> Inl Unreachable)"

definition write_field :: "field_info \<Rightarrow> obj \<Rightarrow> obj \<Rightarrow> obj" where
  "write_field f x ob = (case ob of
     OObject fs \<Rightarrow> OObject (map (\<lambda>(off, y). (off, if off = fi_offset f then x else y)) fs)
   | _ \<Rightarrow> ob)"

section \<open>The traversal\<close>

datatype visitor_result = ROk | RSkip | RCancel

datatype container_type = ArrayLike | VectorLike | SetLike

record 's visitor =
  v_accept :: "mapped_type \<Rightarrow> prim \<Rightarrow> 's \<Rightarrow> (visitor_result \<times> prim \<times> 's) res"
  v_accept_named :: "mapped_type \<Rightarrow> enumeration \<Rightarrow> prim \<Rightarrow> 's \<Rightarrow> (visitor_result \<times> prim \<times> 's) res"
  v_peek :: "mapped_type \<Rightarrow> nat \<Rightarrow> container_type \<Rightarrow> 's \<Rightarrow> (visitor_result \<times> nat \<times> 's) res"
  v_push_name :: "mapped_type \<Rightarrow> string \<Rightarrow> string option \<Rightarrow> 's \<Rightarrow> (visitor_result \<times> 's) res"
  v_push_index :: "mapped_type \<Rightarrow> nat \<Rightarrow> 's \<Rightarrow> (visitor_result \<times> 's) res"
  v_pop :: "mapped_type \<Rightarrow> 's \<Rightarrow> 's res"

type_synonym ('o, 's) visited = "(visitor_result \<times> 'o \<times> 's) res"

text \<open>The macros \<open>VIS_TRY_RETURN\<close> and \<open>VIS_TRY_CONTINUE\<close> have the same cases: both leave the enclosing function with \<open>Ok\<close> on \<open>Skip\<close>.\<close>

definition vis_try_return :: "visitor_result \<Rightarrow> 'o \<Rightarrow> 's \<Rightarrow> ('o, 's) visited \<Rightarrow> ('o, 's) visited" where
  "vis_try_return r ob s rest = (case r of ROk \<Rightarrow> rest | RSkip \<Rightarrow> Inr (ROk, ob, s) | RCancel \<Rightarrow> Inr (RCancel, ob, s))"

definition vis_try_continue :: "visitor_result \<Rightarrow> 'o \<Rightarrow> 's \<Rightarrow> ('o, 's) visited \<Rightarrow> ('o, 's) visited" where
  "vis_try_continue r ob s rest = (case r of ROk \<Rightarrow> rest | RSkip \<Rightarrow> Inr (ROk, ob, s) | RCancel \<Rightarrow> Inr (RCancel, ob, s))"

fun visit_elements :: "'s visitor \<Rightarrow> mapped_type \<Rightarrow> (obj \<Rightarrow> 's \<Rightarrow> (obj, 's) visited) \<Rightarrow> nat \<Rightarrow> obj list \<Rightarrow> 's \<Rightarrow> (obj list, 's) visited" where
  "visit_elements V m vis i [] s = Inr (ROk, [], s)"
| "visit_elements V m vis i (x # xs) s =
     bind (v_push_index V m i s) (\<lambda>(r, s). vis_try_return r (x # xs) s (
     bind (vis x s) (\<lambda>(q, x, s).
     bind (v_pop V m s) (\<lambda>s. vis_try_return q (x # xs) s (
     bind (visit_elements V m vis (Suc i) xs s) (\<lambda>(q, xs, s). Inr (q, x # xs, s)))))))"

definition visitArray :: "'s visitor \<Rightarrow> bool \<Rightarrow> bool \<Rightarrow> obj \<Rightarrow> mapped_type \<Rightarrow> (obj \<Rightarrow> 's \<Rightarrow> (obj, 's) visited) \<Rightarrow> obj \<Rightarrow> 's \<Rightarrow> (obj, 's) visited" where
  "visitArray V mut rs df m vis ob s = (case ob of
     OArray xs \<Rightarrow>
       bind (v_peek V m (length xs) (if rs then VectorLike else ArrayLike) s) (\<lambda>(r, sz, s). vis_try_return r ob s (
         if sz \<noteq> length xs \<and> \<not> (mut \<and> rs) then Inr (RCancel, ob, s)
         else bind (visit_elements V m vis 0 (take sz xs @ replicate (sz - length xs) df) s) (\<lambda>(q, xs, s). Inr (q, OArray xs, s))))
   | _ \<Rightarrow> Inl Unreachable)"

text \<open>
  The iteration of a constant set visits its elements in their order. A mutable set is walked while elements are exchanged: an element that
  the visitor changed is erased and inserted again, and the walk goes on behind the inserted one. The comparison of the set is the argument
  \<open>cmp\<close>, its insertion the one of a sorted container; default elements are inserted once the walk has reached the end.
\<close>

definition set_callback :: "'s visitor \<Rightarrow> mapped_type \<Rightarrow> (obj \<Rightarrow> 's \<Rightarrow> (obj, 's) visited) \<Rightarrow> nat \<Rightarrow> obj \<Rightarrow> 's \<Rightarrow> (bool \<times> obj \<times> 's) res" where
  "set_callback V m vis i x s =
     bind (bind (v_push_index V m i s) (\<lambda>(r, s). vis_try_return r x s (
           bind (vis x s) (\<lambda>(q, x, s).
           bind (v_pop V m s) (\<lambda>s. vis_try_return q x s (Inr (ROk, x, s)))))))
          (\<lambda>(q, x, s). Inr (q = ROk, x, s))"

fun iterate_const :: "(nat \<Rightarrow> obj \<Rightarrow> 's \<Rightarrow> (bool \<times> obj \<times> 's) res) \<Rightarrow> nat \<Rightarrow> nat \<Rightarrow> obj list \<Rightarrow> 's \<Rightarrow> (bool \<times> 's) res" where
  "iterate_const cb i sz [] s = Inr (True, s)"
| "iterate_const cb i sz (x # xs) s =
     (if i < sz then bind (cb i x s) (\<lambda>(ok, _, s). if ok then iterate_const cb (Suc i) sz xs s else Inr (False, s))
      else Inr (True, s))"

fun iterate_rest :: "(obj \<Rightarrow> obj \<Rightarrow> bool) \<Rightarrow> (nat \<Rightarrow> obj \<Rightarrow> 's \<Rightarrow> (bool \<times> obj \<times> 's) res) \<Rightarrow> obj \<Rightarrow> nat \<Rightarrow> nat \<Rightarrow> obj list \<Rightarrow> 's
    \<Rightarrow> (bool \<times> obj list \<times> 's) res" where
  "iterate_rest cmp cb df 0 i xs s = Inr (True, xs, s)"
| "iterate_rest cmp cb df (Suc n) i xs s =
     bind (cb i df s) (\<lambda>(ok, x, s). if ok then iterate_rest cmp cb df n (Suc i) (snd (fs_insert cmp x xs)) s else Inr (False, xs, s))"

fun iterate_mut :: "(obj \<Rightarrow> obj \<Rightarrow> bool) \<Rightarrow> (nat \<Rightarrow> obj \<Rightarrow> 's \<Rightarrow> (bool \<times> obj \<times> 's) res) \<Rightarrow> obj \<Rightarrow> nat \<Rightarrow> nat \<Rightarrow> nat \<Rightarrow> obj list \<Rightarrow> 's
    \<Rightarrow> (bool \<times> obj list \<times> 's) res" where
  "iterate_mut cmp cb df 0 i current xs s = Inr (True, xs, s)"
| "iterate_mut cmp cb df (Suc n) i current xs s =
     (if current \<noteq> length xs then
        bind (cb i (xs ! current) s) (\<lambda>(ok, cached, s).
          if \<not> ok then Inr (False, xs, s)
          else if cached \<noteq> xs ! current then
            let ins = fs_insert cmp cached (fs_erase_at current xs)
            in iterate_mut cmp cb df n (Suc i) (Suc (fst (fst ins))) (snd ins) s
          else iterate_mut cmp cb df n (Suc i) (Suc current) xs s)
      else iterate_rest cmp cb df (Suc n) i xs s)"

definition visitSet :: "'s visitor \<Rightarrow> bool \<Rightarrow> (obj \<Rightarrow> obj \<Rightarrow> bool) \<Rightarrow> obj \<Rightarrow> mapped_type \<Rightarrow> (obj \<Rightarrow> 's \<Rightarrow> (obj, 's) visited) \<Rightarrow> obj \<Rightarrow> 's \<Rightarrow> (obj, 's) visited" where
  "visitSet V mut cmp df m vis ob s = (case ob of
     OSet xs \<Rightarrow>
       bind (v_peek V m (length xs) SetLike s) (\<lambda>(r, sz, s). vis_try_return r ob s (
         let xs' = (if sz < length xs \<and> mut then [] else xs)
         in if sz = 0 then Inr (ROk, OSet xs', s)
            else if mut then
              bind (iterate_mut cmp (set_callback V m vis) df sz 0 0 xs' s) (\<lambda>(ok, ys, s).
                Inr (if ok then ROk else RCancel, OSet ys, s))
            else if length xs' \<noteq> sz then Inl AssertFailed
            else bind (iterate_const (set_callback V m vis) 0 sz xs' s) (\<lambda>(ok, s). Inr (if ok then ROk else RCancel, OSet xs', s))))
   | _ \<Rightarrow> Inl Unreachable)"

fun visit_fields :: "'s visitor \<Rightarrow> (field_info \<times> mapped_type \<times> (obj \<Rightarrow> 's \<Rightarrow> (obj, 's) visited)) list \<Rightarrow> obj \<Rightarrow> 's \<Rightarrow> (obj, 's) visited" where
  "visit_fields V [] ob s = Inr (ROk, ob, s)"
| "visit_fields V ((f, m, vis) # fs) ob s =
     bind (v_push_name V m (fi_name f) (fi_description f) s) (\<lambda>(r, s). vis_try_continue r ob s (
     bind (relocate f ob) (\<lambda>x.
     bind (vis x s) (\<lambda>(q, x, s).
     bind (v_pop V m s) (\<lambda>s. vis_try_continue q (write_field f x ob) s (
     visit_fields V fs (write_field f x ob) s))))))"

definition visit_primitive :: "(prim \<Rightarrow> 's \<Rightarrow> (prim, 's) visited) \<Rightarrow> obj \<Rightarrow> 's \<Rightarrow> (obj, 's) visited" where
  "visit_primitive acc ob s = (case ob of OPrim p \<Rightarrow> bind (acc p s) (\<lambda>(r, p, s). Inr (r, OPrim p, s)) | _ \<Rightarrow> Inl Unreachable)"

text \<open>\<open>VisitorImpl::visit\<close> selects by the mapped type; \<open>mut\<close> says whether the object is reached through a mutable pointer.\<close>

fun visit :: "'s visitor \<Rightarrow> bool \<Rightarrow> stype \<Rightarrow> obj \<Rightarrow> 's \<Rightarrow> (obj, 's) visited"
  and visitObject :: "'s visitor \<Rightarrow> bool \<Rightarrow> refl \<Rightarrow> obj \<Rightarrow> 's \<Rightarrow> (obj, 's) visited"
  and field_visits :: "'s visitor \<Rightarrow> bool \<Rightarrow> (field_info \<times> stype) list \<Rightarrow> (field_info \<times> mapped_type \<times> (obj \<Rightarrow> 's \<Rightarrow> (obj, 's) visited)) list"
where
  "visit V mut (Prim m) = visit_primitive (v_accept V m)"
| "visit V mut (Enumerated m e) = visit_primitive (v_accept_named V m e)"
| "visit V mut (ArrayOf n df t) = visitArray V mut (n = None) df (mapped t) (visit V mut t)"
| "visit V mut (SetOf cmp df t) = visitSet V mut cmp df (mapped t) (visit V mut t)"
| "visit V mut (ObjectOf r) = visitObject V mut r"
| "visitObject V mut (Refl None fs) = (\<lambda>ob s. visit_fields V (field_visits V mut fs) ob s)"
| "visitObject V mut (Refl (Some base) fs) = (\<lambda>ob s.
     bind (visitObject V mut base ob s) (\<lambda>(r, ob, s). vis_try_return r ob s (visit_fields V (field_visits V mut fs) ob s)))"
| "field_visits V mut [] = []"
| "field_visits V mut ((f, t) # fs) = (f, mapped t, visit V mut t) # field_visits V mut fs"

definition reflection_visit :: "'s visitor \<Rightarrow> bool \<Rightarrow> refl \<Rightarrow> obj \<Rightarrow> 's \<Rightarrow> (bool \<times> obj \<times> 's) res" where
  "reflection_visit V mut r ob s = bind (visitObject V mut r ob s) (\<lambda>(q, ob, s). Inr (q \<noteq> RCancel, ob, s))"

end
