(* ===== verification/Toml_Serializer.thy ===== *)
theory Toml_Serializer
  imports Reflections
begin

text \<open>
  Objects as TOML values (src/lib/idle/service/external/toml11/serialize.cpp): the visitor that writes an object into a value, the visitor that
  reads an object from a value, and the comparison of objects that is built on the former (art/equals.cpp). The values of the library toml11
  are a parameter: the record \<open>toml\<close> holds the operations that the code uses, and \<open>toml_laws\<close> what it relies on.
\<close>

section \<open>Values\<close>

text \<open>
  What the accessors of a value show: its type and, for that type, what it holds. Integers are stored as \<open>std::int64_t\<close>, floating point numbers as doubles,
  dates and times are opaque.
\<close>

datatype 'v tcontent = CEmpty | CBool bool | CInt "64 word" | CFloating "64 word" | CString string | CDate nat
  | CArray "'v list" | CTable "string \<rightharpoonup> 'v"

text \<open>
  The operations: \<open>t_content\<close> stands for \<open>type()\<close> and the accessors; \<open>t_assign\<close> for the assignment of a plain value, \<open>t_poke\<close> for a change inside a value through
  the references that \<open>as_array\<close>, \<open>at\<close> and the subscript operator return; \<open>t_empty\<close> is the default constructed value; \<open>t_get_int\<close> is \<open>toml::get<T>\<close> for an
  integral type, \<open>t_date\<close> the conversion of points in time and durations. The last six are the conversions between the floating point types and
  the string functions of boost that split and trim a description.
\<close>

record 'v toml =
  t_content :: "'v \<Rightarrow> 'v tcontent"
  t_assign :: "'v tcontent \<Rightarrow> 'v \<Rightarrow> 'v"
  t_poke :: "'v tcontent \<Rightarrow> 'v \<Rightarrow> 'v"
  t_empty :: 'v
  t_set_comments :: "string list \<Rightarrow> 'v \<Rightarrow> 'v"
  t_eq :: "'v \<Rightarrow> 'v \<Rightarrow> bool"
  t_get_int :: "mapped_type \<Rightarrow> 64 word \<Rightarrow> int"
  t_date :: "prim \<Rightarrow> nat"
  t_widen :: "32 word \<Rightarrow> 64 word"
  t_narrow :: "64 word \<Rightarrow> 32 word"
  t_float_of_int :: "64 word \<Rightarrow> 32 word"
  t_double_of_int :: "64 word \<Rightarrow> 64 word"
  t_split :: "string \<Rightarrow> string list"
  t_trim :: "string \<Rightarrow> string"

fun content_of :: "'v toml \<Rightarrow> prim \<Rightarrow> 'v tcontent" where
  "content_of T (PBool b) = CBool b"
| "content_of T (PInt i) = CInt (word_of_int i)"
| "content_of T (PFloat w) = CFloating (t_widen T w)"
| "content_of T (PDouble w) = CFloating w"
| "content_of T (PString str) = CString str"
| "content_of T (PTime n) = CDate (t_date T (PTime n))"
| "content_of T (PDuration n) = CDate (t_date T (PDuration n))"

text \<open>The values of a mapped type: \<open>type_cast\<close> reads the object's bytes as this type.\<close>

definition int_range :: "mapped_type \<Rightarrow> int \<Rightarrow> bool" where
  "int_range m i \<longleftrightarrow> (case m of
     Int8 \<Rightarrow> - (2 ^ 7) \<le> i \<and> i < 2 ^ 7 | Int16 \<Rightarrow> - (2 ^ 15) \<le> i \<and> i < 2 ^ 15
   | Int32 \<Rightarrow> - (2 ^ 31) \<le> i \<and> i < 2 ^ 31 | Int64 \<Rightarrow> - (2 ^ 63) \<le> i \<and> i < 2 ^ 63
   | UInt8 \<Rightarrow> 0 \<le> i \<and> i < 2 ^ 8 | UInt16 \<Rightarrow> 0 \<le> i \<and> i < 2 ^ 16
   | UInt32 \<Rightarrow> 0 \<le> i \<and> i < 2 ^ 32 | UInt64 \<Rightarrow> 0 \<le> i \<and> i < 2 ^ 64 | _ \<Rightarrow> False)"

definition wt_prim :: "mapped_type \<Rightarrow> prim \<Rightarrow> bool" where
  "wt_prim m p \<longleftrightarrow> (case p of PBool b \<Rightarrow> m = TBool | PInt i \<Rightarrow> int_range m i | PFloat w \<Rightarrow> m = TFloat | PDouble w \<Rightarrow> m = TDouble
     | PString str \<Rightarrow> m = TString | PTime n \<Rightarrow> m = TimePoint | PDuration n \<Rightarrow> m = Duration)"

section \<open>References into a value\<close>

datatype tstep = Key string | Index nat

type_synonym tpath = "tstep list"

fun at_path :: "'v toml \<Rightarrow> tpath \<Rightarrow> 'v \<Rightarrow> 'v option" where
  "at_path T [] v = Some v"
| "at_path T (Key k # p) v = (case t_content T v of CTable tb \<Rightarrow> Option.bind (tb k) (at_path T p) | _ \<Rightarrow> None)"
| "at_path T (Index i # p) v = (case t_content T v of CArray xs \<Rightarrow> (if i < length xs then at_path T p (xs ! i) else None) | _ \<Rightarrow> None)"

fun update_at :: "'v toml \<Rightarrow> tpath \<Rightarrow> ('v \<Rightarrow> 'v) \<Rightarrow> 'v \<Rightarrow> 'v" where
  "update_at T [] f v = f v"
| "update_at T (Key k # p) f v = (case t_content T v of
     CTable tb \<Rightarrow> (case tb k of Some w \<Rightarrow> t_poke T (CTable (tb(k \<mapsto> update_at T p f w))) v | None \<Rightarrow> v)
   | _ \<Rightarrow> v)"
| "update_at T (Index i # p) f v = (case t_content T v of
     CArray xs \<Rightarrow> (if i < length xs then t_poke T (CArray (xs[i := update_at T p f (xs ! i)])) v else v)
   | _ \<Rightarrow> v)"

section \<open>Writing\<close>

text \<open>The state of \<open>TOMLSerializerVisitor\<close>: the value and the stack of references into it, the topmost one first.\<close>

record 'v ser =
  ss_root :: 'v
  ss_stack :: "tpath list"

definition ser_top :: "'v toml \<Rightarrow> 'v ser \<Rightarrow> 'v res" where
  "ser_top T s = (case ss_stack s of [] \<Rightarrow> Inl AssertFailed
     | p # _ \<Rightarrow> (case at_path T p (ss_root s) of None \<Rightarrow> Inl Unreachable | Some v \<Rightarrow> Inr v))"

definition ser_change :: "'v toml \<Rightarrow> ('v \<Rightarrow> 'v) \<Rightarrow> 'v ser \<Rightarrow> 'v ser" where
  "ser_change T f s = s\<lparr>ss_root := update_at T (hd (ss_stack s)) f (ss_root s)\<rparr>"

definition ser_accept :: "'v toml \<Rightarrow> mapped_type \<Rightarrow> prim \<Rightarrow> 'v ser \<Rightarrow> (visitor_result \<times> prim \<times> 'v ser) res" where
  "ser_accept T m p s =
     (if wt_prim m p then bind (ser_top T s) (\<lambda>_. Inr (ROk, p, ser_change T (t_assign T (content_of T p)) s)) else Inl Unreachable)"

definition ser_accept_named :: "'v toml \<Rightarrow> mapped_type \<Rightarrow> enumeration \<Rightarrow> prim \<Rightarrow> 'v ser \<Rightarrow> (visitor_result \<times> prim \<times> 'v ser) res" where
  "ser_accept_named T m e p s =
     bind (primitive_name e p) (\<lambda>nm.
       if nm \<noteq> [] then bind (ser_top T s) (\<lambda>_. Inr (ROk, p, ser_change T (t_assign T (CString nm)) s))
       else ser_accept T m p s)"

definition resize_array :: "'v toml \<Rightarrow> nat \<Rightarrow> 'v list \<Rightarrow> 'v list" where
  "resize_array T sz xs = take sz xs @ replicate (sz - length xs) (t_empty T)"

definition as_array_value :: "'v toml \<Rightarrow> nat \<Rightarrow> 'v \<Rightarrow> 'v" where
  "as_array_value T sz v =
     (let v = (case t_content T v of CArray xs \<Rightarrow> v | _ \<Rightarrow> t_assign T (CArray []) v)
      in case t_content T v of CArray xs \<Rightarrow> (if length xs \<noteq> sz then t_poke T (CArray (resize_array T sz xs)) v else v) | _ \<Rightarrow> v)"

definition ser_peek :: "'v toml \<Rightarrow> mapped_type \<Rightarrow> nat \<Rightarrow> container_type \<Rightarrow> 'v ser \<Rightarrow> (visitor_result \<times> nat \<times> 'v ser) res" where
  "ser_peek T m sz ct s = bind (ser_top T s) (\<lambda>_. Inr (ROk, sz, ser_change T (as_array_value T sz) s))"

definition comment_lines :: "'v toml \<Rightarrow> string \<Rightarrow> string list" where
  "comment_lines T d = map (\<lambda>str. CHR '' '' # str) (filter (\<lambda>str. str \<noteq> []) (map (t_trim T) (t_split T d)))"

text \<open>The member \<open>name\<close> of a table, which is inserted if it is missing, with the field's description as its comment.\<close>

definition described :: "'v toml \<Rightarrow> string option \<Rightarrow> 'v \<Rightarrow> 'v" where
  "described T desc w = (case desc of None \<Rightarrow> w
     | Some d \<Rightarrow> (let cs = comment_lines T d in if cs \<noteq> [] then t_set_comments T cs w else w))"

definition with_member :: "'v toml \<Rightarrow> string \<Rightarrow> string option \<Rightarrow> 'v \<Rightarrow> 'v" where
  "with_member T nm desc v =
     (let v = (case t_content T v of CTable tb \<Rightarrow> v | _ \<Rightarrow> t_assign T (CTable Map.empty) v)
      in case t_content T v of
          CTable tb \<Rightarrow> t_poke T (CTable (tb(nm \<mapsto> described T desc (case tb nm of None \<Rightarrow> t_empty T | Some w \<Rightarrow> w)))) v
        | _ \<Rightarrow> v)"

definition ser_push_name :: "'v toml \<Rightarrow> mapped_type \<Rightarrow> string \<Rightarrow> string option \<Rightarrow> 'v ser \<Rightarrow> (visitor_result \<times> 'v ser) res" where
  "ser_push_name T m nm desc s =
     bind (ser_top T s) (\<lambda>_.
       let s = ser_change T (with_member T nm desc) s
       in Inr (ROk, s\<lparr>ss_stack := (hd (ss_stack s) @ [Key nm]) # ss_stack s\<rparr>))"

definition ser_push_index :: "'v toml \<Rightarrow> mapped_type \<Rightarrow> nat \<Rightarrow> 'v ser \<Rightarrow> (visitor_result \<times> 'v ser) res" where
  "ser_push_index T m i s =
     bind (ser_top T s) (\<lambda>v. case t_content T v of
       CArray xs \<Rightarrow> (if i < length xs then Inr (ROk, s\<lparr>ss_stack := (hd (ss_stack s) @ [Index i]) # ss_stack s\<rparr>) else Inl Terminated)
     | _ \<Rightarrow> Inl Terminated)"

definition ser_pop :: "'v toml \<Rightarrow> mapped_type \<Rightarrow> 'v ser \<Rightarrow> 'v ser res" where
  "ser_pop T m s =
     bind (check (length (ss_stack s) > 1) ()) (\<lambda>_.
     bind (ser_top T s) (\<lambda>v.
     check (t_content T v \<noteq> CEmpty) (s\<lparr>ss_stack := tl (ss_stack s)\<rparr>)))"

definition serializer :: "'v toml \<Rightarrow> 'v ser visitor" where
  "serializer T = \<lparr>v_accept = ser_accept T, v_accept_named = ser_accept_named T, v_peek = ser_peek T,
     v_push_name = ser_push_name T, v_push_index = ser_push_index T, v_pop = ser_pop T\<rparr>"

definition toml_serialize :: "'v toml \<Rightarrow> refl \<Rightarrow> obj \<Rightarrow> 'v \<Rightarrow> 'v res" where
  "toml_serialize T r ob v =
     bind (reflection_visit (serializer T) False r ob \<lparr>ss_root = v, ss_stack = [[]]\<rparr>) (\<lambda>(_, _, s). Inr (ss_root s))"

definition art_equals :: "'v toml \<Rightarrow> refl \<Rightarrow> obj \<Rightarrow> obj \<Rightarrow> bool res" where
  "art_equals T r left right =
     bind (toml_serialize T r left (t_empty T)) (\<lambda>l. bind (toml_serialize T r right (t_empty T)) (\<lambda>q. Inr (t_eq T l q)))"

section \<open>Reading\<close>

datatype message = BadArraySize nat nat | NotCompatible mapped_type

record 'v des =
  ds_stack :: "'v list"
  ds_out :: "message list"

definition isCompatibleTo :: "'v tcontent \<Rightarrow> mapped_type \<Rightarrow> bool" where
  "isCompatibleTo from to \<longleftrightarrow> (case from of
     CBool _ \<Rightarrow> isBool to | CInt _ \<Rightarrow> isIntegral to \<or> isFloating to | CFloating _ \<Rightarrow> isFloating to | CString _ \<Rightarrow> isString to
   | CArray _ \<Rightarrow> isArray to | CTable _ \<Rightarrow> isObject to | _ \<Rightarrow> False)"

definition des_top :: "'v des \<Rightarrow> 'v res" where
  "des_top s = (case ds_stack s of [] \<Rightarrow> Inl AssertFailed | v # _ \<Rightarrow> Inr v)"

text \<open>\<open>toml::get\<close> throws for a value of another type.\<close>

definition des_accept :: "'v toml \<Rightarrow> mapped_type \<Rightarrow> prim \<Rightarrow> 'v des \<Rightarrow> (visitor_result \<times> prim \<times> 'v des) res" where
  "des_accept T m p s =
     (if \<not> wt_prim m p then Inl Unreachable
      else bind (des_top s) (\<lambda>v. case (m, t_content T v) of
          (TFloat, CFloating w) \<Rightarrow> Inr (ROk, PFloat (t_narrow T w), s)
        | (TFloat, CInt w) \<Rightarrow> Inr (ROk, PFloat (t_float_of_int T w), s)
        | (TFloat, _) \<Rightarrow> Inl AssertFailed
        | (TDouble, CFloating w) \<Rightarrow> Inr (ROk, PDouble w, s)
        | (TDouble, CInt w) \<Rightarrow> Inr (ROk, PDouble (t_double_of_int T w), s)
        | (TDouble, _) \<Rightarrow> Inl AssertFailed
        | (TBool, CBool b) \<Rightarrow> Inr (ROk, PBool b, s)
        | (TString, CString str) \<Rightarrow> Inr (ROk, PString str, s)
        | (_, CInt w) \<Rightarrow> (if isIntegral m then Inr (ROk, PInt (t_get_int T m w), s) else Inl Terminated)
        | _ \<Rightarrow> Inl Terminated))"

definition des_accept_named :: "'v toml \<Rightarrow> mapped_type \<Rightarrow> enumeration \<Rightarrow> prim \<Rightarrow> 'v des \<Rightarrow> (visitor_result \<times> prim \<times> 'v des) res" where
  "des_accept_named T m e p s =
     bind (des_top s) (\<lambda>v. case t_content T v of
       CString str \<Rightarrow> bind (primitive_value e str) (\<lambda>found. case found of
           None \<Rightarrow> Inr (RCancel, p, s)
         | Some i \<Rightarrow> Inr (ROk, (case p of PBool _ \<Rightarrow> PBool (i \<noteq> 0) | _ \<Rightarrow> PInt i), s))
     | _ \<Rightarrow> des_accept T m p s)"

definition des_peek :: "'v toml \<Rightarrow> mapped_type \<Rightarrow> nat \<Rightarrow> container_type \<Rightarrow> 'v des \<Rightarrow> (visitor_result \<times> nat \<times> 'v des) res" where
  "des_peek T m sz ct s =
     bind (des_top s) (\<lambda>v. case t_content T v of
       CArray xs \<Rightarrow>
         (if ct = ArrayLike \<and> length xs \<noteq> sz then Inr (RCancel, sz, s\<lparr>ds_out := ds_out s @ [BadArraySize sz (length xs)]\<rparr>)
          else if \<not> list_all (\<lambda>x. isCompatibleTo (t_content T x) m) xs then Inr (RCancel, sz, s\<lparr>ds_out := ds_out s @ [NotCompatible m]\<rparr>)
          else Inr (ROk, length xs, s))
     | _ \<Rightarrow> Inl Terminated)"

definition des_push_name :: "'v toml \<Rightarrow> mapped_type \<Rightarrow> string \<Rightarrow> string option \<Rightarrow> 'v des \<Rightarrow> (visitor_result \<times> 'v des) res" where
  "des_push_name T m nm desc s =
     bind (des_top s) (\<lambda>v. case t_content T v of
       CTable tb \<Rightarrow> (case tb nm of
           None \<Rightarrow> Inr (RSkip, s)
         | Some w \<Rightarrow> if \<not> isCompatibleTo (t_content T w) m then Inr (RCancel, s) else Inr (ROk, s\<lparr>ds_stack := w # ds_stack s\<rparr>))
     | _ \<Rightarrow> Inl Terminated)"

definition des_push_index :: "'v toml \<Rightarrow> mapped_type \<Rightarrow> nat \<Rightarrow> 'v des \<Rightarrow> (visitor_result \<times> 'v des) res" where
  "des_push_index T m i s =
     bind (des_top s) (\<lambda>v. case t_content T v of
       CArray xs \<Rightarrow> (if i < length xs then Inr (ROk, s\<lparr>ds_stack := xs ! i # ds_stack s\<rparr>) else Inl Terminated)
     | _ \<Rightarrow> Inl Terminated)"

definition des_pop :: "mapped_type \<Rightarrow> 'v des \<Rightarrow> 'v des res" where
  "des_pop m s = check (length (ds_stack s) > 1) (s\<lparr>ds_stack := tl (ds_stack s)\<rparr>)"

definition deserializer :: "'v toml \<Rightarrow> 'v des visitor" where
  "deserializer T = \<lparr>v_accept = des_accept T, v_accept_named = des_accept_named T, v_peek = des_peek T,
     v_push_name = des_push_name T, v_push_index = des_push_index T, v_pop = des_pop\<rparr>"

definition toml_deserialize :: "'v toml \<Rightarrow> 'v \<Rightarrow> refl \<Rightarrow> obj \<Rightarrow> (bool \<times> obj \<times> message list) res" where
  "toml_deserialize T v r ob =
     bind (reflection_visit (deserializer T) True r ob \<lparr>ds_stack = [v], ds_out = []\<rparr>) (\<lambda>(ok, ob, s). Inr (ok, ob, ds_out s))"

section \<open>What the code relies on\<close>

definition toml_laws :: "'v toml \<Rightarrow> bool" where
  "toml_laws T \<longleftrightarrow>
     (\<forall>c v. t_content T (t_assign T c v) = c) \<and> (\<forall>c v. t_content T (t_poke T c v) = c)
   \<and> (\<forall>c d v. t_poke T d (t_poke T c v) = t_poke T d v) \<and> (\<forall>v. t_poke T (t_content T v) v = v)
   \<and> t_content T (t_empty T) = CEmpty \<and> (\<forall>cs v. t_content T (t_set_comments T cs v) = t_content T v)
   \<and> (\<forall>m i. int_range m i \<longrightarrow> t_get_int T m (word_of_int i) = i) \<and> (\<forall>m w. isIntegral m \<longrightarrow> int_range m (t_get_int T m w))
   \<and> (\<forall>w. t_narrow T (t_widen T w) = w)"

end
