(* ===== verification/Typed_Visitors.thy ===== *)
theory Typed_Visitors
  imports Toml_Serializer
begin

text \<open>
  Types of reflected objects: the objects of a descriptor (\<open>wt\<close>) and the well formed descriptors (\<open>wf\<close>). The locale \<open>typed_visitor\<close> is the contract of a visitor
  that keeps the type of primitives: a traversal with it keeps the type of the object. The serializer and the deserializer are such visitors.
\<close>

section \<open>Objects of a type\<close>

fun all_fields :: "refl \<Rightarrow> (field_info \<times> stype) list" where
  "all_fields (Refl None fl) = fl"
| "all_fields (Refl (Some base) fl) = all_fields base @ fl"

definition offsets :: "(field_info \<times> stype) list \<Rightarrow> nat list" where
  "offsets fl = map (fi_offset \<circ> fst) fl"

definition names :: "(field_info \<times> stype) list \<Rightarrow> string list" where
  "names fl = map (fi_name \<circ> fst) fl"

text \<open>An object holds the reflected fields of its class and its base classes, each one with a value of the field's type.\<close>

fun wt :: "stype \<Rightarrow> obj \<Rightarrow> bool"
  and wt_refl :: "refl \<Rightarrow> (nat \<times> obj) list \<Rightarrow> bool"
  and wt_fields :: "(field_info \<times> stype) list \<Rightarrow> (nat \<times> obj) list \<Rightarrow> bool"
where
  "wt (Prim m) = (\<lambda>ob. case ob of OPrim p \<Rightarrow> wt_prim m p | _ \<Rightarrow> False)"
| "wt (Enumerated m e) = (\<lambda>ob. case ob of OPrim p \<Rightarrow> wt_prim m p | _ \<Rightarrow> False)"
| "wt (ArrayOf n df t) = (\<lambda>ob. case ob of OArray xs \<Rightarrow> list_all (wt t) xs \<and> (\<forall>k. n = Some k \<longrightarrow> length xs = k) | _ \<Rightarrow> False)"
| "wt (SetOf cmp df t) = (\<lambda>ob. case ob of OSet xs \<Rightarrow> list_all (wt t) xs | _ \<Rightarrow> False)"
| "wt (ObjectOf r) = (\<lambda>ob. case ob of OObject fs \<Rightarrow> map fst fs = offsets (all_fields r) \<and> wt_refl r fs | _ \<Rightarrow> False)"
| "wt_refl (Refl None fl) = wt_fields fl"
| "wt_refl (Refl (Some base) fl) = (\<lambda>fs. wt_refl base fs \<and> wt_fields fl fs)"
| "wt_fields [] = (\<lambda>fs. True)"
| "wt_fields ((f, t) # fl) = (\<lambda>fs. (case map_of fs (fi_offset f) of None \<Rightarrow> False | Some x \<Rightarrow> wt t x) \<and> wt_fields fl fs)"

text \<open>A descriptor is well formed if no two fields of a class share their offset or their name, the default elements have the element's
  type and the constants of an enumeration are values of its underlying type.\<close>

fun wf :: "stype \<Rightarrow> bool" and wf_refl :: "refl \<Rightarrow> bool" and wf_fields :: "(field_info \<times> stype) list \<Rightarrow> bool" where
  "wf (Prim m) = isPrimitive m"
| "wf (Enumerated m e) = (isIntegral m \<and> list_all (\<lambda>en. int_range m (ee_value en)) (en_entries e) \<or> isBool m)"
| "wf (ArrayOf n df t) = (wt t df \<and> wf t)"
| "wf (SetOf cmp df t) = (wt t df \<and> wf t)"
| "wf (ObjectOf r) = (distinct (offsets (all_fields r)) \<and> distinct (names (all_fields r)) \<and> wf_refl r)"
| "wf_refl (Refl None fl) = wf_fields fl"
| "wf_refl (Refl (Some base) fl) = (wf_refl base \<and> wf_fields fl)"
| "wf_fields [] = True"
| "wf_fields ((f, t) # fl) = (wf t \<and> wf_fields fl)"

lemmas type_induct = wf_wf_refl_wf_fields.induct [case_names Prim Enumerated ArrayOf SetOf ObjectOf Root Derived Nil Cons]

text \<open>Writing a field of an object.\<close>

definition put :: "nat \<Rightarrow> obj \<Rightarrow> (nat \<times> obj) list \<Rightarrow> (nat \<times> obj) list" where
  "put k x fs = map (\<lambda>(off, y). (off, if off = k then x else y)) fs"

lemma write_field_put [simp]: "write_field f x (OObject fs) = OObject (put (fi_offset f) x fs)"
  by (simp add: write_field_def put_def)

lemma map_of_put: "map_of (put k x fs) j = (if j = k then map_option (\<lambda>_. x) (map_of fs j) else map_of fs j)"
  by (induction fs) (auto simp: put_def)

lemma fst_put [simp]: "map fst (put k x fs) = map fst fs"
  by (induction fs) (auto simp: put_def)

lemma relocate_Some [simp]: "relocate f (OObject fs) = Inr x \<longleftrightarrow> map_of fs (fi_offset f) = Some x"
  by (auto simp: relocate_def split: option.splits)

lemma wt_fields_cong:
  "(\<And>k. k \<in> set (offsets fl) \<Longrightarrow> map_of fs k = map_of gs k) \<Longrightarrow> wt_fields fl fs = wt_fields fl gs"
  by (induction fl) (auto simp: offsets_def)

lemma offsets_names_simps [simp]:
  "offsets [] = []" "offsets ((f, t) # fl) = fi_offset f # offsets fl" "offsets (fl @ gl) = offsets fl @ offsets gl"
  "names [] = []" "names ((f, t) # fl) = fi_name f # names fl" "names (fl @ gl) = names fl @ names gl"
  by (simp_all add: offsets_def names_def)

lemma wt_fields_write:
  assumes "fi_offset f \<notin> set (offsets fl)"
  shows "wt_fields fl (put (fi_offset f) y fs) = wt_fields fl fs"
  by (rule wt_fields_cong) (use assms in \<open>auto simp: map_of_put\<close>)

lemma wt_refl_cong:
  "(\<And>k. k \<in> set (offsets (all_fields r)) \<Longrightarrow> map_of fs k = map_of gs k) \<Longrightarrow> wt_refl r fs = wt_refl r gs"
proof (induction r rule: all_fields.induct)
  case (1 fl)
  then show ?case using wt_fields_cong [of fl fs gs] by simp
next
  case (2 base fl)
  then show ?case using wt_fields_cong [of fl fs gs] by simp
qed

lemma wt_refl_fields: "wt_refl r fs \<longleftrightarrow> wt_fields (all_fields r) fs"
proof (induction r rule: all_fields.induct)
  case (2 base fl)
  have "wt_fields (xs @ ys) fs \<longleftrightarrow> wt_fields xs fs \<and> wt_fields ys fs" for xs ys by (induction xs) auto
  with 2 show ?case by simp
qed simp

lemma wt_fields_iff: "wt_fields fl fs \<longleftrightarrow> (\<forall>(f, t) \<in> set fl. \<exists>x. map_of fs (fi_offset f) = Some x \<and> wt t x)"
  by (induction fl) (auto split: option.splits)

section \<open>Visitors keep types\<close>

lemma vis_try_Inr:
  "vis_try_return r ob s rest = Inr z \<longleftrightarrow> r = ROk \<and> rest = Inr z \<or> r = RSkip \<and> z = (ROk, ob, s) \<or> r = RCancel \<and> z = (RCancel, ob, s)"
  "vis_try_continue r ob s rest = Inr z \<longleftrightarrow> r = ROk \<and> rest = Inr z \<or> r = RSkip \<and> z = (ROk, ob, s) \<or> r = RCancel \<and> z = (RCancel, ob, s)"
  by (cases r; auto simp: vis_try_return_def vis_try_continue_def)+

lemma elements_cases:
  assumes "visit_elements V m vis i (x # xs) s = Inr (r, ys, s')"
  obtains "ys = x # xs"
  | q y s1 s2 where "vis x s1 = Inr (q, y, s2)" "ys = y # xs"
  | q y s1 s2 s3 zs where "vis x s1 = Inr (q, y, s2)" "visit_elements V m vis (Suc i) xs s3 = Inr (r, zs, s')" "ys = y # zs"
  using assms by (auto simp: vis_try_Inr)

lemma fields_cases:
  assumes "visit_fields V ((f, m, vis) # fs) ob s = Inr (r, ob', s')"
  obtains "ob' = ob"
  | x q y s1 s2 where "relocate f ob = Inr x" "vis x s1 = Inr (q, y, s2)" "ob' = write_field f y ob"
  | x q y s1 s2 s3 where "relocate f ob = Inr x" "vis x s1 = Inr (q, y, s2)" "visit_fields V fs (write_field f y ob) s3 = Inr (r, ob', s')"
  using assms by (auto simp: vis_try_Inr)

lemma callback_cases:
  assumes "set_callback V m vis i x s = Inr (ok, y, s')"
  obtains "y = x" | q s1 s2 where "vis x s1 = Inr (q, y, s2)"
  using assms by (auto simp: set_callback_def vis_try_Inr)

lemma set_fs_insert_subset: "set (snd (fs_insert cmp v xs)) \<subseteq> insert v (set xs)"
  by (auto simp: fs_insert_def Let_def dest: in_set_takeD in_set_dropD)

lemma lower_bound_le: "lower_bound_loop cmp xs v b c \<le> b + c"
proof (induction c arbitrary: b rule: less_induct)
  case (less c)
  show ?case
  proof (cases "c = 0")
    case False
    with less.IH [of "c - Suc (c div 2)" "Suc (b + c div 2)"] less.IH [of "c div 2" b] show ?thesis
      by (subst lower_bound_loop.simps) (auto simp: Let_def)
  qed (simp add: lower_bound_loop.simps)
qed

lemma fs_insert_inside: "Suc (fst (fst (fs_insert cmp v xs))) \<le> length (snd (fs_insert cmp v xs))"
  using lower_bound_le [of cmp xs v 0 "length xs"]
  by (auto simp: fs_insert_def Let_def is_equal_element_def lower_bound_def)

lemma set_fs_erase_at: "set (fs_erase_at i xs) \<subseteq> set xs"
  by (auto simp: fs_erase_at_def dest: in_set_takeD in_set_dropD)

locale typed_visitor =
  fixes V :: "'s visitor"
  assumes accept_type: "v_accept V m p s = Inr (r, q, s') \<Longrightarrow> wt_prim m p \<Longrightarrow> wt_prim m q"
    and named_type: "v_accept_named V m e p s = Inr (r, q, s') \<Longrightarrow> wf (Enumerated m e) \<Longrightarrow> wt_prim m p \<Longrightarrow> wt_prim m q"
begin

lemma visit_primitive_type:
  assumes "visit_primitive acc ob s = Inr (r, ob', s')" and "wt (Prim m) ob"
    and "\<And>p s r q s'. acc p s = Inr (r, q, s') \<Longrightarrow> wt_prim m p \<Longrightarrow> wt_prim m q"
  shows "wt (Prim m) ob'"
  using assms by (auto simp: visit_primitive_def split: obj.splits)

lemma visit_elements_type:
  assumes "visit_elements V m vis i xs s = Inr (r, ys, s')" and "list_all (wt t) xs"
    and "\<And>x s r y s'. vis x s = Inr (r, y, s') \<Longrightarrow> wt t x \<Longrightarrow> wt t y"
  shows "list_all (wt t) ys \<and> length ys = length xs"
  using assms(1,2)
proof (induction xs arbitrary: i s r ys s')
  case (Cons x xs)
  from Cons.prems(1) show ?case
    by (rule elements_cases) (use Cons.prems(2) Cons.IH assms(3) in auto)
qed simp

lemma iterate_rest_type:
  assumes "iterate_rest cmp (set_callback V m vis) df n i xs s = Inr (ok, ys, s')" and "list_all (wt t) xs" and "wt t df"
    and "\<And>x s r y s'. vis x s = Inr (r, y, s') \<Longrightarrow> wt t x \<Longrightarrow> wt t y"
  shows "list_all (wt t) ys"
  using assms(1,2)
proof (induction n arbitrary: i xs s)
  case (Suc n)
  then obtain b y s1 where cb: "set_callback V m vis i df s = Inr (b, y, s1)"
    and rest: "if b then iterate_rest cmp (set_callback V m vis) df n (Suc i) (snd (fs_insert cmp y xs)) s1 = Inr (ok, ys, s') else ys = xs"
    by (auto split: if_splits)
  from cb have "wt t y" by (rule callback_cases) (use assms(3,4) in auto)
  then have "list_all (wt t) (snd (fs_insert cmp y xs))" using Suc.prems(2) set_fs_insert_subset [of cmp y xs] by (auto simp: list_all_iff)
  with rest Suc.IH Suc.prems(2) show ?case by (auto split: if_splits)
qed simp

lemma iterate_mut_type:
  assumes "iterate_mut cmp (set_callback V m vis) df n i c xs s = Inr (ok, ys, s')" and "list_all (wt t) xs" and "wt t df" and "c \<le> length xs"
    and "\<And>x s r y s'. vis x s = Inr (r, y, s') \<Longrightarrow> wt t x \<Longrightarrow> wt t y"
  shows "list_all (wt t) ys"
  using assms(1,2,4)
proof (induction n arbitrary: i c xs s)
  case (Suc n)
  show ?case
  proof (cases "c = length xs")
    case True
    with Suc.prems have "iterate_rest cmp (set_callback V m vis) df (Suc n) i xs s = Inr (ok, ys, s')" by simp
    then show ?thesis using Suc.prems(2) assms(3,5) by (rule iterate_rest_type)
  next
    case False
    let ?ins = "\<lambda>y. fs_insert cmp y (fs_erase_at c xs)"
    from False Suc.prems(1) obtain b y s1 where cb: "set_callback V m vis i (xs ! c) s = Inr (b, y, s1)"
      and rest: "if \<not> b then ys = xs else if y \<noteq> xs ! c then iterate_mut cmp (set_callback V m vis) df n (Suc i) (Suc (fst (fst (?ins y)))) (snd (?ins y)) s1 = Inr (ok, ys, s')
        else iterate_mut cmp (set_callback V m vis) df n (Suc i) (Suc c) xs s1 = Inr (ok, ys, s')"
      by (auto simp: Let_def split: if_splits)
    have "wt t (xs ! c)" using False Suc.prems(2,3) by (simp add: list_all_length)
    with cb have y: "wt t y" by (elim callback_cases) (use assms(5) in auto)
    then have "list_all (wt t) (snd (?ins y))"
      using Suc.prems(2) set_fs_insert_subset [of cmp y "fs_erase_at c xs"] set_fs_erase_at [of c xs] by (fastforce simp: list_all_iff)
    moreover have "Suc (fst (fst (?ins y))) \<le> length (snd (?ins y))" by (rule fs_insert_inside)
    ultimately show ?thesis using rest Suc.IH Suc.prems(2) False Suc.prems(3) by (auto split: if_splits)
  qed
qed simp

lemma visit_fields_type:
  assumes "visit_fields V (field_visits V mut fl) (OObject fs) s = Inr (r, ob', s')" and "distinct (offsets fl)" and "wt_fields fl fs"
    and "\<And>f t x s r y s'. (f, t) \<in> set fl \<Longrightarrow> visit V mut t x s = Inr (r, y, s') \<Longrightarrow> wt t x \<Longrightarrow> wt t y"
  shows "\<exists>gs. ob' = OObject gs \<and> map fst gs = map fst fs \<and> wt_fields fl gs \<and> (\<forall>k. k \<notin> set (offsets fl) \<longrightarrow> map_of gs k = map_of fs k)"
  using assms
proof (induction fl arbitrary: fs s)
  case (Cons ft fl)
  obtain f t where ft [simp]: "ft = (f, t)" by fastforce
  let ?w = "\<lambda>y. put (fi_offset f) y fs"
  from Cons.prems(1) have "visit_fields V ((f, mapped t, visit V mut t) # field_visits V mut fl) (OObject fs) s = Inr (r, ob', s')" by simp
  then show ?case
  proof (rule fields_cases)
    assume "ob' = OObject fs"
    with Cons.prems(3) show ?thesis by auto
  next
    fix x q y s1 s2 assume a: "relocate f (OObject fs) = Inr x" "visit V mut t x s1 = Inr (q, y, s2)" "ob' = write_field f y (OObject fs)"
    have "wt t y" using Cons.prems(4) [of f t x s1 q y s2] Cons.prems(3) a(1,2) by simp
    moreover have "wt_fields fl (?w y) = wt_fields fl fs"
      using Cons.prems(2) by (intro wt_fields_write) simp
    ultimately show ?thesis using a Cons.prems(3) by (intro exI [of _ "?w y"]) (auto simp: map_of_put)
  next
    fix x q y s1 s2 s3 assume a: "relocate f (OObject fs) = Inr x" "visit V mut t x s1 = Inr (q, y, s2)"
      "visit_fields V (field_visits V mut fl) (write_field f y (OObject fs)) s3 = Inr (r, ob', s')"
    have y: "wt t y" using Cons.prems(4) [of f t x s1 q y s2] Cons.prems(3) a(1,2) by simp
    have "wt_fields fl (?w y) = wt_fields fl fs"
      using Cons.prems(2) by (intro wt_fields_write) simp
    then have "wt_fields fl (?w y)" using Cons.prems(3) by simp
    then have "\<exists>gs. ob' = OObject gs \<and> map fst gs = map fst (?w y) \<and> wt_fields fl gs \<and> (\<forall>k. k \<notin> set (offsets fl) \<longrightarrow> map_of gs k = map_of (?w y) k)"
      using a(3) Cons.prems(2) by (intro Cons.IH [of "?w y" s3]) (auto intro: Cons.prems(4))
    then obtain gs where
      g: "ob' = OObject gs" "map fst gs = map fst fs" "wt_fields fl gs" "\<forall>k. k \<notin> set (offsets fl) \<longrightarrow> map_of gs k = map_of (?w y) k" by auto
    have "map_of gs (fi_offset f) = Some y" using g(4) a(1) Cons.prems(2) by (simp add: map_of_put)
    with y g show ?thesis by (auto simp: map_of_put)
  qed
qed auto

theorem visit_type:
  "visit V mut t ob s = Inr (q, ob', s') \<Longrightarrow> wt t ob \<Longrightarrow> wf t \<Longrightarrow> wt t ob'"
  "visitObject V mut r (OObject fs) s = Inr (q, ob', s') \<Longrightarrow> wt_refl r fs \<Longrightarrow> wf_refl r \<Longrightarrow> distinct (offsets (all_fields r))
     \<Longrightarrow> \<exists>gs. ob' = OObject gs \<and> map fst gs = map fst fs \<and> wt_refl r gs \<and> (\<forall>k. k \<notin> set (offsets (all_fields r)) \<longrightarrow> map_of gs k = map_of fs k)"
  "(f, u) \<in> set fl \<Longrightarrow> visit V mut u ob s = Inr (q, ob', s') \<Longrightarrow> wt u ob \<Longrightarrow> wf_fields fl \<Longrightarrow> wt u ob'"
proof (induction t and r and fl arbitrary: ob s q ob' s' and fs s q ob' s' and f u ob s q ob' s' rule: type_induct)
  case (Prim m)
  then show ?case using visit_primitive_type [of "v_accept V m" ob s q ob' s' m] accept_type by simp
next
  case (Enumerated m e)
  then show ?case using visit_primitive_type [of "v_accept_named V m e" ob s q ob' s' m] named_type [of m e] by simp
next
  case (ArrayOf n df t)
  from ArrayOf.prems(2) obtain xs where xs: "ob = OArray xs" "list_all (wt t) xs" "\<forall>k. n = Some k \<longrightarrow> length xs = k" by (auto split: obj.splits)
  from ArrayOf.prems(1) xs(1) consider "ob' = ob"
    | sz ys s1 where "n = None \<or> sz = length xs" "visit_elements V (mapped t) (visit V mut t) 0 (take sz xs @ replicate (sz - length xs) df) s1 = Inr (q, ys, s')" "ob' = OArray ys"
    by (auto simp: visitArray_def vis_try_Inr split: if_splits)
  then show ?case
  proof cases
    case 2
    have "list_all (wt t) (take sz xs @ replicate (sz - length xs) df)" using xs(2) ArrayOf.prems(3) by (auto simp: list_all_iff dest: in_set_takeD)
    from visit_elements_type [OF 2(2) this] ArrayOf.IH ArrayOf.prems(3) have "list_all (wt t) ys \<and> length ys = length (take sz xs @ replicate (sz - length xs) df)" by auto
    with 2 xs(3) show ?thesis by auto
  qed (use ArrayOf.prems(2) in simp)
next
  case (SetOf cmp df t)
  from SetOf.prems(2) obtain xs where xs: "ob = OSet xs" "list_all (wt t) xs" by (auto split: obj.splits)
  from SetOf.prems(1) xs(1) consider "ob' = ob" | "ob' = OSet []"
    | sz ys zs ok s1 where "iterate_mut cmp (set_callback V (mapped t) (visit V mut t)) df sz 0 0 ys s1 = Inr (ok, zs, s')" "ob' = OSet zs" "ys = [] \<or> ys = xs"
    by (auto simp: visitSet_def vis_try_Inr Let_def split: if_splits)
  then show ?case
  proof cases
    case 3
    have "list_all (wt t) zs" by (rule iterate_mut_type [OF 3(1)]) (use 3 xs SetOf in auto)
    with 3 show ?thesis by simp
  qed (use xs in simp_all)
next
  case (ObjectOf r)
  from ObjectOf.prems(2) obtain fs where fs: "ob = OObject fs" "map fst fs = offsets (all_fields r)" "wt_refl r fs" by (auto split: obj.splits)
  with ObjectOf.IH [of fs s q ob' s'] ObjectOf.prems show ?case by auto
next
  case (Root fl)
  from visit_fields_type [of mut fl fs s q ob' s'] Root show ?case by auto
next
  case (Derived base fl)
  have d: "distinct (offsets (all_fields base))" "distinct (offsets fl)" "set (offsets (all_fields base)) \<inter> set (offsets fl) = {}"
    using Derived.prems(4) by auto
  from Derived.prems(1) obtain r1 ob1 s1 where 1: "visitObject V mut base (OObject fs) s = Inr (r1, ob1, s1)"
    and 2: "vis_try_return r1 ob1 s1 (visit_fields V (field_visits V mut fl) ob1 s1) = Inr (q, ob', s')" by auto
  from Derived.IH(1) [OF 1] Derived.prems(2,3) d(1) obtain gs where
    g: "ob1 = OObject gs" "map fst gs = map fst fs" "wt_refl base gs" "\<forall>k. k \<notin> set (offsets (all_fields base)) \<longrightarrow> map_of gs k = map_of fs k" by auto
  have fl: "wt_fields fl gs" using wt_fields_cong [of fl gs fs] g(4) d(3) Derived.prems(2) by auto
  from 2 consider "ob' = ob1" | "visit_fields V (field_visits V mut fl) ob1 s1 = Inr (q, ob', s')" by (auto simp: vis_try_Inr)
  then show ?case
  proof cases
    case 1
    with g fl show ?thesis by (intro exI [of _ gs]) simp
  next
    case 2
    from visit_fields_type [OF 2 [unfolded g(1)] d(2) fl] Derived.IH(2) Derived.prems(3) obtain hs where
      h: "ob' = OObject hs" "map fst hs = map fst gs" "wt_fields fl hs" "\<forall>k. k \<notin> set (offsets fl) \<longrightarrow> map_of hs k = map_of gs k" by auto
    have "wt_refl base hs" using wt_refl_cong [of base hs gs] h(4) d(3) g(3) by auto
    with h g show ?thesis by (intro exI [of _ hs]) simp
  qed
next
  case Nil
  then show ?case by simp
next
  case (Cons f' t fl)
  then show ?case by auto
qed

end

lemma search_member: "search prec key idx v = Some i \<Longrightarrow> i \<in> set idx"
  using lower_bound_le [of prec "map key idx" v 0 "length idx"]
  by (auto simp: search_def find_first_lower_bound_of_def lower_bound_def Let_def split: if_splits)

lemma comb_loop_mset: "comb_loop pred gap swapped xs = Some ys \<Longrightarrow> mset ys = mset xs"
proof (induction rule: comb_loop.raw_induct [rotated, consumes 1, case_names step])
  case (step f pred gap swapped xs ys)
  from step.hyps step.IH show ?case by (auto simp: Let_def comb_pass_mset split: if_splits)
qed

lemma enum_names_member: "enum_names e = Some idx \<Longrightarrow> i \<in> set idx \<Longrightarrow> i < length (en_entries e)"
  unfolding enum_names_def comb_sort_def by (drule comb_loop_mset, drule mset_eq_setD) simp

lemma primitive_value_range:
  assumes "primitive_value e nm = Inr (Some v)" and "list_all (\<lambda>en. int_range m (ee_value en)) (en_entries e)"
  shows "int_range m v"
proof -
  from assms(1) obtain idx i where i: "enum_names e = Some idx" "search shortlex (name_key e) idx nm = Some i" "v = value_key e i"
    by (auto simp: primitive_value_def split: option.splits)
  from enum_names_member [OF i(1) search_member [OF i(2)]] assms(2) i(3) show ?thesis by (simp add: value_key_def list_all_length)
qed

lemma wt_prim_bool: "isBool m \<Longrightarrow> wt_prim m p \<longleftrightarrow> (\<exists>b. p = PBool b)"
  by (cases p) (auto simp: wt_prim_def isBool_def int_range_def)

lemma wt_prim_integral: "isIntegral m \<Longrightarrow> wt_prim m p \<longleftrightarrow> (\<exists>i. p = PInt i \<and> int_range m i)"
  by (cases p) (auto simp: wt_prim_def isIntegral_def)

lemma int_range_integral: "int_range m i \<Longrightarrow> isIntegral m"
  by (cases m) (auto simp: int_range_def isIntegral_def)

text \<open>The serializer does not change the primitives that it visits; the deserializer reads values of the requested types.\<close>

interpretation ser: typed_visitor "serializer T" for T
  by unfold_locales (auto simp: serializer_def ser_accept_def ser_accept_named_def split: if_splits)

lemma des_accept_typed:
  assumes "toml_laws T" and "des_accept T m p s = Inr (r, q, s')"
  shows "wt_prim m q"
proof -
  from assms(2) obtain v where v: "wt_prim m p" "des_top s = Inr v" by (auto simp: des_accept_def split: if_splits)
  have get: "isIntegral m \<Longrightarrow> int_range m (t_get_int T m w)" for w using assms(1) by (simp add: toml_laws_def)
  show ?thesis using assms(2) v get
    by (cases "t_content T v"; cases m) (auto simp: des_accept_def wt_prim_def isIntegral_def)
qed

lemma deserializer_typed:
  assumes "toml_laws T"
  shows "typed_visitor (deserializer T)"
proof
  fix m p s r q s' assume "v_accept (deserializer T) m p s = Inr (r, q, s')"
  then show "wt_prim m q" using des_accept_typed [OF assms] by (simp add: deserializer_def)
next
  fix m e p s r q s' assume a: "v_accept_named (deserializer T) m e p s = Inr (r, q, s')" "wf (Enumerated m e)" "wt_prim m p"
  then obtain v where v: "des_top s = Inr v" "(case t_content T v of CString str \<Rightarrow> bind (primitive_value e str) (\<lambda>found. case found of
      None \<Rightarrow> Inr (RCancel, p, s) | Some i \<Rightarrow> Inr (ROk, (case p of PBool _ \<Rightarrow> PBool (i \<noteq> 0) | _ \<Rightarrow> PInt i), s))
    | _ \<Rightarrow> des_accept T m p s) = Inr (r, q, s')" by (auto simp: deserializer_def des_accept_named_def)
  then consider "q = p" | "des_accept T m p s = Inr (r, q, s')"
    | str i where "primitive_value e str = Inr (Some i)" "q = (case p of PBool _ \<Rightarrow> PBool (i \<noteq> 0) | _ \<Rightarrow> PInt i)"
    by (cases "t_content T v") (simp_all split: option.splits, blast)
  then show "wt_prim m q"
  proof cases
    case 3
    from a(2,3) 3 primitive_value_range [OF 3(1)] show ?thesis by (auto simp: wt_prim_bool wt_prim_integral)
  qed (use a(3) des_accept_typed [OF assms] in simp_all)
qed

end
