(* ===== verification/Toml_Round_Trip.thy ===== *)
theory Toml_Round_Trip
  imports Typed_Visitors
begin

text \<open>
  What the serialization of reflected objects guarantees: the values that represent an object (\<open>rep\<close>), that the serializer produces such a value and
  changes nothing else, and that the deserializer gives back the object from a value that represents it.
\<close>

section \<open>References\<close>

lemma laws:
  assumes "toml_laws T"
  shows "t_content T (t_assign T c v) = c" "t_content T (t_poke T c v) = c" "t_poke T d (t_poke T c v) = t_poke T d v"
    "t_poke T (t_content T v) v = v" "t_content T (t_empty T) = CEmpty" "t_content T (t_set_comments T cs v) = t_content T v"
    "int_range m i \<Longrightarrow> t_get_int T m (word_of_int i) = i" "t_narrow T (t_widen T w) = w"
  using assms by (simp_all add: toml_laws_def)

lemma at_path_append: "at_path T (p @ q) v = Option.bind (at_path T p v) (at_path T q)"
  by (induction T p v rule: at_path.induct) (auto split: tcontent.splits option.splits bind_split)

lemma update_at_append: "update_at T (p @ q) f v = update_at T p (update_at T q f) v"
proof (induction p arbitrary: v)
  case (Cons a p)
  then show ?case by (cases a) (auto split: tcontent.splits option.splits)
qed simp

lemma at_update:
  assumes "toml_laws T" and "at_path T p v = Some w"
  shows "at_path T p (update_at T p f v) = Some (f w)"
  using assms(2)
proof (induction p arbitrary: v)
  case (Cons a p)
  then show ?case by (cases a) (auto simp: laws [OF assms(1)] split: tcontent.splits option.splits bind_splits if_splits)
qed simp

lemma update_update:
  assumes "toml_laws T" and "at_path T p v = Some w"
  shows "update_at T p g (update_at T p f v) = update_at T p (\<lambda>_. g (f w)) v"
  using assms(2)
proof (induction p arbitrary: v)
  case (Cons a p)
  then show ?case by (cases a) (auto simp: laws [OF assms(1)] split: tcontent.splits option.splits bind_splits if_splits)
qed simp

lemma update_const:
  assumes "at_path T p v = Some w"
  shows "update_at T p f v = update_at T p (\<lambda>_. f w) v"
  using assms
proof (induction p arbitrary: v)
  case (Cons a p)
  then show ?case by (cases a) (auto split: tcontent.splits option.splits bind_splits if_splits)
qed simp

lemma update_same:
  assumes "toml_laws T" and "at_path T p v = Some w"
  shows "update_at T p (\<lambda>_. w) v = v"
  using assms(2)
proof (induction p arbitrary: v)
  case (Cons a p)
  show ?case
  proof (cases a)
    case (Key k)
    with Cons.prems obtain tb u where u: "t_content T v = CTable tb" "tb k = Some u" "at_path T p u = Some w"
      by (auto split: tcontent.splits bind_splits)
    from Cons.IH [OF u(3)] u Key laws(4) [OF assms(1), of v] show ?thesis by (simp add: fun_upd_idem)
  next
    case (Index i)
    with Cons.prems obtain xs where u: "t_content T v = CArray xs" "i < length xs" "at_path T p (xs ! i) = Some w"
      by (auto split: tcontent.splits if_splits)
    from Cons.IH [OF u(3)] u Index laws(4) [OF assms(1), of v] show ?thesis by simp
  qed
qed simp

section \<open>The values that represent an object\<close>

definition member :: "'v toml \<Rightarrow> 'v \<Rightarrow> string \<Rightarrow> 'v option" where
  "member T w k = (case t_content T w of CTable tb \<Rightarrow> tb k | _ \<Rightarrow> None)"

definition is_table :: "'v toml \<Rightarrow> 'v \<Rightarrow> bool" where
  "is_table T w \<longleftrightarrow> (case t_content T w of CTable tb \<Rightarrow> True | _ \<Rightarrow> False)"

fun rep :: "'v toml \<Rightarrow> stype \<Rightarrow> obj \<Rightarrow> 'v \<Rightarrow> bool"
  and rep_refl :: "'v toml \<Rightarrow> refl \<Rightarrow> (nat \<times> obj) list \<Rightarrow> 'v \<Rightarrow> bool"
  and rep_fields :: "'v toml \<Rightarrow> (field_info \<times> stype) list \<Rightarrow> (nat \<times> obj) list \<Rightarrow> 'v \<Rightarrow> bool"
where
  "rep T (Prim m) = (\<lambda>ob w. case ob of OPrim p \<Rightarrow> t_content T w = content_of T p | _ \<Rightarrow> False)"
| "rep T (Enumerated m e) = (\<lambda>ob w. case ob of
     OPrim p \<Rightarrow> (case primitive_name e p of Inr nm \<Rightarrow> t_content T w = (if nm \<noteq> [] then CString nm else content_of T p) | Inl _ \<Rightarrow> False)
   | _ \<Rightarrow> False)"
| "rep T (ArrayOf n df t) = (\<lambda>ob w. case ob of
     OArray xs \<Rightarrow> (case t_content T w of CArray ys \<Rightarrow> list_all2 (rep T t) xs ys | _ \<Rightarrow> False) | _ \<Rightarrow> False)"
| "rep T (SetOf cmp df t) = (\<lambda>ob w. case ob of
     OSet xs \<Rightarrow> (case t_content T w of CArray ys \<Rightarrow> list_all2 (rep T t) xs ys | _ \<Rightarrow> False) | _ \<Rightarrow> False)"
| "rep T (ObjectOf r) = (\<lambda>ob w. case ob of OObject fs \<Rightarrow> is_table T w \<and> rep_refl T r fs w | _ \<Rightarrow> False)"
| "rep_refl T (Refl None fl) = rep_fields T fl"
| "rep_refl T (Refl (Some base) fl) = (\<lambda>fs w. rep_refl T base fs w \<and> rep_fields T fl fs w)"
| "rep_fields T [] = (\<lambda>fs w. True)"
| "rep_fields T ((f, t) # fl) = (\<lambda>fs w.
     (case map_of fs (fi_offset f) of None \<Rightarrow> False | Some x \<Rightarrow> (case member T w (fi_name f) of None \<Rightarrow> False | Some u \<Rightarrow> rep T t x u))
     \<and> rep_fields T fl fs w)"

text \<open>
  The descriptors that can be stored: the tables of enumerations are built, and no object without fields is stored in a field or as an element: its value
  would stay empty, which is a violated assertion when the visitor leaves it.
\<close>

fun storable :: "stype \<Rightarrow> bool" and storable_refl :: "refl \<Rightarrow> bool" and storable_fields :: "(field_info \<times> stype) list \<Rightarrow> bool" where
  "storable (Prim m) = True"
| "storable (Enumerated m e) = (enum_values e \<noteq> None)"
| "storable (ArrayOf n df t) = storable t"
| "storable (SetOf cmp df t) = storable t"
| "storable (ObjectOf r) = (all_fields r \<noteq> [] \<and> storable_refl r)"
| "storable_refl (Refl None fl) = storable_fields fl"
| "storable_refl (Refl (Some base) fl) = (storable_refl base \<and> storable_fields fl)"
| "storable_fields [] = True"
| "storable_fields ((f, t) # fl) = (storable t \<and> storable_fields fl)"

lemma rep_fields_cong:
  "(\<And>k. k \<in> set (names fl) \<Longrightarrow> member T v k = member T w k) \<Longrightarrow> rep_fields T fl fs v = rep_fields T fl fs w"
proof (induction fl)
  case (Cons ft fl)
  obtain f t where ft: "ft = (f, t)" by fastforce
  then have "member T v (fi_name f) = member T w (fi_name f)" using Cons.prems by simp
  moreover have "rep_fields T fl fs v = rep_fields T fl fs w" using Cons ft by simp
  ultimately show ?case by (simp add: ft cong: option.case_cong)
qed simp

lemma rep_refl_cong:
  "(\<And>k. k \<in> set (names (all_fields r)) \<Longrightarrow> member T v k = member T w k) \<Longrightarrow> rep_refl T r fs v = rep_refl T r fs w"
proof (induction r rule: all_fields.induct)
  case (1 fl)
  then show ?case using rep_fields_cong [of fl T v w] by simp
next
  case (2 base fl)
  then show ?case using rep_fields_cong [of fl T v w] by simp
qed

section \<open>The serializer writes representations\<close>

abbreviation ser_at :: "'v \<Rightarrow> tpath \<Rightarrow> tpath list \<Rightarrow> 'v ser" where
  "ser_at root p stk \<equiv> \<lparr>ss_root = root, ss_stack = p # stk\<rparr>"

text \<open>A step writes a value at the topmost reference, and nothing else.\<close>

definition writes :: "'v toml \<Rightarrow> ('o \<Rightarrow> 'v ser \<Rightarrow> ('o, 'v ser) visited) \<Rightarrow> 'o \<Rightarrow> ('v \<Rightarrow> 'v \<Rightarrow> bool) \<Rightarrow> bool" where
  "writes T act x R \<longleftrightarrow> (\<forall>root p stk v. at_path T p root = Some v \<longrightarrow>
     (\<exists>w. act x (ser_at root p stk) = Inr (ROk, x, ser_at (update_at T p (\<lambda>_. w) root) p stk) \<and> R v w))"

lemma writesD:
  assumes "writes T act x R" and "at_path T p root = Some v"
  obtains w where "act x (ser_at root p stk) = Inr (ROk, x, ser_at (update_at T p (\<lambda>_. w) root) p stk)" "R v w"
  using assms unfolding writes_def by blast

lemma ser_top_at [simp]: "at_path T p root = Some v \<Longrightarrow> ser_top T (ser_at root p stk) = Inr v"
  by (simp add: ser_top_def)

lemma ser_change_at [simp]: "ser_change T f (ser_at root p stk) = ser_at (update_at T p f root) p stk"
  by (simp add: ser_change_def)

definition stored :: "'v toml \<Rightarrow> ('o \<Rightarrow> 'v \<Rightarrow> bool) \<Rightarrow> 'o \<Rightarrow> 'v \<Rightarrow> 'v \<Rightarrow> bool" where
  "stored T R x v w \<longleftrightarrow> R x w \<and> t_content T w \<noteq> CEmpty"

lemma ser_element:
  assumes T: "toml_laws T" and v: "at_path T p root = Some v" "t_content T v = CArray ys" "i < length ys"
    and x: "writes T vis x (stored T R x)"
  obtains u root' s where
    "v_push_index (serializer T) m i (ser_at root p stk) = Inr (ROk, s)"
    "vis x s = Inr (ROk, x, ser_at root' (p @ [Index i]) (p # stk))"
    "v_pop (serializer T) m (ser_at root' (p @ [Index i]) (p # stk)) = Inr (ser_at root' p stk)"
    "root' = update_at T p (\<lambda>_. t_poke T (CArray (ys[i := u])) v) root" "R x u"
proof -
  have at: "at_path T (p @ [Index i]) root = Some (ys ! i)" using v by (simp add: at_path_append)
  from writesD [OF x at, of "p # stk"] obtain u where
    u: "vis x (ser_at root (p @ [Index i]) (p # stk)) = Inr (ROk, x, ser_at (update_at T (p @ [Index i]) (\<lambda>_. u) root) (p @ [Index i]) (p # stk))"
    "R x u" "t_content T u \<noteq> CEmpty" by (auto simp: stored_def)
  have up: "update_at T (p @ [Index i]) (\<lambda>_. u) root = update_at T p (\<lambda>_. t_poke T (CArray (ys[i := u])) v) root"
    unfolding update_at_append using v update_const [OF v(1), of "update_at T [Index i] (\<lambda>_. u)"] by simp
  show thesis
    by (rule that [OF _ u(1) _ up u(2)])
      (use v at_update [OF T at, of "\<lambda>_. u"] u(3) in \<open>simp_all add: serializer_def ser_push_index_def ser_pop_def\<close>)
qed

lemma ser_elements:
  assumes "toml_laws T" and "at_path T p root = Some v" and "t_content T v = CArray ys" and "length ys = i + length xs"
    and "\<And>x. x \<in> set xs \<Longrightarrow> writes T vis x (stored T R x)"
  shows "\<exists>w zs. visit_elements (serializer T) m vis i xs (ser_at root p stk) = Inr (ROk, xs, ser_at (update_at T p (\<lambda>_. w) root) p stk)
    \<and> t_content T w = CArray (take i ys @ zs) \<and> list_all2 R xs zs"
  using assms(2-)
proof (induction xs arbitrary: i root v ys)
  case Nil
  then show ?case by (intro exI [of _ v] exI [of _ "[]"]) (simp add: update_same [OF assms(1)])
next
  case (Cons x xs)
  obtain u root' s where e:
    "v_push_index (serializer T) m i (ser_at root p stk) = Inr (ROk, s)"
    "vis x s = Inr (ROk, x, ser_at root' (p @ [Index i]) (p # stk))"
    "v_pop (serializer T) m (ser_at root' (p @ [Index i]) (p # stk)) = Inr (ser_at root' p stk)"
    "root' = update_at T p (\<lambda>_. t_poke T (CArray (ys[i := u])) v) root" "R x u"
    by (rule ser_element [OF assms(1) Cons.prems(1,2), of i vis x R m stk]) (use Cons.prems in auto)
  let ?v = "t_poke T (CArray (ys[i := u])) v"
  have at: "at_path T p root' = Some ?v" unfolding e(4) using at_update [OF assms(1) Cons.prems(1)] .
  from Cons.IH [OF at, of "ys[i := u]" "Suc i"] Cons.prems(3,4) obtain w zs where
    w: "visit_elements (serializer T) m vis (Suc i) xs (ser_at root' p stk) = Inr (ROk, xs, ser_at (update_at T p (\<lambda>_. w) root') p stk)"
    "t_content T w = CArray (take (Suc i) (ys[i := u]) @ zs)" "list_all2 R xs zs" by (auto simp: laws [OF assms(1)])
  have "update_at T p (\<lambda>_. w) root' = update_at T p (\<lambda>_. w) root"
    unfolding e(4) using update_update [OF assms(1) Cons.prems(1), of "\<lambda>_. w"] .
  with e w Cons.prems(3) show ?case
    by (intro exI [of _ w] exI [of _ "u # zs"]) (simp add: vis_try_return_def take_Suc_conv_app_nth)
qed

lemma ser_iterate:
  assumes "toml_laws T" and "at_path T p root = Some v" and "t_content T v = CArray ys" and "length ys = i + length xs"
    and "\<And>x. x \<in> set xs \<Longrightarrow> writes T vis x (stored T R x)"
  shows "\<exists>w zs. iterate_const (set_callback (serializer T) m vis) i (i + length xs) xs (ser_at root p stk) = Inr (True, ser_at (update_at T p (\<lambda>_. w) root) p stk)
    \<and> t_content T w = CArray (take i ys @ zs) \<and> list_all2 R xs zs"
  using assms(2-)
proof (induction xs arbitrary: i root v ys)
  case Nil
  then show ?case by (intro exI [of _ v] exI [of _ "[]"]) (simp add: update_same [OF assms(1)])
next
  case (Cons x xs)
  obtain u root' s where e:
    "v_push_index (serializer T) m i (ser_at root p stk) = Inr (ROk, s)"
    "vis x s = Inr (ROk, x, ser_at root' (p @ [Index i]) (p # stk))"
    "v_pop (serializer T) m (ser_at root' (p @ [Index i]) (p # stk)) = Inr (ser_at root' p stk)"
    "root' = update_at T p (\<lambda>_. t_poke T (CArray (ys[i := u])) v) root" "R x u"
    by (rule ser_element [OF assms(1) Cons.prems(1,2), of i vis x R m stk]) (use Cons.prems in auto)
  let ?v = "t_poke T (CArray (ys[i := u])) v"
  have at: "at_path T p root' = Some ?v" unfolding e(4) using at_update [OF assms(1) Cons.prems(1)] .
  from Cons.IH [OF at, of "ys[i := u]" "Suc i"] Cons.prems(3,4) obtain w zs where
    w: "iterate_const (set_callback (serializer T) m vis) (Suc i) (Suc i + length xs) xs (ser_at root' p stk) = Inr (True, ser_at (update_at T p (\<lambda>_. w) root') p stk)"
    "t_content T w = CArray (take (Suc i) (ys[i := u]) @ zs)" "list_all2 R xs zs" by (auto simp: laws [OF assms(1)])
  have "set_callback (serializer T) m vis i x (ser_at root p stk) = Inr (True, x, ser_at root' p stk)"
    using e(1-3) by (simp add: set_callback_def vis_try_return_def)
  moreover have "update_at T p (\<lambda>_. w) root' = update_at T p (\<lambda>_. w) root"
    unfolding e(4) using update_update [OF assms(1) Cons.prems(1), of "\<lambda>_. w"] .
  ultimately show ?case using w e(5) Cons.prems(3)
    by (intro exI [of _ w] exI [of _ "u # zs"]) (simp add: take_Suc_conv_app_nth)
qed

lemma content_described: "toml_laws T \<Longrightarrow> t_content T (described T desc w) = t_content T w"
  by (simp add: described_def laws Let_def split: option.split)

lemma content_with_member:
  assumes "toml_laws T"
  obtains tb u where "t_content T (with_member T nm desc v) = CTable tb" "tb nm = Some u" "\<And>k. k \<noteq> nm \<Longrightarrow> tb k = member T v k"
proof -
  define tb where "tb = (case t_content T v of CTable tb \<Rightarrow> tb | _ \<Rightarrow> Map.empty)"
  define u where "u = described T desc (case tb nm of None \<Rightarrow> t_empty T | Some w \<Rightarrow> w)"
  have "t_content T (with_member T nm desc v) = CTable (tb(nm \<mapsto> u))"
    by (cases "t_content T v") (simp_all add: with_member_def Let_def laws [OF assms] tb_def u_def)
  moreover have "tb k = member T v k" for k by (simp add: tb_def member_def split: tcontent.split)
  ultimately show thesis using that [of "tb(nm \<mapsto> u)" u] by simp
qed

lemma ser_field:
  assumes T: "toml_laws T" and v: "at_path T p root = Some v" and x: "writes T vis x (stored T R x)"
  obtains u w root1 root' tb where
    "v_push_name (serializer T) m nm desc (ser_at root p stk) = Inr (ROk, ser_at root1 (p @ [Key nm]) (p # stk))"
    "vis x (ser_at root1 (p @ [Key nm]) (p # stk)) = Inr (ROk, x, ser_at root' (p @ [Key nm]) (p # stk))"
    "v_pop (serializer T) m (ser_at root' (p @ [Key nm]) (p # stk)) = Inr (ser_at root' p stk)"
    "root' = update_at T p (\<lambda>_. w) root" "t_content T w = CTable tb" "tb nm = Some u" "\<And>k. k \<noteq> nm \<Longrightarrow> tb k = member T v k" "R x u"
proof -
  define v1 where "v1 = with_member T nm desc v"
  define root1 where "root1 = update_at T p (with_member T nm desc) root"
  obtain tb u0 where tb: "t_content T v1 = CTable tb" "tb nm = Some u0" "\<And>k. k \<noteq> nm \<Longrightarrow> tb k = member T v k"
    using content_with_member [OF T, of nm desc v] unfolding v1_def by blast
  have at1: "at_path T p root1 = Some v1" unfolding root1_def v1_def by (rule at_update [OF T v])
  have at: "at_path T (p @ [Key nm]) root1 = Some u0" using at1 tb by (simp add: at_path_append)
  from writesD [OF x at, of "p # stk"] obtain u where
    u: "vis x (ser_at root1 (p @ [Key nm]) (p # stk)) = Inr (ROk, x, ser_at (update_at T (p @ [Key nm]) (\<lambda>_. u) root1) (p @ [Key nm]) (p # stk))"
    "R x u" "t_content T u \<noteq> CEmpty" by (auto simp: stored_def)
  let ?w = "t_poke T (CTable (tb(nm \<mapsto> u))) v1"
  have "update_at T (p @ [Key nm]) (\<lambda>_. u) root1 = update_at T p (\<lambda>_. ?w) root1"
    unfolding update_at_append using tb update_const [OF at1, of "update_at T [Key nm] (\<lambda>_. u)"] by simp
  also have "\<dots> = update_at T p (\<lambda>_. ?w) root" unfolding root1_def using update_update [OF T v, of "\<lambda>_. ?w"] .
  finally have up: "update_at T (p @ [Key nm]) (\<lambda>_. u) root1 = update_at T p (\<lambda>_. ?w) root" .
  show thesis
  proof (rule that [where tb = "tb(nm \<mapsto> u)", OF _ u(1) _ up _ _ _ u(2)])
    show "v_push_name (serializer T) m nm desc (ser_at root p stk) = Inr (ROk, ser_at root1 (p @ [Key nm]) (p # stk))"
      using v by (simp add: serializer_def ser_push_name_def Let_def root1_def)
    show "v_pop (serializer T) m (ser_at (update_at T (p @ [Key nm]) (\<lambda>_. u) root1) (p @ [Key nm]) (p # stk))
      = Inr (ser_at (update_at T (p @ [Key nm]) (\<lambda>_. u) root1) p stk)"
      using at_update [OF T at, of "\<lambda>_. u"] u(3) by (simp add: serializer_def ser_pop_def)
  qed (use tb(3) in \<open>simp_all add: laws [OF T]\<close>)
qed

lemma put_same: "distinct (map fst fs) \<Longrightarrow> map_of fs k = Some x \<Longrightarrow> put k x fs = fs"
  by (induction fs) (auto simp: put_def image_iff split: if_splits intro!: map_idI)

definition adds :: "'v toml \<Rightarrow> (field_info \<times> stype) list \<Rightarrow> 'v \<Rightarrow> 'v \<Rightarrow> bool" where
  "adds T fl v w \<longleftrightarrow> (\<forall>k. k \<notin> set (names fl) \<longrightarrow> member T w k = member T v k) \<and> (if fl = [] then w = v else is_table T w)"

lemma ser_fields:
  assumes T: "toml_laws T" and "distinct (names fl)" and d: "distinct (map fst fs)" and "wt_fields fl fs"
    and "\<And>f t x. (f, t) \<in> set fl \<Longrightarrow> map_of fs (fi_offset f) = Some x \<Longrightarrow> writes T (visit (serializer T) False t) x (stored T (rep T t) x)"
  shows "writes T (visit_fields (serializer T) (field_visits (serializer T) False fl)) (OObject fs) (\<lambda>v w. rep_fields T fl fs w \<and> adds T fl v w)"
  using assms(2,4,5)
proof (induction fl)
  case Nil
  then show ?case using update_same [OF T] by (auto simp: writes_def adds_def)
next
  case (Cons ft fl)
  obtain f t where ft [simp]: "ft = (f, t)" by fastforce
  from Cons.prems(2) obtain x where x: "map_of fs (fi_offset f) = Some x" by (auto split: option.splits)
  have IH: "writes T (visit_fields (serializer T) (field_visits (serializer T) False fl)) (OObject fs) (\<lambda>v w. rep_fields T fl fs w \<and> adds T fl v w)"
    using Cons.prems by (intro Cons.IH) auto
  have vis: "writes T (visit (serializer T) False t) x (stored T (rep T t) x)" using Cons.prems(3) [of f t x] x by simp
  show ?case unfolding writes_def
  proof (intro allI impI)
    fix root p stk v assume v: "at_path T p root = Some v"
    let ?n = "fi_name f"
    obtain u w root1 root' tb where e:
      "v_push_name (serializer T) (mapped t) ?n (fi_description f) (ser_at root p stk) = Inr (ROk, ser_at root1 (p @ [Key ?n]) (p # stk))"
      "visit (serializer T) False t x (ser_at root1 (p @ [Key ?n]) (p # stk)) = Inr (ROk, x, ser_at root' (p @ [Key ?n]) (p # stk))"
      "v_pop (serializer T) (mapped t) (ser_at root' (p @ [Key ?n]) (p # stk)) = Inr (ser_at root' p stk)"
      "root' = update_at T p (\<lambda>_. w) root" "t_content T w = CTable tb" "tb ?n = Some u" "\<And>k. k \<noteq> ?n \<Longrightarrow> tb k = member T v k" "rep T t x u"
      by (rule ser_field [OF T v vis, of "mapped t" ?n "fi_description f" stk]) blast
    have at: "at_path T p root' = Some w" unfolding e(4) using at_update [OF T v] .
    from writesD [OF IH at, of stk] obtain w' where w':
      "visit_fields (serializer T) (field_visits (serializer T) False fl) (OObject fs) (ser_at root' p stk)
         = Inr (ROk, OObject fs, ser_at (update_at T p (\<lambda>_. w') root') p stk)"
      "rep_fields T fl fs w'" "adds T fl w w'" by blast
    have up: "update_at T p (\<lambda>_. w') root' = update_at T p (\<lambda>_. w') root"
      unfolding e(4) using update_update [OF T v, of "\<lambda>_. w'"] .
    have mem: "member T w' ?n = Some u" using w'(3) Cons.prems(1) e(5,6) by (simp add: adds_def member_def)
    have "relocate f (OObject fs) = Inr x" using x by simp
    then have "visit_fields (serializer T) (field_visits (serializer T) False (ft # fl)) (OObject fs) (ser_at root p stk)
        = Inr (ROk, OObject fs, ser_at (update_at T p (\<lambda>_. w') root) p stk)"
      using e(1-3) w'(1) x by (simp add: vis_try_continue_def put_same [OF d] up)
    moreover have "rep_fields T (ft # fl) fs w'" using w'(2) mem x e(8) by simp
    moreover have "adds T (ft # fl) v w'" using w'(3) e(5,7) by (auto simp: adds_def member_def is_table_def split: if_splits)
    ultimately show "\<exists>w. visit_fields (serializer T) (field_visits (serializer T) False (ft # fl)) (OObject fs) (ser_at root p stk)
        = Inr (ROk, OObject fs, ser_at (update_at T p (\<lambda>_. w) root) p stk) \<and> rep_fields T (ft # fl) fs w \<and> adds T (ft # fl) v w" by blast
  qed
qed

lemma writes_prim:
  assumes "wt_prim m p"
  shows "writes T (ser_accept T m) p (\<lambda>v w. w = t_assign T (content_of T p) v)"
  unfolding writes_def
proof (intro allI impI)
  fix root q stk v assume v: "at_path T q root = Some v"
  show "\<exists>w. ser_accept T m p (ser_at root q stk) = Inr (ROk, p, ser_at (update_at T q (\<lambda>_. w) root) q stk) \<and> w = t_assign T (content_of T p) v"
    using assms v update_const [OF v, of "t_assign T (content_of T p)"] by (simp add: ser_accept_def)
qed

lemma writes_primitive: "writes T acc p R \<Longrightarrow> writes T (visit_primitive acc) (OPrim p) R"
  unfolding writes_def visit_primitive_def by fastforce

lemma writes_mono: "writes T act x R \<Longrightarrow> (\<And>v w. R v w \<Longrightarrow> S v w) \<Longrightarrow> writes T act x S"
  unfolding writes_def by blast

lemma writes_cong: "act x = act' x \<Longrightarrow> writes T act x R = writes T act' x R"
  by (simp add: writes_def)

lemma content_of_not_empty: "content_of T p \<noteq> CEmpty"
  by (cases p) auto

lemma as_array_content:
  assumes "toml_laws T"
  obtains ys where "t_content T (as_array_value T n v) = CArray ys" "length ys = n"
proof -
  have "\<exists>ys. t_content T (as_array_value T n v) = CArray ys \<and> length ys = n"
    by (cases "t_content T v") (auto simp: as_array_value_def Let_def laws [OF assms] resize_array_def)
  then show thesis using that by blast
qed

lemma writes_array:
  assumes T: "toml_laws T" and "\<And>x. x \<in> set xs \<Longrightarrow> writes T vis x (stored T R x)"
  shows "writes T (visitArray (serializer T) False rs df m vis) (OArray xs) (\<lambda>v w. \<exists>ys. t_content T w = CArray ys \<and> list_all2 R xs ys)"
  unfolding writes_def
proof (intro allI impI)
  fix root p stk v assume v: "at_path T p root = Some v"
  let ?v = "as_array_value T (length xs) v" and ?root = "update_at T p (as_array_value T (length xs)) root"
  obtain ys where ys: "t_content T ?v = CArray ys" "length ys = length xs" by (rule as_array_content [OF T])
  have at: "at_path T p ?root = Some ?v" by (rule at_update [OF T v])
  from ser_elements [OF T at ys(1), of 0 xs vis R m stk] ys(2) assms(2) obtain w zs where
    w: "visit_elements (serializer T) m vis 0 xs (ser_at ?root p stk) = Inr (ROk, xs, ser_at (update_at T p (\<lambda>_. w) ?root) p stk)"
    "t_content T w = CArray zs" "list_all2 R xs zs" by auto
  have "update_at T p (\<lambda>_. w) ?root = update_at T p (\<lambda>_. w) root" by (rule update_update [OF T v])
  with w v show "\<exists>w. visitArray (serializer T) False rs df m vis (OArray xs) (ser_at root p stk) = Inr (ROk, OArray xs, ser_at (update_at T p (\<lambda>_. w) root) p stk)
      \<and> (\<exists>ys. t_content T w = CArray ys \<and> list_all2 R xs ys)"
    by (intro exI [of _ w]) (simp add: visitArray_def serializer_def ser_peek_def vis_try_return_def)
qed

lemma writes_set:
  assumes T: "toml_laws T" and "\<And>x. x \<in> set xs \<Longrightarrow> writes T vis x (stored T R x)"
  shows "writes T (visitSet (serializer T) False cmp df m vis) (OSet xs) (\<lambda>v w. \<exists>ys. t_content T w = CArray ys \<and> list_all2 R xs ys)"
  unfolding writes_def
proof (intro allI impI)
  fix root p stk v assume v: "at_path T p root = Some v"
  let ?v = "as_array_value T (length xs) v" and ?root = "update_at T p (as_array_value T (length xs)) root"
  obtain ys where ys: "t_content T ?v = CArray ys" "length ys = length xs" by (rule as_array_content [OF T])
  have at: "at_path T p ?root = Some ?v" by (rule at_update [OF T v])
  from ser_iterate [OF T at ys(1), of 0 xs vis R m stk] ys(2) assms(2) obtain w zs where
    w: "iterate_const (set_callback (serializer T) m vis) 0 (length xs) xs (ser_at ?root p stk) = Inr (True, ser_at (update_at T p (\<lambda>_. w) ?root) p stk)"
    "t_content T w = CArray zs" "list_all2 R xs zs" by auto
  have up: "update_at T p (\<lambda>_. w) ?root = update_at T p (\<lambda>_. w) root" by (rule update_update [OF T v])
  have pk: "v_peek (serializer T) m (length xs) SetLike (ser_at root p stk) = Inr (ROk, length xs, ser_at ?root p stk)"
    using v by (simp add: serializer_def ser_peek_def)
  show "\<exists>w. visitSet (serializer T) False cmp df m vis (OSet xs) (ser_at root p stk) = Inr (ROk, OSet xs, ser_at (update_at T p (\<lambda>_. w) root) p stk)
      \<and> (\<exists>ys. t_content T w = CArray ys \<and> list_all2 R xs ys)"
  proof (cases "xs = []")
    case True
    with w up pk show ?thesis by (intro exI [of _ w]) (simp add: visitSet_def vis_try_return_def)
  next
    case False
    with w up pk show ?thesis by (intro exI [of _ w]) (auto simp: visitSet_def vis_try_return_def simp del: iterate_const.simps)
  qed
qed

lemma writes_enum:
  assumes "toml_laws T" and "wf (Enumerated m e)" and "enum_values e \<noteq> None" and "wt_prim m p"
  shows "writes T (ser_accept_named T m e) p (stored T (rep T (Enumerated m e)) (OPrim p))"
proof -
  have "prim_repr p \<noteq> None" using assms(2,4) by (auto simp: wt_prim_bool wt_prim_integral)
  then obtain y ys where "prim_repr p = Some y" "enum_values e = Some ys" using assms(3) by blast
  then obtain nm where nm: "primitive_name e p = Inr nm"
    by (cases "search (<) (value_key e) ys y") (simp_all add: primitive_name_def)
  show ?thesis
  proof (cases "nm = []")
    case True
    then have "ser_accept_named T m e p = ser_accept T m p" by (simp add: fun_eq_iff ser_accept_named_def nm)
    moreover have "writes T (ser_accept T m) p (stored T (rep T (Enumerated m e)) (OPrim p))"
      using writes_prim [OF assms(4)] by (rule writes_mono) (simp add: True nm stored_def laws [OF assms(1)] content_of_not_empty)
    ultimately show ?thesis by (simp only: writes_cong [of "ser_accept_named T m e" p "ser_accept T m"])
  next
    case False
    show ?thesis unfolding writes_def
    proof (intro allI impI exI)
      fix root q stk v assume v: "at_path T q root = Some v"
      show "ser_accept_named T m e p (ser_at root q stk) = Inr (ROk, p, ser_at (update_at T q (\<lambda>_. t_assign T (CString nm) v) root) q stk)
          \<and> stored T (rep T (Enumerated m e)) (OPrim p) v (t_assign T (CString nm) v)"
        using False nm v update_const [OF v, of "t_assign T (CString nm)"]
        by (simp add: ser_accept_named_def stored_def laws [OF assms(1)])
    qed
  qed
qed

lemma wt_fieldsD: "wt_fields fl fs \<Longrightarrow> (f, t) \<in> set fl \<Longrightarrow> map_of fs (fi_offset f) = Some x \<Longrightarrow> wt t x"
  by (auto simp: wt_fields_iff)

lemma serializer_writes:
  assumes T: "toml_laws T"
  shows "wf t \<Longrightarrow> storable t \<Longrightarrow> wt t ob \<Longrightarrow> writes T (visit (serializer T) False t) ob (stored T (rep T t) ob)"
    "wf_refl r \<Longrightarrow> storable_refl r \<Longrightarrow> wt_refl r fs \<Longrightarrow> distinct (map fst fs) \<Longrightarrow> distinct (names (all_fields r))
      \<Longrightarrow> writes T (visitObject (serializer T) False r) (OObject fs) (\<lambda>v w. rep_refl T r fs w \<and> adds T (all_fields r) v w)"
    "(f, u) \<in> set fl \<Longrightarrow> wf_fields fl \<Longrightarrow> storable_fields fl \<Longrightarrow> wt u ob \<Longrightarrow> writes T (visit (serializer T) False u) ob (stored T (rep T u) ob)"
proof (induction t and r and fl arbitrary: ob and fs and f u ob rule: type_induct)
  case (Prim m)
  then obtain p where p: "ob = OPrim p" "wt_prim m p" by (auto split: obj.splits)
  have "v_accept (serializer T) m = ser_accept T m" by (simp add: serializer_def)
  then show ?case unfolding p(1) visit.simps
    by (simp only:) (rule writes_primitive [OF writes_mono [OF writes_prim [OF p(2)]]],
      simp add: stored_def laws [OF T] content_of_not_empty)
next
  case (Enumerated m e)
  then obtain p where p: "ob = OPrim p" "wt_prim m p" by (auto split: obj.splits)
  have "v_accept_named (serializer T) m e = ser_accept_named T m e" by (simp add: serializer_def)
  with p Enumerated writes_primitive [OF writes_enum [OF T, of m e p]] show ?case by simp
next
  case (ArrayOf n df t)
  then obtain xs where xs: "ob = OArray xs" "list_all (wt t) xs" by (auto split: obj.splits)
  have "writes T (visit (serializer T) False t) x (stored T (rep T t) x)" if "x \<in> set xs" for x
    using ArrayOf.IH ArrayOf.prems(1,2) xs(2) that by (simp add: list_all_iff)
  from writes_array [OF T this] show ?case unfolding xs(1) visit.simps by (rule writes_mono) (auto simp: stored_def)
next
  case (SetOf cmp df t)
  then obtain xs where xs: "ob = OSet xs" "list_all (wt t) xs" by (auto split: obj.splits)
  have "writes T (visit (serializer T) False t) x (stored T (rep T t) x)" if "x \<in> set xs" for x
    using SetOf.IH SetOf.prems(1,2) xs(2) that by (simp add: list_all_iff)
  from writes_set [OF T this] show ?case unfolding xs(1) visit.simps by (rule writes_mono) (auto simp: stored_def)
next
  case (ObjectOf r)
  then obtain fs where fs: "ob = OObject fs" "map fst fs = offsets (all_fields r)" "wt_refl r fs" by (auto split: obj.splits)
  with ObjectOf show ?case unfolding fs(1) visit.simps
    by (intro writes_mono [OF ObjectOf.IH [of fs]]) (auto simp: adds_def stored_def is_table_def split: tcontent.splits)
next
  case (Root fl)
  have "writes T (visit_fields (serializer T) (field_visits (serializer T) False fl)) (OObject fs) (\<lambda>v w. rep_fields T fl fs w \<and> adds T fl v w)"
  proof (rule ser_fields [OF T])
    fix f t x assume a: "(f, t) \<in> set fl" "map_of fs (fi_offset f) = Some x"
    then have "wt t x" using Root.prems(3) by (auto dest: wt_fieldsD)
    with a(1) show "writes T (visit (serializer T) False t) x (stored T (rep T t) x)" using Root.prems(1,2) by (intro Root.IH) simp_all
  qed (use Root.prems in simp_all)
  then show ?case by simp
next
  case (Derived base fl)
  have b: "writes T (visitObject (serializer T) False base) (OObject fs) (\<lambda>v w. rep_refl T base fs w \<and> adds T (all_fields base) v w)"
    using Derived by simp
  have f: "writes T (visit_fields (serializer T) (field_visits (serializer T) False fl)) (OObject fs) (\<lambda>v w. rep_fields T fl fs w \<and> adds T fl v w)"
  proof (rule ser_fields [OF T])
    fix f t x assume a: "(f, t) \<in> set fl" "map_of fs (fi_offset f) = Some x"
    then have "wt t x" using Derived.prems(3) by (auto dest: wt_fieldsD)
    with a(1) show "writes T (visit (serializer T) False t) x (stored T (rep T t) x)" using Derived.prems(1,2) by (intro Derived.IH(2)) simp_all
  qed (use Derived.prems in simp_all)
  have d: "set (names (all_fields base)) \<inter> set (names fl) = {}" using Derived.prems(5) by simp
  show ?case unfolding writes_def
  proof (intro allI impI)
    fix root p stk v assume v: "at_path T p root = Some v"
    from writesD [OF b v, of stk] obtain w1 where
      w1: "visitObject (serializer T) False base (OObject fs) (ser_at root p stk) = Inr (ROk, OObject fs, ser_at (update_at T p (\<lambda>_. w1) root) p stk)"
      "rep_refl T base fs w1" "adds T (all_fields base) v w1" by blast
    have at: "at_path T p (update_at T p (\<lambda>_. w1) root) = Some w1" by (rule at_update [OF T v])
    from writesD [OF f at, of stk] obtain w2 where
      w2: "visit_fields (serializer T) (field_visits (serializer T) False fl) (OObject fs) (ser_at (update_at T p (\<lambda>_. w1) root) p stk)
        = Inr (ROk, OObject fs, ser_at (update_at T p (\<lambda>_. w2) (update_at T p (\<lambda>_. w1) root)) p stk)"
      "rep_fields T fl fs w2" "adds T fl w1 w2" by blast
    have "rep_refl T base fs w2" using rep_refl_cong [of base T w2 w1 fs] w1(2) w2(3) d by (auto simp: adds_def)
    moreover have "adds T (all_fields (Refl (Some base) fl)) v w2" using w1(3) w2(3) by (auto simp: adds_def split: if_splits)
    ultimately show "\<exists>w. visitObject (serializer T) False (Refl (Some base) fl) (OObject fs) (ser_at root p stk)
        = Inr (ROk, OObject fs, ser_at (update_at T p (\<lambda>_. w) root) p stk) \<and> rep_refl T (Refl (Some base) fl) fs w \<and> adds T (all_fields (Refl (Some base) fl)) v w"
      using w1(1) w2(1,2) by (intro exI [of _ w2]) (simp add: vis_try_return_def update_update [OF T v])
  qed
next
  case Nil
  then show ?case by simp
next
  case (Cons f' t fl)
  then show ?case by auto
qed

section \<open>The deserializer reads representations\<close>

text \<open>The descriptors that can be read back: no sets, no enumerations and no points in time or durations.\<close>

fun readable :: "stype \<Rightarrow> bool" and readable_refl :: "refl \<Rightarrow> bool" and readable_fields :: "(field_info \<times> stype) list \<Rightarrow> bool" where
  "readable (Prim m) = (isBool m \<or> isIntegral m \<or> isFloating m \<or> isString m)"
| "readable (Enumerated m e) = False"
| "readable (ArrayOf n df t) = readable t"
| "readable (SetOf cmp df t) = False"
| "readable (ObjectOf r) = readable_refl r"
| "readable_refl (Refl None fl) = readable_fields fl"
| "readable_refl (Refl (Some base) fl) = (readable_refl base \<and> readable_fields fl)"
| "readable_fields [] = True"
| "readable_fields ((f, t) # fl) = (readable t \<and> readable_fields fl)"

abbreviation des_at :: "'v \<Rightarrow> 'v list \<Rightarrow> message list \<Rightarrow> 'v des" where
  "des_at v stk out \<equiv> \<lparr>ds_stack = v # stk, ds_out = out\<rparr>"

lemma rep_compatible:
  assumes "rep T t x w" and "readable t" and "wt t x"
  shows "isCompatibleTo (t_content T w) (mapped t)"
proof (cases t)
  case (Prim m)
  with assms obtain p where "t_content T w = content_of T p" "wt_prim m p" by (auto split: obj.splits)
  with Prim assms(2) show ?thesis
    by (cases p) (auto simp: isCompatibleTo_def wt_prim_def isBool_def isFloating_def isString_def isIntegral_def dest!: int_range_integral)
qed (use assms in \<open>auto simp: isCompatibleTo_def isArray_def isObject_def is_table_def split: obj.splits tcontent.splits\<close>)

lemma des_accept_rep:
  assumes "toml_laws T" and "wt_prim m p" and "wt_prim m q" and "t_content T w = content_of T p" and "isBool m \<or> isIntegral m \<or> isFloating m \<or> isString m"
  shows "des_accept T m q (des_at w stk out) = Inr (ROk, p, des_at w stk out)"
proof (cases p)
  case (PInt i)
  then have i: "int_range m i" using assms(2) by (simp add: wt_prim_def)
  with laws(7) [OF assms(1) i] assms(3,4) PInt show ?thesis
    by (cases m) (simp_all add: des_accept_def des_top_def isIntegral_def int_range_def)
qed (use assms in \<open>auto simp: des_accept_def des_top_def wt_prim_def laws [OF assms(1)] isBool_def isIntegral_def isFloating_def isString_def\<close>)

lemma des_elements:
  assumes "t_content T v = CArray ws" and "length ys = length xs"
    and "\<And>j. j < length xs \<Longrightarrow> i + j < length ws \<and> vis (ys ! j) (des_at (ws ! (i + j)) (v # stk) out) = Inr (ROk, xs ! j, des_at (ws ! (i + j)) (v # stk) out)"
  shows "visit_elements (deserializer T) m vis i ys (des_at v stk out) = Inr (ROk, xs, des_at v stk out)"
  using assms(2,3)
proof (induction ys arbitrary: xs i)
  case (Cons y ys)
  then obtain x xs' where xs: "xs = x # xs'" by (cases xs) auto
  have "visit_elements (deserializer T) m vis (Suc i) ys (des_at v stk out) = Inr (ROk, xs', des_at v stk out)"
  proof (rule Cons.IH)
    show "length ys = length xs'" using Cons.prems(1) xs by simp
    show "Suc i + j < length ws \<and> vis (ys ! j) (des_at (ws ! (Suc i + j)) (v # stk) out) = Inr (ROk, xs' ! j, des_at (ws ! (Suc i + j)) (v # stk) out)"
      if "j < length xs'" for j using Cons.prems(2) [of "Suc j"] that xs by simp
  qed
  with Cons.prems(2) [of 0] xs assms(1) show ?case
    by (simp add: deserializer_def des_push_index_def des_pop_def des_top_def vis_try_return_def)
qed simp

lemma alist_eqI:
  "map fst fs = map fst gs \<Longrightarrow> distinct (map fst fs) \<Longrightarrow> (\<And>k. k \<in> set (map fst fs) \<Longrightarrow> map_of fs k = map_of gs k) \<Longrightarrow> fs = gs"
proof (induction fs arbitrary: gs)
  case (Cons f fs)
  then obtain g gs' where gs: "gs = g # gs'" "fst g = fst f" by (cases gs) auto
  have "snd f = snd g" using Cons.prems(3) [of "fst f"] gs by (cases f; cases g) simp
  moreover have "fs = gs'"
  proof (rule Cons.IH)
    show "map_of fs k = map_of gs' k" if "k \<in> set (map fst fs)" for k
    proof -
      have "k \<noteq> fst f" using that Cons.prems(2) by force
      with Cons.prems(3) [of k] that gs show ?thesis by (cases f; cases g) simp
    qed
  qed (use Cons.prems gs in simp_all)
  ultimately show ?case using gs by (simp add: prod_eq_iff)
qed simp

lemma des_fields:
  assumes "rep_fields T fl fs w" and "readable_fields fl" and "distinct (offsets fl)" and "wt_fields fl fs" and "wt_fields fl gs"
    and "\<And>f t x y u stk. (f, t) \<in> set fl \<Longrightarrow> rep T t x u \<Longrightarrow> wt t x \<Longrightarrow> wt t y \<Longrightarrow> visit (deserializer T) True t y (des_at u stk out) = Inr (ROk, x, des_at u stk out)"
  shows "\<exists>hs. (\<forall>rest. visit_fields (deserializer T) (field_visits (deserializer T) True fl @ rest) (OObject gs) (des_at w stk out)
        = visit_fields (deserializer T) rest (OObject hs) (des_at w stk out))
    \<and> map fst hs = map fst gs \<and> (\<forall>k. map_of hs k = (if k \<in> set (offsets fl) then map_of fs k else map_of gs k))"
  using assms
proof (induction fl arbitrary: gs)
  case (Cons ft fl)
  obtain f t where ft [simp]: "ft = (f, t)" by fastforce
  from Cons.prems(1) obtain x u where x: "map_of fs (fi_offset f) = Some x" "member T w (fi_name f) = Some u" "rep T t x u"
    by (auto split: option.splits)
  from Cons.prems(5) obtain y where y: "map_of gs (fi_offset f) = Some y" "wt t y" by (auto split: option.splits)
  have wx: "wt t x" using Cons.prems(4) x(1) by simp
  let ?gs = "put (fi_offset f) x gs"
  from x(2) obtain tb where tb: "t_content T w = CTable tb" "tb (fi_name f) = Some u" by (auto simp: member_def split: tcontent.splits)
  have comp: "isCompatibleTo (t_content T u) (mapped t)" using rep_compatible [OF x(3) _ wx] Cons.prems(2) by simp
  have vis: "visit (deserializer T) True t y (des_at u (w # stk) out) = Inr (ROk, x, des_at u (w # stk) out)"
    using Cons.prems(6) [of f, OF _ x(3) wx y(2)] by simp
  have "\<exists>hs. (\<forall>rest. visit_fields (deserializer T) (field_visits (deserializer T) True fl @ rest) (OObject ?gs) (des_at w stk out)
        = visit_fields (deserializer T) rest (OObject hs) (des_at w stk out))
    \<and> map fst hs = map fst ?gs \<and> (\<forall>k. map_of hs k = (if k \<in> set (offsets fl) then map_of fs k else map_of ?gs k))"
  proof (rule Cons.IH)
    show "wt_fields fl ?gs" using wt_fields_write [of f fl x gs] Cons.prems(3,5) by simp
    show "visit (deserializer T) True t' y' (des_at u' stk' out) = Inr (ROk, x', des_at u' stk' out)"
      if "(f', t') \<in> set fl" "rep T t' x' u'" "wt t' x'" "wt t' y'" for f' t' x' y' u' stk' using Cons.prems(6) [of f', OF _ that(2-4)] that(1) by simp
  qed (use Cons.prems in simp_all)
  then obtain hs where hs: "\<And>rest. visit_fields (deserializer T) (field_visits (deserializer T) True fl @ rest) (OObject ?gs) (des_at w stk out)
      = visit_fields (deserializer T) rest (OObject hs) (des_at w stk out)"
    "map fst hs = map fst gs" "\<forall>k. map_of hs k = (if k \<in> set (offsets fl) then map_of fs k else map_of ?gs k)" by auto
  have "v_push_name (deserializer T) (mapped t) (fi_name f) (fi_description f) (des_at w stk out) = Inr (ROk, des_at u (w # stk) out)"
    using tb comp by (simp add: deserializer_def des_push_name_def des_top_def)
  moreover have "v_pop (deserializer T) (mapped t) (des_at u (w # stk) out) = Inr (des_at w stk out)"
    by (simp add: deserializer_def des_pop_def)
  ultimately show ?case using vis hs x(1) y(1)
    by (intro exI [of _ hs]) (auto simp: vis_try_continue_def map_of_put relocate_def)
qed auto

lemma des_fields_end:
  assumes "rep_fields T fl fs w" and "readable_fields fl" and "distinct (offsets fl)" and "wt_fields fl fs" and "wt_fields fl gs"
    and "\<And>f t x y u stk. (f, t) \<in> set fl \<Longrightarrow> rep T t x u \<Longrightarrow> wt t x \<Longrightarrow> wt t y \<Longrightarrow> visit (deserializer T) True t y (des_at u stk out) = Inr (ROk, x, des_at u stk out)"
  shows "\<exists>hs. visit_fields (deserializer T) (field_visits (deserializer T) True fl) (OObject gs) (des_at w stk out) = Inr (ROk, OObject hs, des_at w stk out)
    \<and> map fst hs = map fst gs \<and> (\<forall>k. map_of hs k = (if k \<in> set (offsets fl) then map_of fs k else map_of gs k))"
proof -
  have "\<exists>hs. (\<forall>rest. visit_fields (deserializer T) (field_visits (deserializer T) True fl @ rest) (OObject gs) (des_at w stk out)
        = visit_fields (deserializer T) rest (OObject hs) (des_at w stk out))
    \<and> map fst hs = map fst gs \<and> (\<forall>k. map_of hs k = (if k \<in> set (offsets fl) then map_of fs k else map_of gs k))"
    by (rule des_fields [OF assms(1-5)]) (rule assms(6))
  then obtain hs where hs:
    "\<forall>rest. visit_fields (deserializer T) (field_visits (deserializer T) True fl @ rest) (OObject gs) (des_at w stk out)
      = visit_fields (deserializer T) rest (OObject hs) (des_at w stk out)"
    "map fst hs = map fst gs" "\<forall>k. map_of hs k = (if k \<in> set (offsets fl) then map_of fs k else map_of gs k)" by blast
  from hs(1) [rule_format, of "[]"] hs(2,3) show ?thesis by auto
qed

lemma deserializer_reads:
  assumes T: "toml_laws T"
  shows "wf t \<Longrightarrow> readable t \<Longrightarrow> wt t x \<Longrightarrow> wt t y \<Longrightarrow> rep T t x w
      \<Longrightarrow> visit (deserializer T) True t y (des_at w stk out) = Inr (ROk, x, des_at w stk out)"
    "wf_refl r \<Longrightarrow> readable_refl r \<Longrightarrow> distinct (offsets (all_fields r)) \<Longrightarrow> wt_refl r fs \<Longrightarrow> wt_refl r gs \<Longrightarrow> rep_refl T r fs w
      \<Longrightarrow> \<exists>hs. visitObject (deserializer T) True r (OObject gs) (des_at w stk out) = Inr (ROk, OObject hs, des_at w stk out)
        \<and> map fst hs = map fst gs \<and> (\<forall>k. map_of hs k = (if k \<in> set (offsets (all_fields r)) then map_of fs k else map_of gs k))"
    "(f, u) \<in> set fl \<Longrightarrow> wf_fields fl \<Longrightarrow> readable_fields fl \<Longrightarrow> wt u x \<Longrightarrow> wt u y \<Longrightarrow> rep T u x w
      \<Longrightarrow> visit (deserializer T) True u y (des_at w stk out) = Inr (ROk, x, des_at w stk out)"
proof (induction t and r and fl arbitrary: x y w stk and fs gs w stk and f u x y w stk rule: type_induct)
  case (Prim m)
  then obtain p q where pq: "x = OPrim p" "y = OPrim q" "wt_prim m p" "wt_prim m q" "t_content T w = content_of T p" by (auto split: obj.splits)
  with des_accept_rep [OF T pq(3-5)] Prim show ?case by (simp add: visit_primitive_def deserializer_def)
next
  case (Enumerated m e)
  then show ?case by simp
next
  case (ArrayOf n df t)
  then obtain xs ys ws where a: "x = OArray xs" "y = OArray ys" "t_content T w = CArray ws" "list_all (wt t) xs" "list_all (wt t) ys" "list_all2 (rep T t) xs ws"
    "\<forall>k. n = Some k \<longrightarrow> length xs = k" "\<forall>k. n = Some k \<longrightarrow> length ys = k" by (auto split: obj.splits tcontent.splits)
  have len: "length ws = length xs" using a(6) by (simp add: list_all2_lengthD)
  let ?ys = "take (length ws) ys @ replicate (length ws - length ys) df"
  have wty: "list_all (wt t) ?ys" using a(5) ArrayOf.prems(1) by (auto simp: list_all_iff dest: in_set_takeD)
  have "list_all (\<lambda>z. isCompatibleTo (t_content T z) (mapped t)) ws"
    unfolding list_all_length
  proof (intro allI impI)
    fix j assume "j < length ws"
    then show "isCompatibleTo (t_content T (ws ! j)) (mapped t)"
      using a(4,6) len ArrayOf.prems(2) by (intro rep_compatible [of T t "xs ! j"]) (simp_all add: list_all_length list_all2_conv_all_nth)
  qed
  then have "v_peek (deserializer T) (mapped t) (length ys) (if n = None then VectorLike else ArrayLike) (des_at w stk out) = Inr (ROk, length ws, des_at w stk out)"
    using a(3,7,8) len by (cases n) (simp_all add: deserializer_def des_peek_def des_top_def)
  moreover have "visit_elements (deserializer T) (mapped t) (visit (deserializer T) True t) 0 ?ys (des_at w stk out) = Inr (ROk, xs, des_at w stk out)"
  proof (rule des_elements [OF a(3)])
    show "length ?ys = length xs" using len by simp
    show "0 + j < length ws \<and> visit (deserializer T) True t (?ys ! j) (des_at (ws ! (0 + j)) (w # stk) out) = Inr (ROk, xs ! j, des_at (ws ! (0 + j)) (w # stk) out)"
      if j: "j < length xs" for j
    proof -
      have "visit (deserializer T) True t (?ys ! j) (des_at (ws ! j) (w # stk) out) = Inr (ROk, xs ! j, des_at (ws ! j) (w # stk) out)"
      proof (rule ArrayOf.IH)
        show "wt t (?ys ! j)" using wty j len unfolding list_all_length by simp
        show "wt t (xs ! j)" using a(4) j by (simp add: list_all_length)
        show "rep T t (xs ! j) (ws ! j)" using a(6) j by (simp add: list_all2_conv_all_nth)
      qed (use ArrayOf.prems in simp_all)
      with j len show ?thesis by simp
    qed
  qed
  moreover have "n \<noteq> None \<longrightarrow> length ws = length ys" using a(7,8) len by auto
  ultimately show ?case using a(1,2) by (auto simp: visitArray_def vis_try_return_def)
next
  case (SetOf cmp df t)
  then show ?case by simp
next
  case (ObjectOf r)
  then obtain fs gs where o: "x = OObject fs" "y = OObject gs" "map fst fs = offsets (all_fields r)" "map fst gs = offsets (all_fields r)"
    "wt_refl r fs" "wt_refl r gs" "rep_refl T r fs w" by (auto split: obj.splits)
  with ObjectOf.IH [of fs gs w stk] ObjectOf.prems(1,2) obtain hs where
    hs: "visitObject (deserializer T) True r (OObject gs) (des_at w stk out) = Inr (ROk, OObject hs, des_at w stk out)"
    "map fst hs = map fst gs" "\<forall>k. map_of hs k = (if k \<in> set (offsets (all_fields r)) then map_of fs k else map_of gs k)" by auto
  have "hs = fs" by (rule alist_eqI) (use hs o ObjectOf.prems(1) in simp_all)
  with hs(1) o show ?case by simp
next
  case (Root fl)
  have "\<exists>hs. visit_fields (deserializer T) (field_visits (deserializer T) True fl) (OObject gs) (des_at w stk out) = Inr (ROk, OObject hs, des_at w stk out)
    \<and> map fst hs = map fst gs \<and> (\<forall>k. map_of hs k = (if k \<in> set (offsets fl) then map_of fs k else map_of gs k))"
    by (rule des_fields_end) (use Root in simp_all)
  then show ?case by simp
next
  case (Derived base fl)
  have d: "distinct (offsets fl)" "set (offsets (all_fields base)) \<inter> set (offsets fl) = {}" using Derived.prems(3) by auto
  from Derived.IH(1) [of fs gs w stk] Derived.prems obtain hs where
    hs: "visitObject (deserializer T) True base (OObject gs) (des_at w stk out) = Inr (ROk, OObject hs, des_at w stk out)"
    "map fst hs = map fst gs" "\<forall>k. map_of hs k = (if k \<in> set (offsets (all_fields base)) then map_of fs k else map_of gs k)" by auto
  have "wt_fields fl hs = wt_fields fl gs" by (rule wt_fields_cong) (use hs(3) d(2) in auto)
  then have "wt_fields fl hs" using Derived.prems(5) by simp
  then have "\<exists>js. visit_fields (deserializer T) (field_visits (deserializer T) True fl) (OObject hs) (des_at w stk out) = Inr (ROk, OObject js, des_at w stk out)
    \<and> map fst js = map fst hs \<and> (\<forall>k. map_of js k = (if k \<in> set (offsets fl) then map_of fs k else map_of hs k))"
    by (intro des_fields_end) (use Derived d(1) in simp_all)
  then obtain js where js: "visit_fields (deserializer T) (field_visits (deserializer T) True fl) (OObject hs) (des_at w stk out) = Inr (ROk, OObject js, des_at w stk out)"
    "map fst js = map fst hs" "\<forall>k. map_of js k = (if k \<in> set (offsets fl) then map_of fs k else map_of hs k)" by blast
  show ?case using hs js by (intro exI [of _ js]) (auto simp: vis_try_return_def)
next
  case Nil
  then show ?case by simp
next
  case (Cons f' t fl)
  then show ?case by auto
qed

section \<open>Visitors that return to their reference\<close>

lemma fields_steps:
  assumes "visit_fields V ((f, m, vis) # fs) ob s = Inr (q, ob', s')"
  obtains r where "v_push_name V m (fi_name f) (fi_description f) s = Inr (r, s')" "r \<noteq> ROk"
  | s1 x q' y s2 s3 where "v_push_name V m (fi_name f) (fi_description f) s = Inr (ROk, s1)" "vis x s1 = Inr (q', y, s2)" "v_pop V m s2 = Inr s3"
      "s' = s3 \<or> visit_fields V fs (write_field f y ob) s3 = Inr (q, ob', s')"
  using assms by (auto simp: vis_try_Inr)

locale balanced_visitor =
  fixes V :: "'s visitor" and stk :: "'s \<Rightarrow> 'b list"
  assumes accept_stack: "v_accept V m p s = Inr (q, p', s') \<Longrightarrow> stk s' = stk s"
    and named_stack: "v_accept_named V m e p s = Inr (q, p', s') \<Longrightarrow> stk s' = stk s"
    and peek_stack: "v_peek V m n ct s = Inr (q, n', s') \<Longrightarrow> stk s' = stk s"
    and push_name_stack: "v_push_name V m nm d s = Inr (q, s') \<Longrightarrow> (if q = ROk then \<exists>z. stk s' = z # stk s else stk s' = stk s)"
    and push_index_stack: "v_push_index V m i s = Inr (q, s') \<Longrightarrow> (if q = ROk then \<exists>z. stk s' = z # stk s else stk s' = stk s)"
    and pop_stack: "v_pop V m s = Inr s' \<Longrightarrow> stk s' = tl (stk s)"
begin

lemma elements_stack:
  assumes "visit_elements V m vis i xs s = Inr (q, ys, s')" and "\<And>x s q y s'. vis x s = Inr (q, y, s') \<Longrightarrow> stk s' = stk s"
  shows "stk s' = stk s"
  using assms(1)
proof (induction xs arbitrary: i s q ys s')
  case (Cons x xs)
  from Cons.prems obtain r s1 where p: "v_push_index V m i s = Inr (r, s1)"
    and rest: "r \<noteq> ROk \<and> s' = s1 \<or> r = ROk \<and> (\<exists>q' y s2 s3. vis x s1 = Inr (q', y, s2) \<and> v_pop V m s2 = Inr s3
      \<and> (s' = s3 \<or> (\<exists>q'' zs. visit_elements V m vis (Suc i) xs s3 = Inr (q'', zs, s'))))" by (auto simp: vis_try_Inr)
  from rest show ?case
  proof (elim disjE conjE exE)
    fix q' y s2 s3 assume a: "r = ROk" "vis x s1 = Inr (q', y, s2)" "v_pop V m s2 = Inr s3"
    then have "stk s3 = stk s" using push_index_stack [OF p] assms(2) [OF a(2)] pop_stack [OF a(3)] by auto
    then show "s' = s3 \<Longrightarrow> stk s' = stk s" and "\<And>q'' zs. visit_elements V m vis (Suc i) xs s3 = Inr (q'', zs, s') \<Longrightarrow> stk s' = stk s"
      using Cons.IH by auto
  qed (use push_index_stack [OF p] in auto)
qed simp

lemma callback_stack:
  assumes "set_callback V m vis i x s = Inr (ok, y, s')" and "\<And>x s q y s'. vis x s = Inr (q, y, s') \<Longrightarrow> stk s' = stk s"
  shows "stk s' = stk s"
proof -
  from assms(1) obtain r s1 where p: "v_push_index V m i s = Inr (r, s1)"
    and rest: "r \<noteq> ROk \<and> s' = s1 \<or> r = ROk \<and> (\<exists>q' y s2. vis x s1 = Inr (q', y, s2) \<and> v_pop V m s2 = Inr s')"
    by (auto simp: set_callback_def vis_try_Inr)
  from rest show ?thesis
  proof (elim disjE conjE exE)
    fix q' y s2 assume a: "r = ROk" "vis x s1 = Inr (q', y, s2)" "v_pop V m s2 = Inr s'"
    then show ?thesis using push_index_stack [OF p] assms(2) [OF a(2)] pop_stack [OF a(3)] by auto
  qed (use push_index_stack [OF p] in auto)
qed

lemma iterate_stack:
  assumes "\<And>i x s ok y s'. cb i x s = Inr (ok, y, s') \<Longrightarrow> stk s' = stk s"
  shows "iterate_const cb i n xs s = Inr (ok, s') \<Longrightarrow> stk s' = stk s"
    "iterate_rest cmp cb df k i xs s = Inr (ok, ys, s') \<Longrightarrow> stk s' = stk s"
    "iterate_mut cmp cb df k i c xs s = Inr (ok, ys, s') \<Longrightarrow> stk s' = stk s"
proof -
  show "iterate_const cb i n xs s = Inr (ok, s') \<Longrightarrow> stk s' = stk s"
    by (induction xs arbitrary: i s) (auto split: if_splits dest!: assms)
  show rest: "iterate_rest cmp cb df k i xs s = Inr (ok, ys, s') \<Longrightarrow> stk s' = stk s" for k i xs s
    by (induction k arbitrary: i xs s) (auto split: if_splits dest!: assms)
  show "iterate_mut cmp cb df k i c xs s = Inr (ok, ys, s') \<Longrightarrow> stk s' = stk s"
  proof (induction k arbitrary: i c xs s)
    case (Suc k)
    show ?case
    proof (cases "c = length xs")
      case True
      with Suc.prems rest show ?thesis by (simp del: iterate_rest.simps)
    next
      case False
      with Suc.prems Suc.IH show ?thesis by (auto simp: Let_def split: if_splits dest!: assms)
    qed
  qed simp
qed

lemma fields_stack:
  assumes "visit_fields V (field_visits V mut fl) ob s = Inr (q, ob', s')"
    and "\<And>f t x s q y s'. (f, t) \<in> set fl \<Longrightarrow> visit V mut t x s = Inr (q, y, s') \<Longrightarrow> stk s' = stk s"
  shows "stk s' = stk s"
  using assms
proof (induction fl arbitrary: ob s)
  case (Cons ft fl)
  obtain f t where ft [simp]: "ft = (f, t)" by fastforce
  from Cons.prems(1) have "visit_fields V ((f, mapped t, visit V mut t) # field_visits V mut fl) ob s = Inr (q, ob', s')" by simp
  then show ?case
  proof (rule fields_steps)
    fix r assume "v_push_name V (mapped t) (fi_name f) (fi_description f) s = Inr (r, s')" "r \<noteq> ROk"
    from push_name_stack [OF this(1)] this(2) show ?thesis by simp
  next
    fix s1 x q' y s2 s3
    assume a: "v_push_name V (mapped t) (fi_name f) (fi_description f) s = Inr (ROk, s1)" "visit V mut t x s1 = Inr (q', y, s2)"
      "v_pop V (mapped t) s2 = Inr s3" "s' = s3 \<or> visit_fields V (field_visits V mut fl) (write_field f y ob) s3 = Inr (q, ob', s')"
    have "stk s2 = stk s1" using Cons.prems(2) [of f t] a(2) by simp
    then have "stk s3 = stk s" using push_name_stack [OF a(1)] pop_stack [OF a(3)] by auto
    moreover have "stk s' = stk s3" if "visit_fields V (field_visits V mut fl) (write_field f y ob) s3 = Inr (q, ob', s')"
      using that
    proof (rule Cons.IH)
      show "stk s' = stk s" if "(f', t') \<in> set fl" "visit V mut t' x s = Inr (q, y, s')" for f' t' x s q y s'
        using that Cons.prems(2) [of f' t'] by simp
    qed
    ultimately show ?thesis using a(4) by auto
  qed
qed simp

theorem visit_stack:
  "visit V mut t ob s = Inr (q, ob', s') \<Longrightarrow> stk s' = stk s"
  "visitObject V mut r ob s = Inr (q, ob', s') \<Longrightarrow> stk s' = stk s"
  "(f :: field_info, u) \<in> set fl \<Longrightarrow> visit V mut u ob s = Inr (q, ob', s') \<Longrightarrow> stk s' = stk s"
proof (induction t and r and fl arbitrary: ob s q ob' s' and ob s q ob' s' and f u ob s q ob' s' rule: type_induct)
  case (ArrayOf n df t)
  from ArrayOf.prems obtain xs where xs: "ob = OArray xs" by (auto simp: visitArray_def split: obj.splits)
  with ArrayOf.prems obtain r sz s1 where p: "v_peek V (mapped t) (length xs) (if n = None then VectorLike else ArrayLike) s = Inr (r, sz, s1)"
    and R: "vis_try_return r ob s1 (if sz \<noteq> length xs \<and> \<not> (mut \<and> n = None) then Inr (RCancel, ob, s1)
      else bind (visit_elements V (mapped t) (visit V mut t) 0 (take sz xs @ replicate (sz - length xs) df) s1) (\<lambda>(q, xs, s). Inr (q, OArray xs, s))) = Inr (q, ob', s')"
    unfolding visit.simps visitArray_def by (auto simp del: bind_eq_Inr dest!: bind_eq_Inr [THEN iffD1])
  from R have rest: "s' = s1 \<or> (\<exists>zs q' ys. visit_elements V (mapped t) (visit V mut t) 0 zs s1 = Inr (q', ys, s'))"
    by (auto simp: vis_try_Inr split: if_splits)
  have "stk s' = stk s1" if "visit_elements V (mapped t) (visit V mut t) 0 zs s1 = Inr (q', ys, s')" for zs q' ys
    using that by (rule elements_stack) (rule ArrayOf.IH)
  with rest peek_stack [OF p] show ?case by auto
next
  case (SetOf cmp df t)
  have cb: "stk s' = stk s" if "set_callback V (mapped t) (visit V mut t) i x s = Inr (ok, y, s')" for i x s ok y s'
    using that SetOf.IH by (rule callback_stack)
  from SetOf.prems obtain xs where xs: "ob = OSet xs" by (auto simp: visitSet_def split: obj.splits)
  let ?cb = "set_callback V (mapped t) (visit V mut t)"
  from SetOf.prems xs obtain r sz s1 where p: "v_peek V (mapped t) (length xs) SetLike s = Inr (r, sz, s1)"
    and R: "vis_try_return r ob s1 (let xs' = (if sz < length xs \<and> mut then [] else xs) in if sz = 0 then Inr (ROk, OSet xs', s1)
      else if mut then bind (iterate_mut cmp ?cb df sz 0 0 xs' s1) (\<lambda>(ok, ys, s). Inr (if ok then ROk else RCancel, OSet ys, s))
      else if length xs' \<noteq> sz then Inl AssertFailed
      else bind (iterate_const ?cb 0 sz xs' s1) (\<lambda>(ok, s). Inr (if ok then ROk else RCancel, OSet xs', s))) = Inr (q, ob', s')"
    unfolding visit.simps visitSet_def by (auto simp del: bind_eq_Inr dest!: bind_eq_Inr [THEN iffD1])
  from R have rest: "s' = s1 \<or> (\<exists>k ys ok zs. iterate_mut cmp ?cb df k 0 0 ys s1 = Inr (ok, zs, s')) \<or> (\<exists>k ys ok. iterate_const ?cb 0 k ys s1 = Inr (ok, s'))"
    by (auto simp: vis_try_Inr Let_def split: if_splits)
  have "stk s' = stk s1" if "iterate_mut cmp ?cb df k 0 0 ys s1 = Inr (ok, zs, s')" for k ys ok zs using cb that by (rule iterate_stack(3))
  moreover have "stk s' = stk s1" if "iterate_const ?cb 0 k ys s1 = Inr (ok, s')" for k ys ok using cb that by (rule iterate_stack(1))
  ultimately show ?case using rest peek_stack [OF p] by auto
next
  case (Derived base fl)
  from Derived.prems obtain r ob1 s1 where "visitObject V mut base ob s = Inr (r, ob1, s1)"
    "s' = s1 \<or> visit_fields V (field_visits V mut fl) ob1 s1 = Inr (q, ob', s')" by (auto simp: vis_try_Inr)
  moreover have "stk s' = stk s1" if "visit_fields V (field_visits V mut fl) ob1 s1 = Inr (q, ob', s')"
    using that by (rule fields_stack) (rule Derived.IH(2))
  ultimately show ?case using Derived.IH(1) by auto
qed (auto simp: visit_primitive_def split: obj.splits dest: accept_stack named_stack fields_stack)

end

lemma ser_push_index_ok:
  assumes "ser_push_index T m i s = Inr (q, s')"
  shows "q = ROk \<and> (\<exists>z. ss_stack s' = z # ss_stack s)"
proof -
  from assms obtain v where "(case t_content T v of
      CArray xs \<Rightarrow> (if i < length xs then Inr (ROk, s\<lparr>ss_stack := (hd (ss_stack s) @ [Index i]) # ss_stack s\<rparr>) else Inl Terminated)
    | _ \<Rightarrow> Inl Terminated) = Inr (q, s')" by (auto simp: ser_push_index_def)
  then show ?thesis by (cases "t_content T v") (auto split: if_splits)
qed

lemma ser_accept_stack: "ser_accept T m p s = Inr (q, p', s') \<Longrightarrow> ss_stack s' = ss_stack s"
  by (auto simp: ser_accept_def ser_change_def split: if_splits)

interpretation ser_balanced: balanced_visitor "serializer T" ss_stack for T
proof
  fix m i s q s' assume "v_push_index (serializer T) m i s = Inr (q, s')"
  then show "if q = ROk then \<exists>z. ss_stack s' = z # ss_stack s else ss_stack s' = ss_stack s"
    using ser_push_index_ok [of T m i s q s'] by (simp add: serializer_def)
qed (auto simp: serializer_def ser_accept_named_def ser_peek_def ser_push_name_def ser_pop_def ser_change_def Let_def
    split: if_splits dest: ser_accept_stack)

lemma des_accept_stack: "des_accept T m p s = Inr (q, p', s') \<Longrightarrow> s' = s"
proof -
  assume a: "des_accept T m p s = Inr (q, p', s')"
  then obtain v where "des_top s = Inr v" by (auto simp: des_accept_def split: if_splits)
  with a show ?thesis by (cases m; cases "t_content T v") (auto simp: des_accept_def split: if_splits)
qed

lemma des_push_ok:
  "des_push_name T m nm d s = Inr (q, s') \<Longrightarrow> (if q = ROk then \<exists>z. ds_stack s' = z # ds_stack s else s' = s)"
  "des_push_index T m i s = Inr (q, s') \<Longrightarrow> q = ROk \<and> (\<exists>z. ds_stack s' = z # ds_stack s)"
  "des_peek T m n ct s = Inr (q, k, s') \<Longrightarrow> ds_stack s' = ds_stack s"
  "des_accept_named T m e p s = Inr (q, p', s') \<Longrightarrow> s' = s"
proof -
  assume a: "des_push_name T m nm d s = Inr (q, s')"
  then obtain v where "des_top s = Inr v" by (auto simp: des_push_name_def)
  with a show "if q = ROk then \<exists>z. ds_stack s' = z # ds_stack s else s' = s"
    by (cases "t_content T v") (auto simp: des_push_name_def split: option.splits if_splits)
next
  assume a: "des_push_index T m i s = Inr (q, s')"
  then obtain v where "des_top s = Inr v" by (auto simp: des_push_index_def)
  with a show "q = ROk \<and> (\<exists>z. ds_stack s' = z # ds_stack s)"
    by (cases "t_content T v") (auto simp: des_push_index_def split: if_splits)
next
  assume a: "des_peek T m n ct s = Inr (q, k, s')"
  then obtain v where "des_top s = Inr v" by (auto simp: des_peek_def)
  with a show "ds_stack s' = ds_stack s" by (cases "t_content T v") (auto simp: des_peek_def split: if_splits)
next
  assume a: "des_accept_named T m e p s = Inr (q, p', s')"
  then obtain v where "des_top s = Inr v" by (auto simp: des_accept_named_def)
  with a show "s' = s" by (cases "t_content T v") (auto simp: des_accept_named_def split: option.splits dest: des_accept_stack)
qed

interpretation des_balanced: balanced_visitor "deserializer T" ds_stack for T
proof
  fix m nm d s q s' assume "v_push_name (deserializer T) m nm d s = Inr (q, s')"
  then show "if q = ROk then \<exists>z. ds_stack s' = z # ds_stack s else ds_stack s' = ds_stack s"
    using des_push_ok(1) [of T m nm d s q s'] by (auto simp: deserializer_def split: if_splits)
next
  fix m i s q s' assume "v_push_index (deserializer T) m i s = Inr (q, s')"
  then show "if q = ROk then \<exists>z. ds_stack s' = z # ds_stack s else ds_stack s' = ds_stack s"
    using des_push_ok(2) [of T m i s q s'] by (simp add: deserializer_def)
qed (auto simp: deserializer_def des_pop_def dest: des_accept_stack des_push_ok(3,4))

end
