(* ===== verification/Toml_Theorems.thy ===== *)
theory Toml_Theorems
  imports Toml_Round_Trip
begin

text \<open>
  The properties of the serialization of objects, with a small instance of the TOML values at which they are applied.
\<close>

section \<open>An instance of the values\<close>

datatype tv = TV "string list" "tv tcontent"

primrec tv_content :: "tv \<Rightarrow> tv tcontent" where
  "tv_content (TV cs c) = c"

primrec tv_comments :: "tv \<Rightarrow> string list" where
  "tv_comments (TV cs c) = cs"

definition tv_get_int :: "mapped_type \<Rightarrow> 64 word \<Rightarrow> int" where
  "tv_get_int m w = (case m of
     Int8 \<Rightarrow> signed_take_bit 7 (uint w) | Int16 \<Rightarrow> signed_take_bit 15 (uint w)
   | Int32 \<Rightarrow> signed_take_bit 31 (uint w) | Int64 \<Rightarrow> signed_take_bit 63 (uint w)
   | UInt8 \<Rightarrow> take_bit 8 (uint w) | UInt16 \<Rightarrow> take_bit 16 (uint w) | UInt32 \<Rightarrow> take_bit 32 (uint w) | _ \<Rightarrow> uint w)"

definition tv_toml :: "tv toml" where
  "tv_toml = \<lparr>t_content = tv_content, t_assign = (\<lambda>c v. TV (tv_comments v) c), t_poke = (\<lambda>c v. TV (tv_comments v) c), t_empty = TV [] CEmpty,
     t_set_comments = (\<lambda>cs v. TV cs (tv_content v)), t_eq = (=), t_get_int = tv_get_int, t_date = (\<lambda>p. 0), t_widen = ucast, t_narrow = ucast,
     t_float_of_int = ucast, t_double_of_int = (\<lambda>w. w), t_split = (\<lambda>d. [d]), t_trim = (\<lambda>str. str)\<rparr>"

lemma tv_get_int_range: "isIntegral m \<Longrightarrow> int_range m (tv_get_int m w)"
  using take_bit_int_less_exp [of 8 "uint w"] take_bit_int_less_exp [of 16 "uint w"] take_bit_int_less_exp [of 32 "uint w"]
    signed_take_bit_int_less_exp [of 7 "uint w"] signed_take_bit_int_less_exp [of 15 "uint w"]
    signed_take_bit_int_less_exp [of 31 "uint w"] signed_take_bit_int_less_exp [of 63 "uint w"]
    signed_take_bit_int_greater_eq_minus_exp [of 7 "uint w"] signed_take_bit_int_greater_eq_minus_exp [of 15 "uint w"]
    signed_take_bit_int_greater_eq_minus_exp [of 31 "uint w"] signed_take_bit_int_greater_eq_minus_exp [of 63 "uint w"]
    uint_bounded [of w]
  by (cases m) (simp_all add: isIntegral_def int_range_def tv_get_int_def)

lemma tv_get_int_same: "int_range m i \<Longrightarrow> tv_get_int m (word_of_int i) = i"
  by (cases m) (simp_all add: int_range_def tv_get_int_def uint_word_of_int_eq signed_take_bit_take_bit take_bit_int_eq_self signed_take_bit_int_eq_self)

lemma tv_laws: "toml_laws tv_toml"
proof -
  have "TV (tv_comments v) (tv_content v) = v" for v by (cases v) simp
  moreover have "ucast (ucast w :: 64 word) = (w :: 32 word)" for w by (simp add: ucast_down_ucast_id is_down)
  ultimately show ?thesis unfolding toml_laws_def by (simp add: tv_toml_def tv_get_int_same tv_get_int_range)
qed

section \<open>Serializing and deserializing an object\<close>

lemma toml_serialize_rep:
  assumes "toml_laws T" and "wf (ObjectOf r)" and "storable_refl r" and "wt (ObjectOf r) (OObject fs)"
  obtains w where "toml_serialize T r (OObject fs) v = Inr w" "rep_refl T r fs w" "adds T (all_fields r) v w"
proof -
  have "writes T (visitObject (serializer T) False r) (OObject fs) (\<lambda>v w. rep_refl T r fs w \<and> adds T (all_fields r) v w)"
    using assms by (intro serializer_writes(2)) auto
  from writesD [OF this, of "[]" v v "[]"] obtain w where
    "visitObject (serializer T) False r (OObject fs) (ser_at v [] []) = Inr (ROk, OObject fs, ser_at w [] [])" "rep_refl T r fs w" "adds T (all_fields r) v w"
    by auto
  then show thesis by (intro that) (simp_all add: toml_serialize_def reflection_visit_def)
qed

lemma toml_deserialize_rep:
  assumes "toml_laws T" and "wf (ObjectOf r)" and "readable_refl r" and "wt (ObjectOf r) (OObject fs)" and "wt (ObjectOf r) (OObject gs)" and "rep_refl T r fs w"
  shows "toml_deserialize T w r (OObject gs) = Inr (True, OObject fs, [])"
proof -
  from deserializer_reads(2) [OF assms(1), of r fs gs w "[]" "[]"] assms(2-6) obtain hs where
    hs: "visitObject (deserializer T) True r (OObject gs) (des_at w [] []) = Inr (ROk, OObject hs, des_at w [] [])"
    "map fst hs = map fst gs" "\<forall>k. map_of hs k = (if k \<in> set (offsets (all_fields r)) then map_of fs k else map_of gs k)" by auto
  have e: "map fst hs = offsets (all_fields r)" "map fst fs = offsets (all_fields r)" using hs(2) assms(4,5) by simp_all
  have "hs = fs"
  proof (rule alist_eqI)
    show "map_of hs k = map_of fs k" if "k \<in> set (map fst hs)" for k using that hs(3) unfolding e(1) by simp
  qed (use e assms(2) in simp_all)
  with hs(1) show ?thesis by (simp add: toml_deserialize_def reflection_visit_def)
qed

lemma field_visits_append: "field_visits V mut (fl @ gl) = field_visits V mut fl @ field_visits V mut gl"
  by (induction fl) auto

lemma bind_cong_Inr: "(\<And>x. r = Inr x \<Longrightarrow> f x = g x) \<Longrightarrow> bind r f = bind r g"
  by (cases r) auto

lemma try_cong: "(r = ROk \<Longrightarrow> a = b) \<Longrightarrow> vis_try_continue r ob s a = vis_try_continue r ob s b"
  by (cases r) (auto simp: vis_try_continue_def)

text \<open>A missing field ends the traversal of the fields.\<close>

lemma missing_field_ends:
  assumes "t_content T w = CTable tb" and "tb (fi_name f) = None" and "ds_stack s = w # stk"
  shows "visit_fields (deserializer T) (field_visits (deserializer T) True (fl @ (f, t) # gl)) ob s
    = visit_fields (deserializer T) (field_visits (deserializer T) True fl) ob s"
  using assms(3)
proof (induction fl arbitrary: ob s)
  case Nil
  then have "v_push_name (deserializer T) (mapped t) (fi_name f) (fi_description f) s = Inr (RSkip, s)"
    using assms(1,2) by (simp add: deserializer_def des_push_name_def des_top_def)
  then show ?case by (simp add: vis_try_continue_def)
next
  case (Cons gu fl)
  obtain g u where gu [simp]: "gu = (g, u)" by fastforce
  have "visit_fields (deserializer T) (field_visits (deserializer T) True (fl @ (f, t) # gl)) ob' s3
      = visit_fields (deserializer T) (field_visits (deserializer T) True fl) ob' s3"
    if "v_push_name (deserializer T) (mapped u) (fi_name g) (fi_description g) s = Inr (ROk, s1)" "visit (deserializer T) True u x s1 = Inr (q, y, s2)"
      "v_pop (deserializer T) (mapped u) s2 = Inr s3" for s1 s2 s3 x q y ob'
  proof (rule Cons.IH)
    show "ds_stack s3 = w # stk"
      using des_balanced.push_name_stack [OF that(1)] des_balanced.visit_stack(1) [OF that(2)] des_balanced.pop_stack [OF that(3)] Cons.prems by auto
  qed
  then show ?case by (auto intro!: bind_cong_Inr try_cong)
qed

section \<open>Properties\<close>

text \<open>
  C16. An object that is serialized into any value and read from it again comes back: writing succeeds, and reading the value into any other object of the
  type reports success and makes that object equal to the first one, for every type without sets, enumerations and dates.
\<close>

theorem serialize_roundtrip:
  assumes "toml_laws T" and "wf (ObjectOf r)" and "storable_refl r" and "readable_refl r" and "wt (ObjectOf r) ob" and "wt (ObjectOf r) ob'"
  shows "\<exists>w. toml_serialize T r ob v = Inr w \<and> toml_deserialize T w r ob' = Inr (True, ob, [])"
proof -
  from assms(5,6) obtain fs gs where o: "ob = OObject fs" "ob' = OObject gs" by (auto split: obj.splits)
  with assms obtain w where w: "toml_serialize T r ob v = Inr w" "rep_refl T r fs w" using toml_serialize_rep [of T r fs v] by blast
  then show ?thesis using toml_deserialize_rep [OF assms(1,2,4) _ _ w(2)] assms(5,6) o by blast
qed

definition ex_refl :: refl where
  "ex_refl = Refl (Some (Refl None [(\<lparr>fi_name = ''id'', fi_description = Some ''The id'', fi_offset = 0\<rparr>, Prim UInt8)]))
     [(\<lparr>fi_name = ''tags'', fi_description = None, fi_offset = 8\<rparr>, ArrayOf None (OPrim (PString [])) (Prim TString))]"

definition ex_ob :: obj where
  "ex_ob = OObject [(0, OPrim (PInt 200)), (8, OArray [OPrim (PString ''a''), OPrim (PString ''b'')])]"

definition ex_default :: obj where
  "ex_default = OObject [(0, OPrim (PInt 0)), (8, OArray [])]"

lemma ex_typed: "wf (ObjectOf ex_refl)" "storable_refl ex_refl" "readable_refl ex_refl" "wt (ObjectOf ex_refl) ex_ob" "wt (ObjectOf ex_refl) ex_default"
  by (simp_all add: ex_refl_def ex_ob_def ex_default_def isPrimitive_def isStructured_def wt_prim_def int_range_def isIntegral_def isString_def)

theorem serialize_roundtrip_witness:
  "\<exists>w. toml_serialize tv_toml ex_refl ex_ob (t_empty tv_toml) = Inr w \<and> toml_deserialize tv_toml w ex_refl ex_default = Inr (True, ex_ob, [])"
  by (rule serialize_roundtrip [OF tv_laws ex_typed])

text \<open>
  C17. Whatever a value holds, reading it never leaves an object of another type behind: after \<open>toml_deserialize\<close> has returned, whether it succeeded or was cancelled in
  the middle, every field, array and set of the object has values of its type, and arrays of a fixed size have kept their size.
\<close>

theorem deserialize_keeps_types:
  assumes "toml_laws T" and "wf (ObjectOf r)" and "wt (ObjectOf r) ob" and "toml_deserialize T v r ob = Inr (ok, ob', out)"
  shows "wt (ObjectOf r) ob'"
proof -
  from assms(4) obtain q s where "visit (deserializer T) True (ObjectOf r) ob (des_at v [] []) = Inr (q, ob', s)"
    by (auto simp: toml_deserialize_def reflection_visit_def)
  from typed_visitor.visit_type(1) [OF deserializer_typed [OF assms(1)] this assms(3,2)] show ?thesis .
qed

theorem deserialize_keeps_types_witness:
  "toml_deserialize tv_toml (TV [] (CTable [''id'' \<mapsto> TV [] (CInt 300)])) ex_refl ex_ob
     = Inr (True, OObject [(0, OPrim (PInt 44)), (8, OArray [OPrim (PString ''a''), OPrim (PString ''b'')])], [])
   \<and> wt (ObjectOf ex_refl) (OObject [(0, OPrim (PInt 44)), (8, OArray [OPrim (PString ''a''), OPrim (PString ''b'')])])"
proof -
  let ?v = "TV [] (CTable [''id'' \<mapsto> TV [] (CInt 300)])"
  let ?o = "OObject [(0, OPrim (PInt 44)), (8, OArray [OPrim (PString ''a''), OPrim (PString ''b'')])]"
  have "toml_deserialize tv_toml ?v ex_refl ex_ob = Inr (True, ?o, [])"
    by (simp add: toml_deserialize_def reflection_visit_def ex_refl_def ex_ob_def deserializer_def des_push_name_def des_top_def tv_toml_def isCompatibleTo_def
        isIntegral_def isFloating_def vis_try_continue_def vis_try_return_def relocate_def visit_primitive_def des_accept_def wt_prim_def int_range_def tv_get_int_def des_pop_def write_field_def)
  with deserialize_keeps_types [OF tv_laws ex_typed(1,4) this] show ?thesis by simp
qed

text \<open>
  A field that the value does not have ends the reading of its class: the fields behind it are not read, even where the value has them, and the reading is reported as
  successful. The result is the one for a class that has only the fields in front of the missing one.
\<close>

theorem missing_field_hides_rest:
  assumes "is_table T v" and "member T v (fi_name f) = None"
  shows "toml_deserialize T v (Refl base (fl @ (f, t) # gl)) ob = toml_deserialize T v (Refl base fl) ob"
proof -
  obtain tb where tb: "t_content T v = CTable tb" "tb (fi_name f) = None" using assms by (auto simp: is_table_def member_def split: tcontent.splits)
  note ends = missing_field_ends [where fl = fl and t = t and gl = gl, OF tb]
  have "visitObject (deserializer T) True (Refl base (fl @ (f, t) # gl)) ob (des_at v [] []) = visitObject (deserializer T) True (Refl base fl) ob (des_at v [] [])"
  proof (cases base)
    case None
    then show ?thesis using ends [of "des_at v [] []" "[]" ob] by simp
  next
    case (Some b)
    have "visit_fields (deserializer T) (field_visits (deserializer T) True (fl @ (f, t) # gl)) ob1 s1
        = visit_fields (deserializer T) (field_visits (deserializer T) True fl) ob1 s1"
      if "visitObject (deserializer T) True b ob (des_at v [] []) = Inr (q, ob1, s1)" for q ob1 s1
      using ends [of s1 "[]" ob1] des_balanced.visit_stack(2) [OF that] by simp
    then show ?thesis unfolding Some visitObject.simps by (auto simp: vis_try_return_def intro!: bind_cong_Inr split: visitor_result.split)
  qed
  then show ?thesis by (simp add: toml_deserialize_def reflection_visit_def)
qed

theorem missing_field_hides_rest_witness:
  "toml_deserialize tv_toml (TV [] (CTable [''b'' \<mapsto> TV [] (CBool True)]))
     (Refl None [(\<lparr>fi_name = ''a'', fi_description = None, fi_offset = 0\<rparr>, Prim TBool), (\<lparr>fi_name = ''b'', fi_description = None, fi_offset = 1\<rparr>, Prim TBool)])
     (OObject [(0, OPrim (PBool False)), (1, OPrim (PBool False))])
   = Inr (True, OObject [(0, OPrim (PBool False)), (1, OPrim (PBool False))], [])"
proof -
  let ?v = "TV [] (CTable [''b'' \<mapsto> TV [] (CBool True)])" and ?f = "\<lparr>fi_name = ''a'', fi_description = None, fi_offset = 0\<rparr>"
  have "is_table tv_toml ?v" "member tv_toml ?v (fi_name ?f) = None" by (simp_all add: is_table_def member_def tv_toml_def)
  from missing_field_hides_rest [OF this, where base = None and fl = "[]" and t = "Prim TBool"
      and gl = "[(\<lparr>fi_name = ''b'', fi_description = None, fi_offset = 1\<rparr>, Prim TBool)]"
      and ob = "OObject [(0, OPrim (PBool False)), (1, OPrim (PBool False))]"]
  show ?thesis unfolding append_Nil by (simp only:) (simp add: toml_deserialize_def reflection_visit_def)
qed

text \<open>
  C37. Sets, enumerations, points in time and durations are written but cannot be read back: reading the value that an object with such a field was written to reports a
  failure, after the fields in front of it were read.
\<close>

theorem stored_kinds_not_read:
  assumes "toml_laws T" and "r = Refl None (fl @ (f, u) # gl)" and "wf (ObjectOf r)" and "storable_refl r" and "readable_fields fl"
    and "wt (ObjectOf r) ob" and "wt (ObjectOf r) ob'"
    and "(\<exists>cmp df t. u = SetOf cmp df t) \<or> u = Prim TimePoint \<or> u = Prim Duration
      \<or> (\<exists>m e p. u = Enumerated m e \<and> relocate f ob = Inr (OPrim p) \<and> primitive_name e p \<noteq> Inr [])"
  shows "\<exists>w ob''. toml_serialize T r ob v = Inr w \<and> toml_deserialize T w r ob' = Inr (False, ob'', [])"
proof -
  from assms(6,7) obtain fs gs where o: "ob = OObject fs" "ob' = OObject gs" by (auto split: obj.splits)
  with assms obtain w where w: "toml_serialize T r ob v = Inr w" "rep_refl T r fs w" using toml_serialize_rep [of T r fs v] by blast
  have app: "rep_fields T (xs @ ys) fs w = (rep_fields T xs fs w \<and> rep_fields T ys fs w)" "wt_fields (xs @ ys) hs = (wt_fields xs hs \<and> wt_fields ys hs)"
    "wf_fields (xs @ ys) = (wf_fields xs \<and> wf_fields ys)" for xs ys hs by (induction xs) auto
  have parts: "rep_fields T fl fs w" "rep_fields T ((f, u) # gl) fs w" "wt_fields fl fs" "wt_fields ((f, u) # gl) fs" "wt_fields fl gs" "wf_fields fl" "distinct (offsets fl)"
    using w(2) assms(2,3,6,7) o by (auto simp: app)
  have "\<exists>hs. (\<forall>rest. visit_fields (deserializer T) (field_visits (deserializer T) True fl @ rest) (OObject gs) (des_at w [] [])
      = visit_fields (deserializer T) rest (OObject hs) (des_at w [] [])) \<and> map fst hs = map fst gs
    \<and> (\<forall>k. map_of hs k = (if k \<in> set (offsets fl) then map_of fs k else map_of gs k))"
  proof (rule des_fields [OF parts(1) assms(5) parts(7,3,5)])
    fix f' t' x y u' stk assume "(f', t') \<in> set fl" "rep T t' x u'" "wt t' x" "wt t' y"
    then show "visit (deserializer T) True t' y (des_at u' stk []) = Inr (ROk, x, des_at u' stk [])"
      using deserializer_reads(3) [OF assms(1) _ parts(6) assms(5)] by blast
  qed
  then obtain hs where hs: "\<forall>rest. visit_fields (deserializer T) (field_visits (deserializer T) True fl @ rest) (OObject gs) (des_at w [] [])
      = visit_fields (deserializer T) rest (OObject hs) (des_at w [] [])" by blast
  from parts(2) obtain x z where x: "map_of fs (fi_offset f) = Some x" "member T w (fi_name f) = Some z" "rep T u x z" by (auto split: option.splits)
  then obtain tb where tb: "t_content T w = CTable tb" "tb (fi_name f) = Some z" by (auto simp: member_def split: tcontent.splits)
  have "wt u x" using parts(4) x(1) by simp
  have "\<not> isCompatibleTo (t_content T z) (mapped u)"
    using assms(8)
  proof (elim disjE exE conjE)
    fix m e p assume e: "u = Enumerated m e" "relocate f ob = Inr (OPrim p)" "primitive_name e p \<noteq> Inr []"
    then have "x = OPrim p" using x(1) o(1) by simp
    with e x(3) have "\<exists>nm. t_content T z = CString nm" by (auto split: sum.splits if_splits)
    moreover have "isIntegral m \<or> isBool m" using e(1) assms(2,3) by (auto simp: app)
    ultimately show ?thesis using e(1) by (auto simp: isCompatibleTo_def isString_def isIntegral_def isBool_def)
  next
    fix cmp df t assume "u = SetOf cmp df t"
    with x(3) show ?thesis by (auto simp: isCompatibleTo_def isArray_def split: obj.splits tcontent.splits)
  next
    assume u: "u = Prim TimePoint"
    with x(3) \<open>wt u x\<close> obtain p where "t_content T z = content_of T p" "wt_prim TimePoint p" by (auto split: obj.splits)
    with u show ?thesis by (cases p) (auto simp: isCompatibleTo_def wt_prim_def int_range_def)
  next
    assume u: "u = Prim Duration"
    with x(3) \<open>wt u x\<close> obtain p where "t_content T z = content_of T p" "wt_prim Duration p" by (auto split: obj.splits)
    with u show ?thesis by (cases p) (auto simp: isCompatibleTo_def wt_prim_def int_range_def)
  qed
  then have "v_push_name (deserializer T) (mapped u) (fi_name f) (fi_description f) (des_at w [] []) = Inr (RCancel, des_at w [] [])"
    using tb by (simp add: deserializer_def des_push_name_def des_top_def)
  then have "visitObject (deserializer T) True r (OObject gs) (des_at w [] []) = Inr (RCancel, OObject hs, des_at w [] [])"
    using hs by (simp add: assms(2) field_visits_append vis_try_continue_def)
  then have "toml_deserialize T w r ob' = Inr (False, OObject hs, [])" by (simp add: o toml_deserialize_def reflection_visit_def)
  with w(1) show ?thesis by blast
qed

theorem stored_kinds_not_read_witness:
  "\<exists>w ob''. toml_serialize tv_toml (Refl None [(\<lparr>fi_name = ''timeout'', fi_description = None, fi_offset = 0\<rparr>, Prim Duration)]) (OObject [(0, OPrim (PDuration 5))]) (t_empty tv_toml) = Inr w
    \<and> toml_deserialize tv_toml w (Refl None [(\<lparr>fi_name = ''timeout'', fi_description = None, fi_offset = 0\<rparr>, Prim Duration)]) (OObject [(0, OPrim (PDuration 0))]) = Inr (False, ob'', [])"
proof -
  let ?f = "\<lparr>fi_name = ''timeout'', fi_description = None, fi_offset = 0\<rparr>"
  let ?r = "Refl None [(?f, Prim Duration)]"
  have r: "?r = Refl None ([] @ (?f, Prim Duration) # [])" by simp
  have t: "wf (ObjectOf ?r)" "storable_refl ?r" "readable_fields []" "wt (ObjectOf ?r) (OObject [(0, OPrim (PDuration 5))])" "wt (ObjectOf ?r) (OObject [(0, OPrim (PDuration 0))])"
    by (simp_all add: isPrimitive_def isStructured_def wt_prim_def)
  show ?thesis by (rule stored_kinds_not_read [OF tv_laws r t]) simp
qed

end
