(* ===== verification/Properties_Source.thy ===== *)
theory Properties_Source
  imports Toml_Theorems Spans
begin

text \<open>
  The source of the properties (\<open>TOMLPropertiesSource\<close> in src/lib/idle/service/properties.cpp): a TOML value whose tables are addressed by keys
  \<open>a.b.c\<close>, into which objects are written and from which they are read, and its textual form in a file. Parsing, formatting
  and trimming a text are third-party code and a parameter.
\<close>

section \<open>Scopes\<close>

text \<open>The loop \<open>while (StringView current = scope.split('.'))\<close> over the tokens of a key.\<close>

definition scope_tokens :: "string \<Rightarrow> string list option" where
  "scope_tokens key = map_option (map content) (span_tokens (view key) CHR ''.'')"

text \<open>The subscript operator of a value: a value that holds nothing becomes a table, any other value that is not a table throws.\<close>

definition subscript :: "'v toml \<Rightarrow> string \<Rightarrow> 'v \<Rightarrow> 'v res" where
  "subscript T k v = (case t_content T v of
     CEmpty \<Rightarrow> Inr (t_poke T (CTable [k \<mapsto> t_empty T]) (t_assign T (CTable Map.empty) v))
   | CTable tb \<Rightarrow> Inr (case tb k of None \<Rightarrow> t_poke T (CTable (tb(k \<mapsto> t_empty T))) v | Some w \<Rightarrow> v)
   | _ \<Rightarrow> Inl Terminated)"

definition as_table :: "'v toml \<Rightarrow> 'v \<Rightarrow> 'v" where
  "as_table T v = (case t_content T v of CTable tb \<Rightarrow> v | _ \<Rightarrow> t_assign T (CTable Map.empty) v)"

fun advance_tokens :: "'v toml \<Rightarrow> string list \<Rightarrow> tpath \<Rightarrow> 'v \<Rightarrow> (tpath \<times> 'v) res" where
  "advance_tokens T [] itr value = Inr (itr, value)"
| "advance_tokens T (str # ks) itr value =
     (case at_path T itr value of
        None \<Rightarrow> Inl Unreachable
      | Some v \<Rightarrow>
          bind (subscript T str v) (\<lambda>v'.
            let value = update_at T itr (\<lambda>_. v') value; itr = itr @ [Key str];
                value = update_at T itr (as_table T) value
            in advance_tokens T ks itr value))"

definition advance_scope :: "'v toml \<Rightarrow> 'v \<Rightarrow> string \<Rightarrow> (tpath \<times> 'v) res" where
  "advance_scope T value scope = (case scope_tokens scope of None \<Rightarrow> Inl Unreachable | Some ks \<Rightarrow> advance_tokens T ks [] value)"

fun find_tokens :: "'v toml \<Rightarrow> string list \<Rightarrow> 'v \<Rightarrow> 'v option" where
  "find_tokens T [] itr = Some itr"
| "find_tokens T (str # ks) itr =
     (case t_content T itr of CTable tb \<Rightarrow> (case tb str of Some w \<Rightarrow> find_tokens T ks w | None \<Rightarrow> None) | _ \<Rightarrow> None)"

definition find_scope :: "'v toml \<Rightarrow> 'v \<Rightarrow> string \<Rightarrow> 'v option res" where
  "find_scope T value scope = (case scope_tokens scope of None \<Rightarrow> Inl Unreachable | Some ks \<Rightarrow> Inr (find_tokens T ks value))"

section \<open>Operations of a source\<close>

definition source_serialize :: "'v toml \<Rightarrow> refl \<Rightarrow> obj \<Rightarrow> string \<Rightarrow> 'v \<Rightarrow> (bool \<times> 'v) res" where
  "source_serialize T r ob key value =
     bind (advance_scope T value key) (\<lambda>(itr, value). case at_path T itr value of
         None \<Rightarrow> Inl Unreachable
       | Some v \<Rightarrow> bind (toml_serialize T r ob v) (\<lambda>w. Inr (True, update_at T itr (\<lambda>_. w) value)))"

definition source_deserialize :: "'v toml \<Rightarrow> refl \<Rightarrow> obj \<Rightarrow> string \<Rightarrow> 'v \<Rightarrow> (bool \<times> obj \<times> message list) res" where
  "source_deserialize T r ob key value =
     bind (find_scope T value key) (\<lambda>scope. case scope of
         Some v \<Rightarrow> bind (toml_deserialize T v r ob) (\<lambda>(_, ob, out). Inr (True, ob, out))
       | None \<Rightarrow> Inr (False, ob, []))"

definition source_equals :: "'v toml \<Rightarrow> 'v \<Rightarrow> 'v \<Rightarrow> string \<Rightarrow> bool res" where
  "source_equals T value other key =
     bind (find_scope T value key) (\<lambda>left. bind (find_scope T other key) (\<lambda>right.
       Inr (case left of Some l \<Rightarrow> (case right of Some q \<Rightarrow> t_eq T l q | None \<Rightarrow> False) | None \<Rightarrow> right = None)))"

section \<open>Files\<close>

text \<open>The third-party functions on texts: \<open>toml::parse\<close>, which throws for a malformed text, \<open>toml::format\<close> and \<open>boost::algorithm::trim\<close>.\<close>

record 'v format =
  f_parse :: "string \<Rightarrow> 'v option"
  f_format :: "'v \<Rightarrow> string"
  f_trim :: "string \<Rightarrow> string"

definition newline :: char where "newline = CHR 0x0A"

text \<open>The text of a stream behind a leading line that starts with \<open>#!\<close>.\<close>

definition consume_shebang :: "string \<Rightarrow> string" where
  "consume_shebang txt =
     (let line = takeWhile (\<lambda>c. c \<noteq> newline) txt
      in if starts_with (view line) (view ''#!'') = Some True then drop (Suc (length line)) txt else txt)"

definition config_shebang :: string where
  "config_shebang = ''#!/usr/bin/env idle''"

definition source_read :: "'v format \<Rightarrow> string \<Rightarrow> 'v option" where
  "source_read F txt = f_parse F (consume_shebang txt)"

definition source_write :: "'v format \<Rightarrow> 'v \<Rightarrow> string" where
  "source_write F value = config_shebang @ [newline] @ f_trim F (f_format F value) @ [newline]"

text \<open>What the code relies on: a parsed text is a table.\<close>

definition format_laws :: "'v toml \<Rightarrow> 'v format \<Rightarrow> bool" where
  "format_laws T F \<longleftrightarrow> (\<forall>txt v. f_parse F txt = Some v \<longrightarrow> is_table T v)"

section \<open>What advancing through a scope does\<close>

definition entries :: "'v toml \<Rightarrow> 'v \<Rightarrow> string \<rightharpoonup> 'v" where
  "entries T v = (case t_content T v of CTable tb \<Rightarrow> tb | _ \<Rightarrow> Map.empty)"

definition entry :: "'v toml \<Rightarrow> 'v \<Rightarrow> string \<Rightarrow> 'v" where
  "entry T v k = (case entries T v k of None \<Rightarrow> t_empty T | Some w \<Rightarrow> w)"

text \<open>A value with the tables of a scope, and the innermost of them.\<close>

fun opened_scope :: "'v toml \<Rightarrow> string list \<Rightarrow> 'v \<Rightarrow> 'v" where
  "opened_scope T [] v = v"
| "opened_scope T (k # ks) v = t_poke T (CTable ((entries T v)(k \<mapsto> opened_scope T ks (as_table T (entry T v k))))) (as_table T v)"

fun innermost :: "'v toml \<Rightarrow> string list \<Rightarrow> 'v \<Rightarrow> 'v" where
  "innermost T [] v = v"
| "innermost T (k # ks) v = innermost T ks (as_table T (entry T v k))"

definition source_ok :: "'v toml \<Rightarrow> 'v \<Rightarrow> bool" where
  "source_ok T v \<longleftrightarrow> (case t_content T v of CEmpty \<Rightarrow> True | CTable tb \<Rightarrow> True | _ \<Rightarrow> False)"

lemma is_table_as_table: "toml_laws T \<Longrightarrow> is_table T (as_table T v)"
  by (auto simp: is_table_def as_table_def laws split: tcontent.splits)

lemma table_ok: "is_table T v \<Longrightarrow> source_ok T v"
  by (auto simp: is_table_def source_ok_def split: tcontent.splits)

lemma entries_as_table: "toml_laws T \<Longrightarrow> entries T (as_table T v) = entries T v"
  by (auto simp: entries_def as_table_def laws split: tcontent.splits)

lemma content_as_table: "toml_laws T \<Longrightarrow> t_content T (as_table T v) = CTable (entries T v)"
  by (auto simp: entries_def as_table_def laws split: tcontent.splits)

lemma find_tokens_path: "find_tokens T ks v = at_path T (map Key ks) v"
  by (induction T ks v rule: find_tokens.induct) (auto split: tcontent.splits option.splits)

lemma at_opened_scope: "toml_laws T \<Longrightarrow> at_path T (map Key ks) (opened_scope T ks v) = Some (innermost T ks v)"
  by (induction ks arbitrary: v) (simp_all add: laws)

lemma subscript_ok:
  assumes "toml_laws T" and "source_ok T v"
  shows "\<exists>v'. subscript T k v = Inr v' \<and> t_content T v' = CTable ((entries T v)(k \<mapsto> entry T v k)) \<and> (\<forall>c. t_poke T c v' = t_poke T c (as_table T v))"
  using assms(2) unfolding subscript_def source_ok_def
  by (auto simp: laws [OF assms(1)] entries_def entry_def as_table_def fun_upd_idem split: tcontent.splits option.splits)

lemma advance_tokens_eq:
  assumes T: "toml_laws T" and "source_ok T u" and "at_path T p v = Some u"
  shows "advance_tokens T ks p v = Inr (p @ map Key ks, update_at T p (\<lambda>_. opened_scope T ks u) v)"
  using assms(2,3)
proof (induction ks arbitrary: p v u)
  case Nil
  then show ?case by (simp add: update_same [OF T])
next
  case (Cons k ks)
  from subscript_ok [OF T Cons.prems(1), of k] obtain u' where u': "subscript T k u = Inr u'"
    "t_content T u' = CTable ((entries T u)(k \<mapsto> entry T u k))" "\<And>c. t_poke T c u' = t_poke T c (as_table T u)" by blast
  define v1 where "v1 = update_at T p (\<lambda>_. u') v"
  have at1: "at_path T p v1 = Some u'" unfolding v1_def by (rule at_update [OF T Cons.prems(2)])
  then have atk: "at_path T (p @ [Key k]) v1 = Some (entry T u k)" using u'(2) by (simp add: at_path_append)
  define v2 where "v2 = update_at T (p @ [Key k]) (as_table T) v1"
  have at2: "at_path T (p @ [Key k]) v2 = Some (as_table T (entry T u k))" unfolding v2_def by (rule at_update [OF T atk])
  have step: "advance_tokens T (k # ks) p v = advance_tokens T ks (p @ [Key k]) v2"
    using Cons.prems(2) u'(1) by (simp add: v1_def v2_def Let_def)
  have "update_at T (p @ [Key k]) (\<lambda>_. opened_scope T ks (as_table T (entry T u k))) v2
      = update_at T (p @ [Key k]) (\<lambda>_. opened_scope T ks (as_table T (entry T u k))) v1"
    unfolding v2_def by (rule update_update [OF T atk, where g = "\<lambda>_. opened_scope T ks (as_table T (entry T u k))"])
  also have "\<dots> = update_at T p (update_at T [Key k] (\<lambda>_. opened_scope T ks (as_table T (entry T u k)))) v1"
    by (rule update_at_append)
  also have "\<dots> = update_at T p (\<lambda>_. opened_scope T (k # ks) u) v1"
    using update_const [OF at1, of "update_at T [Key k] (\<lambda>_. opened_scope T ks (as_table T (entry T u k)))"] u'(2,3) by simp
  also have "\<dots> = update_at T p (\<lambda>_. opened_scope T (k # ks) u) v"
    unfolding v1_def using update_update [OF T Cons.prems(2), of "\<lambda>_. opened_scope T (k # ks) u"] by simp
  finally show ?case
    using Cons.IH [OF table_ok [OF is_table_as_table [OF T]] at2] step by simp
qed

lemma scope_tokens_total: "\<exists>ks. scope_tokens key = Some ks"
proof -
  have "unat (of_nat (length key) :: size_type) \<le> length key" by (simp add: unat_of_nat)
  then have "wf_span (view key)" by (simp add: wf_span_def view_def)
  from span_tokens_eq [OF this, of "CHR ''.''"] show ?thesis by (auto simp: scope_tokens_def)
qed

section \<open>Writing and reading under a key\<close>

lemma source_serialize_eq:
  assumes T: "toml_laws T" and "source_ok T v" and "scope_tokens key = Some ks"
  shows "source_serialize T r ob key v = bind (toml_serialize T r ob (innermost T ks v)) (\<lambda>w. Inr (True, update_at T (map Key ks) (\<lambda>_. w) (opened_scope T ks v)))"
  using advance_tokens_eq [OF T assms(2), of "[]" v ks] at_opened_scope [OF T, of ks v] assms(3) by (simp add: source_serialize_def advance_scope_def)

lemma source_serialize_rep:
  assumes T: "toml_laws T" and "source_ok T v" and "scope_tokens key = Some ks"
    and "wf (ObjectOf r)" and "storable_refl r" and "wt (ObjectOf r) (OObject fs)"
  obtains w where "source_serialize T r (OObject fs) key v = Inr (True, update_at T (map Key ks) (\<lambda>_. w) (opened_scope T ks v))"
    "rep_refl T r fs w" "adds T (all_fields r) (innermost T ks v) w"
proof -
  from toml_serialize_rep [OF T assms(4-6), of "innermost T ks v"] obtain w where w: "toml_serialize T r (OObject fs) (innermost T ks v) = Inr w"
    "rep_refl T r fs w" "adds T (all_fields r) (innermost T ks v) w" by blast
  then show thesis using source_serialize_eq [OF assms(1-3)] by (intro that) simp_all
qed

lemma is_table_update: "toml_laws T \<Longrightarrow> ks \<noteq> [] \<Longrightarrow> is_table T (update_at T (map Key ks) f (opened_scope T ks v))"
  by (cases ks) (simp_all add: laws is_table_def)

lemma source_ok_update:
  assumes "toml_laws T" and "source_ok T v" and "adds T fl (innermost T ks v) w"
  shows "source_ok T (update_at T (map Key ks) (\<lambda>_. w) (opened_scope T ks v))"
proof (cases ks)
  case Nil
  with assms(2,3) show ?thesis by (auto simp: adds_def table_ok split: if_splits)
next
  case (Cons k ks')
  then show ?thesis by (intro table_ok is_table_update [OF assms(1)]) simp
qed

lemma find_updated: "toml_laws T \<Longrightarrow> find_tokens T ks (update_at T (map Key ks) (\<lambda>_. w) (opened_scope T ks v)) = Some w"
  unfolding find_tokens_path by (rule at_update [OF _ at_opened_scope])

lemma find_tokens_Cons: "find_tokens T (k # ks) v = Option.bind (entries T v k) (find_tokens T ks)"
  by (auto simp: entries_def split: tcontent.splits option.splits)

lemma find_as_table: "toml_laws T \<Longrightarrow> ks \<noteq> [] \<Longrightarrow> find_tokens T ks (as_table T v) = find_tokens T ks v"
  by (cases ks) (simp_all add: find_tokens_Cons entries_as_table del: find_tokens.simps)

lemma find_tokens_entry: "toml_laws T \<Longrightarrow> ks \<noteq> [] \<Longrightarrow> find_tokens T ks (entry T v k) = find_tokens T (k # ks) v"
  by (cases ks) (auto simp: entry_def find_tokens_Cons entries_def laws simp del: find_tokens.simps split: option.splits)

text \<open>
  The keys that writing an object under another key cannot touch: neither an enclosing scope of that key nor the scope of one of the fields.
\<close>

definition apart :: "string list \<Rightarrow> refl \<Rightarrow> string list \<Rightarrow> bool" where
  "apart ks r ks' \<longleftrightarrow> \<not> prefix ks' ks \<and> (prefix ks ks' \<longrightarrow> ks' ! length ks \<notin> set (names (all_fields r)))"

lemma apart_Cons: "apart (k # ks) r (k' # ks') \<longleftrightarrow> k \<noteq> k' \<or> apart ks r ks'"
  by (auto simp: apart_def)

lemma entries_poke: "toml_laws T \<Longrightarrow> entries T (t_poke T (CTable tb) v) = tb"
  by (simp add: entries_def laws)

lemma find_apart:
  assumes T: "toml_laws T" and "apart ks r ks'" and "adds T (all_fields r) (innermost T ks v) w"
  shows "find_tokens T ks' (update_at T (map Key ks) (\<lambda>_. w) (opened_scope T ks v)) = find_tokens T ks' v"
  using assms(2,3)
proof (induction ks arbitrary: ks' v)
  case Nil
  then obtain k' rest where k: "ks' = k' # rest" "k' \<notin> set (names (all_fields r))" by (cases ks') (auto simp: apart_def)
  with Nil(2) have "member T w k' = member T v k'" by (simp add: adds_def)
  then have "entries T w k' = entries T v k'" by (auto simp: member_def entries_def split: tcontent.splits)
  with k(1) show ?case by (simp add: find_tokens_Cons del: find_tokens.simps)
next
  case (Cons k ks)
  then obtain k' rest where k: "ks' = k' # rest" by (cases ks') (auto simp: apart_def)
  have u: "update_at T (map Key (k # ks)) (\<lambda>_. w) (opened_scope T (k # ks) v)
    = t_poke T (CTable ((entries T v)(k \<mapsto> update_at T (map Key ks) (\<lambda>_. w) (opened_scope T ks (as_table T (entry T v k)))))) (as_table T v)"
    by (simp add: laws [OF T])
  show ?case
  proof (cases "k' = k")
    case False
    then show ?thesis unfolding u k by (simp add: find_tokens_Cons entries_poke [OF T] del: find_tokens.simps)
  next
    case True
    with Cons.prems(1) k have a: "apart ks r rest" by (simp add: apart_Cons)
    then have "rest \<noteq> []" by (auto simp: apart_def)
    moreover have "find_tokens T rest (update_at T (map Key ks) (\<lambda>_. w) (opened_scope T ks (as_table T (entry T v k)))) = find_tokens T rest (as_table T (entry T v k))"
      using Cons.prems(2) by (intro Cons.IH [OF a]) simp
    ultimately have "find_tokens T rest (update_at T (map Key ks) (\<lambda>_. w) (opened_scope T ks (as_table T (entry T v k)))) = find_tokens T (k # rest) v"
      by (simp add: find_as_table [OF T] find_tokens_entry [OF T])
    then show ?thesis unfolding u k True by (simp add: find_tokens_Cons entries_poke [OF T] del: find_tokens.simps)
  qed
qed

text \<open>
  What a store of objects under keys promises: a written object is read back under its key, and the scopes apart from it stay.
\<close>

lemma source_set_get:
  assumes T: "toml_laws T" and "source_ok T v" and "wf (ObjectOf r)" and "storable_refl r" and "readable_refl r" and "wt (ObjectOf r) ob" and "wt (ObjectOf r) ob'"
  shows "\<exists>w. source_serialize T r ob key v = Inr (True, w) \<and> source_ok T w \<and> source_deserialize T r ob' key w = Inr (True, ob, [])"
proof -
  obtain ks where ks: "scope_tokens key = Some ks" using scope_tokens_total by blast
  from assms(6,7) obtain fs gs where o: "ob = OObject fs" "ob' = OObject gs" by (auto split: obj.splits)
  from source_serialize_rep [OF T assms(2) ks assms(3,4), of fs] assms(6) o(1) obtain w where
    w: "source_serialize T r ob key v = Inr (True, update_at T (map Key ks) (\<lambda>_. w) (opened_scope T ks v))"
    "rep_refl T r fs w" "adds T (all_fields r) (innermost T ks v) w" by blast
  have "toml_deserialize T w r ob' = Inr (True, ob, [])" using toml_deserialize_rep [OF T assms(3,5) _ _ w(2)] assms(6,7) o by blast
  then have "source_deserialize T r ob' key (update_at T (map Key ks) (\<lambda>_. w) (opened_scope T ks v)) = Inr (True, ob, [])"
    using find_updated [OF T] ks by (simp add: source_deserialize_def find_scope_def)
  with w(1) source_ok_update [OF T assms(2) w(3)] show ?thesis by blast
qed

lemma shebang_read_write: "source_read F (source_write F v) = f_parse F (f_trim F (f_format F v) @ [newline])"
proof -
  let ?line = "config_shebang" and ?rest = "f_trim F (f_format F v) @ [newline]"
  have "takeWhile (\<lambda>c. c \<noteq> newline) (?line @ newline # ?rest) = ?line"
    by (simp add: config_shebang_def newline_def)
  moreover have "starts_with (view ?line) (view ''#!'') = Some True"
    by (simp add: starts_with_def sv_substr_def subspan_def span_eq_def view_def config_shebang_def npos_def span_at_def eq_from.simps)
  moreover have "drop (Suc (length ?line)) (?line @ newline # ?rest) = ?rest" by simp
  ultimately show ?thesis by (simp add: source_read_def source_write_def consume_shebang_def)
qed

end
