(* ===== verification/Reloadable_Properties.thy ===== *)
theory Reloadable_Properties
  imports Properties_Source Registries
begin

text \<open>
  The service of the properties (\<open>ReloadablePropertiesImpl\<close> and \<open>ReloablePropertiesGeneration\<close> in src/lib/idle/service/properties.cpp): it
  reads a file, publishes a generation of the properties for every change of the file and for every commit of pushed values, and
  writes the values back. Sources are objects on a heap, since a generation and the service may share one; continuations that wait for the
  debouncer or the file watcher carry the epoch of the service in which they were made, and run only in it.
\<close>

section \<open>State\<close>

record generation =
  g_data :: nat
  g_previous :: nat
  g_number :: size_type

record 'v props =
  pr_write_back :: bool
  pr_generation :: size_type
  pr_changes :: size_type
  pr_ignore :: bool
  pr_previous :: "nat option"
  pr_current :: "nat option"
  pr_epoch :: "generation option"
  pr_heap :: "'v list"
  pr_file :: "string option"
  pr_running :: bool
  pr_life :: nat
  pr_commits :: "nat list"
  pr_watches :: "nat list"
  pr_published :: "generation list"

definition new_source :: "'v \<Rightarrow> 'v props \<Rightarrow> nat \<times> 'v props" where
  "new_source v s = (length (pr_heap s), s\<lparr>pr_heap := pr_heap s @ [v]\<rparr>)"

definition source_of :: "nat option \<Rightarrow> 'v props \<Rightarrow> 'v res" where
  "source_of p s = (case p of None \<Rightarrow> Inl Unreachable | Some c \<Rightarrow> if c < length (pr_heap s) then Inr (pr_heap s ! c) else Inl Unreachable)"

definition assign_source :: "nat option \<Rightarrow> 'v \<Rightarrow> 'v props \<Rightarrow> 'v props" where
  "assign_source p v s = (case p of None \<Rightarrow> s | Some c \<Rightarrow> s\<lparr>pr_heap := (pr_heap s)[c := v]\<rparr>)"

section \<open>Operations\<close>

definition props_push :: "'v toml \<Rightarrow> refl \<Rightarrow> obj \<Rightarrow> string \<Rightarrow> 'v props \<Rightarrow> 'v props res" where
  "props_push T r ob key s =
     bind (check (pr_running s) ()) (\<lambda>_.
     bind (source_of (pr_current s) s) (\<lambda>v.
     bind (source_serialize T r ob key v) (\<lambda>(ok, w).
       let s = assign_source (pr_current s) w s
       in if ok then
            let s = (if pr_changes s = 0 then s\<lparr>pr_commits := pr_life s # pr_commits s\<rparr> else s)
            in Inr (s\<lparr>pr_changes := pr_changes s + 1\<rparr>)
          else Inr s)))"

definition create_generation :: "nat option \<Rightarrow> nat option \<Rightarrow> 'v props \<Rightarrow> (generation \<times> 'v props) res" where
  "create_generation current previous s = (case (current, previous) of
     (Some c, Some p) \<Rightarrow>
       let g = \<lparr>g_data = c, g_previous = p, g_number = pr_generation s\<rparr>
       in Inr (g, s\<lparr>pr_generation := pr_generation s + 1, pr_published := g # pr_published s\<rparr>)
   | _ \<Rightarrow> Inl AssertFailed)"

text \<open>\<open>readFromFile\<close> returns a generation or nothing, or an exception of the parser leaves it.\<close>

datatype read_result = Loaded generation | NotOpened | Thrown

definition replace_current :: "nat \<Rightarrow> 'v props \<Rightarrow> (read_result \<times> 'v props) res" where
  "replace_current source s =
     (let s = s\<lparr>pr_previous := pr_current s, pr_current := Some source\<rparr>
      in bind (create_generation (Some source) (pr_previous s) s) (\<lambda>(g, s). Inr (Loaded g, s)))"

definition read_from_file :: "'v toml \<Rightarrow> 'v format \<Rightarrow> bool \<Rightarrow> 'v props \<Rightarrow> (read_result \<times> 'v props) res" where
  "read_from_file T F opens s =
     bind (check (pr_current s \<noteq> None) ()) (\<lambda>_.
       let (source, s) = new_source (t_empty T) s
       in case pr_file s of
            None \<Rightarrow> replace_current source s
          | Some txt \<Rightarrow>
              if \<not> opens then Inr (NotOpened, s)
              else (case source_read F txt of
                  None \<Rightarrow> Inr (Thrown, s)
                | Some v \<Rightarrow> replace_current source (assign_source (Some source) v s)))"

definition write_to_file :: "'v format \<Rightarrow> bool \<Rightarrow> 'v \<Rightarrow> 'v props \<Rightarrow> 'v props" where
  "write_to_file F opens v s = (if opens then s\<lparr>pr_file := Some (source_write F v)\<rparr> else s)"

definition write_back :: "'v format \<Rightarrow> bool \<Rightarrow> 'v props \<Rightarrow> 'v props res" where
  "write_back F opens s =
     (if pr_write_back s then
        let s = s\<lparr>pr_ignore := True\<rparr>
        in bind (source_of (pr_current s) s) (\<lambda>v. Inr (write_to_file F opens v s))
      else Inr s)"

definition props_commit :: "'v format \<Rightarrow> bool \<Rightarrow> 'v props \<Rightarrow> 'v props res" where
  "props_commit F opens s =
     bind (check (pr_changes s \<noteq> 0) ()) (\<lambda>_.
     bind (write_back F opens (s\<lparr>pr_changes := 0\<rparr>)) (\<lambda>s.
     bind (source_of (pr_current s) s) (\<lambda>v.
       let (persistent, s) = new_source v s
       in bind (create_generation (Some persistent) (pr_previous s) s) (\<lambda>(g, s).
            Inr (s\<lparr>pr_epoch := Some g, pr_previous := Some persistent\<rparr>)))))"

definition wait_for_file_changes :: "'v props \<Rightarrow> 'v props" where
  "wait_for_file_changes s = s\<lparr>pr_watches := pr_life s # pr_watches s\<rparr>"

definition on_file_changed :: "'v toml \<Rightarrow> 'v format \<Rightarrow> bool \<Rightarrow> 'v props \<Rightarrow> 'v props res" where
  "on_file_changed T F opens s =
     (if pr_ignore s then Inr (wait_for_file_changes (s\<lparr>pr_ignore := False\<rparr>))
      else bind (read_from_file T F opens s) (\<lambda>(q, s). case q of
          Loaded g \<Rightarrow> Inr (wait_for_file_changes (s\<lparr>pr_epoch := Some g\<rparr>))
        | NotOpened \<Rightarrow> Inr (wait_for_file_changes s)
        | Thrown \<Rightarrow> Inr s))"

text \<open>The start hook reports whether it returned without an exception.\<close>

definition on_start :: "'v toml \<Rightarrow> 'v format \<Rightarrow> bool \<Rightarrow> 'v props \<Rightarrow> (bool \<times> 'v props) res" where
  "on_start T F opens s =
     bind (check (pr_current s = None) ()) (\<lambda>_.
     bind (check (pr_previous s = None) ()) (\<lambda>_.
       let (c, s) = new_source (t_empty T) (s\<lparr>pr_generation := 0\<rparr>)
       in bind (read_from_file T F opens (s\<lparr>pr_current := Some c\<rparr>)) (\<lambda>(q, s). case q of
            Loaded g \<Rightarrow> Inr (True, wait_for_file_changes (s\<lparr>pr_epoch := Some g\<rparr>))
          | NotOpened \<Rightarrow> Inr (False, s\<lparr>pr_epoch := None\<rparr>)
          | Thrown \<Rightarrow> Inr (False, s))))"

definition on_stop :: "'v format \<Rightarrow> bool \<Rightarrow> 'v props \<Rightarrow> 'v props res" where
  "on_stop F opens s =
     bind (check (pr_current s \<noteq> None) ()) (\<lambda>_.
     bind (if pr_changes s \<noteq> 0 then write_back F opens s else Inr s) (\<lambda>s.
       Inr (s\<lparr>pr_epoch := None, pr_changes := 0, pr_ignore := False, pr_current := None, pr_previous := None\<rparr>)))"

text \<open>The operations of a generation.\<close>

definition generation_get :: "'v toml \<Rightarrow> generation \<Rightarrow> refl \<Rightarrow> obj \<Rightarrow> string \<Rightarrow> 'v props \<Rightarrow> (bool \<times> obj \<times> message list) res" where
  "generation_get T g r ob key s =
     bind (check (pr_running s) ()) (\<lambda>_. bind (source_of (Some (g_data g)) s) (\<lambda>v.
       bind (source_deserialize T r ob key v) (\<lambda>(_, ob, out). Inr (True, ob, out))))"

definition generation_changed :: "'v toml \<Rightarrow> generation \<Rightarrow> string \<Rightarrow> 'v props \<Rightarrow> bool res" where
  "generation_changed T g key s =
     bind (source_of (Some (g_data g)) s) (\<lambda>v. bind (source_of (Some (g_previous g)) s) (\<lambda>w.
       bind (source_equals T v w key) (\<lambda>b. Inr (\<not> b))))"

definition properties_gt :: "('g \<Rightarrow> size_type) \<Rightarrow> 'g \<Rightarrow> 'g \<Rightarrow> bool" where
  "properties_gt number x y \<longleftrightarrow> number x > number y"

interpretation by_generation: priority "properties_gt number" for number :: "iid \<Rightarrow> size_type"
  by unfold_locales (auto simp: properties_gt_def)

section \<open>The service on the event loop\<close>

text \<open>
  What happens to the service: the engine starts and stops it; a user of a generation pushes an object; the continuation of the debouncer
  or of the file watcher runs, which was made in the given epoch; another program changes the file. The booleans say whether the file can be opened.
\<close>

datatype pinput = Start bool | Stop bool | Push refl obj string | Debounced nat bool | FileEvent nat bool | Edited "string option"

text \<open>An exception that leaves a start hook ends in a panic of the scheduler.\<close>

definition start_service :: "'v toml \<Rightarrow> 'v format \<Rightarrow> bool \<Rightarrow> 'v props \<Rightarrow> 'v props res" where
  "start_service T F opens s = bind (on_start T F opens s) (\<lambda>(ok, s). if ok then Inr (s\<lparr>pr_running := True\<rparr>) else Inl Panic)"

text \<open>Generations are children of the service and stop with it; the last stop of the cluster increments the epoch.\<close>

definition stop_service :: "'v format \<Rightarrow> bool \<Rightarrow> 'v props \<Rightarrow> 'v props res" where
  "stop_service F opens s = bind (on_stop F opens s) (\<lambda>s. Inr (s\<lparr>pr_running := False, pr_life := Suc (pr_life s), pr_published := []\<rparr>))"

definition debounced :: "'v format \<Rightarrow> nat \<Rightarrow> bool \<Rightarrow> 'v props \<Rightarrow> 'v props res" where
  "debounced F l opens s =
     (let s = s\<lparr>pr_commits := remove1 l (pr_commits s)\<rparr> in if pr_running s \<and> l = pr_life s then props_commit F opens s else Inr s)"

definition file_event :: "'v toml \<Rightarrow> 'v format \<Rightarrow> nat \<Rightarrow> bool \<Rightarrow> 'v props \<Rightarrow> 'v props res" where
  "file_event T F l opens s =
     (let s = s\<lparr>pr_watches := remove1 l (pr_watches s)\<rparr> in if pr_running s \<and> l = pr_life s then on_file_changed T F opens s else Inr s)"

fun props_step :: "'v toml \<Rightarrow> 'v format \<Rightarrow> pinput \<Rightarrow> 'v props \<Rightarrow> 'v props res" where
  "props_step T F (Start opens) s = start_service T F opens s"
| "props_step T F (Stop opens) s = stop_service F opens s"
| "props_step T F (Push r ob key) s = props_push T r ob key s"
| "props_step T F (Debounced l opens) s = debounced F l opens s"
| "props_step T F (FileEvent l opens) s = file_event T F l opens s"
| "props_step T F (Edited txt) s = Inr (s\<lparr>pr_file := txt\<rparr>)"

fun enabled :: "pinput \<Rightarrow> 'v props \<Rightarrow> bool" where
  "enabled (Start opens) s = (\<not> pr_running s)"
| "enabled (Stop opens) s = pr_running s"
| "enabled (Push r ob key) s = (pr_running s \<and> wf (ObjectOf r) \<and> storable_refl r \<and> wt (ObjectOf r) ob)"
| "enabled (Debounced l opens) s = (l \<in> set (pr_commits s))"
| "enabled (FileEvent l opens) s = (l \<in> set (pr_watches s))"
| "enabled (Edited txt) s = True"

definition props_init :: "bool \<Rightarrow> string option \<Rightarrow> 'v props" where
  "props_init wb txt = \<lparr>pr_write_back = wb, pr_generation = 0, pr_changes = 0, pr_ignore = False, pr_previous = None, pr_current = None, pr_epoch = None,
     pr_heap = [], pr_file = txt, pr_running = False, pr_life = 0, pr_commits = [], pr_watches = [], pr_published = []\<rparr>"

text \<open>The states after a number of steps.\<close>

inductive props_reach :: "'v toml \<Rightarrow> 'v format \<Rightarrow> nat \<Rightarrow> 'v props \<Rightarrow> bool" for T F where
  init: "props_reach T F 0 (props_init wb txt)"
| step: "props_reach T F n s \<Longrightarrow> enabled i s \<Longrightarrow> props_step T F i s = Inr s' \<Longrightarrow> props_reach T F (Suc n) s'"

section \<open>Closed forms\<close>

lemma source_of_Some [simp]: "c < length (pr_heap s) \<Longrightarrow> source_of (Some c) s = Inr (pr_heap s ! c)"
  by (simp add: source_of_def)

definition push_effect :: "'v \<Rightarrow> nat \<Rightarrow> 'v props \<Rightarrow> 'v props" where
  "push_effect w c s = s\<lparr>pr_heap := (pr_heap s)[c := w], pr_changes := pr_changes s + 1,
     pr_commits := (if pr_changes s = 0 then [pr_life s] else []) @ pr_commits s\<rparr>"

definition loaded :: "'v \<Rightarrow> nat \<Rightarrow> 'v props \<Rightarrow> generation \<times> 'v props" where
  "loaded v c s =
     (let g = \<lparr>g_data = length (pr_heap s), g_previous = c, g_number = pr_generation s\<rparr>
      in (g, s\<lparr>pr_heap := pr_heap s @ [v], pr_previous := Some c, pr_current := Some (length (pr_heap s)),
           pr_generation := pr_generation s + 1, pr_published := g # pr_published s\<rparr>))"

definition committed :: "'v \<Rightarrow> nat \<Rightarrow> 'v props \<Rightarrow> 'v props" where
  "committed v p s =
     (let g = \<lparr>g_data = length (pr_heap s), g_previous = p, g_number = pr_generation s\<rparr>
      in s\<lparr>pr_heap := pr_heap s @ [v], pr_changes := 0, pr_generation := pr_generation s + 1, pr_published := g # pr_published s,
           pr_epoch := Some g, pr_previous := Some (length (pr_heap s))\<rparr>)"

lemma props_push_eq:
  assumes "pr_running s" and "pr_current s = Some c" and "c < length (pr_heap s)" and "source_serialize T r ob key (pr_heap s ! c) = Inr (True, w)"
  shows "props_push T r ob key s = Inr (push_effect w c s)"
  using assms by (simp add: props_push_def assign_source_def push_effect_def Let_def)

definition parsed :: "'v toml \<Rightarrow> 'v format \<Rightarrow> string option \<Rightarrow> 'v option" where
  "parsed T F txt = (case txt of None \<Rightarrow> Some (t_empty T) | Some txt \<Rightarrow> source_read F txt)"

lemma read_from_file_eq:
  assumes "pr_current s = Some c"
  shows "read_from_file T F opens s =
    (if pr_file s \<noteq> None \<and> \<not> opens then Inr (NotOpened, s\<lparr>pr_heap := pr_heap s @ [t_empty T]\<rparr>)
     else case parsed T F (pr_file s) of
         None \<Rightarrow> Inr (Thrown, s\<lparr>pr_heap := pr_heap s @ [t_empty T]\<rparr>)
       | Some v \<Rightarrow> Inr (case loaded v c s of (g, s) \<Rightarrow> (Loaded g, s)))"
  using assms
  by (auto simp: read_from_file_def new_source_def replace_current_def create_generation_def assign_source_def parsed_def loaded_def Let_def
      split: option.splits)

lemma empty_ok: "toml_laws T \<Longrightarrow> source_ok T (t_empty T)"
  by (simp add: source_ok_def laws)

lemma parsed_ok:
  assumes "toml_laws T" and "format_laws T F" and "parsed T F disk = Some v"
  shows "source_ok T v"
proof (cases disk)
  case None
  with assms(1,3) show ?thesis using empty_ok by (auto simp: parsed_def)
next
  case (Some u)
  with assms(2,3) have "is_table T v" by (auto simp: parsed_def source_read_def format_laws_def)
  then show ?thesis by (rule table_ok)
qed

definition written :: "'v format \<Rightarrow> bool \<Rightarrow> 'v \<Rightarrow> 'v props \<Rightarrow> 'v props" where
  "written F opens v s = s\<lparr>pr_ignore := pr_write_back s \<or> pr_ignore s,
     pr_file := if pr_write_back s \<and> opens then Some (source_write F v) else pr_file s\<rparr>"

lemma write_back_eq:
  assumes "pr_current s = Some c" and "c < length (pr_heap s)"
  shows "write_back F opens s = Inr (written F opens (pr_heap s ! c) s)"
  using assms by (cases s) (auto simp: write_back_def written_def write_to_file_def source_of_def Let_def)

lemma props_commit_eq:
  assumes "pr_changes s \<noteq> 0" and "pr_current s = Some c" and "c < length (pr_heap s)" and "pr_previous s = Some p"
  shows "props_commit F opens s = Inr (committed (pr_heap s ! c) p (written F opens (pr_heap s ! c) s))"
  using assms by (simp add: props_commit_def write_back_eq [where c = c] new_source_def create_generation_def committed_def written_def Let_def)

lemma on_stop_eq:
  assumes "pr_current s = Some c" and "c < length (pr_heap s)"
  shows "on_stop F opens s = Inr ((if pr_changes s \<noteq> 0 then written F opens (pr_heap s ! c) s else s)
    \<lparr>pr_epoch := None, pr_changes := 0, pr_ignore := False, pr_current := None, pr_previous := None\<rparr>)"
  using assms by (simp add: on_stop_def write_back_eq [where c = c])

section \<open>The invariant of the service\<close>

definition sources_ok :: "'v toml \<Rightarrow> 'v props \<Rightarrow> bool" where
  "sources_ok T s \<longleftrightarrow> (\<forall>v \<in> set (pr_heap s). source_ok T v)
   \<and> (\<forall>c. pr_current s = Some c \<longrightarrow> c < length (pr_heap s)) \<and> (\<forall>p. pr_previous s = Some p \<longrightarrow> p < length (pr_heap s))
   \<and> (\<forall>g \<in> set (pr_published s). g_data g < length (pr_heap s) \<and> g_previous g < length (pr_heap s))"

definition phase_ok :: "'v props \<Rightarrow> bool" where
  "phase_ok s \<longleftrightarrow> (if pr_running s then pr_current s \<noteq> None \<and> pr_previous s \<noteq> None \<and> pr_previous s \<noteq> pr_current s
       \<and> pr_published s \<noteq> [] \<and> pr_epoch s = Some (hd (pr_published s))
     else pr_current s = None \<and> pr_previous s = None \<and> pr_epoch s = None \<and> pr_published s = [] \<and> pr_changes s = 0)"

definition waits_ok :: "'v props \<Rightarrow> bool" where
  "waits_ok s \<longleftrightarrow> (\<forall>l \<in> set (pr_commits s) \<union> set (pr_watches s). l \<le> pr_life s)
   \<and> count_list (pr_commits s) (pr_life s) = (if pr_running s \<and> pr_changes s \<noteq> 0 then 1 else 0)
   \<and> count_list (pr_watches s) (pr_life s) \<le> (if pr_running s then 1 else 0)"

definition numbers_ok :: "nat \<Rightarrow> 'v props \<Rightarrow> bool" where
  "numbers_ok n s \<longleftrightarrow> unat (pr_changes s) \<le> n \<and> unat (pr_generation s) \<le> n
   \<and> (\<forall>g \<in> set (pr_published s). g_number g < pr_generation s) \<and> sorted_wrt (properties_gt g_number) (pr_published s)"

definition props_inv :: "'v toml \<Rightarrow> nat \<Rightarrow> 'v props \<Rightarrow> bool" where
  "props_inv T n s \<longleftrightarrow> sources_ok T s \<and> phase_ok s \<and> waits_ok s \<and> numbers_ok n s"

lemmas inv_defs = props_inv_def sources_ok_def phase_ok_def waits_ok_def numbers_ok_def

lemma count_remove1: "count_list (remove1 x xs) y = count_list xs y - (if x = y then 1 else 0)"
  by (induction xs) (auto simp: count_list_0_iff)

lemma next_number:
  assumes "unat (x :: size_type) \<le> n" and "n < 2 ^ 64 - 1"
  shows "unat (x + 1) = Suc (unat x)" "x + 1 \<noteq> 0" "x < x + 1" "y < x \<Longrightarrow> y < x + 1"
proof -
  show u: "unat (x + 1) = Suc (unat x)" using assms by (simp add: unat_word_ariths)
  show "x + 1 \<noteq> 0" using u by (metis unat_0 nat.distinct(1))
  show "x < x + 1" using u by (simp add: word_less_nat_alt)
  show "y < x \<Longrightarrow> y < x + 1" using u by (simp add: word_less_nat_alt)
qed

lemma inv_more: "props_inv T n s \<Longrightarrow> props_inv T (Suc n) s"
  by (auto simp: inv_defs)

text \<open>Every operation keeps the parts of the invariant.\<close>

lemma sources_append: "sources_ok T s \<Longrightarrow> source_ok T v \<Longrightarrow> sources_ok T (s\<lparr>pr_heap := pr_heap s @ [v]\<rparr>)"
  by (auto simp: sources_ok_def less_Suc_eq)

lemma inv_loaded:
  assumes "sources_ok T s" and "source_ok T v" and "pr_current s = Some c" and "waits_ok s" and "numbers_ok n s" and "n < 2 ^ 64 - 1" and "loaded v c s = (g, s')"
  shows "sources_ok T s'" "waits_ok s'" "numbers_ok (Suc n) s'" "pr_published s' = g # pr_published s" "pr_current s' = Some (length (pr_heap s))"
    "pr_previous s' = Some c" "pr_running s' = pr_running s" "pr_changes s' = pr_changes s" "pr_life s' = pr_life s" "c \<noteq> length (pr_heap s)"
  using assms next_number [of "pr_generation s" n]
  by (auto simp: loaded_def Let_def inv_defs less_Suc_eq properties_gt_def)

lemma inv_push:
  assumes "props_inv T n s" and "n < 2 ^ 64 - 1" and "pr_running s" and "pr_current s = Some c" and "source_ok T w"
  shows "props_inv T (Suc n) (push_effect w c s)"
  using assms next_number [of "pr_changes s" n]
  by (auto simp: push_effect_def inv_defs dest!: set_update_subset_insert [THEN subsetD])

lemma inv_written: "props_inv T n (written F opens v s) = props_inv T n s"
  by (simp add: written_def inv_defs)

lemma written_commits: "written F opens v (s\<lparr>pr_commits := ls\<rparr>) = (written F opens v s)\<lparr>pr_commits := ls\<rparr>"
  by (cases s) (simp add: written_def)

lemma inv_committed:
  assumes "props_inv T n s" and "n < 2 ^ 64 - 1" and "pr_running s" and "pr_changes s \<noteq> 0" and "pr_previous s = Some p" and "source_ok T v"
  shows "props_inv T (Suc n) (committed v p (s\<lparr>pr_commits := remove1 (pr_life s) (pr_commits s)\<rparr>))"
  using assms next_number [of "pr_generation s" n]
  by (auto simp: committed_def Let_def inv_defs less_Suc_eq properties_gt_def count_remove1 dest: notin_set_remove1 set_remove1_subset [THEN subsetD])

text \<open>One lemma per event: it does not fail and keeps the invariant.\<close>

lemma running_refs:
  assumes "props_inv T n s" and "pr_running s"
  obtains c p where "pr_current s = Some c" "pr_previous s = Some p" "c \<noteq> p" "c < length (pr_heap s)" "p < length (pr_heap s)" "source_ok T (pr_heap s ! c)"
  using assms by (auto simp: inv_defs)

lemma push_step:
  assumes T: "toml_laws T" and "props_inv T n s" and "n < 2 ^ 64 - 1" and "enabled (Push r ob key) s"
  shows "\<exists>s'. props_push T r ob key s = Inr s' \<and> props_inv T (Suc n) s'"
proof -
  from assms(4) have e: "pr_running s" "wf (ObjectOf r)" "storable_refl r" "wt (ObjectOf r) ob" by auto
  from running_refs [OF assms(2) e(1)] obtain c where c: "pr_current s = Some c" "c < length (pr_heap s)" "source_ok T (pr_heap s ! c)" by metis
  obtain ks where ks: "scope_tokens key = Some ks" using scope_tokens_total by blast
  from e(4) obtain fs where "ob = OObject fs" by (auto split: obj.splits)
  with source_serialize_rep [OF T c(3) ks e(2,3)] e(4) source_ok_update [OF T c(3)]
  obtain w where w: "source_serialize T r ob key (pr_heap s ! c) = Inr (True, w)" "source_ok T w" by metis
  show ?thesis using props_push_eq [OF e(1) c(1,2) w(1)] inv_push [OF assms(2,3) e(1) c(1) w(2)] by simp
qed

lemma debounced_step:
  assumes "props_inv T n s" and "n < 2 ^ 64 - 1" and "enabled (Debounced l opens) s"
  shows "\<exists>s'. debounced F l opens s = Inr s' \<and> props_inv T (Suc n) s'"
proof (cases "pr_running s \<and> l = pr_life s")
  case True
  from running_refs [OF assms(1)] True obtain c p where r: "pr_current s = Some c" "pr_previous s = Some p" "c < length (pr_heap s)" "source_ok T (pr_heap s ! c)" by metis
  have "count_list (pr_commits s) (pr_life s) \<noteq> 0" using True assms(3) by (simp add: count_list_0_iff)
  then have ch: "pr_changes s \<noteq> 0" using assms(1) by (auto simp: inv_defs split: if_splits)
  let ?s = "s\<lparr>pr_commits := remove1 (pr_life s) (pr_commits s)\<rparr>" and ?w = "written F opens (pr_heap s ! c) s"
  have "props_commit F opens ?s = Inr (committed (pr_heap s ! c) p (?w\<lparr>pr_commits := remove1 (pr_life ?w) (pr_commits ?w)\<rparr>))"
    using props_commit_eq [of ?s c p F opens] ch r by (simp add: written_commits) (simp add: written_def)
  moreover have "props_inv T (Suc n) (committed (pr_heap s ! c) p (?w\<lparr>pr_commits := remove1 (pr_life ?w) (pr_commits ?w)\<rparr>))"
    using assms(1) True ch r by (intro inv_committed [OF _ assms(2)]) (simp_all add: inv_written, simp_all add: written_def)
  ultimately show ?thesis using True by (simp add: debounced_def)
next
  case False
  moreover have "props_inv T (Suc n) (s\<lparr>pr_commits := remove1 l (pr_commits s)\<rparr>)"
    using False assms by (auto simp: inv_defs count_remove1 dest: notin_set_remove1 set_remove1_subset [THEN subsetD])
  ultimately show ?thesis by (auto simp: debounced_def Let_def)
qed

lemma inv_wait: "props_inv T n s \<Longrightarrow> pr_running s \<Longrightarrow> count_list (pr_watches s) (pr_life s) = 0 \<Longrightarrow> props_inv T n (wait_for_file_changes s)"
  by (auto simp: inv_defs wait_for_file_changes_def)

lemma inv_append: "props_inv T n s \<Longrightarrow> source_ok T v \<Longrightarrow> props_inv T n (s\<lparr>pr_heap := pr_heap s @ [v]\<rparr>)"
  using sources_append [of T s v] by (simp add: props_inv_def phase_ok_def waits_ok_def numbers_ok_def)

lemma epoch_frame:
  "sources_ok T (s\<lparr>pr_epoch := x\<rparr>) = sources_ok T s" "waits_ok (s\<lparr>pr_epoch := x\<rparr>) = waits_ok s" "numbers_ok n (s\<lparr>pr_epoch := x\<rparr>) = numbers_ok n s"
  by (simp_all add: inv_defs)

lemma file_event_step:
  assumes T: "toml_laws T" and F: "format_laws T F" and "props_inv T n s" and n: "n < 2 ^ 64 - 1" and "enabled (FileEvent l opens) s"
  shows "\<exists>s'. file_event T F l opens s = Inr s' \<and> props_inv T (Suc n) s'"
proof -
  define u where "u = s\<lparr>pr_watches := remove1 l (pr_watches s)\<rparr>"
  have u: "props_inv T n u" "pr_running u = pr_running s" "pr_life u = pr_life s"
    using assms(3) by (auto simp: u_def inv_defs count_remove1 dest: notin_set_remove1 set_remove1_subset [THEN subsetD])
  show ?thesis
  proof (cases "pr_running s \<and> l = pr_life s")
    case False
    then show ?thesis using inv_more [OF u(1)] by (auto simp: file_event_def u_def Let_def)
  next
    case True
    then have w: "count_list (pr_watches u) (pr_life u) = 0" using assms(3) by (auto simp: u_def inv_defs count_remove1)
    from running_refs [OF u(1)] True u(2) obtain c where c: "pr_current u = Some c" by metis
    have "\<exists>s'. on_file_changed T F opens u = Inr s' \<and> props_inv T (Suc n) s'"
    proof (cases "pr_ignore u")
      case ign: True
      have "props_inv T (Suc n) (wait_for_file_changes (u\<lparr>pr_ignore := False\<rparr>))"
        using u w True by (intro inv_wait) (auto simp: inv_defs)
      with ign show ?thesis by (simp add: on_file_changed_def)
    next
      case ign: False
      note rd = read_from_file_eq [OF c, of T F opens]
      have e: "props_inv T (Suc n) (u\<lparr>pr_heap := pr_heap u @ [t_empty T]\<rparr>)" using inv_more [OF inv_append [OF u(1) empty_ok [OF T]]] .
      consider "pr_file u \<noteq> None \<and> \<not> opens" | "\<not> (pr_file u \<noteq> None \<and> \<not> opens)" "parsed T F (pr_file u) = None"
        | v where "\<not> (pr_file u \<noteq> None \<and> \<not> opens)" "parsed T F (pr_file u) = Some v" by fastforce
      then show ?thesis
      proof cases
        case 1
        then show ?thesis using rd ign inv_wait [OF e] w u True by (simp add: on_file_changed_def)
      next
        case 2
        then show ?thesis using rd ign e by (auto simp: on_file_changed_def)
      next
        case 3
        obtain g s' where l: "loaded v c u = (g, s')" by fastforce
        have i: "sources_ok T u" "waits_ok u" "numbers_ok n u" using u(1) by (simp_all add: props_inv_def)
        note s' = inv_loaded [OF i(1) parsed_ok [OF T F 3(2)] c i(2,3) n l]
        have "props_inv T (Suc n) (s'\<lparr>pr_epoch := Some g\<rparr>)"
          using s' u(2) True unfolding props_inv_def by (simp add: epoch_frame phase_ok_def)
        moreover have "count_list (pr_watches s') (pr_life s') = 0" using w l by (auto simp: loaded_def Let_def)
        ultimately have "props_inv T (Suc n) (wait_for_file_changes (s'\<lparr>pr_epoch := Some g\<rparr>))"
          using s' u(2) True by (intro inv_wait) simp_all
        moreover have "on_file_changed T F opens u = Inr (wait_for_file_changes (s'\<lparr>pr_epoch := Some g\<rparr>))"
          unfolding on_file_changed_def rd if_not_P [OF 3(1)] 3(2) using ign l by simp
        ultimately show ?thesis by simp
      qed
    qed
    then show ?thesis using True u_def by (simp add: file_event_def)
  qed
qed

text \<open>A start can load the file unless the file exists and cannot be opened or parsed.\<close>

definition loadable :: "'v toml \<Rightarrow> 'v format \<Rightarrow> bool \<Rightarrow> 'v props \<Rightarrow> bool" where
  "loadable T F opens s \<longleftrightarrow> \<not> (pr_file s \<noteq> None \<and> \<not> opens) \<and> parsed T F (pr_file s) \<noteq> None"

lemma start_eq:
  assumes "pr_current s = None" and "pr_previous s = None" and "u = s\<lparr>pr_generation := 0, pr_heap := pr_heap s @ [t_empty T], pr_current := Some (length (pr_heap s))\<rparr>"
  shows "\<not> loadable T F opens s \<Longrightarrow> start_service T F opens s = Inl Panic"
    "loadable T F opens s \<Longrightarrow> parsed T F (pr_file s) = Some v \<Longrightarrow> loaded v (length (pr_heap s)) u = (g, s')
      \<Longrightarrow> start_service T F opens s = Inr ((wait_for_file_changes (s'\<lparr>pr_epoch := Some g\<rparr>))\<lparr>pr_running := True\<rparr>)"
proof -
  have c: "pr_current u = Some (length (pr_heap s))" "pr_file u = pr_file s" by (simp_all add: assms(3))
  have st: "on_start T F opens s = bind (read_from_file T F opens u) (\<lambda>(q, s). case q of
      Loaded g \<Rightarrow> Inr (True, wait_for_file_changes (s\<lparr>pr_epoch := Some g\<rparr>)) | NotOpened \<Rightarrow> Inr (False, s\<lparr>pr_epoch := None\<rparr>) | Thrown \<Rightarrow> Inr (False, s))"
    using assms by (simp add: on_start_def new_source_def)
  note rd = read_from_file_eq [OF c(1), of T F opens]
  show "start_service T F opens s = Inl Panic" if "\<not> loadable T F opens s"
  proof (cases "pr_file s \<noteq> None \<and> \<not> opens")
    case True
    show ?thesis unfolding start_service_def st rd c(2) if_P [OF True] by simp
  next
    case False
    then have "parsed T F (pr_file s) = None" using that by (simp add: loadable_def)
    then show ?thesis unfolding start_service_def st rd c(2) if_not_P [OF False] by simp
  qed
  show "start_service T F opens s = Inr ((wait_for_file_changes (s'\<lparr>pr_epoch := Some g\<rparr>))\<lparr>pr_running := True\<rparr>)"
    if l: "loadable T F opens s" "parsed T F (pr_file s) = Some v" "loaded v (length (pr_heap s)) u = (g, s')"
  proof -
    have "\<not> (pr_file s \<noteq> None \<and> \<not> opens)" using l(1) by (simp add: loadable_def)
    then show ?thesis unfolding start_service_def st rd c(2) l(2) using l(3) by (simp only: if_not_P) simp
  qed
qed

lemma start_step:
  assumes T: "toml_laws T" and F: "format_laws T F" and "props_inv T n s" and n: "n < 2 ^ 64 - 1" and "\<not> pr_running s" and "loadable T F opens s"
  shows "\<exists>s'. start_service T F opens s = Inr s' \<and> props_inv T (Suc n) s'"
proof -
  define u where "u = s\<lparr>pr_generation := 0, pr_heap := pr_heap s @ [t_empty T], pr_current := Some (length (pr_heap s))\<rparr>"
  have p: "pr_current s = None" "pr_previous s = None" "pr_published s = []" "pr_changes s = 0" using assms(3,5) by (simp_all add: inv_defs)
  obtain v where v: "parsed T F (pr_file s) = Some v" using assms(6) by (auto simp: loadable_def)
  obtain g s' where l: "loaded v (length (pr_heap s)) u = (g, s')" by fastforce
  have i: "sources_ok T u" "waits_ok u" "numbers_ok n u" using assms(3,5) empty_ok [OF T] by (auto simp: u_def inv_defs less_Suc_eq)
  have c: "pr_current u = Some (length (pr_heap s))" by (simp add: u_def)
  note s' = inv_loaded [OF i(1) parsed_ok [OF T F v] c i(2,3) n l]
  let ?t = "(wait_for_file_changes (s'\<lparr>pr_epoch := Some g\<rparr>))\<lparr>pr_running := True\<rparr>"
  have "waits_ok ?t" "pr_changes ?t = 0" using assms(3,5) p l by (auto simp: u_def loaded_def Let_def wait_for_file_changes_def inv_defs)
  then have "props_inv T (Suc n) ?t"
    using s'(1,3-6,10) unfolding props_inv_def by (simp add: sources_ok_def numbers_ok_def phase_ok_def wait_for_file_changes_def)
  with start_eq(2) [OF p(1,2) u_def assms(6) v l] show ?thesis by simp
qed

lemma stop_step:
  assumes "props_inv T n s" and "pr_running s"
  shows "\<exists>s'. stop_service F opens s = Inr s' \<and> props_inv T (Suc n) s'"
proof -
  from running_refs [OF assms] obtain c where c: "pr_current s = Some c" "c < length (pr_heap s)" by metis
  have "count_list ls (Suc m) = 0" if "\<forall>l \<in> set ls. l \<le> m" for ls m using that by (auto simp: count_list_0_iff)
  then show ?thesis using assms on_stop_eq [OF c, of F opens] by (auto simp: stop_service_def written_def inv_defs intro: le_SucI)
qed

lemma props_step_ok:
  assumes "toml_laws T" and "format_laws T F" and "props_inv T n s" and "n < 2 ^ 64 - 1" and "enabled i s"
    and "\<And>opens. i = Start opens \<Longrightarrow> loadable T F opens s"
  shows "\<exists>s'. props_step T F i s = Inr s' \<and> props_inv T (Suc n) s'"
proof (cases i)
  case (Start opens)
  then show ?thesis using start_step [OF assms(1-4)] assms(5,6) by simp
next
  case (Stop opens)
  then show ?thesis using stop_step [OF assms(3)] assms(5) by simp
next
  case (Push r ob key)
  then show ?thesis using push_step [OF assms(1,3,4)] assms(5) by simp
next
  case (Debounced l opens)
  then show ?thesis using debounced_step [OF assms(3,4)] assms(5) by simp
next
  case (FileEvent l opens)
  then show ?thesis using file_event_step [OF assms(1-4)] assms(5) by simp
next
  case (Edited f)
  then show ?thesis using inv_more [OF assms(3)] by (simp add: inv_defs)
qed

lemma not_loadable_panics:
  assumes "props_inv T n s" and "\<not> pr_running s" and "\<not> loadable T F opens s"
  shows "start_service T F opens s = Inl Panic"
  using start_eq(1) [OF _ _ refl assms(3)] assms(1,2) by (simp add: inv_defs)

lemma reach_inv:
  assumes "props_reach T F n s" and "toml_laws T" and "format_laws T F" and "n < 2 ^ 64"
  shows "props_inv T n s"
  using assms
proof (induction rule: props_reach.induct)
  case (init wb f)
  then show ?case by (simp add: inv_defs props_init_def)
next
  case (step n s i s')
  then have inv: "props_inv T n s" by simp
  have "loadable T F opens s" if "i = Start opens" for opens
    using not_loadable_panics [OF inv, of F opens] step.hyps(2,3) that by fastforce
  then show ?case using props_step_ok [OF step.prems(1,2) inv, of i] step by auto
qed

end
