(* ===== verification/Properties_Theorems.thy ===== *)
theory Properties_Theorems
  imports Reloadable_Properties
begin

text \<open>
  The properties of the properties service: what a key holds after a change of another key, that no assertion of the service fails, that pushed
  values are published and survive a restart, what a published generation shows, and where the service does not do what it means to. They are
  applied to a format with a single text.
\<close>

section \<open>An instance\<close>

definition ex_written :: tv where
  "ex_written = (case source_serialize tv_toml ex_refl ex_ob ''net.main'' (t_empty tv_toml) of Inr (_, w) \<Rightarrow> w | Inl _ \<Rightarrow> t_empty tv_toml)"

definition ex_format :: "tv format" where
  "ex_format = \<lparr>f_parse = (\<lambda>txt. if txt = ''v'' @ [newline] then Some ex_written else None), f_format = (\<lambda>v. ''v''), f_trim = (\<lambda>txt. txt)\<rparr>"

lemma ex_written_ok: "source_serialize tv_toml ex_refl ex_ob ''net.main'' (t_empty tv_toml) = Inr (True, ex_written)" "source_ok tv_toml ex_written"
  using source_set_get [OF tv_laws empty_ok [OF tv_laws] ex_typed, of "''net.main''"] by (auto simp: ex_written_def)

lemma view_tokens: "length key < 2 ^ 64 \<Longrightarrow> scope_tokens key = Some (takeWhile (\<lambda>t. t \<noteq> []) (split_list CHR ''.'' key))"
proof -
  assume l: "length key < 2 ^ 64"
  then have "unat (of_nat (length key) :: size_type) = length key" by (simp add: unat_of_nat)
  then have "wf_span (view key)" "content (view key) = key" by (simp_all add: wf_span_def view_def content_def)
  with span_tokens_eq [of "view key" "CHR ''.''"] show ?thesis by (auto simp: scope_tokens_def)
qed

lemma ex_tokens: "scope_tokens ''net.main'' = Some [''net'', ''main'']" "scope_tokens ''net'' = Some [''net'']" "scope_tokens ''log'' = Some [''log'']"
  by (subst view_tokens, simp_all)+

lemma ex_written_eq:
  obtains w where "ex_written = update_at tv_toml (map Key [''net'', ''main'']) (\<lambda>_. w) (opened_scope tv_toml [''net'', ''main''] (t_empty tv_toml))"
    "adds tv_toml (all_fields ex_refl) (innermost tv_toml [''net'', ''main''] (t_empty tv_toml)) w"
proof -
  obtain fs where o: "ex_ob = OObject fs" by (simp add: ex_ob_def)
  from source_serialize_rep [OF tv_laws empty_ok [OF tv_laws] ex_tokens(1) ex_typed(1,2), of fs] ex_typed(4) o obtain w where
    w: "source_serialize tv_toml ex_refl ex_ob ''net.main'' (t_empty tv_toml) = Inr (True, update_at tv_toml (map Key [''net'', ''main'']) (\<lambda>_. w) (opened_scope tv_toml [''net'', ''main''] (t_empty tv_toml)))"
      "adds tv_toml (all_fields ex_refl) (innermost tv_toml [''net'', ''main''] (t_empty tv_toml)) w"
    by metis
  from w(1) have "ex_written = update_at tv_toml (map Key [''net'', ''main'']) (\<lambda>_. w) (opened_scope tv_toml [''net'', ''main''] (t_empty tv_toml))"
    by (simp add: ex_written_def del: opened_scope.simps)
  from this w(2) show thesis by (rule that)
qed

lemma ex_file: "source_read ex_format (''v'' @ [newline]) = Some ex_written"
  by (simp add: source_read_def consume_shebang_def newline_def ex_format_def starts_with_def view_def)

lemma ex_format_laws: "format_laws tv_toml ex_format"
proof -
  obtain w where "ex_written = update_at tv_toml (map Key [''net'', ''main'']) (\<lambda>_. w) (opened_scope tv_toml [''net'', ''main''] (t_empty tv_toml))" by (rule ex_written_eq)
  moreover have "is_table tv_toml (update_at tv_toml (map Key [''net'', ''main'']) (\<lambda>_. w) (opened_scope tv_toml [''net'', ''main''] (t_empty tv_toml)))"
    by (rule is_table_update [OF tv_laws]) simp
  ultimately have "is_table tv_toml ex_written" by (rule ssubst)
  then show ?thesis by (simp add: format_laws_def ex_format_def)
qed

section \<open>Keys\<close>

text \<open>
  C22. Writing an object under a key never fails, and leaves every key alone that neither encloses that key nor leads into one of the object's fields: it addresses the same
  value as before, and every object that is read from it stays the same.
\<close>

theorem set_keeps_other_keys:
  assumes "toml_laws T" and "source_ok T v" and "wf (ObjectOf r)" and "storable_refl r" and "wt (ObjectOf r) ob"
    and "scope_tokens key = Some ks" and "scope_tokens key' = Some ks'" and "apart ks r ks'"
  shows "\<exists>w. source_serialize T r ob key v = Inr (True, w) \<and> source_ok T w \<and> find_scope T w key' = find_scope T v key'
    \<and> (\<forall>r' ob'. source_deserialize T r' ob' key' w = source_deserialize T r' ob' key' v)"
proof -
  from assms(5) obtain fs where o: "ob = OObject fs" by (auto split: obj.splits)
  from source_serialize_rep [OF assms(1,2,6,3,4), of fs] assms(5) o obtain w where
    w: "source_serialize T r ob key v = Inr (True, update_at T (map Key ks) (\<lambda>_. w) (opened_scope T ks v))" "adds T (all_fields r) (innermost T ks v) w"
    by blast
  have "find_scope T (update_at T (map Key ks) (\<lambda>_. w) (opened_scope T ks v)) key' = find_scope T v key'"
    using find_apart [OF assms(1,8) w(2)] assms(7) by (simp add: find_scope_def)
  with w source_ok_update [OF assms(1,2) w(2)] show ?thesis by (simp add: source_deserialize_def)
qed

theorem set_keeps_other_keys_witness:
  "\<exists>w. source_serialize tv_toml ex_refl ex_ob ''net'' ex_written = Inr (True, w)
    \<and> source_deserialize tv_toml ex_refl ex_default ''net.main'' w = source_deserialize tv_toml ex_refl ex_default ''net.main'' ex_written"
proof -
  have "apart [''net''] ex_refl [''net'', ''main'']" by (simp add: apart_def ex_refl_def)
  from set_keeps_other_keys [OF tv_laws ex_written_ok(2) ex_typed(1,2,4) ex_tokens(2,1) this] show ?thesis by blast
qed

section \<open>The service\<close>


lemma ex_reach: "props_reach tv_toml ex_format 0 (props_init True None)"
  by (rule props_reach.init)


lemma push_result:
  assumes T: "toml_laws T" and "source_ok T v" and "wf (ObjectOf r)" and "storable_refl r" and "readable_refl r" and "wt (ObjectOf r) ob" and "wt (ObjectOf r) ob'"
    and "source_serialize T r ob key v = Inr (True, w)"
  shows "source_ok T w" "source_deserialize T r ob' key w = Inr (True, ob, [])"
  using source_set_get [OF assms(1-7), of key] assms(8) by auto

lemma start_loads:
  assumes "pr_current s = None" and "pr_previous s = None" and "pr_file s = None \<or> opens" and "parsed T F (pr_file s) = Some v"
  shows "\<exists>s' g. start_service T F opens s = Inr s' \<and> pr_running s' \<and> pr_epoch s' = Some g \<and> g_data g = Suc (length (pr_heap s)) \<and> g_previous g = length (pr_heap s)
    \<and> pr_heap s' = pr_heap s @ [t_empty T, v] \<and> pr_current s' = Some (g_data g) \<and> pr_previous s' = Some (g_previous g) \<and> pr_changes s' = pr_changes s \<and> pr_write_back s' = pr_write_back s \<and> pr_life s' = pr_life s
    \<and> pr_ignore s' = pr_ignore s \<and> pr_life s \<in> set (pr_watches s') \<and> pr_published s' = g # pr_published s"
proof -
  define u where "u = s\<lparr>pr_generation := 0, pr_heap := pr_heap s @ [t_empty T], pr_current := Some (length (pr_heap s))\<rparr>"
  obtain g s' where l: "loaded v (length (pr_heap s)) u = (g, s')" by fastforce
  have "loadable T F opens s" using assms(3,4) by (auto simp: loadable_def)
  from start_eq(2) [OF assms(1,2) u_def this assms(4) l] l show ?thesis
    by (auto simp: u_def loaded_def Let_def wait_for_file_changes_def)
qed

text \<open>Pushing and committing: the state after the commit in terms of the written value.\<close>

lemma push_commit:
  assumes "toml_laws T" and "format_laws T F" and "props_reach T F n s" and "n < 2 ^ 64 - 2" and "pr_running s"
    and "pr_current s = Some c" and "source_serialize T r ob key (pr_heap s ! c) = Inr (True, w)"
  obtains s1 s2 g where "props_push T r ob key s = Inr s1" "debounced F (pr_life s) opens s1 = Inr s2" "pr_epoch s2 = Some g" "source_of (Some (g_data g)) s2 = Inr w"
    "pr_running s2" "pr_current s2 = Some c" "c < length (pr_heap s2)" "pr_changes s2 = 0"
    "pr_write_back s \<Longrightarrow> opens \<Longrightarrow> pr_file s2 = Some (source_write F w)"
proof -
  have inv: "props_inv T n s" using reach_inv [OF assms(3,1,2)] assms(4) by simp
  from running_refs [OF inv assms(5)] assms(6) obtain p where c: "pr_previous s = Some p" "c < length (pr_heap s)" by auto
  define s1 where "s1 = push_effect w c s"
  have push: "props_push T r ob key s = Inr s1" unfolding s1_def by (rule props_push_eq [OF assms(5,6) c(2) assms(7)])
  have s1: "pr_heap s1 ! c = w" "c < length (pr_heap s1)" "pr_current s1 = Some c" "pr_previous s1 = Some p" "pr_running s1" "pr_life s1 = pr_life s"
    "pr_write_back s1 = pr_write_back s" "pr_changes s1 \<noteq> 0"
    using assms(4,5,6) c inv next_number(2) [of "pr_changes s" n] by (simp_all add: s1_def push_effect_def inv_defs)
  define u where "u = s1\<lparr>pr_commits := remove1 (pr_life s) (pr_commits s1)\<rparr>"
  define s2 where "s2 = committed w p (written F opens w u)"
  have com: "debounced F (pr_life s) opens s1 = Inr s2" using props_commit_eq [of u c p F opens] s1 by (simp add: debounced_def u_def s2_def)
  obtain g where g: "pr_epoch s2 = Some g" "g_data g = length (pr_heap s1)" "pr_heap s2 = pr_heap s1 @ [w]" by (simp add: s2_def committed_def written_def u_def Let_def)
  show thesis
    by (rule that [OF push com g(1)]) (use s1 g(2,3) in \<open>simp_all add: s2_def committed_def written_def u_def Let_def source_of_def\<close>)
qed

text \<open>
  C19. A pushed object is published and survives a restart: after the commit the new generation gives back the object under its key, the
  service can be stopped and started again, and then the generation that was read from the file gives back the object as well, provided
  that the library parses the text that it formatted from the value.
\<close>

theorem pushed_value_survives_restart:
  assumes "toml_laws T" and "format_laws T F" and "props_reach T F n s" and "n < 2 ^ 64 - 2" and "pr_running s" and "pr_write_back s"
    and "wf (ObjectOf r)" and "storable_refl r" and "readable_refl r" and "wt (ObjectOf r) ob" and "wt (ObjectOf r) ob'"
    and "pr_current s = Some c" and "source_serialize T r ob key (pr_heap s ! c) = Inr (True, w)"
    and "f_parse F (f_trim F (f_format F w) @ [newline]) = Some w"
  shows "\<exists>s1 s2 s3 s4 g h. props_push T r ob key s = Inr s1 \<and> debounced F (pr_life s) True s1 = Inr s2
    \<and> pr_epoch s2 = Some g \<and> generation_get T g r ob' key s2 = Inr (True, ob, [])
    \<and> stop_service F True s2 = Inr s3 \<and> start_service T F True s3 = Inr s4
    \<and> pr_epoch s4 = Some h \<and> generation_get T h r ob' key s4 = Inr (True, ob, [])"
proof -
  have inv: "props_inv T n s" using reach_inv [OF assms(3,1,2)] assms(4) by simp
  from running_refs [OF inv assms(5)] assms(12) have "source_ok T (pr_heap s ! c)" by auto
  note w = push_result [OF assms(1) this assms(7-11,13)]
  obtain s1 s2 g where s: "props_push T r ob key s = Inr s1" "debounced F (pr_life s) True s1 = Inr s2" and g: "pr_epoch s2 = Some g" "source_of (Some (g_data g)) s2 = Inr w"
    and s2: "pr_running s2" "pr_current s2 = Some c" "c < length (pr_heap s2)" "pr_changes s2 = 0" "pr_file s2 = Some (source_write F w)"
    by (rule push_commit [OF assms(1-5,12,13), where opens = True]) (use assms(6) in auto)
  have get: "generation_get T g r ob' key s2 = Inr (True, ob, [])" using g s2(1) w by (simp add: generation_get_def)
  define s3 where "s3 = s2\<lparr>pr_epoch := None, pr_changes := 0, pr_ignore := False, pr_current := None, pr_previous := None, pr_running := False,
    pr_life := Suc (pr_life s2), pr_published := []\<rparr>"
  have stop: "stop_service F True s2 = Inr s3"
    using on_stop_eq [OF s2(2,3), of F True] s2(4) by (simp add: stop_service_def s3_def)
  have "parsed T F (pr_file s3) = Some w" using s2(5) assms(14) by (simp add: s3_def parsed_def shebang_read_write)
  from start_loads [OF _ _ _ this, of True] obtain s4 h where h: "start_service T F True s3 = Inr s4" "pr_running s4" "pr_epoch s4 = Some h"
    "g_data h = Suc (length (pr_heap s3))" "pr_heap s4 = pr_heap s3 @ [t_empty T, w]" by (auto simp: s3_def)
  have "generation_get T h r ob' key s4 = Inr (True, ob, [])" using h w by (simp add: generation_get_def nth_append)
  with s g(1) get stop h show ?thesis by blast
qed

lemma ex_started:
  obtains s where "props_reach tv_toml ex_format 1 s" "pr_running s" "pr_write_back s" "pr_current s = Some 1" "pr_heap s ! 1 = t_empty tv_toml"
    "pr_life s \<in> set (pr_watches s)" "\<not> pr_ignore s" "\<exists>g. pr_published s = [g]"
proof -
  from start_loads [of "props_init True None" True tv_toml ex_format "t_empty tv_toml"] obtain s where
    s: "start_service tv_toml ex_format True (props_init True None) = Inr s" "pr_running s" "pr_write_back s" "pr_current s = Some 1" "pr_heap s ! 1 = t_empty tv_toml"
    "pr_life s \<in> set (pr_watches s)" "\<not> pr_ignore s" "\<exists>g. pr_published s = [g]"
    by (auto simp: props_init_def parsed_def)
  from props_reach.step [OF ex_reach, of "Start True" s] s(1) have "props_reach tv_toml ex_format 1 s" by (simp add: props_init_def)
  from this s(2-8) show thesis by (rule that)
qed

theorem pushed_value_survives_restart_witness:
  "\<exists>s s1 s2 s3 s4 g h. props_reach tv_toml ex_format 1 s \<and> props_push tv_toml ex_refl ex_ob ''net.main'' s = Inr s1 \<and> debounced ex_format (pr_life s) True s1 = Inr s2
    \<and> pr_epoch s2 = Some g \<and> generation_get tv_toml g ex_refl ex_default ''net.main'' s2 = Inr (True, ex_ob, [])
    \<and> stop_service ex_format True s2 = Inr s3 \<and> start_service tv_toml ex_format True s3 = Inr s4
    \<and> pr_epoch s4 = Some h \<and> generation_get tv_toml h ex_refl ex_default ''net.main'' s4 = Inr (True, ex_ob, [])"
proof -
  obtain s where s: "props_reach tv_toml ex_format 1 s" "pr_running s" "pr_write_back s" "pr_current s = Some 1" "pr_heap s ! 1 = t_empty tv_toml" by (rule ex_started)
  have "f_parse ex_format (f_trim ex_format (f_format ex_format ex_written) @ [newline]) = Some ex_written" by (simp add: ex_format_def)
  from pushed_value_survives_restart [OF tv_laws ex_format_laws s(1) _ s(2,3) ex_typed s(4) _ this, of "''net.main''"] ex_written_ok(1) s(1,5)
  show ?thesis by fastforce
qed

text \<open>Steps of the service between two states.\<close>

definition props_next :: "'v toml \<Rightarrow> 'v format \<Rightarrow> 'v props \<Rightarrow> 'v props \<Rightarrow> bool" where
  "props_next T F s s' \<longleftrightarrow> (\<exists>i. enabled i s \<and> props_step T F i s = Inr s')"

text \<open>A source that is not the current one is never changed and never becomes the current one.\<close>

definition settled :: "nat \<Rightarrow> 'v \<Rightarrow> 'v props \<Rightarrow> bool" where
  "settled d v s \<longleftrightarrow> d < length (pr_heap s) \<and> pr_heap s ! d = v \<and> pr_current s \<noteq> Some d"

lemma settled_frame:
  "settled d v (s\<lparr>pr_commits := ls\<rparr>) = settled d v s" "settled d v (s\<lparr>pr_watches := ls\<rparr>) = settled d v s" "settled d v (s\<lparr>pr_ignore := b\<rparr>) = settled d v s"
  "settled d v (s\<lparr>pr_epoch := x\<rparr>) = settled d v s" "settled d v (s\<lparr>pr_file := f\<rparr>) = settled d v s" "settled d v (s\<lparr>pr_changes := k\<rparr>) = settled d v s"
  "settled d v (s\<lparr>pr_previous := p\<rparr>) = settled d v s" "settled d v (s\<lparr>pr_running := r\<rparr>) = settled d v s" "settled d v (wait_for_file_changes s) = settled d v s"
  "settled d v (write_to_file F opens w s) = settled d v s" "settled d v (s\<lparr>pr_generation := m\<rparr>) = settled d v s"
  by (simp_all add: settled_def wait_for_file_changes_def write_to_file_def)

lemma settled_new: "settled d v s \<Longrightarrow> new_source w s = (c, s') \<Longrightarrow> settled d v s' \<and> c \<noteq> d"
  by (auto simp: settled_def new_source_def nth_append)

lemma settled_create: "create_generation c p s = Inr (g, s') \<Longrightarrow> settled d v s' = settled d v s"
  by (auto simp: create_generation_def settled_def Let_def split: option.splits)

lemma settled_current: "settled d v s \<Longrightarrow> c \<noteq> d \<Longrightarrow> settled d v (s\<lparr>pr_current := Some c\<rparr>)"
  by (simp add: settled_def)

lemma settled_assign: "settled d v s \<Longrightarrow> p \<noteq> Some d \<Longrightarrow> settled d v (assign_source p w s)"
  by (cases p) (simp_all add: settled_def assign_source_def)

lemma settled_read:
  assumes "read_from_file T F opens s = Inr (q, s')" and "settled d v s"
  shows "settled d v s'"
proof -
  obtain c u where u: "new_source (t_empty T) s = (c, u)" by fastforce
  have r: "settled d v t'" if "replace_current c t = Inr (q, t')" "settled d v t" for t t'
    using that settled_create [of "Some c"] settled_current [of d v _ c] settled_new [OF assms(2) u]
    by (fastforce simp: replace_current_def Let_def settled_frame)
  show ?thesis using assms(1) settled_new [OF assms(2) u] u r settled_assign [of d v u "Some c"]
    by (auto simp: read_from_file_def split: option.splits if_splits)
qed

lemma settled_write: "write_back F opens s = Inr s' \<Longrightarrow> settled d v s' = settled d v s"
  by (auto simp: write_back_def settled_frame Let_def split: if_splits)

lemma settled_push:
  assumes "props_push T r ob key s = Inr s'" and "settled d v s"
  shows "settled d v s'"
proof -
  have "pr_current s \<noteq> Some d" using assms(2) by (simp add: settled_def)
  then show ?thesis using assms(1) settled_assign [OF assms(2)] by (auto simp: props_push_def Let_def settled_frame split: if_splits)
qed

lemma settled_commit:
  assumes "props_commit F opens s = Inr s'" and "settled d v s"
  shows "settled d v s'"
proof -
  from assms(1) obtain t w where w: "write_back F opens (s\<lparr>pr_changes := 0\<rparr>) = Inr t"
    "(case new_source w t of (persistent, s) \<Rightarrow> bind (create_generation (Some persistent) (pr_previous s) s)
       (\<lambda>(g, s). Inr (s\<lparr>pr_epoch := Some g, pr_previous := Some persistent\<rparr>))) = Inr s'"
    by (auto simp: props_commit_def)
  obtain c u where "new_source w t = (c, u)" by fastforce
  with w obtain g s2 where t: "write_back F opens (s\<lparr>pr_changes := 0\<rparr>) = Inr t" "new_source w t = (c, u)"
    "create_generation (Some c) (pr_previous u) u = Inr (g, s2)" "s' = s2\<lparr>pr_epoch := Some g, pr_previous := Some c\<rparr>" by auto
  have "settled d v t" using settled_write [OF t(1)] assms(2) by (simp add: settled_frame)
  from settled_new [OF this t(2)] settled_create [OF t(3)] t(4) show ?thesis by (simp add: settled_frame)
qed

lemma settled_stop: "stop_service F opens s = Inr s' \<Longrightarrow> settled d v s \<Longrightarrow> settled d v s'"
  using settled_write [of F opens s _ d v] by (auto simp: stop_service_def on_stop_def settled_def split: if_splits)

lemma start_result:
  assumes "start_service T F opens s = Inr s'"
  obtains c u g s2 where "new_source (t_empty T) (s\<lparr>pr_generation := 0\<rparr>) = (c, u)" "read_from_file T F opens (u\<lparr>pr_current := Some c\<rparr>) = Inr (Loaded g, s2)"
    "s' = (wait_for_file_changes (s2\<lparr>pr_epoch := Some g\<rparr>))\<lparr>pr_running := True\<rparr>"
proof -
  obtain c u where u: "new_source (t_empty T) (s\<lparr>pr_generation := 0\<rparr>) = (c, u)" by fastforce
  from assms u obtain q s2 where q: "read_from_file T F opens (u\<lparr>pr_current := Some c\<rparr>) = Inr (q, s2)"
    "(case q of Loaded g \<Rightarrow> Inr ((wait_for_file_changes (s2\<lparr>pr_epoch := Some g\<rparr>))\<lparr>pr_running := True\<rparr>) | _ \<Rightarrow> Inl Panic) = Inr s'"
    by (cases "read_from_file T F opens (u\<lparr>pr_current := Some c\<rparr>)") (auto simp: start_service_def on_start_def split: read_result.splits if_splits)
  then obtain g where "q = Loaded g" "s' = (wait_for_file_changes (s2\<lparr>pr_epoch := Some g\<rparr>))\<lparr>pr_running := True\<rparr>" by (cases q) auto
  with u q(1) show thesis by (intro that [of c u g s2]) simp_all
qed

lemma file_changed_result:
  assumes "on_file_changed T F opens s = Inr s'"
  obtains "s' = wait_for_file_changes (s\<lparr>pr_ignore := False\<rparr>)"
    | q u where "read_from_file T F opens s = Inr (q, u)"
      "s' = (case q of Loaded g \<Rightarrow> wait_for_file_changes (u\<lparr>pr_epoch := Some g\<rparr>) | NotOpened \<Rightarrow> wait_for_file_changes u | Thrown \<Rightarrow> u)"
proof (cases "pr_ignore s")
  case True
  with assms that(1) show thesis by (simp add: on_file_changed_def)
next
  case False
  with assms obtain q u where q: "read_from_file T F opens s = Inr (q, u)"
    "(case q of Loaded g \<Rightarrow> Inr (wait_for_file_changes (u\<lparr>pr_epoch := Some g\<rparr>)) | NotOpened \<Rightarrow> Inr (wait_for_file_changes u) | Thrown \<Rightarrow> Inr u) = (Inr s' :: 'a props res)"
    by (auto simp: on_file_changed_def)
  from q(2) show thesis by (intro that(2) [OF q(1)]) (cases q; simp)
qed

lemma settled_start:
  assumes "start_service T F opens s = Inr s'" and "settled d v s"
  shows "settled d v s'"
  using assms(1)
proof (rule start_result)
  fix c u g s2
  assume u: "new_source (t_empty T) (s\<lparr>pr_generation := 0\<rparr>) = (c, u)" and r: "read_from_file T F opens (u\<lparr>pr_current := Some c\<rparr>) = Inr (Loaded g, s2)"
    and s': "s' = (wait_for_file_changes (s2\<lparr>pr_epoch := Some g\<rparr>))\<lparr>pr_running := True\<rparr>"
  have "settled d v (s\<lparr>pr_generation := 0\<rparr>)" using assms(2) by (simp add: settled_frame)
  from settled_new [OF this u] have "settled d v (u\<lparr>pr_current := Some c\<rparr>)" by (intro settled_current) simp_all
  from settled_read [OF r this] s' show ?thesis by (simp add: settled_frame)
qed

lemma settled_file_changed:
  assumes "on_file_changed T F opens s = Inr s'" and "settled d v s"
  shows "settled d v s'"
  using assms(1)
proof (rule file_changed_result)
  assume "s' = wait_for_file_changes (s\<lparr>pr_ignore := False\<rparr>)"
  then show ?thesis using assms(2) by (simp add: settled_frame)
next
  fix q u
  assume r: "read_from_file T F opens s = Inr (q, u)"
    and s': "s' = (case q of Loaded g \<Rightarrow> wait_for_file_changes (u\<lparr>pr_epoch := Some g\<rparr>) | NotOpened \<Rightarrow> wait_for_file_changes u | Thrown \<Rightarrow> u)"
  from settled_read [OF r assms(2)] s' show ?thesis by (cases q) (auto simp: settled_frame)
qed

lemma settled_next:
  assumes "props_next T F s s'" and "settled d v s"
  shows "settled d v s'"
proof -
  from assms(1) obtain i where i: "props_step T F i s = Inr s'" by (auto simp: props_next_def)
  show ?thesis
  proof (cases i)
    case (Start opens)
    with i settled_start [OF _ assms(2)] show ?thesis by simp
  next
    case (Stop opens)
    with i settled_stop [OF _ assms(2)] show ?thesis by simp
  next
    case (Push r ob key)
    with i settled_push [OF _ assms(2)] show ?thesis by simp
  next
    case (Debounced l opens)
    with i assms(2) settled_commit [of F opens "s\<lparr>pr_commits := remove1 l (pr_commits s)\<rparr>" s' d v] show ?thesis
      by (auto simp: debounced_def settled_frame Let_def split: if_splits)
  next
    case (FileEvent l opens)
    with i assms(2) settled_file_changed [of T F opens "s\<lparr>pr_watches := remove1 l (pr_watches s)\<rparr>" s' d v] show ?thesis
      by (auto simp: file_event_def settled_frame Let_def split: if_splits)
  next
    case (Edited f)
    with i assms(2) show ?thesis by (auto simp: settled_frame)
  qed
qed

lemma settled_run: "(props_next T F)\<^sup>*\<^sup>* s s' \<Longrightarrow> settled d v s \<Longrightarrow> settled d v s'"
  by (induction rule: rtranclp_induct) (auto intro: settled_next)

text \<open>
  C20. A generation that a commit has published is a snapshot: whatever happens to the service afterwards, pushes, further commits, changes of
  the file, stops and starts, the source that the generation reads from keeps the value that it was published with.
\<close>

theorem committed_generation_is_snapshot:
  assumes "toml_laws T" and "format_laws T F" and "props_reach T F n s" and "n < 2 ^ 64 - 1" and "pr_running s"
    and "pr_life s \<in> set (pr_commits s)" and "debounced F (pr_life s) opens s = Inr s1" and "(props_next T F)\<^sup>*\<^sup>* s1 s2"
  shows "\<exists>g v. pr_epoch s1 = Some g \<and> source_of (pr_current s) s = Inr v \<and> source_of (Some (g_data g)) s2 = Inr v"
proof -
  have inv: "props_inv T n s" using reach_inv [OF assms(3,1,2)] assms(4) by simp
  from running_refs [OF inv assms(5)] obtain c p where c: "pr_current s = Some c" "pr_previous s = Some p" "c < length (pr_heap s)" by metis
  have "count_list (pr_commits s) (pr_life s) \<noteq> 0" using assms(6) by (simp add: count_list_0_iff)
  then have ch: "pr_changes s \<noteq> 0" using inv by (auto simp: inv_defs split: if_splits)
  let ?u = "s\<lparr>pr_commits := remove1 (pr_life s) (pr_commits s)\<rparr>"
  have s1: "s1 = committed (pr_heap s ! c) p (written F opens (pr_heap s ! c) ?u)"
    using assms(5,7) props_commit_eq [of ?u c p F opens] ch c by (simp add: debounced_def)
  then have "settled (length (pr_heap s)) (pr_heap s ! c) s1" using c by (auto simp: settled_def committed_def written_def Let_def)
  from settled_run [OF assms(8) this] s1 c show ?thesis by (auto simp: settled_def source_of_def committed_def written_def Let_def)
qed

theorem committed_generation_is_snapshot_witness:
  "\<exists>s s1 g v. props_reach tv_toml ex_format 2 s \<and> debounced ex_format (pr_life s) True s = Inr s1 \<and> pr_epoch s1 = Some g
    \<and> source_of (pr_current s) s = Inr v \<and> source_of (Some (g_data g)) (s1\<lparr>pr_file := None\<rparr>) = Inr v"
proof -
  obtain t where t: "props_reach tv_toml ex_format 1 t" "pr_running t" "pr_write_back t" "pr_current t = Some 1" "pr_heap t ! 1 = t_empty tv_toml" by (rule ex_started)
  have inv: "props_inv tv_toml 1 t" using reach_inv [OF t(1) tv_laws ex_format_laws] by simp
  have en: "enabled (Push ex_refl ex_ob ''net.main'') t" using t(2) ex_typed by simp
  obtain s where s: "props_push tv_toml ex_refl ex_ob ''net.main'' t = Inr s" "props_inv tv_toml 2 s"
    using push_step [OF tv_laws inv _ en] unfolding Suc_1 by auto
  have r: "props_reach tv_toml ex_format 2 s" using props_reach.step [OF t(1) en, of s] s(1) unfolding Suc_1 by simp
  have "1 < length (pr_heap t)" using running_refs [OF inv t(2)] t(4) by force
  from props_push_eq [OF t(2,4) this] ex_written_ok(1) t(5) s(1) have e: "s = push_effect ex_written 1 t" by simp
  have run: "pr_running s" using e t(2) by (simp add: push_effect_def)
  have "pr_changes s \<noteq> 0" using e inv next_number(2) [of "pr_changes t" 1] by (simp add: push_effect_def inv_defs)
  with s(2) run have c: "pr_life s \<in> set (pr_commits s)" by (auto simp: inv_defs count_list_0_iff intro: ccontr)
  then obtain s1 where s1: "debounced ex_format (pr_life s) True s = Inr s1" using debounced_step [OF s(2), of "pr_life s"] by auto
  have "props_next tv_toml ex_format s1 (s1\<lparr>pr_file := None\<rparr>)" unfolding props_next_def by (rule exI [of _ "Edited None"]) simp
  from committed_generation_is_snapshot [OF tv_laws ex_format_laws r _ run c s1 r_into_rtranclp, OF _ this] r s1 show ?thesis by fastforce
qed



section \<open>Where the service fails\<close>














lemma find_empty: "toml_laws T \<Longrightarrow> ks \<noteq> [] \<Longrightarrow> find_tokens T ks (t_empty T) = None"
  by (cases ks) (simp_all add: laws)

text \<open>
  C36. The first commit after a start reports keys as changed that have not changed: its generation is compared with the empty source from before the file was
  read and not with the generation that it replaces. A key that the file has, and that the pushed object does not touch, addresses the same value in both generations, and
  yet \<open>changed\<close> returns true.
\<close>

theorem first_commit_reports_unchanged_keys:
  assumes "toml_laws T" and "format_laws T F" and "props_reach T F n s" and "n < 2 ^ 64 - 3" and "\<not> pr_running s" and "pr_current s = None"
    and "pr_file s = Some txt" and "source_read F txt = Some v"
    and "wf (ObjectOf r)" and "storable_refl r" and "wt (ObjectOf r) ob"
    and "scope_tokens key = Some ks" and "scope_tokens key' = Some ks'" and "apart ks r ks'" and "find_tokens T ks' v = Some u"
  shows "\<exists>s1 s2 s3 g0 g1. start_service T F True s = Inr s1 \<and> props_push T r ob key s1 = Inr s2 \<and> debounced F (pr_life s) True s2 = Inr s3
    \<and> pr_epoch s1 = Some g0 \<and> bind (source_of (Some (g_data g0)) s1) (\<lambda>v. find_scope T v key') = Inr (Some u)
    \<and> pr_epoch s3 = Some g1 \<and> bind (source_of (Some (g_data g1)) s3) (\<lambda>v. find_scope T v key') = Inr (Some u)
    \<and> generation_changed T g1 key' s3 = Inr True"
proof -
  have inv: "props_inv T n s" using reach_inv [OF assms(3,1,2)] assms(4) by simp
  then have p: "pr_previous s = None" "pr_changes s = 0" using assms(5) by (simp_all add: inv_defs)
  have v: "parsed T F (pr_file s) = Some v" using assms(7,8) by (simp add: parsed_def)
  from start_loads [OF assms(6) p(1) _ v, of True] obtain s1 g0 where s1: "start_service T F True s = Inr s1" "pr_running s1" "pr_epoch s1 = Some g0"
    "g_data g0 = Suc (length (pr_heap s))" "pr_heap s1 = pr_heap s @ [t_empty T, v]" "pr_current s1 = Some (Suc (length (pr_heap s)))"
    "pr_previous s1 = Some (length (pr_heap s))" "pr_changes s1 = 0" "pr_life s1 = pr_life s" using p(2) by auto
  have "source_ok T v" by (rule parsed_ok [OF assms(1,2) v])
  from assms(11) obtain fs where o: "ob = OObject fs" by (auto split: obj.splits)
  from source_serialize_rep [OF assms(1) \<open>source_ok T v\<close> assms(12,9,10), of fs] assms(11) o obtain w0 w where
    w: "source_serialize T r ob key v = Inr (True, w)" "w = update_at T (map Key ks) (\<lambda>_. w0) (opened_scope T ks v)" "adds T (all_fields r) (innermost T ks v) w0" by metis
  have fw: "find_tokens T ks' w = Some u" unfolding w(2) using find_apart [OF assms(1,14) w(3)] assms(15) by simp
  let ?c = "Suc (length (pr_heap s))"
  have at: "pr_heap s1 ! ?c = v" "?c < length (pr_heap s1)" using s1(5) by (simp_all add: nth_append)
  have push: "props_push T r ob key s1 = Inr (push_effect w ?c s1)" using props_push_eq [OF s1(2,6)] at w(1) by simp
  define s2 where "s2 = push_effect w ?c s1"
  have s2: "pr_current s2 = Some ?c" "pr_previous s2 = Some (length (pr_heap s))" "pr_heap s2 = pr_heap s @ [t_empty T, w]" "pr_changes s2 \<noteq> 0" "pr_running s2"
    "pr_life s2 = pr_life s"
    using s1 by (simp_all add: s2_def push_effect_def list_update_append)
  define t where "t = s2\<lparr>pr_commits := remove1 (pr_life s) (pr_commits s2)\<rparr>"
  define s3 where "s3 = committed w (length (pr_heap s)) (written F True w t)"
  have com: "debounced F (pr_life s) True s2 = Inr s3"
    using props_commit_eq [of t ?c "length (pr_heap s)" F True] s2 by (simp add: debounced_def t_def s3_def nth_append)
  obtain g1 where g1: "pr_epoch s3 = Some g1" "g_data g1 = length (pr_heap s2)" "g_previous g1 = length (pr_heap s)" "pr_heap s3 = pr_heap s2 @ [w]"
    by (simp add: s3_def committed_def written_def t_def Let_def)
  have "ks' \<noteq> []" using assms(14) by (auto simp: apart_def)
  then have e: "find_tokens T ks' (t_empty T) = None" by (rule find_empty [OF assms(1)])
  have "generation_changed T g1 key' s3 = Inr True"
    using g1 s2(3) fw e assms(13) by (simp add: generation_changed_def source_equals_def find_scope_def nth_append)
  moreover have "bind (source_of (Some (g_data g1)) s3) (\<lambda>v. find_scope T v key') = Inr (Some u)"
    using g1 fw assms(13) by (simp add: find_scope_def nth_append)
  moreover have "bind (source_of (Some (g_data g0)) s1) (\<lambda>v. find_scope T v key') = Inr (Some u)"
    using s1(4) at assms(13,15) by (simp add: find_scope_def)
  ultimately show ?thesis using s1(1,3) push com g1(1) unfolding s2_def by blast
qed

theorem first_commit_reports_unchanged_keys_witness:
  "\<exists>s1 s2 s3 g1. start_service tv_toml ex_format True (props_init True (Some (''v'' @ [newline]))) = Inr s1
    \<and> props_push tv_toml ex_refl ex_ob ''log'' s1 = Inr s2 \<and> debounced ex_format 0 True s2 = Inr s3 \<and> pr_epoch s3 = Some g1
    \<and> generation_changed tv_toml g1 ''net.main'' s3 = Inr True"
proof -
  let ?s = "props_init True (Some (''v'' @ [newline])) :: tv props"
  have s: "\<not> pr_running ?s" "pr_current ?s = None" "pr_file ?s = Some (''v'' @ [newline])" "pr_life ?s = 0" by (simp_all add: props_init_def)
  obtain w where "ex_written = update_at tv_toml (map Key [''net'', ''main'']) (\<lambda>_. w) (opened_scope tv_toml [''net'', ''main''] (t_empty tv_toml))" by (rule ex_written_eq)
  then have f: "find_tokens tv_toml [''net'', ''main''] ex_written = Some w" using find_updated [OF tv_laws] by metis
  have a: "apart [''log''] ex_refl [''net'', ''main'']" by (simp add: apart_def)
  from first_commit_reports_unchanged_keys [OF tv_laws ex_format_laws props_reach.init _ s(1-3) ex_file ex_typed(1,2,4) ex_tokens(3,1) a f] s(4) show ?thesis by fastforce
qed

end
