(* ===== verification/Property_Vars.thy ===== *)
theory Property_Vars
  imports Properties_Theorems
begin

text \<open>
  Variables that are bound to a key of the properties (src/include/idle/service/var.hpp, src/lib/idle/service/var.cpp): a variable depends on the latest
  generation of the properties, reads its value when its owner is locked, writes a changed value back, and is told when another generation holds
  another value. The value exists twice: the event loop's copy, and the copy that the user sees.
\<close>

section \<open>Operations\<close>

record var =
  vr_key :: string
  vr_event :: obj
  vr_user :: obj
  vr_locked :: bool

text \<open>The key of a variable: the name of the program stands for an empty one.\<close>

definition var_key :: "string \<Rightarrow> string \<Rightarrow> string res" where
  "var_key default_program_name key = (let k = (if key = [] then default_program_name else key) in check (k \<noteq> []) k)"

definition new_var :: "string \<Rightarrow> obj \<Rightarrow> string \<Rightarrow> var res" where
  "new_var default_program_name df key = bind (var_key default_program_name key) (\<lambda>k. Inr \<lparr>vr_key = k, vr_event = df, vr_user = df, vr_locked = False\<rparr>)"

definition var_get :: "var \<Rightarrow> obj res" where
  "var_get x = check (vr_locked x) (vr_user x)"

definition var_save :: "'v toml \<Rightarrow> refl \<Rightarrow> obj \<Rightarrow> var \<Rightarrow> 'v props \<Rightarrow> 'v props res" where
  "var_save T r reflected x s = props_push T r reflected (vr_key x) s"


definition var_posted :: "'v toml \<Rightarrow> refl \<Rightarrow> obj \<Rightarrow> var \<Rightarrow> 'v props \<Rightarrow> (var \<times> 'v props) res" where
  "var_posted T r posted x s = bind (var_save T r posted x s) (\<lambda>s. Inr (x\<lparr>vr_event := posted\<rparr>, s))"

text \<open>The hooks of the import part; what the dependency itself does in them is in the theory \<open>Dyn_Dependency\<close>.\<close>

definition var_lock :: "'v toml \<Rightarrow> refl \<Rightarrow> generation \<Rightarrow> var \<Rightarrow> 'v props \<Rightarrow> (var \<times> 'v props) res" where
  "var_lock T r raw x s =
     bind (generation_get T raw r (vr_event x) (vr_key x) s) (\<lambda>(_, ob, _).
       let x = x\<lparr>vr_event := ob, vr_user := ob, vr_locked := True\<rparr>
       in bind (var_save T r (vr_event x) x s) (\<lambda>s. Inr (x, s)))"

definition var_unlock :: "obj \<Rightarrow> var \<Rightarrow> var" where
  "var_unlock df x = x\<lparr>vr_event := df, vr_user := df, vr_locked := False\<rparr>"

definition var_can_swap :: "'v toml \<Rightarrow> refl \<Rightarrow> obj \<Rightarrow> bool \<Rightarrow> generation option \<Rightarrow> generation option \<Rightarrow> var \<Rightarrow> 'v props \<Rightarrow> bool res" where
  "var_can_swap T r df hasHook from to x s = (case from of
     None \<Rightarrow> Inl AssertFailed
   | Some f \<Rightarrow> (case to of
       None \<Rightarrow> Inr False
     | Some g \<Rightarrow>
         bind (generation_get T f r df (vr_key x) s) (\<lambda>(_, src, _).
         bind (generation_get T g r df (vr_key x) s) (\<lambda>(_, target, _).
         bind (art_equals T r src target) (\<lambda>eq. Inr (if eq then True else hasHook))))))"



text \<open>\<open>VarUpdate::apply\<close>: \<open>alive\<close> says whether the handle of the action locks and the swap is applied.\<close>

definition var_apply :: "bool \<Rightarrow> obj \<Rightarrow> var \<Rightarrow> bool \<times> var" where
  "var_apply alive src x = (if alive then (True, x\<lparr>vr_user := src\<rparr>) else (False, x))"

section \<open>Properties\<close>





text \<open>
  C34. A field that is added to the class of a variable in front of others resets the others: if the value in the file does not have the first field, then locking the
  variable leaves it at its default value, whatever the file has for the other fields, and writes that default value over them.
\<close>

theorem added_field_resets_others:
  assumes "toml_laws T" and "format_laws T F" and "props_reach T F n s" and "n < 2 ^ 64 - 1" and "pr_running s"
    and "pr_epoch s = Some g" and "source_of (Some (g_data g)) s = Inr v" and "scope_tokens (vr_key x) = Some ks" and "find_tokens T ks v = Some u"
    and "is_table T u" and "member T u (fi_name f) = None" and "r = Refl None ((f, t) # gl)"
    and "wf (ObjectOf r)" and "storable_refl r" and "readable_refl r" and "wt (ObjectOf r) (vr_event x)" and "wt (ObjectOf r) ob'"
  shows "\<exists>x' s' w. var_lock T r g x s = Inr (x', s') \<and> var_get x' = Inr (vr_event x)
    \<and> source_of (pr_current s') s' = Inr w \<and> source_deserialize T r ob' (vr_key x) w = Inr (True, vr_event x, [])"
proof -
  have inv: "props_inv T n s" using reach_inv [OF assms(3,1,2)] assms(4) by simp
  from running_refs [OF inv assms(5)] obtain c where c: "pr_current s = Some c" "source_ok T (pr_heap s ! c)" "c < length (pr_heap s)" by metis
  obtain tb where tb: "t_content T u = CTable tb" "tb (fi_name f) = None" using assms(10,11) by (auto simp: is_table_def member_def split: tcontent.splits)
  have "v_push_name (deserializer T) (mapped t) (fi_name f) (fi_description f) (des_at u [] []) = Inr (RSkip, des_at u [] [])"
    using tb by (simp add: deserializer_def des_push_name_def des_top_def)
  then have "toml_deserialize T u r (vr_event x) = Inr (True, vr_event x, [])"
    by (simp add: assms(12) toml_deserialize_def reflection_visit_def vis_try_continue_def)
  then have get: "generation_get T g r (vr_event x) (vr_key x) s = Inr (True, vr_event x, [])"
    using assms(5,7-9) by (simp add: generation_get_def source_deserialize_def find_scope_def)
  from source_set_get [OF assms(1) c(2) assms(13-17), of "vr_key x"] obtain w where
    w: "source_serialize T r (vr_event x) (vr_key x) (pr_heap s ! c) = Inr (True, w)" "source_deserialize T r ob' (vr_key x) w = Inr (True, vr_event x, [])" by blast
  have "var_lock T r g x s = Inr (x\<lparr>vr_event := vr_event x, vr_user := vr_event x, vr_locked := True\<rparr>, push_effect w c s)"
    using get props_push_eq [OF assms(5) c(1,3) w(1)] by (simp add: var_lock_def var_save_def)
  moreover have "var_get (x\<lparr>vr_event := vr_event x, vr_user := vr_event x, vr_locked := True\<rparr>) = Inr (vr_event x)" by (simp add: var_get_def)
  moreover have "source_of (pr_current (push_effect w c s)) (push_effect w c s) = Inr w" using c by (simp add: push_effect_def)
  ultimately show ?thesis using w(2) by fastforce
qed

definition ex_wide :: refl where
  "ex_wide = Refl None ((\<lparr>fi_name = ''port'', fi_description = None, fi_offset = 4\<rparr>, Prim UInt16) # [(\<lparr>fi_name = ''id'', fi_description = None, fi_offset = 0\<rparr>, Prim UInt8)])"

definition ex_var :: var where
  "ex_var = \<lparr>vr_key = ''net.main'', vr_event = OObject [(4, OPrim (PInt 80)), (0, OPrim (PInt 0))], vr_user = OObject [(4, OPrim (PInt 80)), (0, OPrim (PInt 0))], vr_locked = False\<rparr>"

theorem added_field_resets_others_witness:
  "\<exists>s g x' s' w. props_reach tv_toml ex_format 1 s \<and> pr_epoch s = Some g \<and> source_of (Some (g_data g)) s = Inr ex_written
    \<and> var_lock tv_toml ex_wide g ex_var s = Inr (x', s') \<and> var_get x' = Inr (vr_event ex_var)
    \<and> source_of (pr_current s') s' = Inr w \<and> source_deserialize tv_toml ex_wide (vr_event ex_var) (vr_key ex_var) w = Inr (True, vr_event ex_var, [])"
proof -
  let ?s = "props_init True (Some (''v'' @ [newline])) :: tv props"
  have "parsed tv_toml ex_format (pr_file ?s) = Some ex_written" using ex_file by (simp add: parsed_def props_init_def)
  from start_loads [OF _ _ _ this, of True] obtain s g where s: "start_service tv_toml ex_format True ?s = Inr s" "pr_running s" "pr_epoch s = Some g"
    "source_of (Some (g_data g)) s = Inr ex_written" by (auto simp: props_init_def source_of_def)
  have r: "props_reach tv_toml ex_format 1 s" using props_reach.step [OF props_reach.init, of "Start True" True "Some (''v'' @ [newline])" tv_toml ex_format s] s(1)
    by (simp add: props_init_def)
  obtain w where w: "ex_written = update_at tv_toml (map Key [''net'', ''main'']) (\<lambda>_. w) (opened_scope tv_toml [''net'', ''main''] (t_empty tv_toml))"
    "adds tv_toml (all_fields ex_refl) (innermost tv_toml [''net'', ''main''] (t_empty tv_toml)) w" by (rule ex_written_eq)
  have f: "find_tokens tv_toml [''net'', ''main''] ex_written = Some w" unfolding w(1) by (rule find_updated [OF tv_laws])
  have u: "is_table tv_toml w" "member tv_toml w ''port'' = None"
    using w(2) by (simp_all add: adds_def ex_refl_def member_def content_as_table [OF tv_laws] entries_def entry_def laws [OF tv_laws])
  have t: "wf (ObjectOf ex_wide)" "storable_refl ex_wide" "readable_refl ex_wide" "wt (ObjectOf ex_wide) (vr_event ex_var)"
    by (simp_all add: ex_wide_def ex_var_def isPrimitive_def isStructured_def wt_prim_def int_range_def isIntegral_def)
  have k: "scope_tokens (vr_key ex_var) = Some [''net'', ''main'']" using ex_tokens(1) by (simp add: ex_var_def)
  have m: "member tv_toml w (fi_name \<lparr>fi_name = ''port'', fi_description = None, fi_offset = 4\<rparr>) = None" using u(2) by simp
  from added_field_resets_others [OF tv_laws ex_format_laws r _ s(2-4) k f u(1) m ex_wide_def t t(4)] r s show ?thesis by fastforce
qed

end
