(* ===== verification/Spec2Isabelle.thy ===== *)
theory Spec2Isabelle
  imports Engine_Steps Intrusive_Lists Ref_Counts Import_Theorems Event_Loop Command_Processor Use_Handles Property_Vars
begin

text \<open>
  \<^bold>\<open>Idle\<close> is a C++ framework for services that are started, stopped, connected and exchanged at run time. A service
  owns parts; an import part depends on something, an export part provides something, an interface is
  an export part that is published under a type. A service is a child of an export part or of an import part;
  the children of the import parts of a service form a cluster with it, which is started and stopped as a whole. A usage
  connects an import part with an export part of another cluster. All operations below run on one event
  loop thread, which the code asserts; hooks of the user complete asynchronously on it.

  The development follows src/include/idle/core and src/lib/idle/core. Violated assertions, panics and unreachable code
  are values of the type \<open>error\<close> (theory \<open>Idle_Prelude\<close>), so that an operation returns \<open>Inl\<close> exactly where a
  debug build aborts. Pointers are numbers, objects are records in maps of a store, machine integers are words of their width.

  \<^bold>\<open>Parts and theories\<close>

  \<^item> \<open>Idle_Prelude\<close>: results, sequencing (\<open>run\<close>, \<open>require\<close>, \<open>only_if\<close>, \<open>each\<close>), loops, list ranges.
  \<^item> \<open>Bit_Sets\<close> (util/bitset.hpp), \<open>Flat_Sets\<close> (util/flat_set.hpp, util/algorithm.hpp): flag sets with their iterator, sorted
    vectors with binary search; locales \<open>flag_set\<close>, \<open>strict_total\<close>, \<open>set_store\<close>.
  \<^item> \<open>Guids\<close> (guid.hpp, guid.cpp, context_impl.cpp): packed identifiers, the recycler of their low parts and the table
    of the context; locale \<open>id_allocator\<close>.
  \<^item> \<open>Intrusive_Lists\<close> (util/intrusive_list.hpp): doubly linked lists on an explicit heap of nodes; locale \<open>node_sequence\<close>.
  \<^item> \<open>Ref_Counts\<close> (detail/ref_base.hpp, ref.hpp): control blocks, strong and weak counters, references.
  \<^item> \<open>Service_Model\<close> (service.hpp, part.hpp, service.cpp, detail/state.hpp): the store of services, parts, usages and clusters.
  \<^item> \<open>Service_Iterators\<close> (iterators.cpp): the tree iterators that advance from service to service through the parts.
  \<^item> \<open>Dep_Graph\<close>, \<open>Graph_Counts\<close> (graph.hpp, graph.cpp): graphs whose edges are computed from the pointers; \<open>Graph_DFS\<close>
    (detail/graph/dfs.hpp): the explicit-stack traversal with visitor and filter; locale \<open>marking_dfs\<close>.
  \<^item> \<open>Engine\<close> (service_impl.cpp, scheduler.cpp): the engine state, the scheduling queue and all counters; \<open>Requests\<close>
    (service.cpp, scheduler.cpp, garbage_collector.cpp): usages, start and stop requests, unreferenced services; \<open>Lifecycle\<close>
    (service_impl.cpp, scheduler.cpp): locking, starting, stopping and unlocking clusters and the processing loop.
  \<^item> \<open>Registries\<close>, \<open>Import_World\<close>, \<open>Registry_Entry\<close> (registry_impl.cpp, predicate.hpp): the order of interfaces, one registry entry
    per type, the world in which import parts look up interfaces and the notification of subscribers and users; locale \<open>priority\<close>.
    \<open>Dependency_Parts\<close> (parts/dependency.cpp), \<open>Dyn_Dependency\<close> (parts/dyn_dependency.cpp), \<open>Dyn_Dependencies\<close>
    (parts/dyn_dependencies.cpp): the parts that select one interface of the highest priority or use all of them.
  \<^item> \<open>Use_Handles\<close> (use.hpp): variables that hold a use of a service, and handles.
  \<^item> \<open>Event_Loop\<close> (event_loop_executor_impl.cpp, context.cpp): the thread of the loop and the threads that queue work, interleaved.
  \<^item> \<open>Spans\<close> (util/span.hpp, util/string_view.hpp, detail/symbol.hpp): views onto arrays and strings, sizes of 64 bits; an
    interpretation of \<open>strict_total\<close> for the order of strings.
  \<^item> \<open>Command_Processor\<close> (interface/command_processor.cpp, interface/arguments.cpp): the map of the commands and the invocation of a
    command line; the map is third-party code and a parameter.
  \<^item> \<open>Enumerations\<close> (detail/algorithm.hpp, detail/enumerate_impl.hpp, util/enum.hpp, util/enum_map.hpp): the sort at compile time, the tables of
    the constants of an enumeration and the searches by value and by name; locale \<open>keyed\<close>. The names that the compiler prints are an argument.
  \<^item> \<open>Reflections\<close> (src/include/idle/service/art, detail/art/reflection_tree_impl.hpp): descriptors of classes and the traversal of an object by a visitor;
    \<open>Toml_Serializer\<close> (service/external/toml11/serialize.cpp, art/equals.cpp): the visitors that write and read TOML values. The values of
    the library toml11 are a parameter, the record \<open>toml\<close>, with the laws \<open>toml_laws\<close>. \<open>Typed_Visitors\<close> and \<open>Toml_Round_Trip\<close> hold the invariants of a traversal
    (locales \<open>typed_visitor\<close> and \<open>balanced_visitor\<close>) and what the two visitors do to a value, \<open>Toml_Theorems\<close> the properties and an instance of the values.
  \<^item> \<open>Properties_Source\<close>, \<open>Reloadable_Properties\<close> (service/properties.cpp): a TOML value addressed by keys and its file, and the service that publishes
    generations of it, as a state machine whose events are those of the engine, the users, the debouncer, the file watcher and other programs;
    an interpretation of \<open>priority\<close> for generations. Parsing and formatting are a parameter, the record \<open>format\<close>.
    \<open>Properties_Theorems\<close> has the properties. \<open>Property_Vars\<close> (service/var.hpp, service/var.cpp): variables that are bound to a key.

  \<^bold>\<open>What is shown\<close>

  The containers implement sets and lists and keep their invariants; identifiers never clash and are read back from their
  rendering; reference counts are the numbers of references, so an object is destroyed once and not before its last
  reference goes. The iterators visit every service of a tree, cluster or range exactly once and end. The
  edges that the graph iterators compute are those of the pointers, from both ends, so that the cross-checks
  of a debug build cannot fail. A start request ends and marks a set of clusters that is closed under
  dependencies.

  \<open>Lifecycle_Frame\<close>, \<open>Links\<close>, \<open>External_Edges\<close>, \<open>Use_Counts\<close>, \<open>Life_Units\<close>, \<open>Lifecycle_Safety\<close>, \<open>Usage_Life\<close>, \<open>Stop_Life\<close>,
  \<open>Life_Steps\<close> and \<open>Connect_Life\<close> build the invariant of the running engine: what an operation leaves alone, the
  ranges in closed form, what the use counter counts, and that every step of the life cycle keeps it. \<open>Engine_Steps\<close> puts
  the handlers together to a step relation; in every reachable state the use counters are exact, a locked service runs on running
  providers, and a service is stopped only when nothing uses it.

  \<open>Import_Frame\<close>, \<open>Import_Safety\<close>, \<open>Import_Steps\<close>, \<open>Import_Hooks\<close> and \<open>Import_Props\<close> build the invariant of the import parts in the
  same way, along the step relation \<open>import_step\<close>; \<open>Import_Stability\<close> shows what a locked part keeps. \<open>Import_Theorems\<close>
  concludes that a stopped \<open>Dependency\<close> refers to an interface of the highest priority and a locked one keeps a running
  interface, that \<open>DynDependencies\<close> tracks all published interfaces, and that publishing does not fail. Nothing of the kind
  holds of \<open>DynDependency\<close>, as two of its theorems show.

  \<open>Use_Handles\<close> refines the count of handles of the engine to the variables of a program, \<open>Event_Loop\<close> shows that work runs once and in order and that
  a stopping loop ends, \<open>Spans\<close> what the searches and the splitting of strings compute, \<open>Command_Processor\<close> which command a line invokes.

  \<open>Enumerations\<close> shows that the sort sorts exactly distinct keys and that names of constants are found again. \<open>Toml_Theorems\<close> shows that a serialized
  object is read back and that reading never leaves an object of another type. \<open>Properties_Theorems\<close> builds on it: a key keeps its value when another is
  written, a pushed object is published and survives a restart, committed generations are snapshots, the registry hands out the newest one, and no
  event makes the service fail but a start with an unreadable file. \<open>Property_Vars\<close> shows that an owner is not told of its own change.

  Some theorems state where the code does not do what it means to: an iterator that does not filter its first
  element, counters that wrap, a start of the root that cannot succeed, assigning a reference to itself,
  the end of a swap, a preferred interface that dangles, a lost notification and lost work of the event loop, searches that miss the first or the
  last position, a destroyed command that stays in the map, values that are written but not read, a missing field that hides
  those behind it and lets a variable overwrite them, a malformed file that ends reloading, unchanged keys that are reported as changed.

  \<^bold>\<open>Bounds and fuel\<close>

  Loops whose end depends on the state are partial functions; that they return is part of the theorems (\<open>il_clear\<close>,
  the iterators, the traversal of a start request). The scheduler starts the root while it reports a startable service, and the start of
  the root reports startable services: \<open>start_root_n\<close> unrolls this cycle twice, which is enough
  because the inner start requires a stopped root and the root is not stopped there. The theorems on the properties service bound the number of its steps by
  \<open>2\<^sup>6\<^sup>4\<close>, so that its counters of 64 bits do not wrap.

  \<^bold>\<open>Not modelled\<close>

  Threads other than the event loop (but those that queue work), atomics and memory orders; exceptions thrown by hooks beyond their first handler; printing, logging, terminals
  and names; the indexed graph and its export; plugins, timers, the debouncer, file watchers, processes and sockets, which wrap the
  operating system and third-party code; classes that contain themselves in their descriptors; the path of the properties file; tools, examples and the vendored demangler. In the step relation of the engine a strong usage of
  a service that does not run is not connected to a locked service; \<open>DynDependency\<close> does so for an
  interface it prefers.
\<close>

end
